(* ===== verification/Pulp_Prelude.thy ===== *)
theory Pulp_Prelude
  imports Main "HOL-Library.Word" "HOL-Library.List_Lexorder" "HOL-Library.Char_ord"
    "HOL-Library.AList" "HOL-Library.Sublist"
begin

text \<open>
  What every component of the development shares: results of fallible Go functions as sums,
  the part of Go's \<^verbatim>\<open>strings\<close> and \<^verbatim>\<open>strconv\<close> packages that the sources call, and list
  lemmas. A Go string is a sequence of bytes, so it is a \<^typ>\<open>string\<close> (a list of 8-bit
  characters) here, compared bytewise by the lexicographic order of \<^verbatim>\<open>List_Lexorder\<close>.
\<close>

named_theorems go_simps \<open>evaluation rules for the Go library functions of this theory\<close>

subsection \<open>Results\<close>

text \<open>A Go function that returns a value and an error returns a sum: \<^const>\<open>Inl\<close> carries the error.\<close>

type_synonym ('e, 'a) result = "'e + 'a"

fun bindE :: "('e, 'a) result \<Rightarrow> ('a \<Rightarrow> ('e, 'b) result) \<Rightarrow> ('e, 'b) result" where
  "bindE (Inl e) f = Inl e"
| "bindE (Inr a) f = f a"

fun mapM :: "('a \<Rightarrow> ('e, 'b) result) \<Rightarrow> 'a list \<Rightarrow> ('e, 'b list) result" where
  "mapM f [] = Inr []"
| "mapM f (x # xs) = bindE (f x) (\<lambda>y. bindE (mapM f xs) (\<lambda>ys. Inr (y # ys)))"

definition guardE :: "bool \<Rightarrow> 'e \<Rightarrow> ('e, unit) result" where
  "guardE b e = (if b then Inr () else Inl e)"

text \<open>Wrapping an error, as \<^verbatim>\<open>fmt.Errorf\<close> with \<^verbatim>\<open>%w\<close> does.\<close>

fun map_err :: "('e \<Rightarrow> 'f) \<Rightarrow> ('e, 'a) result \<Rightarrow> ('f, 'a) result" where
  "map_err f (Inl e) = Inl (f e)"
| "map_err f (Inr a) = Inr a"

lemma map_err_Inr_conv [simp]: "map_err f r = Inr a \<longleftrightarrow> r = Inr a"
  by (cases r) auto

lemma map_err_Inl_conv: "map_err f r = Inl e \<longleftrightarrow> (\<exists>e'. r = Inl e' \<and> e = f e')"
  by (cases r) auto

lemma bindE_Inr_conv [simp]: "bindE m f = Inr b \<longleftrightarrow> (\<exists>a. m = Inr a \<and> f a = Inr b)"
  by (cases m) auto

lemma bindE_Inl_conv:
  "bindE m f = Inl e \<longleftrightarrow> m = Inl e \<or> (\<exists>a. m = Inr a \<and> f a = Inl e)"
  by (cases m) auto

lemma guardE_Inr_conv [simp]: "guardE b e = Inr u \<longleftrightarrow> b"
  by (simp add: guardE_def)

lemma guardE_Inl_conv [simp]: "guardE b e = Inl e' \<longleftrightarrow> \<not> b \<and> e' = e"
  by (auto simp: guardE_def)

lemma guardE_True [simp]: "guardE True e = Inr ()"
  by (simp add: guardE_def)

lemma guardE_False [simp]: "guardE False e = Inl e"
  by (simp add: guardE_def)

lemma mapM_Inr_conv:
  "mapM f xs = Inr ys \<longleftrightarrow> list_all2 (\<lambda>x y. f x = Inr y) xs ys"
  by (induction xs arbitrary: ys) (auto simp: list_all2_Cons1)

text \<open>A computed result that is no error is \<^const>\<open>Inr\<close> of its value: for concrete runs.\<close>

lemma Inr_projr: "\<not> isl r \<Longrightarrow> r = Inr (projr r)"
  by (cases r) auto

subsection \<open>Trimming white space\<close>

text \<open>
  \<^verbatim>\<open>strings.TrimSpace\<close> removes leading and trailing code points with Unicode's White\_Space
  property. On UTF-8 bytes that is: strip any of the following byte sequences from the front,
  then from the back, as long as one matches. Bytes that are no valid encoding decode to
  U+FFFD, which is not white space, so they stop the trimming in both directions.
\<close>

definition space_seqs :: "string list" where
  "space_seqs =
     [[CHR 0x09], [CHR 0x0A], [CHR 0x0B], [CHR 0x0C], [CHR 0x0D], [CHR 0x20],
      [CHR 0xC2, CHR 0x85], [CHR 0xC2, CHR 0xA0], [CHR 0xE1, CHR 0x9A, CHR 0x80],
      [CHR 0xE2, CHR 0x80, CHR 0x80], [CHR 0xE2, CHR 0x80, CHR 0x81],
      [CHR 0xE2, CHR 0x80, CHR 0x82], [CHR 0xE2, CHR 0x80, CHR 0x83],
      [CHR 0xE2, CHR 0x80, CHR 0x84], [CHR 0xE2, CHR 0x80, CHR 0x85],
      [CHR 0xE2, CHR 0x80, CHR 0x86], [CHR 0xE2, CHR 0x80, CHR 0x87],
      [CHR 0xE2, CHR 0x80, CHR 0x88], [CHR 0xE2, CHR 0x80, CHR 0x89],
      [CHR 0xE2, CHR 0x80, CHR 0x8A], [CHR 0xE2, CHR 0x80, CHR 0xA8],
      [CHR 0xE2, CHR 0x80, CHR 0xA9], [CHR 0xE2, CHR 0x80, CHR 0xAF],
      [CHR 0xE2, CHR 0x81, CHR 0x9F], [CHR 0xE3, CHR 0x80, CHR 0x80]]"

function trim_seqs :: "string list \<Rightarrow> string \<Rightarrow> string" where
  "trim_seqs ws s =
     (case List.find (\<lambda>w. w \<noteq> [] \<and> prefix w s) ws of
        None \<Rightarrow> s
      | Some w \<Rightarrow> trim_seqs ws (drop (length w) s))"
  by pat_completeness auto
termination
proof (relation "measure (\<lambda>(ws, s). length s)", simp)
  fix ws :: "string list" and s w
  assume "List.find (\<lambda>w. w \<noteq> [] \<and> prefix w s) ws = Some w"
  then have "w \<noteq> []" and "prefix w s"
    by (auto simp: find_Some_iff)
  then have "0 < length w" and "length w \<le> length s"
    by (auto dest: prefix_length_le)
  then have "length (drop (length w) s) < length s"
    unfolding length_drop by arith
  then show "((ws, drop (length w) s), ws, s) \<in> measure (\<lambda>(ws, s). length s)"
    by simp
qed

declare trim_seqs.simps [simp del]

definition trim_left :: "string \<Rightarrow> string" where
  "trim_left s = trim_seqs space_seqs s"

definition trim_right :: "string \<Rightarrow> string" where
  "trim_right s = rev (trim_seqs (map rev space_seqs) (rev s))"

definition trim_space :: "string \<Rightarrow> string" where
  "trim_space s = trim_right (trim_left s)"

definition no_seq :: "string list \<Rightarrow> string \<Rightarrow> bool" where
  "no_seq ws s \<longleftrightarrow> (\<forall>w \<in> set ws. w \<noteq> [] \<longrightarrow> \<not> prefix w s)"

lemma trim_seqs_id: "no_seq ws s \<Longrightarrow> trim_seqs ws s = s"
  by (subst trim_seqs.simps) (auto simp: no_seq_def find_Some_iff split: option.splits)

lemma trim_seqs_no_seq: "no_seq ws (trim_seqs ws s)"
proof (induction ws s rule: trim_seqs.induct)
  case (1 ws s)
  show ?case
  proof (cases "List.find (\<lambda>w. w \<noteq> [] \<and> prefix w s) ws")
    case None
    then have "trim_seqs ws s = s" by (simp add: trim_seqs.simps [of ws s])
    with None show ?thesis
      by (auto simp: no_seq_def find_None_iff)
  next
    case (Some w)
    with "1.IH" show ?thesis
      by (simp add: trim_seqs.simps [of ws s])
  qed
qed

lemma suffix_trim_seqs: "suffix (trim_seqs ws s) s"
proof (induction ws s rule: trim_seqs.induct)
  case (1 ws s)
  show ?case
  proof (cases "List.find (\<lambda>w. w \<noteq> [] \<and> prefix w s) ws")
    case None
    then show ?thesis by (simp add: trim_seqs.simps [of ws s])
  next
    case (Some w)
    then have "suffix (trim_seqs ws (drop (length w) s)) (drop (length w) s)"
      by (rule "1.IH")
    moreover have "suffix (drop (length w) s) s" by (rule suffix_drop)
    ultimately show ?thesis
      using Some by (simp add: trim_seqs.simps [of ws s] suffix_order.trans)
  qed
qed

lemma no_seq_prefix: "no_seq ws s \<Longrightarrow> prefix t s \<Longrightarrow> no_seq ws t"
  unfolding no_seq_def using prefix_order.trans by blast

lemma prefix_trim_right: "prefix (trim_right s) s"
  using suffix_trim_seqs [of "map rev space_seqs" "rev s"]
  by (simp add: trim_right_def suffix_to_prefix)

lemma trim_right_idem: "trim_right (trim_right s) = trim_right s"
  by (simp add: trim_right_def trim_seqs_id trim_seqs_no_seq)

lemma trim_space_left: "trim_left (trim_space s) = trim_space s"
  unfolding trim_left_def
  by (rule trim_seqs_id)
     (metis no_seq_prefix prefix_trim_right trim_left_def trim_seqs_no_seq trim_space_def)

lemma trim_space_idem [simp]: "trim_space (trim_space s) = trim_space s"
  by (simp add: trim_space_def [of "trim_space s"] trim_space_left)
     (simp add: trim_space_def trim_right_idem)

lemma trim_space_Nil [simp]: "trim_space [] = []"
proof -
  have "prefix (trim_space []) []"
    by (metis prefix_trim_right suffix_bot.extremum_uniqueI suffix_trim_seqs trim_left_def trim_space_def)
  then show ?thesis by simp
qed

text \<open>A string whose first and last bytes are printable ASCII is left alone.\<close>

definition plain_char :: "char \<Rightarrow> bool" where
  "plain_char c \<longleftrightarrow> 32 < (of_char c :: nat) \<and> (of_char c :: nat) < 127"

lemma no_seq_plain:
  assumes "s = [] \<or> plain_char (hd s)"
  shows "no_seq space_seqs s"
  using assms by (cases s) (auto simp: no_seq_def space_seqs_def plain_char_def)

lemma no_seq_plain_rev:
  assumes "s = [] \<or> plain_char (hd s)"
  shows "no_seq (map rev space_seqs) s"
  using assms by (cases s) (auto simp: no_seq_def space_seqs_def plain_char_def)

lemma trim_space_plain:
  assumes "s = [] \<or> plain_char (hd s) \<and> plain_char (last s)"
  shows "trim_space s = s"
proof -
  have "trim_left s = s"
    unfolding trim_left_def using assms by (intro trim_seqs_id no_seq_plain) auto
  moreover have "trim_right s = s"
    unfolding trim_right_def using assms
    by (subst trim_seqs_id) (auto intro!: no_seq_plain_rev simp: hd_rev)
  ultimately show ?thesis by (simp add: trim_space_def)
qed

subsection \<open>Prefixes, splitting and joining\<close>

definition trim_prefix :: "string \<Rightarrow> string \<Rightarrow> string" where
  "trim_prefix p s = (if prefix p s then drop (length p) s else s)"

fun contains :: "string \<Rightarrow> string \<Rightarrow> bool" where
  "contains [] sub \<longleftrightarrow> sub = []"
| "contains (c # s) sub \<longleftrightarrow> prefix sub (c # s) \<or> contains s sub"

text \<open>\<^verbatim>\<open>strings.Split\<close> with a one-byte separator, and \<^verbatim>\<open>strings.Join\<close>.\<close>

fun split_on :: "char \<Rightarrow> string \<Rightarrow> string list" where
  "split_on c [] = [[]]"
| "split_on c (x # xs) =
     (if x = c then [] # split_on c xs
      else case split_on c xs of [] \<Rightarrow> [[x]] | y # ys \<Rightarrow> (x # y) # ys)"

fun join :: "string \<Rightarrow> string list \<Rightarrow> string" where
  "join sep [] = []"
| "join sep [x] = x"
| "join sep (x # y # ys) = x @ sep @ join sep (y # ys)"

lemma split_on_not_Nil [simp]: "split_on c s \<noteq> []"
  by (cases s) (auto split: list.splits)

lemma split_on_parts: "x \<in> set (split_on c s) \<Longrightarrow> c \<notin> set x"
  by (induction s arbitrary: x) (auto split: if_splits list.splits)

lemma split_on_bytes: "x \<in> set (split_on c s) \<Longrightarrow> set x \<subseteq> set s"
proof (induction s arbitrary: x)
  case (Cons a s)
  show ?case
  proof (cases "a = c")
    case True
    with Cons show ?thesis by auto
  next
    case False
    obtain y ys where ys: "split_on c s = y # ys"
      by (cases "split_on c s") auto
    with Cons.IH [of y] Cons.IH [of x] Cons.prems False show ?thesis by auto
  qed
qed simp

lemma split_on_no_sep: "c \<notin> set s \<Longrightarrow> split_on c s = [s]"
  by (induction s) auto

lemma split_on_append: "c \<notin> set x \<Longrightarrow> split_on c (x @ c # s) = x # split_on c s"
  by (induction x) (auto split: list.splits)

lemma split_on_join:
  "xs \<noteq> [] \<Longrightarrow> \<forall>x \<in> set xs. c \<notin> set x \<Longrightarrow> split_on c (join [c] xs) = xs"
  by (induction "[c]" xs rule: join.induct) (auto simp: split_on_no_sep split_on_append)

lemma join_split_on: "join [c] (split_on c s) = s"
proof (induction s)
  case (Cons a s)
  obtain y ys where ys: "split_on c s = y # ys"
    by (cases "split_on c s") auto
  with Cons show ?case by (cases ys) auto
qed simp

subsection \<open>Decimal numbers\<close>

definition digit_char :: "nat \<Rightarrow> char" where
  "digit_char d = char_of (48 + d)"

definition is_digit :: "char \<Rightarrow> bool" where
  "is_digit c \<longleftrightarrow> 48 \<le> (of_char c :: nat) \<and> (of_char c :: nat) \<le> 57"

text \<open>Characters are compared through integers when the definitions are evaluated.\<close>

lemma of_char_int: "(of_char c :: int) = int (of_char c)"
  by (simp add: of_nat_of_char)

lemma is_digit_code [code]: "is_digit c \<longleftrightarrow> (let n = of_char c :: int in 48 \<le> n \<and> n \<le> 57)"
  unfolding is_digit_def Let_def of_char_int by auto

text \<open>\<^verbatim>\<open>strings.ToLower\<close> on ASCII; other bytes are kept.\<close>

definition lower_char :: "char \<Rightarrow> char" where
  "lower_char c = (let n = of_char c :: int in if 65 \<le> n \<and> n \<le> 90 then char_of (n + 32) else c)"

definition to_lower :: "string \<Rightarrow> string" where
  "to_lower s = map lower_char s"

definition digit_val :: "char \<Rightarrow> nat" where
  "digit_val c = of_char c - 48"

text \<open>The verb \<^verbatim>\<open>%d\<close> on a number that is not negative.\<close>

fun show_nat :: "nat \<Rightarrow> string" where
  "show_nat n = (if n < 10 then [digit_char n] else show_nat (n div 10) @ [digit_char (n mod 10)])"

declare show_nat.simps [simp del]

definition dec_val :: "string \<Rightarrow> nat" where
  "dec_val s = foldl (\<lambda>a c. 10 * a + digit_val c) 0 s"

text \<open>\<^verbatim>\<open>strconv.ParseUint(s, 10, 64)\<close>: digits only, at least one, and no overflow.\<close>

definition parse_uint :: "string \<Rightarrow> 64 word option" where
  "parse_uint s =
     (if s \<noteq> [] \<and> list_all is_digit s \<and> dec_val s < 2 ^ 64 then Some (of_nat (dec_val s)) else None)"

text \<open>For evaluation the value is computed on integers, which have a binary representation.\<close>

definition dec_int :: "string \<Rightarrow> int" where
  "dec_int s = foldl (\<lambda>a c. 10 * a + (of_char c - 48)) 0 s"

lemma dec_int_val: "list_all is_digit s \<Longrightarrow> dec_int s = int (dec_val s)"
proof (induction s rule: rev_induct)
  case (snoc c s)
  then have "(48 :: nat) \<le> of_char c" by (simp add: is_digit_def)
  moreover have "(of_char c :: int) = int (of_char c)" by (simp add: of_nat_of_char)
  ultimately show ?case using snoc by (simp add: dec_int_def dec_val_def digit_val_def of_nat_diff)
qed (simp add: dec_int_def dec_val_def)

lemma parse_uint_code [code]:
  "parse_uint s =
     (if s \<noteq> [] \<and> list_all is_digit s \<and> dec_int s < 18446744073709551616 then Some (word_of_int (dec_int s)) else None)"
  by (auto simp: parse_uint_def dec_int_val)

lemma of_char_digit [simp]: "d < 10 \<Longrightarrow> (of_char (digit_char d) :: nat) = 48 + d"
  by (simp add: digit_char_def)

lemma is_digit_digit_char [simp]: "d < 10 \<Longrightarrow> is_digit (digit_char d)"
  by (simp add: is_digit_def)

lemma digit_val_digit_char [simp]: "d < 10 \<Longrightarrow> digit_val (digit_char d) = d"
  by (simp add: digit_val_def)

lemma show_nat_digits: "list_all is_digit (show_nat n)"
proof (induction n rule: show_nat.induct)
  case (1 n)
  then show ?case by (simp add: show_nat.simps [of n])
qed

lemma show_nat_not_Nil [simp]: "show_nat n \<noteq> []"
  by (subst show_nat.simps) simp

lemma dec_val_snoc: "dec_val (s @ [c]) = 10 * dec_val s + digit_val c"
  by (simp add: dec_val_def)

lemma dec_val_show_nat [simp]: "dec_val (show_nat n) = n"
proof (induction n rule: show_nat.induct)
  case (1 n)
  show ?case
  proof (cases "n < 10")
    case True
    then show ?thesis by (simp add: show_nat.simps [of n] dec_val_def)
  next
    case False
    with "1.IH" show ?thesis by (simp add: show_nat.simps [of n] dec_val_snoc)
  qed
qed

lemma show_nat_inj: "show_nat m = show_nat n \<Longrightarrow> m = n"
  by (metis dec_val_show_nat)

text \<open>No leading zero, except for zero itself.\<close>

lemma show_nat_hd_zero: "hd (show_nat n) = CHR ''0'' \<Longrightarrow> n = 0"
proof (induction n rule: show_nat.induct)
  case (1 n)
  show ?case
  proof (cases "n < 10")
    case True
    with "1.prems" have "(of_char (digit_char n) :: nat) = 48"
      by (simp add: show_nat.simps [of n])
    with True show ?thesis by simp
  next
    case False
    with "1.prems" have "hd (show_nat (n div 10)) = CHR ''0''"
      by (simp add: show_nat.simps [of n])
    with "1.IH" False have "n div 10 = 0" by blast
    with False show ?thesis by simp
  qed
qed

lemma show_nat_0 [simp]: "show_nat 0 = ''0''"
  by (subst show_nat.simps) (simp add: digit_char_def char_of_eq_iff)

lemma is_digit_plain: "is_digit c \<Longrightarrow> plain_char c"
  by (simp add: is_digit_def plain_char_def)

lemma parse_uint_show_nat [simp]: "n < 2 ^ 64 \<Longrightarrow> parse_uint (show_nat n) = Some (of_nat n)"
  by (simp add: parse_uint_def show_nat_digits)

lemma parse_uint_show_word [simp]: "parse_uint (show_nat (unat (w :: 64 word))) = Some w"
proof -
  have "unat w < 2 ^ 64" using unsigned_less [of w, where 'a = nat] by simp
  then show ?thesis by simp
qed

lemma digit_not_dot: "is_digit c \<Longrightarrow> c \<noteq> CHR ''.'' \<and> c \<noteq> CHR ''-'' \<and> c \<noteq> CHR ''+'' \<and> c \<noteq> CHR '':''"
  by (auto simp: is_digit_def)

subsection \<open>Lists\<close>

lemma count_list_concat: "count_list (concat xss) x = sum_list (map (\<lambda>xs. count_list xs x) xss)"
  by (induction xss) auto

lemma count_list_distinct: "distinct xs \<Longrightarrow> count_list xs x = (if x \<in> set xs then 1 else 0)"
  by (induction xs) auto

lemma sum_list_indicator:
  "distinct xs \<Longrightarrow> sum_list (map (\<lambda>x. if P x then 1 else 0 :: nat) xs) = card {x \<in> set xs. P x}"
proof (induction xs)
  case (Cons x xs)
  have "{y \<in> set (x # xs). P y} = (if P x then insert x {y \<in> set xs. P y} else {y \<in> set xs. P y})"
    by auto
  with Cons show ?case by auto
qed simp

lemma in_concat_nth: "x \<in> set (concat xss) \<longleftrightarrow> (\<exists>k < length xss. x \<in> set (xss ! k))"
  by (metis UN_iff in_set_conv_nth set_concat)

end
