(* ===== verification/Go_Path.thy ===== *)
theory Go_Path
  imports Pulp_Prelude
begin

text \<open>
  The part of Go's \<^verbatim>\<open>path\<close> and \<^verbatim>\<open>path/filepath\<close> packages that the manifest loaders call, on a
  Unix host: \<^verbatim>\<open>Clean\<close>, \<^verbatim>\<open>Join\<close>, \<^verbatim>\<open>Dir\<close>, \<^verbatim>\<open>IsAbs\<close> and \<^verbatim>\<open>Abs\<close>. A path is cleaned segment by
  segment, with the kept segments on a stack; the lemmas say which paths are clean and that
  cleaning is idempotent.
\<close>

subsection \<open>The functions\<close>

fun clean_segs :: "bool \<Rightarrow> string list \<Rightarrow> string list \<Rightarrow> string list" where
  "clean_segs rooted out [] = rev out"
| "clean_segs rooted out (s # ss) =
     (if s = [] \<or> s = ''.'' then clean_segs rooted out ss
      else if s = ''..'' then
        (case out of
           [] \<Rightarrow> clean_segs rooted (if rooted then [] else [''..'']) ss
         | t # ts \<Rightarrow> clean_segs rooted (if t = ''..'' then ''..'' # out else ts) ss)
      else clean_segs rooted (s # out) ss)"

definition is_abs :: "string \<Rightarrow> bool" where
  "is_abs p \<longleftrightarrow> prefix ''/'' p"

definition path_clean :: "string \<Rightarrow> string" where
  "path_clean p =
     (let segs = clean_segs (is_abs p) [] (split_on CHR ''/'' p)
      in if is_abs p then ''/'' @ join ''/'' segs else if segs = [] then ''.'' else join ''/'' segs)"

definition path_join :: "string list \<Rightarrow> string" where
  "path_join ps = (case dropWhile (\<lambda>p. p = []) ps of [] \<Rightarrow> [] | qs \<Rightarrow> path_clean (join ''/'' qs))"

definition path_dir :: "string \<Rightarrow> string" where
  "path_dir p = path_clean (rev (dropWhile (\<lambda>c. c \<noteq> CHR ''/'') (rev p)))"

text \<open>\<^verbatim>\<open>filepath.Abs\<close> needs the working directory for a relative path; asking for it can fail.\<close>

definition path_abs :: "string option \<Rightarrow> string \<Rightarrow> string option" where
  "path_abs cwd p = (if is_abs p then Some (path_clean p) else map_option (\<lambda>d. path_join [d, p]) cwd)"

subsection \<open>Clean paths\<close>

definition seg_ok :: "string \<Rightarrow> bool" where
  "seg_ok s \<longleftrightarrow> s \<noteq> [] \<and> s \<noteq> ''.'' \<and> CHR ''/'' \<notin> set s"

definition segs_clean :: "bool \<Rightarrow> string list \<Rightarrow> bool" where
  "segs_clean rooted ss \<longleftrightarrow> list_all seg_ok ss \<and>
     (\<exists>n ds. ss = replicate n ''..'' @ ds \<and> ''..'' \<notin> set ds \<and> (rooted \<longrightarrow> n = 0))"

lemma segs_clean_Nil [simp]: "segs_clean rooted []"
  by (auto simp: segs_clean_def)

lemma segs_clean_snoc:
  assumes "segs_clean rooted ss" and "seg_ok s" and "s \<noteq> ''..''"
  shows "segs_clean rooted (ss @ [s])"
proof -
  obtain n ds where "ss = replicate n ''..'' @ ds" "''..'' \<notin> set ds" "rooted \<longrightarrow> n = 0"
    using assms(1) by (auto simp: segs_clean_def)
  then have "ss @ [s] = replicate n ''..'' @ (ds @ [s])" "''..'' \<notin> set (ds @ [s])" "rooted \<longrightarrow> n = 0"
    using assms(3) by auto
  then show ?thesis using assms(1,2) unfolding segs_clean_def by (metis list_all_append list.pred_inject)
qed

lemma segs_clean_snocD:
  assumes "segs_clean rooted (ss @ [s])"
  shows "segs_clean rooted ss \<and> (s = ''..'' \<longrightarrow> \<not> rooted \<and> segs_clean rooted (ss @ [s, ''..'']))"
proof -
  obtain n ds where eq: "ss @ [s] = replicate n ''..'' @ ds" and ds: "''..'' \<notin> set ds" "rooted \<longrightarrow> n = 0"
    and ok: "list_all seg_ok ss" "seg_ok s"
    using assms by (auto simp: segs_clean_def)
  show ?thesis
  proof (cases ds rule: rev_cases)
    case Nil
    then have n: "ss @ [s] = replicate n ''..''" using eq by simp
    then obtain m where m: "n = Suc m" by (cases n) auto
    then have ss: "ss = replicate m ''..''" "s = ''..''"
      using n unfolding m by (metis append1_eq_conv replicate_Suc replicate_append_same)+
    then have "ss @ [s, ''..''] = replicate (Suc n) ''..'' @ []" using n
      by (simp add: replicate_append_same [symmetric])
    moreover have "list_all seg_ok (ss @ [s, ''..''])" using ok ss by simp
    ultimately have "\<not> rooted \<longrightarrow> segs_clean rooted (ss @ [s, ''..''])"
      unfolding segs_clean_def by (metis empty_iff list.set(1))
    then show ?thesis using ss ds m ok unfolding segs_clean_def by (metis append_Nil2 nat.distinct(1) empty_iff list.set(1))
  next
    case (snoc ds' d)
    then have "ss = replicate n ''..'' @ ds'" "s = d" using eq by auto
    then show ?thesis using ds ok snoc unfolding segs_clean_def by auto
  qed
qed

lemma clean_segs_clean:
  assumes "segs_clean rooted (rev out)" and "\<forall>s \<in> set ss. CHR ''/'' \<notin> set s"
  shows "segs_clean rooted (clean_segs rooted out ss)"
  using assms
proof (induction rooted out ss rule: clean_segs.induct)
  case (2 rooted out s ss)
  have rest: "\<forall>s \<in> set ss. CHR ''/'' \<notin> set s" using 2 by simp
  consider (skip) "s = [] \<or> s = ''.''" | (up) "s = ''..''" | (keep) "s \<noteq> []" "s \<noteq> ''.''" "s \<noteq> ''..''" by blast
  then show ?case
  proof cases
    case skip
    then show ?thesis using 2 by auto
  next
    case up
    show ?thesis
    proof (cases out)
      case Nil
      have "segs_clean rooted (rev (if rooted then [] else [''..'']))"
        using up rest unfolding segs_clean_def
        by (auto simp: seg_ok_def intro!: exI [of _ "Suc 0"] exI [of _ "[]"])
      then show ?thesis using 2 Nil up rest by (auto split: if_splits)
    next
      case (Cons t ts)
      then have "segs_clean rooted (rev ts @ [t])" using 2 by simp
      from segs_clean_snocD [OF this] show ?thesis using 2 Cons up rest by (auto split: if_splits)
    qed
  next
    case keep
    then have "segs_clean rooted (rev (s # out))" using 2 by (auto intro: segs_clean_snoc simp: seg_ok_def)
    then show ?thesis using 2 keep rest by auto
  qed
qed simp

lemma clean_segs_keep:
  "list_all seg_ok ss \<Longrightarrow> ''..'' \<notin> set ss \<Longrightarrow> clean_segs rooted out ss = rev out @ ss"
  by (induction ss arbitrary: out) (auto simp: seg_ok_def)

lemma clean_segs_dots:
  "clean_segs False (replicate k ''..'') (replicate n ''..'' @ ss) = clean_segs False (replicate (k + n) ''..'') ss"
proof (induction n arbitrary: k)
  case (Suc n)
  have "clean_segs False (replicate k ''..'') (''..'' # replicate n ''..'' @ ss) =
    clean_segs False (replicate (Suc k) ''..'') (replicate n ''..'' @ ss)"
    by (cases k) auto
  then show ?case using Suc [of "Suc k"] by simp
qed simp

lemma clean_segs_id:
  assumes "segs_clean rooted ss"
  shows "clean_segs rooted [] ss = ss"
proof -
  obtain n ds where ss: "ss = replicate n ''..'' @ ds" and ds: "''..'' \<notin> set ds" "rooted \<longrightarrow> n = 0"
    and ok: "list_all seg_ok ss"
    using assms unfolding segs_clean_def by blast
  have okd: "list_all seg_ok ds" using ok ss by simp
  show ?thesis
  proof (cases rooted)
    case True
    then show ?thesis using clean_segs_keep [OF okd ds(1), of rooted "[]"] ss ds by simp
  next
    case False
    then show ?thesis
      using clean_segs_dots [of 0 n ds] clean_segs_keep [OF okd ds(1), of False "replicate n ''..''"] ss by simp
  qed
qed

lemma path_segs_clean: "segs_clean (is_abs p) (clean_segs (is_abs p) [] (split_on CHR ''/'' p))"
  by (rule clean_segs_clean) (auto dest: split_on_parts)

lemma is_abs_clean [simp]: "is_abs (path_clean p) = is_abs p"
proof (cases "is_abs p")
  case True
  then show ?thesis by (simp add: path_clean_def Let_def) (simp add: is_abs_def)
next
  case False
  obtain segs where segs: "segs = clean_segs False [] (split_on CHR ''/'' p)" by blast
  have "segs_clean False segs" using path_segs_clean [of p] False segs by simp
  then have "list_all seg_ok segs" by (simp add: segs_clean_def)
  then have "\<not> prefix ''/'' (if segs = [] then ''.'' else join ''/'' segs)"
    by (induction "''/''" segs rule: join.induct) (auto simp: seg_ok_def neq_Nil_conv prefix_def)
  moreover have "path_clean p = (if segs = [] then ''.'' else join ''/'' segs)"
    using False by (simp add: path_clean_def Let_def segs)
  ultimately show ?thesis using False unfolding is_abs_def by metis
qed

lemma clean_join:
  assumes "segs_clean rooted segs"
  shows "clean_segs rooted [] (split_on CHR ''/'' (join ''/'' segs)) = segs"
proof (cases "segs = []")
  case False
  have "split_on CHR ''/'' (join ''/'' segs) = segs"
    using False assms by (intro split_on_join) (auto simp: segs_clean_def seg_ok_def list_all_iff)
  then show ?thesis using clean_segs_id [OF assms] by simp
qed simp

lemma path_clean_idem [simp]: "path_clean (path_clean p) = path_clean p"
proof -
  define segs where "segs = clean_segs (is_abs p) [] (split_on CHR ''/'' p)"
  have j: "clean_segs (is_abs p) [] (split_on CHR ''/'' (join ''/'' segs)) = segs"
    unfolding segs_def by (rule clean_join [OF path_segs_clean])
  have c: "path_clean p = (if is_abs p then ''/'' @ join ''/'' segs else if segs = [] then ''.'' else join ''/'' segs)"
    by (simp add: path_clean_def segs_def Let_def)
  have s: "clean_segs (is_abs p) [] (split_on CHR ''/'' (path_clean p)) = segs"
    using j by (auto simp: c)
  have "path_clean (path_clean p) = (if is_abs p then ''/'' @ join ''/'' segs else if segs = [] then ''.'' else join ''/'' segs)"
    unfolding path_clean_def [of "path_clean p"] Let_def is_abs_clean s by (rule refl)
  then show ?thesis by (simp only: c)
qed

text \<open>An absolute path is clean exactly when its segments are non-empty and neither \<^verbatim>\<open>.\<close> nor \<^verbatim>\<open>..\<close>.\<close>

lemma clean_abs_iff:
  assumes "is_abs p"
  shows "path_clean p = p \<longleftrightarrow>
    (\<exists>segs. p = ''/'' @ join ''/'' segs \<and> list_all seg_ok segs \<and> ''..'' \<notin> set segs)"
proof
  assume p: "path_clean p = p"
  define segs where "segs = clean_segs True [] (split_on CHR ''/'' p)"
  have "segs_clean True segs" using path_segs_clean [of p] assms by (simp add: segs_def)
  then have "list_all seg_ok segs \<and> ''..'' \<notin> set segs" by (auto simp: segs_clean_def)
  moreover have "p = ''/'' @ join ''/'' segs" using p assms by (simp add: path_clean_def segs_def Let_def)
  ultimately show "\<exists>segs. p = ''/'' @ join ''/'' segs \<and> list_all seg_ok segs \<and> ''..'' \<notin> set segs" by blast
next
  assume "\<exists>segs. p = ''/'' @ join ''/'' segs \<and> list_all seg_ok segs \<and> ''..'' \<notin> set segs"
  then obtain segs where p: "p = ''/'' @ join ''/'' segs" and s: "segs_clean True segs"
    unfolding segs_clean_def by (metis append_Nil replicate_0)
  then have "clean_segs True [] (split_on CHR ''/'' p) = segs" using clean_join [OF s] by simp
  then show "path_clean p = p" using assms p by (simp add: path_clean_def Let_def)
qed

lemma path_clean_Nil [simp]: "path_clean [] = ''.''"
  by (simp add: path_clean_def is_abs_def)

lemma path_join_clean: "path_clean (path_join ps) = (if path_join ps = [] then ''.'' else path_join ps)"
  by (auto simp: path_join_def split: list.splits)

lemma is_abs_join: "is_abs d \<Longrightarrow> is_abs (path_join [d, p])"
  by (cases p) (auto simp: path_join_def is_abs_def [of d] prefix_def, auto simp: is_abs_def)

lemma is_abs_dir: "is_abs p \<Longrightarrow> is_abs (path_dir p)"
proof -
  assume "is_abs p"
  then obtain q where p: "p = CHR ''/'' # q" by (auto simp: is_abs_def prefix_def)
  have "\<exists>r. rev (dropWhile (\<lambda>c. c \<noteq> CHR ''/'') (rev p)) = CHR ''/'' # r"
  proof -
    have "dropWhile (\<lambda>c. c \<noteq> CHR ''/'') (rev q @ [CHR ''/'']) = dropWhile (\<lambda>c. c \<noteq> CHR ''/'') (rev q) @ [CHR ''/'']"
      by (induction q rule: rev_induct) auto
    then show ?thesis by (simp add: p)
  qed
  then show ?thesis by (auto simp: path_dir_def) (simp add: is_abs_def)
qed

lemma path_abs_abs:
  "path_abs cwd p = Some q \<Longrightarrow> (\<forall>d. cwd = Some d \<longrightarrow> is_abs d) \<Longrightarrow> is_abs q \<and> path_clean q = q"
  by (auto simp: path_abs_def is_abs_join path_join_clean split: if_splits)
     (metis is_abs_join is_abs_def prefix_Nil list.discI)

end
