(* ===== verification/Dependency_Plan.thy ===== *)
theory Dependency_Plan
  imports Pulp_Prelude
begin

text \<open>
  The deterministic dependency planner of \<^verbatim>\<open>src/internal/dependency/plan.go\<close>: validation of the
  declared items, the level-by-level topological sort of \<^verbatim>\<open>Build\<close>, and the plan it returns.
  A Go map that is only read and written by key is a HOL function; reading a missing key of a Go map
  gives the zero value, which is what the total functions below return. The map of nodes is an
  association list in the order of the declared items.
\<close>

subsection \<open>Data\<close>

record item =
  item_id :: string
  depends_on :: "string list"

record node =
  node_id :: string
  node_ordinal :: nat
  node_level :: nat
  node_depends_on :: "string list"
  node_dependents :: "string list"

record plan =
  plan_nodes :: "(string \<times> node) list"
  plan_levels :: "string list list"
  plan_start_order :: "string list"
  plan_stop_order :: "string list"

text \<open>
  The errors of \<^verbatim>\<open>Build\<close>. \<open>OutOfFuel\<close> is no Go value: it is what the model of the loop would
  return if its fuel did not suffice, and \<open>build_not_out_of_fuel\<close> shows that it never does.
\<close>

datatype plan_error =
    NoNodes
  | EmptyID nat
  | DuplicateNode string
  | SelfDependency string
  | UnknownDependency string string
  | RepeatedDependency string string
  | DependencyCycle "string list"
  | OutOfFuel

type_synonym links = "(string \<Rightarrow> string list) \<times> (string \<Rightarrow> string list)"

subsection \<open>Validation\<close>

fun check_ids :: "nat \<Rightarrow> (string \<rightharpoonup> nat) \<Rightarrow> item list \<Rightarrow> (plan_error, string \<rightharpoonup> nat) result" where
  "check_ids ordinal ords [] = Inr ords"
| "check_ids ordinal ords (it # its) =
     (if trim_space (item_id it) = [] then Inl (EmptyID ordinal)
      else if ords (item_id it) \<noteq> None then Inl (DuplicateNode (item_id it))
      else check_ids (Suc ordinal) (ords(item_id it \<mapsto> ordinal)) its)"

fun link_deps :: "(string \<rightharpoonup> nat) \<Rightarrow> string \<Rightarrow> string set \<Rightarrow> string list \<Rightarrow> links
    \<Rightarrow> (plan_error, links) result" where
  "link_deps ords me seen [] (deps, dpts) = Inr (deps, dpts)"
| "link_deps ords me seen (d # ds) (deps, dpts) =
     (if d = me then Inl (SelfDependency me)
      else if ords d = None then Inl (UnknownDependency me d)
      else if d \<in> seen then Inl (RepeatedDependency me d)
      else link_deps ords me (insert d seen) ds
             (deps(me := deps me @ [d]), dpts(d := dpts d @ [me])))"

fun link_items :: "(string \<rightharpoonup> nat) \<Rightarrow> item list \<Rightarrow> links \<Rightarrow> (plan_error, links) result" where
  "link_items ords [] l = Inr l"
| "link_items ords (it # its) l =
     bindE (link_deps ords (item_id it) {} (depends_on it) l) (link_items ords its)"

definition ordinal_of :: "(string \<rightharpoonup> nat) \<Rightarrow> string \<Rightarrow> nat" where
  "ordinal_of ords x = (case ords x of None \<Rightarrow> 0 | Some n \<Rightarrow> n)"

subsection \<open>The level loop\<close>

fun release :: "string list \<Rightarrow> (string \<Rightarrow> int) \<Rightarrow> string list \<Rightarrow> (string \<Rightarrow> int) \<times> string list" where
  "release [] rem nxt = (rem, nxt)"
| "release (d # ds) rem nxt =
     (let rem' = rem(d := rem d - 1)
      in release ds rem' (if rem' d = 0 then nxt @ [d] else nxt))"

fun run_level :: "(string \<Rightarrow> string list) \<Rightarrow> nat \<Rightarrow> string list
    \<Rightarrow> (string \<Rightarrow> int) \<times> string list \<times> (string \<Rightarrow> nat)
    \<Rightarrow> (string \<Rightarrow> int) \<times> string list \<times> (string \<Rightarrow> nat)" where
  "run_level dpts k [] st = st"
| "run_level dpts k (x # xs) (rem, nxt, lv) =
     (let (rem', nxt') = release (dpts x) rem nxt
      in run_level dpts k xs (rem', nxt', lv(x := k)))"

fun kahn :: "nat \<Rightarrow> (string \<Rightarrow> string list) \<Rightarrow> (string \<Rightarrow> nat) \<Rightarrow> string list \<Rightarrow> (string \<Rightarrow> int)
    \<Rightarrow> string list list \<Rightarrow> string list \<Rightarrow> (string \<Rightarrow> nat)
    \<Rightarrow> ((string \<Rightarrow> int) \<times> string list list \<times> string list \<times> (string \<Rightarrow> nat)) option" where
  "kahn 0 dpts ordn ready rem levels start lv =
     (if ready = [] then Some (rem, levels, start, lv) else None)"
| "kahn (Suc fuel) dpts ordn ready rem levels start lv =
     (if ready = [] then Some (rem, levels, start, lv)
      else let levels' = levels @ [ready];
               start' = start @ ready;
               (rem', nxt, lv') = run_level dpts (length levels' - 1) ready (rem, [], lv)
           in kahn fuel dpts ordn (sort_key ordn nxt) rem' levels' start' lv')"

definition make_nodes :: "item list \<Rightarrow> (string \<rightharpoonup> nat) \<Rightarrow> (string \<Rightarrow> nat) \<Rightarrow> links \<Rightarrow> (string \<times> node) list" where
  "make_nodes items ords lv l =
     map (\<lambda>it. (item_id it,
        \<lparr>node_id = item_id it, node_ordinal = ordinal_of ords (item_id it),
         node_level = lv (item_id it), node_depends_on = fst l (item_id it),
         node_dependents = snd l (item_id it)\<rparr>)) items"

definition build_graph :: "item list \<Rightarrow> (string \<rightharpoonup> nat) \<Rightarrow> links \<Rightarrow> (plan_error, plan) result" where
  "build_graph items ords l =
     (let deps = fst l;
          dpts = (\<lambda>x. sort_key (ordinal_of ords) (snd l x));
          rem = (\<lambda>x. int (length (deps x)));
          ready = map item_id (filter (\<lambda>it. rem (item_id it) = 0) items)
      in case kahn (Suc (length items)) dpts (ordinal_of ords) ready rem [] [] (\<lambda>_. 0) of
           None \<Rightarrow> Inl OutOfFuel
         | Some (rem', levels, start, lv) \<Rightarrow>
             if length start \<noteq> length items
             then Inl (DependencyCycle (map item_id (filter (\<lambda>it. rem' (item_id it) \<noteq> 0) items)))
             else Inr \<lparr>plan_nodes = make_nodes items ords lv (deps, dpts), plan_levels = levels,
                        plan_start_order = start, plan_stop_order = rev start\<rparr>)"

definition build :: "item list \<Rightarrow> (plan_error, plan) result" where
  "build items =
     (if items = [] then Inl NoNodes
      else bindE (check_ids 0 Map.empty items) (\<lambda>ords.
           bindE (link_items ords items (\<lambda>_. [], \<lambda>_. [])) (build_graph items ords)))"

subsection \<open>Accessors\<close>

definition plan_node :: "plan \<Rightarrow> string \<Rightarrow> node option" where
  "plan_node p x = map_of (plan_nodes p) x"

definition dependencies :: "plan \<Rightarrow> string \<Rightarrow> string list" where
  "dependencies p x = (case plan_node p x of None \<Rightarrow> [] | Some n \<Rightarrow> node_depends_on n)"

definition dependents :: "plan \<Rightarrow> string \<Rightarrow> string list" where
  "dependents p x = (case plan_node p x of None \<Rightarrow> [] | Some n \<Rightarrow> node_dependents n)"

subsection \<open>What a valid input and its graph are\<close>

definition ids :: "item list \<Rightarrow> string list" where
  "ids items = map item_id items"

definition valid_items :: "item list \<Rightarrow> bool" where
  "valid_items items \<longleftrightarrow> items \<noteq> [] \<and> distinct (ids items) \<and>
     (\<forall>it \<in> set items. trim_space (item_id it) \<noteq> [] \<and> item_id it \<notin> set (depends_on it)
        \<and> set (depends_on it) \<subseteq> set (ids items) \<and> distinct (depends_on it))"

definition deps_of :: "item list \<Rightarrow> string \<Rightarrow> string list" where
  "deps_of items x = concat (map depends_on (filter (\<lambda>it. item_id it = x) items))"

definition dpts_of :: "item list \<Rightarrow> string \<Rightarrow> string list" where
  "dpts_of items d = map item_id (filter (\<lambda>it. d \<in> set (depends_on it)) items)"

text \<open>The pair \<open>(d, x)\<close> says that \<open>x\<close> depends on \<open>d\<close>.\<close>

definition dep_rel :: "item list \<Rightarrow> (string \<times> string) set" where
  "dep_rel items = {(d, x). \<exists>it \<in> set items. item_id it = x \<and> d \<in> set (depends_on it)}"

subsection \<open>Validation, in closed form\<close>

lemma check_ids_Inr:
  "check_ids k ords items = Inr ords' \<longleftrightarrow>
     (\<forall>it \<in> set items. trim_space (item_id it) \<noteq> []) \<and> distinct (ids items) \<and>
     set (ids items) \<inter> dom ords = {} \<and>
     ords' = ords ++ map_of (zip (ids items) [k..<k + length items])"
proof (induction items arbitrary: k ords)
  case (Cons it its)
  have u: "[k..<k + length (it # its)] = k # [Suc k..<Suc k + length its]"
    by (subst upt_conv_Cons) (auto simp: Suc_le_eq)
  have z: "map_of (zip (ids (it # its)) [k..<k + length (it # its)]) =
      (map_of (zip (ids its) [Suc k..<Suc k + length its]))(item_id it \<mapsto> k)"
    unfolding u ids_def by (simp del: upt_Suc)
  have d: "dom (map_of (zip (ids its) [Suc k..<Suc k + length its])) = set (ids its)"
    by (rule dom_map_of_zip) (simp add: ids_def del: upt_Suc)
  show ?case
  proof (cases "item_id it \<in> set (ids its)")
    case True
    then show ?thesis by (auto simp: Cons.IH ids_def)
  next
    case False
    with d have eq: "(ords(item_id it \<mapsto> k)) ++ map_of (zip (ids its) [Suc k..<Suc k + length its]) =
        ords ++ map_of (zip (ids (it # its)) [k..<k + length (it # its)])"
      by (simp only: z map_add_upd map_add_upd_left not_False_eq_True)
    from False have dj: "set (ids its) \<inter> dom (ords(item_id it \<mapsto> k)) = {} \<longleftrightarrow>
        set (ids its) \<inter> dom ords = {}"
      by auto
    from False show ?thesis
      using Cons.IH [of "Suc k" "ords(item_id it \<mapsto> k)", unfolded eq dj]
      by (auto simp: ids_def simp del: upt_Suc fun_upd_apply)
  qed
qed (auto simp: ids_def)

lemma link_deps_Inr:
  "link_deps ords me seen ds (f, g) = Inr l \<longleftrightarrow>
     me \<notin> set ds \<and> set ds \<subseteq> dom ords \<and> distinct ds \<and> seen \<inter> set ds = {} \<and>
     l = (f(me := f me @ ds), \<lambda>d. g d @ (if d \<in> set ds then [me] else []))"
proof (induction ds arbitrary: seen f g)
  case Nil
  then show ?case by auto
next
  case (Cons d ds)
  show ?case
    by (auto simp: Cons.IH fun_eq_iff)
qed

lemma link_items_Inr:
  "link_items ords items (f, g) = Inr l \<longleftrightarrow>
     (\<forall>it \<in> set items. item_id it \<notin> set (depends_on it) \<and> set (depends_on it) \<subseteq> dom ords
        \<and> distinct (depends_on it)) \<and>
     l = (\<lambda>x. f x @ deps_of items x, \<lambda>d. g d @ dpts_of items d)"
proof (induction items arbitrary: f g)
  case Nil
  then show ?case by (auto simp: deps_of_def dpts_of_def)
next
  case (Cons it items)
  have f: "(\<lambda>x. (f(item_id it := f (item_id it) @ depends_on it)) x @ deps_of items x) =
      (\<lambda>x. f x @ deps_of (it # items) x)"
    by (auto simp: deps_of_def)
  have g: "(\<lambda>d. (g d @ (if d \<in> set (depends_on it) then [item_id it] else [])) @ dpts_of items d) =
      (\<lambda>d. g d @ dpts_of (it # items) d)"
    by (auto simp: dpts_of_def)
  show ?case
    by (simp add: link_deps_Inr Cons.IH f g del: fun_upd_apply append_assoc)
qed

lemma valid_items_iff:
  "valid_items items \<longleftrightarrow> items \<noteq> [] \<and> (\<exists>ords l. check_ids 0 Map.empty items = Inr ords \<and>
     link_items ords items (\<lambda>_. [], \<lambda>_. []) = Inr l)"
proof -
  have "dom (map_of (zip (ids items) [0..<length items])) = set (ids items)"
    by (simp add: dom_map_of_zip ids_def)
  then show ?thesis
    by (auto simp: valid_items_def check_ids_Inr link_items_Inr)
qed

lemma deps_of_item:
  assumes "distinct (ids items)" and "it \<in> set items"
  shows "deps_of items (item_id it) = depends_on it"
proof -
  have "filter (\<lambda>j. item_id j = item_id it) items = [it]"
    using assms unfolding ids_def
    by (induction items) (auto simp: filter_empty_conv image_iff)
  then show ?thesis by (simp add: deps_of_def)
qed

lemma in_ids: "x \<in> set (ids items) \<longleftrightarrow> (\<exists>it \<in> set items. x = item_id it)"
  by (auto simp: ids_def)

lemma deps_of_outside: "x \<notin> set (ids items) \<Longrightarrow> deps_of items x = []"
  by (auto simp: deps_of_def in_ids filter_empty_conv)

lemma dpts_of_iff:
  assumes "distinct (ids items)"
  shows "x \<in> set (dpts_of items d) \<longleftrightarrow> d \<in> set (deps_of items x)"
proof
  assume "x \<in> set (dpts_of items d)"
  then obtain it where "it \<in> set items" "item_id it = x" "d \<in> set (depends_on it)"
    by (auto simp: dpts_of_def)
  then show "d \<in> set (deps_of items x)" using deps_of_item [OF assms] by auto
next
  assume "d \<in> set (deps_of items x)"
  then show "x \<in> set (dpts_of items d)" by (auto simp: deps_of_def dpts_of_def)
qed

lemma distinct_dpts_of: "distinct (ids items) \<Longrightarrow> distinct (dpts_of items d)"
  by (simp add: dpts_of_def ids_def distinct_map_filter)

lemma dep_rel_deps_of: "(d, x) \<in> dep_rel items \<longleftrightarrow> d \<in> set (deps_of items x)"
  by (auto simp: dep_rel_def deps_of_def)

text \<open>The graph the level loop works on, as the loop sees it.\<close>

definition graph_ok :: "(string \<Rightarrow> string list) \<Rightarrow> (string \<Rightarrow> string list) \<Rightarrow> string list \<Rightarrow> bool" where
  "graph_ok deps dpts xs \<longleftrightarrow> distinct xs \<and>
     (\<forall>x. distinct (deps x) \<and> distinct (dpts x) \<and> set (deps x) \<subseteq> set xs \<and> set (dpts x) \<subseteq> set xs) \<and>
     (\<forall>d x. x \<in> set (dpts d) \<longleftrightarrow> d \<in> set (deps x))"

lemma graph_ok_items:
  assumes "valid_items items"
  shows "graph_ok (deps_of items) (\<lambda>x. sort_key ordn (dpts_of items x)) (ids items)"
proof -
  have d: "distinct (ids items)" using assms by (simp add: valid_items_def)
  have "distinct (deps_of items x) \<and> set (deps_of items x) \<subseteq> set (ids items)" for x
    using assms deps_of_item [OF d] deps_of_outside [of x items]
    by (cases "x \<in> set (ids items)") (auto simp: valid_items_def in_ids subset_iff)
  moreover have "set (dpts_of items x) \<subseteq> set (ids items)" for x
    by (auto simp: dpts_of_def ids_def)
  ultimately show ?thesis
    using d by (auto simp: graph_ok_def distinct_dpts_of dpts_of_iff)
qed

subsection \<open>The level loop, in closed form\<close>

lemma release_append:
  "release (xs @ ys) rem nxt = (let (r, n) = release xs rem nxt in release ys r n)"
  by (induction xs arbitrary: rem nxt) (auto simp: Let_def)

lemma release_spec:
  "\<exists>new. release ds rem nxt = (\<lambda>x. rem x - int (count_list ds x), nxt @ new) \<and> distinct new \<and>
     set new = {x. 0 < rem x \<and> rem x \<le> int (count_list ds x)}"
proof (induction ds arbitrary: rem nxt)
  case Nil
  then show ?case by auto
next
  case (Cons d ds)
  let ?rem = "rem(d := rem d - 1)"
  let ?nxt = "if ?rem d = 0 then nxt @ [d] else nxt"
  obtain new where new: "release ds ?rem ?nxt = (\<lambda>x. ?rem x - int (count_list ds x), ?nxt @ new)"
    and dist: "distinct new" and set: "set new = {x. 0 < ?rem x \<and> ?rem x \<le> int (count_list ds x)}"
    using Cons.IH [of ?rem ?nxt] by blast
  let ?new = "if rem d = 1 then d # new else new"
  have mem: "x \<in> set new \<longleftrightarrow> 0 < ?rem x \<and> ?rem x \<le> int (count_list ds x)" for x
    using set by simp
  have "(\<lambda>x. ?rem x - int (count_list ds x)) = (\<lambda>x. rem x - int (count_list (d # ds) x))"
    by auto
  with new have "release (d # ds) rem nxt = (\<lambda>x. rem x - int (count_list (d # ds) x), nxt @ ?new)"
    by (simp add: Let_def)
  moreover have "distinct ?new" using dist mem [of d] by simp
  moreover have "x \<in> set ?new \<longleftrightarrow> 0 < rem x \<and> rem x \<le> int (count_list (d # ds) x)" for x
    using mem [of x] by (cases "x = d") auto
  ultimately show ?case by blast
qed

lemma run_level_release:
  "run_level dpts k xs (rem, nxt, lv) =
     (let (r, n) = release (concat (map dpts xs)) rem nxt
      in (r, n, \<lambda>x. if x \<in> set xs then k else lv x))"
proof (induction xs arbitrary: rem nxt lv)
  case (Cons x xs)
  obtain r n where r: "release (dpts x) rem nxt = (r, n)"
    by (cases "release (dpts x) rem nxt")
  have "(\<lambda>y. if y \<in> set xs then k else (lv(x := k)) y) = (\<lambda>y. if y \<in> set (x # xs) then k else lv y)"
    by auto
  with r show ?case
    by (simp add: Cons.IH release_append split: prod.splits)
qed simp

text \<open>
  The loop invariant: what is started is closed under dependencies, the counters count the
  dependencies that are not started, and the ready nodes are exactly the rest that wait for nothing.
\<close>

definition kahn_inv :: "(string \<Rightarrow> string list) \<Rightarrow> string list \<Rightarrow> string list \<Rightarrow> string list
    \<Rightarrow> (string \<Rightarrow> int) \<Rightarrow> bool" where
  "kahn_inv deps xs start ready rem \<longleftrightarrow>
     distinct (start @ ready) \<and> set (start @ ready) \<subseteq> set xs \<and>
     (\<forall>x \<in> set start. set (deps x) \<subseteq> set start) \<and>
     (\<forall>x \<in> set xs. rem x = int (card (set (deps x) - set start))) \<and>
     (\<forall>x \<in> set xs. x \<in> set ready \<longleftrightarrow> x \<notin> set start \<and> rem x = 0)"

lemma kahn_inv_start:
  assumes "graph_ok deps dpts xs"
  shows "kahn_inv deps xs [] (filter (\<lambda>x. int (length (deps x)) = 0) xs) (\<lambda>x. int (length (deps x)))"
  using assms by (auto simp: kahn_inv_def graph_ok_def distinct_card)

lemma count_level:
  assumes g: "graph_ok deps dpts xs" and "distinct ys"
  shows "count_list (concat (map dpts ys)) x = card (set ys \<inter> set (deps x))"
proof -
  have "count_list (dpts y) x = (if x \<in> set (dpts y) then 1 else 0)" for y
    using g by (simp add: graph_ok_def count_list_distinct)
  then have "count_list (concat (map dpts ys)) x = sum_list (map (\<lambda>y. if x \<in> set (dpts y) then 1 else 0) ys)"
    by (simp add: count_list_concat comp_def)
  also have "\<dots> = card {y \<in> set ys. x \<in> set (dpts y)}"
    by (rule sum_list_indicator) fact
  also have "{y \<in> set ys. x \<in> set (dpts y)} = set ys \<inter> set (deps x)"
    using g by (auto simp: graph_ok_def)
  finally show ?thesis .
qed

lemma kahn_inv_rem_step:
  assumes g: "graph_ok deps dpts xs" and inv: "kahn_inv deps xs start ready rem" and x: "x \<in> set xs"
  shows "rem x - int (count_list (concat (map dpts ready)) x) =
    int (card (set (deps x) - set (start @ ready)))"
proof -
  have dr: "distinct ready" and disj: "set start \<inter> set ready = {}"
    using inv by (auto simp: kahn_inv_def)
  have split: "set (deps x) - set start =
      (set (deps x) - set (start @ ready)) \<union> (set ready \<inter> set (deps x))"
    using disj by auto
  have "card (set (deps x) - set start) =
      card (set (deps x) - set (start @ ready)) + card (set ready \<inter> set (deps x))"
    unfolding split by (rule card_Un_disjoint) auto
  moreover have "rem x = int (card (set (deps x) - set start))"
    using inv x by (simp add: kahn_inv_def)
  ultimately show ?thesis
    using count_level [OF g dr] by simp
qed

lemma kahn_step:
  assumes g: "graph_ok deps dpts xs" and inv: "kahn_inv deps xs start ready rem"
    and run: "run_level dpts k ready (rem, [], lv) = (rem', nxt, lv')"
  shows "kahn_inv deps xs (start @ ready) (sort_key ordn nxt) rem'"
    and "\<forall>x \<in> set nxt. set (deps x) \<subseteq> set (start @ ready) \<and> set (deps x) \<inter> set ready \<noteq> {}"
    and "lv' = (\<lambda>x. if x \<in> set ready then k else lv x)"
proof -
  let ?es = "concat (map dpts ready)"
  obtain new where rel: "release ?es rem [] = (\<lambda>x. rem x - int (count_list ?es x), [] @ new)"
    and dist: "distinct new" and new: "set new = {x. 0 < rem x \<and> rem x \<le> int (count_list ?es x)}"
    using release_spec by blast
  have rem': "rem' = (\<lambda>x. rem x - int (count_list ?es x))" and nxt: "nxt = new"
    using run rel by (auto simp: run_level_release)
  show "lv' = (\<lambda>x. if x \<in> set ready then k else lv x)"
    using run rel by (auto simp: run_level_release)
  have cnt: "rem' x = int (card (set (deps x) - set (start @ ready)))" if "x \<in> set xs" for x
    using kahn_inv_rem_step [OF g inv that] by (simp add: rem')
  have in_xs: "x \<in> set xs" if "x \<in> set new" for x
  proof -
    have "count_list ?es x \<noteq> 0" using that new by auto
    then obtain y where "x \<in> set (dpts y)" by (auto simp: count_list_0_iff)
    then show ?thesis using g unfolding graph_ok_def by blast
  qed
  have mem: "x \<in> set new \<longleftrightarrow> rem x \<noteq> 0 \<and> rem' x = 0" if "x \<in> set xs" for x
  proof -
    have "0 \<le> rem x" using inv that by (simp add: kahn_inv_def)
    moreover have "0 \<le> rem' x" using cnt [OF that] by simp
    moreover have "rem' x = rem x - int (count_list ?es x)" by (simp add: rem')
    moreover have "x \<in> set new \<longleftrightarrow> 0 < rem x \<and> rem x \<le> int (count_list ?es x)"
      by (simp only: new mem_Collect_eq)
    ultimately show ?thesis by linarith
  qed
  have ready: "x \<in> set ready \<longleftrightarrow> x \<notin> set start \<and> rem x = 0" if "x \<in> set xs" for x
    using inv that by (simp add: kahn_inv_def)
  have closed: "set (deps x) \<subseteq> set start" if "x \<in> set ready" for x
  proof -
    have "x \<in> set xs" using inv that by (auto simp: kahn_inv_def)
    with ready that inv have "card (set (deps x) - set start) = 0"
      by (auto simp: kahn_inv_def)
    then show ?thesis by simp
  qed
  have started: "rem x = 0" if "x \<in> set start" for x
    using inv that by (auto simp: kahn_inv_def card_eq_0_iff)
  have new_iff: "x \<in> set new \<longleftrightarrow> x \<notin> set (start @ ready) \<and> rem' x = 0" if "x \<in> set xs" for x
    using mem [OF that] ready [OF that] started [of x] by auto
  show "kahn_inv deps xs (start @ ready) (sort_key ordn nxt) rem'"
    unfolding kahn_inv_def nxt
  proof (intro conjI)
    show "distinct ((start @ ready) @ sort_key ordn new)"
      using inv dist in_xs new_iff by (auto simp: kahn_inv_def)
    show "set ((start @ ready) @ sort_key ordn new) \<subseteq> set xs"
      using inv in_xs by (auto simp: kahn_inv_def)
    show "\<forall>x \<in> set (start @ ready). set (deps x) \<subseteq> set (start @ ready)"
      using inv closed by (fastforce simp: kahn_inv_def)
    show "\<forall>x \<in> set xs. rem' x = int (card (set (deps x) - set (start @ ready)))"
      using cnt by blast
    show "\<forall>x \<in> set xs. x \<in> set (sort_key ordn new) \<longleftrightarrow> x \<notin> set (start @ ready) \<and> rem' x = 0"
      using new_iff by simp
  qed
  show "\<forall>x \<in> set nxt. set (deps x) \<subseteq> set (start @ ready) \<and> set (deps x) \<inter> set ready \<noteq> {}"
  proof
    fix x assume "x \<in> set nxt"
    then have x: "x \<in> set new" and xs: "x \<in> set xs" using nxt in_xs by auto
    then have sub: "set (deps x) \<subseteq> set (start @ ready)"
      using cnt new_iff by (auto simp: card_eq_0_iff)
    have "card (set (deps x) - set start) \<noteq> 0"
      using x xs mem inv by (auto simp: kahn_inv_def)
    with sub show "set (deps x) \<subseteq> set (start @ ready) \<and> set (deps x) \<inter> set ready \<noteq> {}"
      by (auto simp: card_eq_0_iff)
  qed
qed

text \<open>
  What the levels of a plan promise: every dependency is in an earlier level, every node but those
  of the first level has a dependency in the level just before, and the level map agrees.
\<close>

definition levels_ok :: "(string \<Rightarrow> string list) \<Rightarrow> string list list \<Rightarrow> (string \<Rightarrow> nat) \<Rightarrow> bool" where
  "levels_ok deps levels lv \<longleftrightarrow>
     (\<forall>k < length levels. \<forall>x \<in> set (levels ! k). lv x = k \<and>
        set (deps x) \<subseteq> set (concat (take k levels)) \<and>
        (0 < k \<longrightarrow> set (deps x) \<inter> set (levels ! (k - 1)) \<noteq> {}))"

definition ready_ok :: "(string \<Rightarrow> string list) \<Rightarrow> string list list \<Rightarrow> string list \<Rightarrow> bool" where
  "ready_ok deps levels ready \<longleftrightarrow>
     (\<forall>x \<in> set ready. set (deps x) \<subseteq> set (concat levels) \<and>
        (levels \<noteq> [] \<longrightarrow> set (deps x) \<inter> set (last levels) \<noteq> {}))"

lemma levels_ok_snoc:
  assumes "levels_ok deps levels lv" and "ready_ok deps levels ready"
    and "set ready \<inter> set (concat levels) = {}"
  shows "levels_ok deps (levels @ [ready]) (\<lambda>x. if x \<in> set ready then length levels else lv x)"
proof -
  have "\<forall>x \<in> set (levels ! k). x \<notin> set ready" if "k < length levels" for k
    using assms(3) that by (auto dest: nth_mem)
  then show ?thesis
    using assms(1,2)
    by (auto simp: levels_ok_def ready_ok_def nth_append less_Suc_eq last_conv_nth)
qed

lemma kahn_result:
  assumes "graph_ok deps dpts xs" and "kahn_inv deps xs start ready rem"
    and "concat levels = start" and "levels_ok deps levels lv" and "ready_ok deps levels ready"
    and "length xs < fuel + length start"
  shows "\<exists>rem' levels' start' lv'. kahn fuel dpts ordn ready rem levels start lv = Some (rem', levels', start', lv')
     \<and> kahn_inv deps xs start' [] rem' \<and> concat levels' = start' \<and> levels_ok deps levels' lv'"
  using assms
proof (induction fuel arbitrary: ready rem levels start lv)
  case 0
  then have "card (set start) \<le> card (set xs)"
    by (intro card_mono) (auto simp: kahn_inv_def)
  also have "\<dots> \<le> length xs" by (rule card_length)
  finally show ?case using 0 by (simp add: kahn_inv_def distinct_card)
next
  case (Suc fuel)
  show ?case
  proof (cases "ready = []")
    case True
    with Suc.prems show ?thesis by auto
  next
    case False
    obtain rem' nxt lv' where
      run: "run_level dpts (length (levels @ [ready]) - 1) ready (rem, [], lv) = (rem', nxt, lv')"
      by (metis prod_cases3)
    note step = kahn_step [OF Suc.prems(1,2) run]
    have disj: "set ready \<inter> set (concat levels) = {}"
      using Suc.prems(2,3) by (auto simp: kahn_inv_def)
    have lv: "levels_ok deps (levels @ [ready]) lv'"
      using levels_ok_snoc [OF Suc.prems(4,5) disj]
      unfolding step(3) length_append_singleton diff_Suc_1 .
    have conc: "concat (levels @ [ready]) = start @ ready"
      using Suc.prems(3) by simp
    have rdy: "ready_ok deps (levels @ [ready]) (sort_key ordn nxt)"
      using step(2) Suc.prems(3) by (auto simp: ready_ok_def)
    have len: "length xs < fuel + length (start @ ready)"
      using False Suc.prems(6) by (cases ready) auto
    from Suc.IH [OF Suc.prems(1) step(1) conc lv rdy len] obtain r l s v where
      "kahn fuel dpts ordn (sort_key ordn nxt) rem' (levels @ [ready]) (start @ ready) lv' = Some (r, l, s, v)"
      "kahn_inv deps xs s [] r" "concat l = s" "levels_ok deps l v"
      by blast
    with False run show ?thesis by simp
  qed
qed

text \<open>Nodes that are left over when nothing is ready depend on each other in a cycle.\<close>

lemma finite_dep_rel: "finite (dep_rel items)"
proof -
  have "dep_rel items \<subseteq> set (concat (map depends_on items)) \<times> set (ids items)"
    by (auto simp: dep_rel_def ids_def)
  then show ?thesis by (rule finite_subset) simp
qed

lemma acyclic_all_started:
  assumes acyc: "acyclic (dep_rel items)" and valid: "valid_items items"
    and inv: "kahn_inv (deps_of items) (ids items) start [] rem"
  shows "set start = set (ids items)"
proof (rule ccontr)
  assume "set start \<noteq> set (ids items)"
  with inv obtain y where y: "y \<in> set (ids items) - set start"
    by (auto simp: kahn_inv_def)
  have "wf (dep_rel items)"
    using finite_dep_rel acyc by (rule finite_acyclic_wf)
  from wfE_min [OF this y] obtain z where z: "z \<in> set (ids items) - set start"
    and least: "\<And>d. (d, z) \<in> dep_rel items \<Longrightarrow> d \<notin> set (ids items) - set start"
    by blast
  have "set (deps_of items z) \<subseteq> set (ids items)"
    using graph_ok_items [OF valid] by (simp add: graph_ok_def)
  then have "set (deps_of items z) \<subseteq> set start"
    using least by (auto simp: dep_rel_deps_of)
  then have "rem z = 0" using inv z by (auto simp: kahn_inv_def)
  then show False using inv z by (auto simp: kahn_inv_def)
qed

lemma levels_ok_acyclic:
  assumes "levels_ok (deps_of items) levels lv" and "set (concat levels) = set (ids items)"
  shows "acyclic (dep_rel items)"
proof -
  have lt: "lv d < lv x" if "(d, x) \<in> dep_rel items" for d x
  proof -
    have d: "d \<in> set (deps_of items x)" using that by (simp add: dep_rel_deps_of)
    then have "x \<in> set (concat levels)"
      using assms(2) deps_of_outside by fastforce
    then obtain k where k: "k < length levels" "x \<in> set (levels ! k)"
      by (auto simp: in_concat_nth simp del: set_concat)
    then have "lv x = k" and "set (deps_of items x) \<subseteq> set (concat (take k levels))"
      using assms(1) by (auto simp: levels_ok_def simp del: set_concat)
    then have "lv x = k" and "d \<in> set (concat (take k levels))"
      using d by blast+
    moreover from this obtain j where "j < k" "d \<in> set (levels ! j)"
      by (auto simp: in_concat_nth simp del: set_concat)
    moreover from this have "lv d = j"
      using assms(1) k by (simp add: levels_ok_def)
    ultimately show ?thesis by simp
  qed
  have "lv d < lv x" if "(d, x) \<in> (dep_rel items)\<^sup>+" for d x
    using that by (induction rule: trancl_induct) (auto dest: lt)
  then show ?thesis by (auto simp: acyclic_def)
qed

subsection \<open>The plan of a successful build\<close>

lemma build_graph_cases:
  assumes valid: "valid_items items"
  shows "\<exists>rem' levels lv. kahn_inv (deps_of items) (ids items) (concat levels) [] rem' \<and>
    levels_ok (deps_of items) levels lv \<and>
    build_graph items ords (deps_of items, dpts_of items) =
      (if length (concat levels) \<noteq> length items
       then Inl (DependencyCycle (map item_id (filter (\<lambda>it. rem' (item_id it) \<noteq> 0) items)))
       else Inr \<lparr>plan_nodes = make_nodes items ords lv
                   (deps_of items, \<lambda>x. sort_key (ordinal_of ords) (dpts_of items x)),
                 plan_levels = levels, plan_start_order = concat levels,
                 plan_stop_order = rev (concat levels)\<rparr>)"
proof -
  let ?deps = "deps_of items" and ?dpts = "\<lambda>x. sort_key (ordinal_of ords) (dpts_of items x)"
  let ?rem = "\<lambda>x. int (length (?deps x))"
  let ?ready = "map item_id (filter (\<lambda>it. ?rem (item_id it) = 0) items)"
  have ready: "?ready = filter (\<lambda>x. ?rem x = 0) (ids items)"
    by (simp add: ids_def filter_map comp_def)
  note g = graph_ok_items [OF valid, of "ordinal_of ords"]
  have inv: "kahn_inv ?deps (ids items) [] ?ready ?rem"
    unfolding ready by (rule kahn_inv_start [OF g])
  have rdy: "ready_ok ?deps [] ?ready"
    by (simp add: ready_ok_def)
  have len: "length (ids items) < Suc (length items) + length []"
    by (simp add: ids_def)
  have lvl: "levels_ok ?deps [] (\<lambda>_. 0)"
    by (simp add: levels_ok_def)
  from kahn_result [OF g inv _ lvl rdy len, where ordn = "ordinal_of ords"]
  obtain rem' levels lv where
    "kahn (Suc (length items)) ?dpts (ordinal_of ords) ?ready ?rem [] [] (\<lambda>_. 0) =
       Some (rem', levels, concat levels, lv)"
    "kahn_inv ?deps (ids items) (concat levels) [] rem'" "levels_ok ?deps levels lv"
    by auto
  then show ?thesis
    unfolding build_graph_def Let_def fst_conv snd_conv by auto
qed

lemma build_valid:
  assumes "valid_items items"
  shows "\<exists>ords. build items = build_graph items ords (deps_of items, dpts_of items) \<and>
    ords = map_of (zip (ids items) [0..<length items])"
proof -
  from assms obtain ords l where c: "check_ids 0 Map.empty items = Inr ords"
    and l: "link_items ords items (\<lambda>_. [], \<lambda>_. []) = Inr l" and ne: "items \<noteq> []"
    unfolding valid_items_iff by blast
  have "build items = build_graph items ords l"
    using c l ne by (simp add: build_def)
  moreover have "ords = map_of (zip (ids items) [0..<length items])"
    using c by (simp add: check_ids_Inr)
  moreover have "l = (deps_of items, dpts_of items)"
    using l by (simp add: link_items_Inr)
  ultimately show ?thesis by blast
qed

lemma build_invalid: "\<not> valid_items items \<Longrightarrow> build items \<noteq> Inr p"
  by (auto simp: build_def valid_items_iff)

lemma build_Inr_valid: "build items = Inr p \<Longrightarrow> valid_items items"
  using build_invalid by blast

lemma map_of_make_nodes:
  "map_of (make_nodes items ords lv l) x =
     (if x \<in> set (ids items)
      then Some \<lparr>node_id = x, node_ordinal = ordinal_of ords x, node_level = lv x,
                 node_depends_on = fst l x, node_dependents = snd l x\<rparr>
      else None)"
  by (induction items) (auto simp: make_nodes_def ids_def)

lemma build_plan:
  assumes "build items = Inr p"
  obtains lv ords where "levels_ok (deps_of items) (plan_levels p) lv"
    and "plan_start_order p = concat (plan_levels p)" and "plan_stop_order p = rev (plan_start_order p)"
    and "distinct (plan_start_order p)" and "set (plan_start_order p) = set (ids items)"
    and "ords = map_of (zip (ids items) [0..<length items])"
    and "\<And>x. plan_node p x =
      (if x \<in> set (ids items)
       then Some \<lparr>node_id = x, node_ordinal = ordinal_of ords x, node_level = lv x,
                  node_depends_on = deps_of items x,
                  node_dependents = sort_key (ordinal_of ords) (dpts_of items x)\<rparr>
       else None)"
proof -
  have valid: "valid_items items" using assms by (rule build_Inr_valid)
  obtain ords where b: "build items = build_graph items ords (deps_of items, dpts_of items)"
    and ords: "ords = map_of (zip (ids items) [0..<length items])"
    using build_valid [OF valid] by blast
  obtain rem' levels lv where inv: "kahn_inv (deps_of items) (ids items) (concat levels) [] rem'"
    and lvl: "levels_ok (deps_of items) levels lv"
    and len: "length (concat levels) = length items"
    and p: "p = \<lparr>plan_nodes = make_nodes items ords lv
                   (deps_of items, \<lambda>x. sort_key (ordinal_of ords) (dpts_of items x)),
                 plan_levels = levels, plan_start_order = concat levels,
                 plan_stop_order = rev (concat levels)\<rparr>"
    using build_graph_cases [OF valid, of ords] assms b by (auto split: if_splits)
  have d: "distinct (concat levels)" and sub: "set (concat levels) \<subseteq> set (ids items)"
    using inv by (auto simp: kahn_inv_def)
  have "card (set (concat levels)) = length items"
    using d len by (simp only: distinct_card)
  moreover have "card (set (ids items)) = length items"
    using valid distinct_card [of "ids items"] by (simp add: valid_items_def ids_def)
  ultimately have "card (set (concat levels)) = card (set (ids items))"
    by simp
  with sub have "set (concat levels) = set (ids items)"
    by (intro card_subset_eq) auto
  with lvl d ords show thesis
    by (intro that [of lv ords]) (simp_all add: p plan_node_def map_of_make_nodes)
qed

subsection \<open>The plan a client may rely on\<close>

text \<open>
  What the scheduler and the reconciler use of a plan: a start order without repetition that names
  exactly the nodes, dependencies that come before their dependants in it, levels that concatenate
  to it, and edges recorded at both ends.
\<close>

definition topo :: "(string \<Rightarrow> string list) \<Rightarrow> string list \<Rightarrow> bool" where
  "topo deps xs \<longleftrightarrow> (\<forall>i < length xs. set (deps (xs ! i)) \<subseteq> set (take i xs))"

definition plan_wf :: "plan \<Rightarrow> bool" where
  "plan_wf p \<longleftrightarrow> plan_start_order p \<noteq> [] \<and> distinct (plan_start_order p) \<and>
     (\<forall>x. x \<in> set (plan_start_order p) \<longleftrightarrow> plan_node p x \<noteq> None) \<and>
     topo (dependencies p) (plan_start_order p) \<and>
     plan_stop_order p = rev (plan_start_order p) \<and>
     concat (plan_levels p) = plan_start_order p \<and>
     (\<forall>x. distinct (dependencies p x) \<and> distinct (dependents p x)) \<and>
     (\<forall>d x. x \<in> set (dependents p d) \<longleftrightarrow> d \<in> set (dependencies p x))"

lemma topo_append:
  "topo deps (xs @ ys) \<longleftrightarrow> topo deps xs \<and>
     (\<forall>i < length ys. set (deps (ys ! i)) \<subseteq> set xs \<union> set (take i ys))"
proof -
  have "(\<forall>i < length (xs @ ys). P i) \<longleftrightarrow> (\<forall>i < length xs. P i) \<and> (\<forall>i < length ys. P (length xs + i))"
    for P :: "nat \<Rightarrow> bool"
    by (auto simp: less_diff_conv2 not_less dest!: le_Suc_ex) (metis add_diff_inverse_nat nat_add_left_cancel_less)
  from this [of "\<lambda>i. set (deps ((xs @ ys) ! i)) \<subseteq> set (take i (xs @ ys))"] show ?thesis
    by (simp add: topo_def nth_append)
qed

lemma levels_ok_snocD:
  assumes "levels_ok deps (ls @ [l]) lv"
  shows "levels_ok deps ls lv" and "x \<in> set l \<Longrightarrow> set (deps x) \<subseteq> set (concat ls)"
proof -
  note all = assms [unfolded levels_ok_def, rule_format]
  show "levels_ok deps ls lv"
    unfolding levels_ok_def
  proof (intro allI impI ballI)
    fix k x assume k: "k < length ls" and x: "x \<in> set (ls ! k)"
    then have "(ls @ [l]) ! k = ls ! k" and "(ls @ [l]) ! (k - 1) = ls ! (k - 1)"
      and "take k (ls @ [l]) = take k ls"
      by (auto simp: nth_append)
    with all [of k x] k x show "lv x = k \<and> set (deps x) \<subseteq> set (concat (take k ls)) \<and>
        (0 < k \<longrightarrow> set (deps x) \<inter> set (ls ! (k - 1)) \<noteq> {})"
      by simp
  qed
  show "set (deps x) \<subseteq> set (concat ls)" if "x \<in> set l"
    using all [of "length ls" x] that by simp
qed

lemma topo_concat_levels:
  assumes "levels_ok deps levels lv"
  shows "topo deps (concat levels)"
  using assms
proof (induction levels rule: rev_induct)
  case Nil
  then show ?case by (simp add: topo_def)
next
  case (snoc l ls)
  note k = levels_ok_snocD [OF snoc.prems]
  have "set (deps (l ! i)) \<subseteq> set (concat ls) \<union> set (take i l)" if "i < length l" for i
    using k(2) [OF nth_mem [OF that]] by blast
  then show ?case
    using snoc.IH [OF k(1)] by (simp add: topo_append del: set_concat)
qed

lemma build_wf:
  assumes "build items = Inr p"
  shows "plan_wf p"
proof -
  have valid: "valid_items items" using assms by (rule build_Inr_valid)
  obtain lv ords where lvl: "levels_ok (deps_of items) (plan_levels p) lv"
    and conc: "plan_start_order p = concat (plan_levels p)" and stop: "plan_stop_order p = rev (plan_start_order p)"
    and dist: "distinct (plan_start_order p)" and set: "set (plan_start_order p) = set (ids items)"
    and node: "\<And>x. plan_node p x =
      (if x \<in> set (ids items)
       then Some \<lparr>node_id = x, node_ordinal = ordinal_of ords x, node_level = lv x,
                  node_depends_on = deps_of items x,
                  node_dependents = sort_key (ordinal_of ords) (dpts_of items x)\<rparr>
       else None)"
    using build_plan [OF assms] by metis
  have g: "graph_ok (deps_of items) (\<lambda>x. sort_key (ordinal_of ords) (dpts_of items x)) (ids items)"
    by (rule graph_ok_items [OF valid])
  have deps: "dependencies p = deps_of items"
    using deps_of_outside by (fastforce simp: dependencies_def node)
  have dpts: "dependents p x = sort_key (ordinal_of ords) (dpts_of items x)" for x
  proof (cases "x \<in> set (ids items)")
    case False
    have "y \<notin> set (dpts_of items x)" for y
      using False g unfolding graph_ok_def set_sort by blast
    then have "dpts_of items x = []"
      by (metis list.set_intros(1) neq_Nil_conv)
    with False show ?thesis by (simp add: dependents_def node)
  qed (simp add: dependents_def node)
  have "plan_start_order p \<noteq> []"
    using set valid by (auto simp: valid_items_def ids_def)
  moreover have "topo (dependencies p) (plan_start_order p)"
    unfolding deps conc by (rule topo_concat_levels [OF lvl])
  ultimately show ?thesis
    using g dist set conc stop by (auto simp: plan_wf_def graph_ok_def deps dpts node)
qed

lemma build_start_set: "build items = Inr p \<Longrightarrow> set (plan_start_order p) = set (ids items)"
  by (erule build_plan) blast

lemma build_dependencies: "build items = Inr p \<Longrightarrow> dependencies p x = deps_of items x"
  using deps_of_outside [of x items] by (elim build_plan) (auto simp: dependencies_def)

lemma levels_ok_deps:
  assumes "levels_ok deps levels lv" and "k < length levels" and "x \<in> set (levels ! k)" and "d \<in> set (deps x)"
  shows "lv d < k"
proof -
  have "set (deps x) \<subseteq> set (concat (take k levels))"
    using assms(1-3) by (simp add: levels_ok_def del: set_concat)
  with assms(4) obtain j where "j < k" "j < length levels" "d \<in> set (levels ! j)"
    by (force simp: in_concat_nth simp del: set_concat)
  then show ?thesis using assms(1) by (simp add: levels_ok_def)
qed

lemma level_recursion:
  assumes ok: "levels_ok deps levels lv" and k: "k < length levels" and x: "x \<in> set (levels ! k)"
  shows "k = (if deps x = [] then 0 else Suc (Max (lv ` set (deps x))))"
proof (cases k)
  case 0
  then have "deps x = []"
    using levels_ok_deps [OF ok k x, of "hd (deps x)"] by (cases "deps x") auto
  then show ?thesis using 0 by simp
next
  case (Suc m)
  have "set (deps x) \<inter> set (levels ! m) \<noteq> {}"
    using ok k x Suc by (auto simp: levels_ok_def)
  then obtain d where d: "d \<in> set (deps x)" "d \<in> set (levels ! m)" by blast
  then have "lv d = m" using ok k Suc by (auto simp: levels_ok_def)
  moreover have "lv e \<le> m" if "e \<in> set (deps x)" for e
    using levels_ok_deps [OF ok k x that] Suc by simp
  ultimately have "Max (lv ` set (deps x)) = m"
    using d by (intro Max_eqI) auto
  then show ?thesis using Suc d by auto
qed

text \<open>The errors of the level loop, as against those of the validation before it.\<close>

fun loop_error :: "plan_error \<Rightarrow> bool" where
  "loop_error OutOfFuel = True"
| "loop_error (DependencyCycle xs) = True"
| "loop_error e = False"

lemma check_ids_error: "check_ids k ords items = Inl e \<Longrightarrow> \<not> loop_error e"
  by (induction items arbitrary: k ords) (auto split: if_splits)

lemma link_deps_error: "link_deps ords me seen ds l = Inl e \<Longrightarrow> \<not> loop_error e"
  by (induction ords me seen ds l rule: link_deps.induct) (auto split: if_splits)

lemma link_items_error: "link_items ords items l = Inl e \<Longrightarrow> \<not> loop_error e"
  by (induction items arbitrary: l) (auto simp: bindE_Inl_conv dest: link_deps_error)

lemma build_loop_error: "build items = Inl e \<Longrightarrow> loop_error e \<Longrightarrow> valid_items items"
  unfolding valid_items_iff
  by (auto simp: build_def bindE_Inl_conv dest: check_ids_error link_items_error split: if_splits)

lemma build_not_out_of_fuel: "build items \<noteq> Inl OutOfFuel"
proof
  assume oof: "build items = Inl OutOfFuel"
  then have valid: "valid_items items" by (rule build_loop_error) simp
  then obtain ords where "build items = build_graph items ords (deps_of items, dpts_of items)"
    using build_valid by blast
  with build_graph_cases [OF valid, of ords] oof show False
    by (auto split: if_splits)
qed

lemma build_acyclic_Inr:
  assumes valid: "valid_items items" and "acyclic (dep_rel items)"
  shows "\<exists>p. build items = Inr p"
proof -
  obtain ords where b: "build items = build_graph items ords (deps_of items, dpts_of items)"
    using build_valid [OF valid] by blast
  from build_graph_cases [OF valid, of ords] obtain rem' levels where
    inv: "kahn_inv (deps_of items) (ids items) (concat levels) [] rem'"
    and ok: "length (concat levels) = length items \<Longrightarrow> \<exists>p. build items = Inr p"
    unfolding b by auto
  have "set (concat levels) = set (ids items)"
    by (rule acyclic_all_started [OF assms(2) valid inv])
  moreover have "distinct (concat levels)" and "distinct (ids items)"
    using inv valid by (simp_all add: kahn_inv_def valid_items_def)
  ultimately have "length (concat levels) = length (ids items)"
    by (metis distinct_card)
  then show ?thesis using ok by (simp add: ids_def)
qed

lemma build_sound:
  assumes "build items = Inr p"
  shows "valid_items items \<and> acyclic (dep_rel items)"
proof -
  obtain lv where "levels_ok (deps_of items) (plan_levels p) lv"
      and "set (concat (plan_levels p)) = set (ids items)"
    using build_plan [OF assms] by metis
  then show ?thesis using build_Inr_valid [OF assms] levels_ok_acyclic by blast
qed

lemma stuck_waits:
  assumes inv: "kahn_inv (deps_of items) (ids items) start [] rem" and x: "x \<in> set (ids items)"
    and "rem x \<noteq> 0" and valid: "valid_items items"
  shows "\<exists>d \<in> set (ids items). rem d \<noteq> 0 \<and> (d, x) \<in> dep_rel items"
proof -
  have "card (set (deps_of items x) - set start) \<noteq> 0"
    using assms by (simp add: kahn_inv_def)
  then obtain d where d: "d \<in> set (deps_of items x)" "d \<notin> set start"
    by (metis DiffE card_0_eq card.infinite equals0I)
  moreover have "d \<in> set (ids items)"
    using d graph_ok_items [OF valid] by (auto simp: graph_ok_def)
  moreover from this d have "rem d \<noteq> 0"
    using inv by (auto simp: kahn_inv_def)
  ultimately show ?thesis by (auto simp: dep_rel_deps_of)
qed

text \<open>A node is stuck when it lies on a cycle or depends, through any number of nodes, on one that does.\<close>

definition stuck :: "item list \<Rightarrow> string \<Rightarrow> bool" where
  "stuck items x \<longleftrightarrow> (\<exists>c. (c, c) \<in> (dep_rel items)\<^sup>+ \<and> (c, x) \<in> (dep_rel items)\<^sup>*)"

text \<open>In a finite set in which every node waits for another, every node is reached from a cycle.\<close>

lemma waits_cycle:
  assumes fin: "finite X" and waits: "\<forall>x \<in> X. \<exists>d \<in> X. (d, x) \<in> R" and x: "x \<in> X"
  shows "\<exists>c. (c, c) \<in> R\<^sup>+ \<and> (c, x) \<in> R\<^sup>*"
proof -
  obtain f where f: "\<And>y. y \<in> X \<Longrightarrow> f y \<in> X \<and> (f y, y) \<in> R" using waits by metis
  have it: "(f ^^ n) x \<in> X \<and> ((f ^^ n) x, x) \<in> R\<^sup>*" for n
    by (induction n) (auto simp: x dest: f intro: converse_rtrancl_into_rtrancl)
  have pre: "((f ^^ (i + Suc k)) x, (f ^^ i) x) \<in> R\<^sup>+" for i k
  proof (induction k)
    case 0
    show ?case using f [of "(f ^^ i) x"] it [of i] by auto
  next
    case (Suc k)
    have "((f ^^ (i + Suc (Suc k))) x, (f ^^ (i + Suc k)) x) \<in> R" using f [of "(f ^^ (i + Suc k)) x"] it [of "i + Suc k"] by simp
    with Suc show ?case by (rule trancl_into_trancl2 [rotated])
  qed
  have "\<not> inj (\<lambda>n. (f ^^ n) x)"
  proof
    assume "inj (\<lambda>n. (f ^^ n) x)"
    then have "infinite (range (\<lambda>n. (f ^^ n) x))" by (simp add: finite_image_iff)
    moreover have "range (\<lambda>n. (f ^^ n) x) \<subseteq> X" using it by blast
    ultimately show False using fin finite_subset by blast
  qed
  then obtain i j where "i < j" "(f ^^ i) x = (f ^^ j) x" by (metis injI linorder_neqE_nat)
  then obtain k where "(f ^^ (i + Suc k)) x = (f ^^ i) x" using less_imp_Suc_add [of i j] by (metis add_Suc_right)
  then have "((f ^^ i) x, (f ^^ i) x) \<in> R\<^sup>+" using pre [of i k] by simp
  then show ?thesis using it by blast
qed

lemma levels_closed:
  assumes ok: "levels_ok (deps_of items) levels lv" and "(d, x) \<in> dep_rel items" and "x \<in> set (concat levels)"
  shows "d \<in> set (concat levels) \<and> lv d < lv x"
proof -
  obtain k where k: "k < length levels" "x \<in> set (levels ! k)"
    using assms(3) by (auto simp: in_concat_nth simp del: set_concat)
  have x: "lv x = k" "set (deps_of items x) \<subseteq> set (concat (take k levels))"
    using ok k by (auto simp: levels_ok_def simp del: set_concat)
  then have d: "d \<in> set (concat (take k levels))" using assms(2) unfolding dep_rel_deps_of by blast
  then obtain j where j: "j < k" "d \<in> set (levels ! j)" using k(1) by (auto simp: in_concat_nth simp del: set_concat)
  then have "lv d = j" using ok k(1) by (simp add: levels_ok_def)
  moreover have "d \<in> set (concat levels)" using d set_take_subset [of k levels] by auto
  ultimately show ?thesis using j(1) x(1) by simp
qed

lemma levels_not_stuck:
  assumes ok: "levels_ok (deps_of items) levels lv" and x: "x \<in> set (concat levels)"
  shows "\<not> stuck items x"
proof
  assume "stuck items x"
  then obtain c where c: "(c, c) \<in> (dep_rel items)\<^sup>+" "(c, x) \<in> (dep_rel items)\<^sup>*" by (auto simp: stuck_def)
  have "c \<in> set (concat levels)" using c(2) x
    by (induction rule: converse_rtrancl_induct) (auto dest: levels_closed [OF ok] simp del: set_concat)
  moreover have "d \<in> set (concat levels) \<and> lv d < lv y" if "(d, y) \<in> (dep_rel items)\<^sup>+" "y \<in> set (concat levels)" for d y
    using that
  proof (induction rule: converse_trancl_induct)
    case (step d e)
    then show ?case using levels_closed [OF ok, of d e] by (metis order.strict_trans)
  qed (use levels_closed [OF ok] in blast)
  ultimately show False using c(1) by blast
qed

lemma rem_stuck:
  assumes inv: "kahn_inv (deps_of items) (ids items) (concat levels) [] rem" and ok: "levels_ok (deps_of items) levels lv"
    and valid: "valid_items items" and x: "x \<in> set (ids items)"
  shows "rem x \<noteq> 0 \<longleftrightarrow> stuck items x"
proof
  assume "rem x \<noteq> 0"
  moreover have "finite {y \<in> set (ids items). rem y \<noteq> 0}" by simp
  ultimately show "stuck items x" unfolding stuck_def
    using waits_cycle [of "{y \<in> set (ids items). rem y \<noteq> 0}" "dep_rel items" x] stuck_waits [OF inv _ _ valid] x by blast
next
  assume "stuck items x"
  then have "x \<notin> set (concat levels)" using levels_not_stuck [OF ok] by blast
  then show "rem x \<noteq> 0" using inv x unfolding kahn_inv_def by (metis empty_iff list.set(1))
qed

text \<open>What \<^verbatim>\<open>Build\<close> makes of a valid input.\<close>

lemma build_valid_cases:
  assumes valid: "valid_items items"
  shows "(\<exists>p. build items = Inr p) \<and> acyclic (dep_rel items) \<or>
    build items = Inl (DependencyCycle (filter (stuck items) (ids items))) \<and> \<not> acyclic (dep_rel items)"
proof -
  obtain ords where b: "build items = build_graph items ords (deps_of items, dpts_of items)"
    using build_valid [OF valid] by blast
  from build_graph_cases [OF valid, of ords] obtain rem' levels lv where
    inv: "kahn_inv (deps_of items) (ids items) (concat levels) [] rem'" and ok: "levels_ok (deps_of items) levels lv"
    and c: "(\<exists>p. build items = Inr p) \<or> build items = Inl (DependencyCycle (filter (\<lambda>x. rem' x \<noteq> 0) (ids items)))"
    unfolding b by (auto simp: ids_def filter_map comp_def)
  have "filter (\<lambda>x. rem' x \<noteq> 0) (ids items) = filter (stuck items) (ids items)"
    using rem_stuck [OF inv ok valid] by (intro filter_cong) simp_all
  moreover have "\<not> acyclic (dep_rel items)" if "build items = Inl e" for e using build_acyclic_Inr [OF valid] that by auto
  ultimately show ?thesis using c build_sound by metis
qed

subsection \<open>The interface of the planner\<close>

text \<open>
  The clients of the planner (the scheduler, \<^verbatim>\<open>Collapse\<close>, the reconciler) call \<^verbatim>\<open>Build\<close> and read
  the plan back. They rely on no more than the laws below.
\<close>

locale planner =
  fixes mk :: "item list \<Rightarrow> (plan_error, plan) result"
  assumes mk_wf: "mk items = Inr p \<Longrightarrow> plan_wf p"
    and mk_nodes: "mk items = Inr p \<Longrightarrow> set (plan_start_order p) = set (ids items)"
    and mk_deps: "mk items = Inr p \<Longrightarrow> it \<in> set items \<Longrightarrow> dependencies p (item_id it) = depends_on it"
    and mk_total: "valid_items items \<Longrightarrow> acyclic (dep_rel items) \<Longrightarrow> \<exists>p. mk items = Inr p"
    and mk_sound: "mk items = Inr p \<Longrightarrow> valid_items items \<and> acyclic (dep_rel items)"
begin

lemma mk_dep_before:
  assumes "mk items = Inr p" and "it \<in> set items" and "d \<in> set (depends_on it)"
  shows "\<exists>i j. i < j \<and> j < length (plan_start_order p) \<and> plan_start_order p ! i = d
    \<and> plan_start_order p ! j = item_id it"
proof -
  have "item_id it \<in> set (plan_start_order p)"
    using assms(1,2) mk_nodes by (auto simp: ids_def)
  then obtain j where j: "j < length (plan_start_order p)" "plan_start_order p ! j = item_id it"
    by (auto simp: in_set_conv_nth)
  moreover have "set (dependencies p (plan_start_order p ! j)) \<subseteq> set (take j (plan_start_order p))"
    using mk_wf [OF assms(1)] j(1) by (simp add: plan_wf_def topo_def)
  ultimately have "d \<in> set (take j (plan_start_order p))"
    using mk_deps [OF assms(1,2)] assms(3) by auto
  then obtain i where "i < j" "plan_start_order p ! i = d"
    by (auto simp: in_set_conv_nth)
  with j show ?thesis by blast
qed

end

interpretation dp: planner build
proof unfold_locales
  fix items p assume b: "build items = Inr p"
  show "plan_wf p" using b by (rule build_wf)
  show "set (plan_start_order p) = set (ids items)" using b by (rule build_start_set)
  show "valid_items items \<and> acyclic (dep_rel items)" using b by (rule build_sound)
next
  fix items p it assume "build items = Inr p" and "it \<in> set items"
  then show "dependencies p (item_id it) = depends_on it"
    using build_Inr_valid [of items p]
    by (simp add: build_dependencies deps_of_item valid_items_def)
next
  fix items assume "valid_items items" and "acyclic (dep_rel items)"
  then show "\<exists>p. build items = Inr p" by (rule build_acyclic_Inr)
qed

subsection \<open>Properties\<close>

text \<open>C12: \<^verbatim>\<open>Build\<close> succeeds exactly on inputs that are valid (at least one node, no blank and no
  repeated identifiers, every dependency declared, listed once and not the node itself) and whose
  dependency relation has no cycle.\<close>

theorem build_succeeds_iff:
  "(\<exists>p. build items = Inr p) \<longleftrightarrow> valid_items items \<and> acyclic (dep_rel items)"
  using dp.mk_sound dp.mk_total by blast

text \<open>C29: The start order of a successful \<^verbatim>\<open>Build\<close> lists every declared node exactly once, each
  after all of its dependencies, and the stop order is its reverse.\<close>

theorem build_topological:
  assumes "build items = Inr p"
  shows "distinct (plan_start_order p) \<and> set (plan_start_order p) = set (ids items) \<and>
    (\<forall>it \<in> set items. \<forall>d \<in> set (depends_on it). \<exists>i j. i < j \<and> j < length (plan_start_order p) \<and>
       plan_start_order p ! i = d \<and> plan_start_order p ! j = item_id it) \<and>
    plan_stop_order p = rev (plan_start_order p)"
  using dp.mk_wf [OF assms] dp.mk_nodes [OF assms] dp.mk_dep_before [OF assms]
  unfolding plan_wf_def by blast

text \<open>The level \<^verbatim>\<open>Build\<close> records for a node is the length of its longest dependency chain:
  zero without dependencies, and one more than the highest level of a dependency otherwise; the
  levels of the plan group the nodes by that number.\<close>

theorem build_level:
  assumes "build items = Inr p" and "it \<in> set items"
  shows "\<exists>n. plan_node p (item_id it) = Some n \<and>
    node_level n = (if depends_on it = [] then 0
      else Suc (Max ((\<lambda>d. node_level (the (plan_node p d))) ` set (depends_on it)))) \<and>
    node_level n < length (plan_levels p) \<and> item_id it \<in> set (plan_levels p ! node_level n)"
proof -
  obtain lv ords where lvl: "levels_ok (deps_of items) (plan_levels p) lv"
    and conc: "plan_start_order p = concat (plan_levels p)"
    and set: "set (plan_start_order p) = set (ids items)"
    and node: "\<And>x. plan_node p x =
      (if x \<in> set (ids items)
       then Some \<lparr>node_id = x, node_ordinal = ordinal_of ords x, node_level = lv x,
                  node_depends_on = deps_of items x,
                  node_dependents = sort_key (ordinal_of ords) (dpts_of items x)\<rparr>
       else None)"
    using build_plan [OF assms(1)] by metis
  have valid: "valid_items items" using assms(1) by (rule build_Inr_valid)
  have x: "item_id it \<in> set (ids items)" using assms(2) by (auto simp: ids_def)
  have deps: "deps_of items (item_id it) = depends_on it"
    using valid assms(2) by (simp add: deps_of_item valid_items_def)
  have sub: "set (depends_on it) \<subseteq> set (ids items)"
    using valid assms(2) by (simp add: valid_items_def)
  have lv_max: "k < length (plan_levels p) \<Longrightarrow> item_id it \<in> set (plan_levels p ! k) \<Longrightarrow>
      k = (if depends_on it = [] then 0 else Suc (Max (lv ` set (depends_on it))))" for k
    using level_recursion [OF lvl] deps by metis
  have "item_id it \<in> set (concat (plan_levels p))"
    using x set conc by simp
  then obtain k where k: "k < length (plan_levels p)" "item_id it \<in> set (plan_levels p ! k)"
    unfolding in_concat_nth by blast
  then have "lv (item_id it) = k" using lvl by (simp add: levels_ok_def)
  moreover have "(\<lambda>d. node_level (the (plan_node p d))) ` set (depends_on it) = lv ` set (depends_on it)"
    using sub by (intro image_cong) (auto simp: node)
  ultimately show ?thesis
    using k lv_max [OF k] x by (simp add: node)
qed

text \<open>C39: \<^verbatim>\<open>Build\<close> reports a dependency cycle exactly for valid inputs with a cycle, and the report is
  exact: it names, in the order of the input, the nodes that lie on a cycle or depend, through any
  number of nodes, on one that does. So every node it names waits for another that it names, and no
  node that could have started is named and none that could not is missing.\<close>

theorem build_cycle_report:
  "((\<exists>xs. build items = Inl (DependencyCycle xs)) \<longleftrightarrow> valid_items items \<and> \<not> acyclic (dep_rel items)) \<and>
   (\<forall>xs. build items = Inl (DependencyCycle xs) \<longrightarrow>
      xs = filter (\<lambda>x. \<exists>c. (c, c) \<in> (dep_rel items)\<^sup>+ \<and> (c, x) \<in> (dep_rel items)\<^sup>*) (ids items) \<and> xs \<noteq> [] \<and>
      (\<forall>x \<in> set xs. \<exists>d \<in> set xs. (d, x) \<in> dep_rel items))"
proof -
  have valid: "valid_items items" if "build items = Inl (DependencyCycle xs)" for xs using that by (rule build_loop_error) simp
  have xs: "xs = filter (stuck items) (ids items) \<and> \<not> acyclic (dep_rel items)" if "build items = Inl (DependencyCycle xs)" for xs
    using build_valid_cases [OF valid [OF that]] that by auto
  have pre: "\<exists>d \<in> set (ids items). stuck items d \<and> (d, x) \<in> dep_rel items" if v: "valid_items items" and s: "stuck items x" for x
  proof -
    obtain c where c: "(c, c) \<in> (dep_rel items)\<^sup>+" "(c, x) \<in> (dep_rel items)\<^sup>*" using s by (auto simp: stuck_def)
    then have "(c, x) \<in> (dep_rel items)\<^sup>+" by (simp add: trancl_rtrancl_trancl)
    then obtain d where d: "(c, d) \<in> (dep_rel items)\<^sup>*" "(d, x) \<in> dep_rel items" by (metis tranclD2)
    then have "d \<in> set (ids items)" using graph_ok_items [OF v] deps_of_outside [of x items] by (force simp: graph_ok_def dep_rel_deps_of)
    then show ?thesis using c(1) d by (auto simp: stuck_def)
  qed
  have some: "filter (stuck items) (ids items) \<noteq> []" if v: "valid_items items" and c: "\<not> acyclic (dep_rel items)"
  proof -
    obtain c where "(c, c) \<in> (dep_rel items)\<^sup>+" using c by (auto simp: acyclic_def)
    then have "stuck items c" by (auto simp: stuck_def)
    from pre [OF v this] show ?thesis by (auto simp: filter_empty_conv)
  qed
  have iff: "(\<exists>xs. build items = Inl (DependencyCycle xs)) \<longleftrightarrow> valid_items items \<and> \<not> acyclic (dep_rel items)"
    using build_valid_cases valid xs by blast
  have "xs = filter (stuck items) (ids items) \<and> xs \<noteq> [] \<and> (\<forall>x \<in> set xs. \<exists>d \<in> set xs. (d, x) \<in> dep_rel items)"
    if r: "build items = Inl (DependencyCycle xs)" for xs
    using xs [OF r] some [OF valid [OF r]] pre [OF valid [OF r]] by auto
  with iff show ?thesis by (simp add: stuck_def [abs_def])
qed

subsection \<open>Concrete runs\<close>

definition demo_items :: "item list" where
  "demo_items =
     [\<lparr>item_id = ''web'', depends_on = [''db'', ''auth'']\<rparr>,
      \<lparr>item_id = ''auth'', depends_on = [''db'']\<rparr>,
      \<lparr>item_id = ''db'', depends_on = []\<rparr>]"

definition demo_plan :: plan where
  "demo_plan = projr (build demo_items)"

definition demo_cycle :: "item list" where
  "demo_cycle =
     [\<lparr>item_id = ''a'', depends_on = [''b'']\<rparr>, \<lparr>item_id = ''b'', depends_on = [''a'']\<rparr>,
      \<lparr>item_id = ''c'', depends_on = []\<rparr>, \<lparr>item_id = ''d'', depends_on = [''c'', ''a'']\<rparr>]"

lemma demo_build: "build demo_items = Inr demo_plan"
  unfolding demo_plan_def by (rule Inr_projr) code_simp

theorem build_topological_witness:
  "build demo_items = Inr demo_plan \<and> plan_start_order demo_plan = [''db'', ''auth'', ''web''] \<and>
   distinct (plan_start_order demo_plan) \<and> plan_stop_order demo_plan = [''web'', ''auth'', ''db'']"
proof -
  have "plan_start_order demo_plan = [''db'', ''auth'', ''web'']" by code_simp
  with build_topological [OF demo_build] demo_build show ?thesis by simp
qed

theorem build_level_witness:
  "\<exists>n. plan_node demo_plan ''web'' = Some n \<and> node_level n = 2 \<and>
     ''web'' \<in> set (plan_levels demo_plan ! node_level n)"
proof -
  let ?it = "\<lparr>item_id = ''web'', depends_on = [''db'', ''auth'']\<rparr>"
  have "?it \<in> set demo_items" by (simp add: demo_items_def)
  moreover have "node_level (the (plan_node demo_plan ''db'')) = 0" by code_simp
  moreover have "node_level (the (plan_node demo_plan ''auth'')) = 1" by code_simp
  ultimately show ?thesis
    using build_level [OF demo_build, of ?it] by auto
qed

theorem build_cycle_report_witness:
  "(\<exists>c. (c, c) \<in> (dep_rel demo_cycle)\<^sup>+ \<and> (c, ''d'') \<in> (dep_rel demo_cycle)\<^sup>*) \<and> \<not> acyclic (dep_rel demo_cycle)"
proof -
  have c: "build demo_cycle = Inl (DependencyCycle [''a'', ''b'', ''d''])" by code_simp
  then have "\<not> acyclic (dep_rel demo_cycle)" using build_cycle_report [of demo_cycle] by blast
  moreover have xs: "[''a'', ''b'', ''d''] = filter (\<lambda>x. \<exists>c. (c, c) \<in> (dep_rel demo_cycle)\<^sup>+ \<and> (c, x) \<in> (dep_rel demo_cycle)\<^sup>*) (ids demo_cycle)"
    using build_cycle_report [of demo_cycle] c by blast
  have "''d'' \<in> set [''a'', ''b'', ''d'']" by simp
  then have "\<exists>c. (c, c) \<in> (dep_rel demo_cycle)\<^sup>+ \<and> (c, ''d'') \<in> (dep_rel demo_cycle)\<^sup>*"
    unfolding xs set_filter by blast
  ultimately show ?thesis by blast
qed

end
