(* ===== verification/Registry_Version.thy ===== *)
theory Registry_Version
  imports Pulp_Prelude "HOL-Library.Product_Lexorder"
begin

text \<open>
  The identifiers of the module registry, \<^verbatim>\<open>src/registry/model.go\<close>: module names, content digests,
  versions with their order, and version requirements. Version numbers are 64-bit words; the upper bound
  of a requirement is computed with wrap-around, as in the code.
\<close>

subsection \<open>Module identifiers\<close>

definition lower_alnum :: "char \<Rightarrow> bool" where
  "lower_alnum c \<longleftrightarrow> is_digit c \<or> (97 \<le> (of_char c :: nat) \<and> (of_char c :: nat) \<le> 122)"

lemma lower_alnum_code [code]: "lower_alnum c \<longleftrightarrow> is_digit c \<or> (let n = of_char c :: int in 97 \<le> n \<and> n \<le> 122)"
  unfolding lower_alnum_def Let_def of_char_int by auto

text \<open>The pattern \<^verbatim>\<open>^[a-z0-9](?:[a-z0-9._/-]*[a-z0-9])?$\<close>.\<close>

definition module_id_pattern :: "string \<Rightarrow> bool" where
  "module_id_pattern s \<longleftrightarrow> s \<noteq> [] \<and> lower_alnum (hd s) \<and> lower_alnum (last s) \<and>
     list_all (\<lambda>c. lower_alnum c \<or> c \<in> set ''._/-'') s"

definition parse_module_id :: "string \<Rightarrow> string option" where
  "parse_module_id t =
     (let s = trim_space t
      in if length s = 0 \<or> length s > 255 \<or> \<not> module_id_pattern s \<or> contains s ''..'' \<or> contains s ''//''
         then None else Some s)"

subsection \<open>Digests\<close>

type_synonym digest = "8 word list"

definition hex_digit :: "nat \<Rightarrow> char" where
  "hex_digit n = (if n < 10 then char_of (48 + n) else char_of (87 + n))"

definition hex_val :: "char \<Rightarrow> nat option" where
  "hex_val c =
     (let n = of_char c
      in if 48 \<le> n \<and> n \<le> 57 then Some (n - 48)
         else if 97 \<le> n \<and> n \<le> 102 then Some (n - 87)
         else if 65 \<le> n \<and> n \<le> 70 then Some (n - 55) else None)"

fun hex_encode :: "8 word list \<Rightarrow> string" where
  "hex_encode [] = []"
| "hex_encode (b # bs) = hex_digit (unat b div 16) # hex_digit (unat b mod 16) # hex_encode bs"

fun hex_decode :: "string \<Rightarrow> 8 word list option" where
  "hex_decode [] = Some []"
| "hex_decode [c] = None"
| "hex_decode (c # d # s) =
     (case (hex_val c, hex_val d) of
        (Some h, Some l) \<Rightarrow> map_option ((#) (word_of_nat (16 * h + l))) (hex_decode s)
      | _ \<Rightarrow> None)"

text \<open>Faster equations for evaluation.\<close>

lemma hex_encode_code [code]:
  "hex_encode [] = []"
  "hex_encode (b # bs) = (let i = uint b in ''0123456789abcdef'' ! nat (i div 16) # ''0123456789abcdef'' ! nat (i mod 16) # hex_encode bs)"
proof -
  have "list_all (\<lambda>n. hex_digit n = ''0123456789abcdef'' ! n) [0..<16]" by code_simp
  then have digit: "hex_digit n = ''0123456789abcdef'' ! n" if "n < 16" for n using that by (simp only: list_all_iff) auto
  have "unat b < 16 * 16" using unsigned_less [of b] by simp
  then have "unat b div 16 < 16" by (simp add: less_mult_imp_div_less)
  moreover have "nat (uint b div 16) = unat b div 16" "nat (uint b mod 16) = unat b mod 16"
    by (simp_all add: nat_div_distrib nat_mod_distrib)
  ultimately show "hex_encode (b # bs) = (let i = uint b in ''0123456789abcdef'' ! nat (i div 16) # ''0123456789abcdef'' ! nat (i mod 16) # hex_encode bs)"
    by (simp add: digit Let_def)
qed simp

lemma hex_val_code [code]:
  "hex_val c =
     (let n = of_char c :: int
      in if 48 \<le> n \<and> n \<le> 57 then Some (nat (n - 48))
         else if 97 \<le> n \<and> n \<le> 102 then Some (nat (n - 87))
         else if 65 \<le> n \<and> n \<le> 70 then Some (nat (n - 55)) else None)"
  unfolding hex_val_def Let_def of_char_int by auto

definition digest_string :: "digest \<Rightarrow> string" where
  "digest_string d = ''sha256:'' @ hex_encode d"

definition parse_digest :: "string \<Rightarrow> digest option" where
  "parse_digest t =
     (let s = trim_space t
      in if \<not> prefix ''sha256:'' s then None
         else case hex_decode (trim_prefix ''sha256:'' s) of
                None \<Rightarrow> None
              | Some b \<Rightarrow> if length b \<noteq> 32 then None else Some b)"

subsection \<open>Versions\<close>

record version =
  v_major :: "64 word"
  v_minor :: "64 word"
  v_patch :: "64 word"
  v_pre :: string

datatype version_error = BuildMetadata string | InvalidVersion string | NumericPrerelease string | NotThreeParts string

definition identifier_char :: "char \<Rightarrow> bool" where
  "identifier_char c \<longleftrightarrow> c = CHR ''-'' \<or> is_digit c \<or> (65 \<le> (of_char c :: nat) \<and> (of_char c :: nat) \<le> 90)
     \<or> (97 \<le> (of_char c :: nat) \<and> (of_char c :: nat) \<le> 122)"

lemma identifier_char_code [code]:
  "identifier_char c \<longleftrightarrow> c = CHR ''-'' \<or> is_digit c \<or> (let n = of_char c :: int in 65 \<le> n \<and> n \<le> 90 \<or> 97 \<le> n \<and> n \<le> 122)"
  unfolding identifier_char_def Let_def of_char_int by auto

definition check_identifier :: "string \<Rightarrow> string \<Rightarrow> (version_error, unit) result" where
  "check_identifier s i =
     (if i = [] then Inl (InvalidVersion s)
      else if \<not> list_all identifier_char i then Inl (InvalidVersion s)
      else if length i > 1 \<and> hd i = CHR ''0'' \<and> parse_uint i \<noteq> None then Inl (NumericPrerelease s)
      else Inr ())"

definition check_pre :: "string \<Rightarrow> string \<Rightarrow> (version_error, unit) result" where
  "check_pre s pre = (if pre = [] then Inl (InvalidVersion s)
     else bindE (mapM (check_identifier s) (split_on (CHR ''.'') pre)) (\<lambda>_. Inr ()))"

definition parse_number :: "string \<Rightarrow> string \<Rightarrow> (version_error, 64 word) result" where
  "parse_number s p =
     (if p = [] \<or> (length p > 1 \<and> hd p = CHR ''0'') then Inl (InvalidVersion s)
      else case parse_uint p of None \<Rightarrow> Inl (InvalidVersion s) | Some n \<Rightarrow> Inr n)"

text \<open>The text up to the first hyphen, and the text after it if there is one.\<close>

definition cut_hyphen :: "string \<Rightarrow> string \<times> string option" where
  "cut_hyphen s = (takeWhile (\<lambda>c. c \<noteq> CHR ''-'') s,
     case dropWhile (\<lambda>c. c \<noteq> CHR ''-'') s of [] \<Rightarrow> None | _ # pre \<Rightarrow> Some pre)"

definition parse_version :: "string \<Rightarrow> (version_error, version) result" where
  "parse_version t =
     (let s = trim_space (trim_prefix ''v'' t); (main, pre) = cut_hyphen s
      in if CHR ''+'' \<in> set s then Inl (BuildMetadata s)
         else bindE (case pre of None \<Rightarrow> Inr () | Some q \<Rightarrow> check_pre s q) (\<lambda>_.
              case split_on (CHR ''.'') main of
                [a, b, c] \<Rightarrow>
                  bindE (parse_number s a) (\<lambda>x. bindE (parse_number s b) (\<lambda>y. bindE (parse_number s c) (\<lambda>z.
                    Inr \<lparr>v_major = x, v_minor = y, v_patch = z, v_pre = (case pre of None \<Rightarrow> [] | Some q \<Rightarrow> q)\<rparr>)))
              | _ \<Rightarrow> Inl (NotThreeParts s)))"

definition version_string :: "version \<Rightarrow> string" where
  "version_string v =
     show_nat (unat (v_major v)) @ ''.'' @ show_nat (unat (v_minor v)) @ ''.'' @ show_nat (unat (v_patch v))
       @ (if v_pre v = [] then [] else ''-'' @ v_pre v)"

text \<open>\<^verbatim>\<open>strings.Compare\<close>, and the loop over the dot-separated identifiers of two prereleases.\<close>

definition compare_strings :: "string \<Rightarrow> string \<Rightarrow> int" where
  "compare_strings a b = (if a = b then 0 else if a < b then -1 else 1)"

fun compare_identifiers :: "string list \<Rightarrow> string list \<Rightarrow> int" where
  "compare_identifiers (a # as) (b # bs) =
     (if a = b then compare_identifiers as bs
      else case (parse_uint a, parse_uint b) of
             (Some an, Some bn) \<Rightarrow> if an < bn then -1 else 1
           | (Some an, None) \<Rightarrow> -1
           | (None, Some bn) \<Rightarrow> 1
           | (None, None) \<Rightarrow> compare_strings a b)"
| "compare_identifiers as bs = (if length as < length bs then -1 else 1)"

definition version_compare :: "version \<Rightarrow> version \<Rightarrow> int" where
  "version_compare v u =
     (if v_major v \<noteq> v_major u then (if v_major v < v_major u then -1 else 1)
      else if v_minor v \<noteq> v_minor u then (if v_minor v < v_minor u then -1 else 1)
      else if v_patch v \<noteq> v_patch u then (if v_patch v < v_patch u then -1 else 1)
      else if v_pre v = v_pre u then 0
      else if v_pre v = [] then 1
      else if v_pre u = [] then -1
      else compare_identifiers (split_on (CHR ''.'') (v_pre v)) (split_on (CHR ''.'') (v_pre u)))"

subsection \<open>Requirements\<close>

definition plain_version :: "64 word \<Rightarrow> 64 word \<Rightarrow> 64 word \<Rightarrow> version" where
  "plain_version a b c = \<lparr>v_major = a, v_minor = b, v_patch = c, v_pre = []\<rparr>"

definition caret_upper :: "version \<Rightarrow> version" where
  "caret_upper b =
     (if v_major b = 0 then (if v_minor b = 0 then plain_version 0 0 (v_patch b + 1) else plain_version 0 (v_minor b + 1) 0)
      else plain_version (v_major b + 1) 0 0)"

definition requirement_matches :: "string \<Rightarrow> version \<Rightarrow> bool" where
  "requirement_matches r v =
     (let s = trim_space r
      in if s = [] \<or> s = ''*'' then v_pre v = []
         else if hd s = CHR ''^'' then
           (case parse_version (tl s) of
              Inl _ \<Rightarrow> False
            | Inr b \<Rightarrow> version_compare v b \<ge> 0 \<and> version_compare v (caret_upper b) < 0 \<and> v_pre v = [])
         else if hd s = CHR ''~'' then
           (case parse_version (tl s) of
              Inl _ \<Rightarrow> False
            | Inr b \<Rightarrow> version_compare v b \<ge> 0 \<and>
                version_compare v (plain_version (v_major b) (v_minor b + 1) 0) < 0 \<and> v_pre v = [])
         else (case parse_version s of Inl _ \<Rightarrow> False | Inr b \<Rightarrow> version_compare v b = 0))"

record release_id =
  rel_id :: string
  rel_version :: version

definition release_id_string :: "release_id \<Rightarrow> string" where
  "release_id_string r = rel_id r @ ''@'' @ version_string (rel_version r)"

subsection \<open>Parsing and printing\<close>

definition valid_identifier :: "string \<Rightarrow> bool" where
  "valid_identifier i \<longleftrightarrow> i \<noteq> [] \<and> list_all identifier_char i \<and>
     \<not> (length i > 1 \<and> hd i = CHR ''0'' \<and> parse_uint i \<noteq> None)"

definition valid_version :: "version \<Rightarrow> bool" where
  "valid_version v \<longleftrightarrow> v_pre v = [] \<or> list_all valid_identifier (split_on (CHR ''.'') (v_pre v))"

lemma check_identifier_iff: "check_identifier s i = Inr u \<longleftrightarrow> valid_identifier i"
  by (auto simp: check_identifier_def valid_identifier_def)

lemma mapM_unit: "(\<exists>us. mapM f xs = Inr (us :: unit list)) \<longleftrightarrow> (\<forall>x \<in> set xs. f x = Inr ())"
  by (induction xs) auto

lemma check_pre_iff: "check_pre s q = Inr u \<longleftrightarrow> q \<noteq> [] \<and> list_all valid_identifier (split_on (CHR ''.'') q)"
  using mapM_unit [of "check_identifier s" "split_on (CHR ''.'') q"]
  by (auto simp: check_pre_def check_identifier_iff list_all_iff)

lemma dec_val_less: "list_all is_digit s \<Longrightarrow> s \<noteq> [] \<Longrightarrow> hd s \<noteq> CHR ''0'' \<Longrightarrow> 0 < dec_val s"
proof (induction s rule: rev_induct)
  case (snoc c s)
  show ?case
  proof (cases "s = []")
    case True
    with snoc.prems have "is_digit c" "c \<noteq> CHR ''0''" by auto
    then have "(of_char c :: nat) \<noteq> of_char (CHR ''0'')" by (simp only: of_char_eq_iff) simp
    then show ?thesis using \<open>is_digit c\<close> True by (auto simp: dec_val_def digit_val_def is_digit_def)
  next
    case False
    with snoc show ?thesis by (simp add: dec_val_snoc)
  qed
qed simp

lemma digit_char_val: "is_digit c \<Longrightarrow> digit_char (digit_val c) = c \<and> digit_val c < 10"
  by (auto simp: is_digit_def digit_char_def digit_val_def)

text \<open>Decimal digits without a leading zero are what the number prints as.\<close>

lemma show_nat_dec_val:
  "list_all is_digit s \<Longrightarrow> s \<noteq> [] \<Longrightarrow> length s = 1 \<or> hd s \<noteq> CHR ''0'' \<Longrightarrow> show_nat (dec_val s) = s"
proof (induction s rule: rev_induct)
  case (snoc c s)
  have c: "digit_char (digit_val c) = c" "digit_val c < 10" using snoc.prems digit_char_val by auto
  show ?case
  proof (cases "s = []")
    case True
    with c show ?thesis by (simp add: dec_val_def show_nat.simps)
  next
    case False
    with snoc have "show_nat (dec_val s) = s" "0 < dec_val s" by (auto intro: dec_val_less)
    with c show ?thesis by (subst show_nat.simps) (simp add: dec_val_snoc)
  qed
qed simp

lemma parse_number_iff: "parse_number s p = Inr n \<longleftrightarrow> p = show_nat (unat n)"
proof
  assume "parse_number s p = Inr n"
  then have p: "p \<noteq> []" "length p = 1 \<or> hd p \<noteq> CHR ''0''" "parse_uint p = Some n"
    by (auto simp: parse_number_def split: if_splits option.splits)
       (metis One_nat_def length_0_conv linorder_less_linear not_less_eq zero_less_Suc)
  then have "list_all is_digit p" "dec_val p < 2 ^ 64" "n = of_nat (dec_val p)"
    by (auto simp: parse_uint_def split: if_splits)
  then show "p = show_nat (unat n)"
    using show_nat_dec_val [of p] p by (simp add: unat_of_nat take_bit_nat_eq_self)
next
  assume p: "p = show_nat (unat n)"
  have "hd p \<noteq> CHR ''0''" if "length p > 1"
    using show_nat_hd_zero that p by force
  then show "parse_number s p = Inr n" by (auto simp: parse_number_def p)
qed

lemma parse_number_show: "parse_number s (show_nat (unat n)) = Inr n"
  by (simp add: parse_number_iff)

definition pre_suffix :: "string option \<Rightarrow> string" where
  "pre_suffix pre = (case pre of None \<Rightarrow> [] | Some q \<Rightarrow> CHR ''-'' # q)"

lemma cut_hyphen_iff:
  "cut_hyphen s = (main, pre) \<longleftrightarrow> s = main @ pre_suffix pre \<and> CHR ''-'' \<notin> set main"
proof
  assume c: "cut_hyphen s = (main, pre)"
  have "main = takeWhile (\<lambda>c. c \<noteq> CHR ''-'') s" using c by (simp add: cut_hyphen_def)
  then have "CHR ''-'' \<notin> set main" using set_takeWhileD by fastforce
  moreover have "s = main @ pre_suffix pre"
  proof (cases "dropWhile (\<lambda>c. c \<noteq> CHR ''-'') s")
    case Nil
    then have "pre = None" "main = takeWhile (\<lambda>c. c \<noteq> CHR ''-'') s" using c unfolding cut_hyphen_def Nil by simp_all
    then show ?thesis
      using takeWhile_dropWhile_id [of "\<lambda>c. c \<noteq> CHR ''-''" s] unfolding Nil pre_suffix_def
      by (simp only: append_Nil2 option.case)
  next
    case (Cons x q)
    then have "x = CHR ''-''" using hd_dropWhile [of "\<lambda>c. c \<noteq> CHR ''-''" s] by auto
    moreover have "pre = Some q" "main = takeWhile (\<lambda>c. c \<noteq> CHR ''-'') s" using c unfolding cut_hyphen_def Cons by simp_all
    ultimately show ?thesis
      using takeWhile_dropWhile_id [of "\<lambda>c. c \<noteq> CHR ''-''" s] unfolding Cons by (simp add: pre_suffix_def)
  qed
  ultimately show "s = main @ pre_suffix pre \<and> CHR ''-'' \<notin> set main" by simp
next
  assume "s = main @ pre_suffix pre \<and> CHR ''-'' \<notin> set main"
  then show "cut_hyphen s = (main, pre)"
    by (auto simp: cut_hyphen_def pre_suffix_def takeWhile_append dropWhile_append split: option.splits)
qed

lemma show_nat_chars: "c \<in> set (show_nat n) \<Longrightarrow> is_digit c"
  using show_nat_digits by (auto simp: list_all_iff)

lemma identifier_char_plain: "identifier_char c \<Longrightarrow> plain_char c \<and> c \<noteq> CHR ''+'' \<and> c \<noteq> CHR ''.''"
  by (auto simp: identifier_char_def plain_char_def is_digit_def)

lemma valid_pre_chars:
  assumes "list_all valid_identifier (split_on (CHR ''.'') q)" and "c \<in> set q"
  shows "identifier_char c \<or> c = CHR ''.''"
proof -
  have "c \<in> set (join ''.'' (split_on (CHR ''.'') q))" using assms(2) by (simp add: join_split_on)
  moreover have "set (join ''.'' xs) \<subseteq> insert (CHR ''.'') (\<Union> (set ` set xs))" for xs
    by (induction "''.''" xs rule: join.induct) auto
  ultimately have "c = CHR ''.'' \<or> (\<exists>i \<in> set (split_on (CHR ''.'') q). c \<in> set i)" by blast
  then show ?thesis using assms(1) by (auto simp: list_all_iff valid_identifier_def)
qed

definition core_string :: "version \<Rightarrow> string" where
  "core_string v = join ''.'' [show_nat (unat (v_major v)), show_nat (unat (v_minor v)), show_nat (unat (v_patch v))]"

definition pre_of :: "version \<Rightarrow> string option" where
  "pre_of v = (if v_pre v = [] then None else Some (v_pre v))"

lemma version_string_split: "version_string v = core_string v @ pre_suffix (pre_of v)"
  by (simp add: version_string_def core_string_def pre_suffix_def pre_of_def)

lemma core_string_chars: "c \<in> set (core_string v) \<Longrightarrow> is_digit c \<or> c = CHR ''.''"
  by (auto simp: core_string_def dest: show_nat_chars)

lemma split_core_string: "split_on (CHR ''.'') (core_string v) =
    [show_nat (unat (v_major v)), show_nat (unat (v_minor v)), show_nat (unat (v_patch v))]"
  unfolding core_string_def
  by (rule split_on_join) (auto dest!: show_nat_chars digit_not_dot)

lemma version_string_chars:
  "valid_version v \<Longrightarrow> c \<in> set (version_string v) \<Longrightarrow> plain_char c \<and> c \<noteq> CHR ''+''"
  by (auto simp: version_string_split pre_suffix_def pre_of_def valid_version_def plain_char_def
      dest!: core_string_chars valid_pre_chars dest: is_digit_plain identifier_char_plain digit_not_dot
      split: option.splits if_splits)

lemma split_three:
  "split_on (CHR ''.'') main = [a, b, c] \<longleftrightarrow>
     main = join ''.'' [a, b, c] \<and> CHR ''.'' \<notin> set a \<and> CHR ''.'' \<notin> set b \<and> CHR ''.'' \<notin> set c"
  (is "?l \<longleftrightarrow> ?r")
proof
  assume l: ?l
  then have "main = join ''.'' [a, b, c]" using join_split_on [of "CHR ''.''" main] by simp
  moreover have "CHR ''.'' \<notin> set x" if "x \<in> set [a, b, c]" for x
    using that split_on_parts [of x "CHR ''.''" main] l by simp
  ultimately show ?r by simp
next
  assume r: ?r
  then have "split_on (CHR ''.'') (join ''.'' [a, b, c]) = [a, b, c]" by (intro split_on_join) auto
  then show ?l using r by simp
qed

lemma parse_version_iff:
  "parse_version t = Inr v \<longleftrightarrow> valid_version v \<and> trim_space (trim_prefix ''v'' t) = version_string v"
proof -
  define s where "s = trim_space (trim_prefix ''v'' t)"
  obtain main pre where mp: "cut_hyphen s = (main, pre)" by force
  note s = mp [unfolded cut_hyphen_iff]
  show ?thesis
  proof
    assume p: "parse_version t = Inr v"
    then have pre: "pre = None \<or> (\<exists>q. pre = Some q \<and> q \<noteq> [] \<and> list_all valid_identifier (split_on (CHR ''.'') q))"
      by (cases pre) (auto simp: parse_version_def Let_def s_def [symmetric] mp check_pre_iff split: if_splits)
    from p obtain a b c where abc: "split_on (CHR ''.'') main = [a, b, c]"
      and n: "parse_number s a = Inr (v_major v)" "parse_number s b = Inr (v_minor v)" "parse_number s c = Inr (v_patch v)"
      and q: "v_pre v = (case pre of None \<Rightarrow> [] | Some q \<Rightarrow> q)"
      by (auto simp: parse_version_def Let_def s_def [symmetric] mp split: if_splits list.splits)
    have "main = core_string v"
      using join_split_on [of "CHR ''.''" main] abc n by (simp add: parse_number_iff core_string_def)
    moreover have "pre = pre_of v" using pre q by (auto simp: pre_of_def)
    ultimately have "s = version_string v" using s by (simp add: version_string_split)
    moreover have "valid_version v" using pre q by (auto simp: valid_version_def)
    ultimately show "valid_version v \<and> trim_space (trim_prefix ''v'' t) = version_string v" by (simp add: s_def)
  next
    assume "valid_version v \<and> trim_space (trim_prefix ''v'' t) = version_string v"
    then have v: "valid_version v" and sv: "s = version_string v" by (simp_all add: s_def)
    have "cut_hyphen s = (core_string v, pre_of v)"
      unfolding cut_hyphen_iff using sv by (auto simp: version_string_split dest!: core_string_chars digit_not_dot)
    then have mp': "main = core_string v" "pre = pre_of v" using mp by auto
    have "CHR ''+'' \<notin> set s" using version_string_chars [OF v] sv by auto
    then show "parse_version t = Inr v"
      using v mp check_pre_iff [of s "v_pre v" "()"]
      by (auto simp: parse_version_def s_def [symmetric] mp' split_core_string parse_number_show pre_of_def valid_version_def)
  qed
qed

lemma parse_version_string:
  assumes v: "valid_version v"
  shows "parse_version (version_string v) = Inr v"
proof -
  obtain c cs where shown: "show_nat (unat (v_major v)) = c # cs" by (metis neq_Nil_conv show_nat_not_Nil)
  then have "is_digit c" using show_nat_chars [of c "unat (v_major v)"] by simp
  then have "c \<noteq> CHR ''v''" by (auto simp: is_digit_def)
  with shown have "\<not> prefix ''v'' (version_string v)" by (simp add: version_string_def)
  moreover have ne: "version_string v \<noteq> []" by (simp add: version_string_def)
  moreover have "trim_space (version_string v) = version_string v"
    using version_string_chars [OF v] ne by (intro trim_space_plain) (auto simp: list.set_sel)
  ultimately show ?thesis using v by (simp add: parse_version_iff trim_prefix_def)
qed

text \<open>Parsing and printing versions are inverse. A text parses to a version exactly when, without a
  leading \<^verbatim>\<open>v\<close> and surrounding white space, it is the text that version prints as and its prerelease
  identifiers are well formed; so every parsed version prints to a text that parses to the same version,
  and leading zeros and overflowing numbers are refused.\<close>

theorem version_roundtrip:
  "(parse_version t = Inr v \<longleftrightarrow> valid_version v \<and> trim_space (trim_prefix ''v'' t) = version_string v) \<and>
   (valid_version v \<longrightarrow> parse_version (version_string v) = Inr v)"
  using parse_version_iff parse_version_string by blast

subsection \<open>The order of versions\<close>

text \<open>Versions map to a lexicographic key: the three numbers, then releases after prereleases, then the
  identifiers, where numbers come before other texts.\<close>

definition identifier_key :: "string \<Rightarrow> bool \<times> 64 word \<times> string" where
  "identifier_key i = (case parse_uint i of Some n \<Rightarrow> (False, n, []) | None \<Rightarrow> (True, 0, i))"

definition pre_ids :: "version \<Rightarrow> string list" where
  "pre_ids v = (if v_pre v = [] then [] else split_on (CHR ''.'') (v_pre v))"

definition version_key :: "version \<Rightarrow> 64 word \<times> 64 word \<times> 64 word \<times> bool \<times> (bool \<times> 64 word \<times> string) list" where
  "version_key v = (v_major v, v_minor v, v_patch v, v_pre v = [], map identifier_key (pre_ids v))"

lemma identifier_key_inj:
  assumes "valid_identifier i" and "valid_identifier k" and "identifier_key i = identifier_key k"
  shows "i = k"
proof -
  have canon: "x = show_nat (unat n)" if "valid_identifier x" "parse_uint x = Some n" for x n
  proof -
    have "x \<noteq> []" "\<not> (length x > 1 \<and> hd x = CHR ''0'')"
      using that unfolding valid_identifier_def by simp_all
    then have "parse_number [] x = Inr n" using that(2) by (simp add: parse_number_def)
    then show ?thesis by (simp add: parse_number_iff)
  qed
  show ?thesis
  proof (cases "parse_uint i")
    case None
    then show ?thesis using assms(3) by (simp add: identifier_key_def split: option.splits)
  next
    case (Some n)
    then have "parse_uint k = Some n" using assms(3) by (simp add: identifier_key_def split: option.splits)
    then show ?thesis using canon [OF assms(1) Some] canon [OF assms(2)] by simp
  qed
qed

lemma compare_identifiers_key:
  assumes "list_all valid_identifier as" "list_all valid_identifier bs" "as \<noteq> bs"
  shows "compare_identifiers as bs = (if map identifier_key as < map identifier_key bs then -1 else 1)"
  using assms
proof (induction as bs rule: compare_identifiers.induct)
  case (1 a as b bs)
  show ?case
  proof (cases "a = b")
    case False
    then have "identifier_key a \<noteq> identifier_key b" using identifier_key_inj 1 by auto
    with False show ?thesis
      by (auto simp: compare_strings_def identifier_key_def split: option.splits)
  qed (use 1 in auto)
qed (auto simp: neq_Nil_conv less_le)

lemma pre_ids_valid: "valid_version v \<Longrightarrow> list_all valid_identifier (pre_ids v)"
  by (auto simp: valid_version_def pre_ids_def)

lemma pre_ids_inj: "pre_ids v = pre_ids u \<Longrightarrow> v_pre v = v_pre u"
  using join_split_on [of "CHR ''.''"] by (metis pre_ids_def split_on_not_Nil)

lemma version_compare_key:
  assumes v: "valid_version v" and u: "valid_version u"
  shows "version_compare v u = (if v = u then 0 else if version_key v < version_key u then -1 else 1)"
proof (cases "v_major v = v_major u \<and> v_minor v = v_minor u \<and> v_patch v = v_patch u")
  case True
  show ?thesis
  proof (cases "v_pre v = v_pre u")
    case False
    have ids: "pre_ids v \<noteq> pre_ids u" using False pre_ids_inj by blast
    have "v \<noteq> u" using False by blast
    moreover have "version_compare v u = (if v_pre v = [] then 1 else if v_pre u = [] then -1
        else compare_identifiers (pre_ids v) (pre_ids u))"
      using True False by (simp add: version_compare_def pre_ids_def)
    moreover have "version_key v < version_key u \<longleftrightarrow> v_pre v \<noteq> [] \<and>
        (v_pre u = [] \<or> map identifier_key (pre_ids v) < map identifier_key (pre_ids u))"
      using True False by (auto simp: version_key_def)
    ultimately show ?thesis
      using compare_identifiers_key [OF pre_ids_valid [OF v] pre_ids_valid [OF u] ids] by simp
  next
    case pre: True
    then have "v = u" using True by (intro version.equality) simp_all
    then show ?thesis by (simp add: version_compare_def)
  qed
next
  case False
  then have "v \<noteq> u" by blast
  with False show ?thesis by (simp add: version_compare_def version_key_def)
qed

lemma version_key_inj:
  assumes v: "valid_version v" and u: "valid_version u" and k: "version_key v = version_key u"
  shows "v = u"
proof -
  have "map identifier_key (pre_ids v) = map identifier_key (pre_ids u)" using k by (simp add: version_key_def)
  moreover have "inj_on identifier_key (set (pre_ids v) \<union> set (pre_ids u))"
    using pre_ids_valid [OF v] pre_ids_valid [OF u] identifier_key_inj by (auto simp: inj_on_def list_all_iff)
  ultimately have "pre_ids v = pre_ids u" by (simp add: inj_on_map_eq_map)
  then have "v_pre v = v_pre u" by (rule pre_ids_inj)
  then show ?thesis using k by (intro version.equality) (simp_all add: version_key_def)
qed

text \<open>What the store and the resolver rely on when they order releases.\<close>

locale total_compare =
  fixes cmp :: "'v \<Rightarrow> 'v \<Rightarrow> int" and ok :: "'v \<Rightarrow> bool"
  assumes cmp_flip: "ok a \<Longrightarrow> ok b \<Longrightarrow> cmp b a = - cmp a b"
    and cmp_eq: "ok a \<Longrightarrow> ok b \<Longrightarrow> cmp a b = 0 \<longleftrightarrow> a = b"
    and cmp_trans: "ok a \<Longrightarrow> ok b \<Longrightarrow> ok c \<Longrightarrow> cmp a b \<le> 0 \<Longrightarrow> cmp b c \<le> 0 \<Longrightarrow> cmp a c \<le> 0"
begin

lemma cmp_antisym: "ok a \<Longrightarrow> ok b \<Longrightarrow> cmp a b \<le> 0 \<Longrightarrow> cmp b a \<le> 0 \<Longrightarrow> a = b"
  using cmp_flip [of a b] cmp_eq [of a b] by simp

lemma cmp_linear: "ok a \<Longrightarrow> ok b \<Longrightarrow> cmp a b \<le> 0 \<or> cmp b a \<le> 0"
  using cmp_flip [of a b] by linarith

lemma cmp_less_trans: "ok a \<Longrightarrow> ok b \<Longrightarrow> ok c \<Longrightarrow> cmp a b < 0 \<Longrightarrow> cmp b c \<le> 0 \<Longrightarrow> cmp a c < 0"
  using cmp_trans [of a b c] cmp_eq [of a c] cmp_flip [of a b] by fastforce

end

lemma version_compare_le:
  assumes "valid_version v" and "valid_version u"
  shows "version_compare v u \<le> 0 \<longleftrightarrow> version_key v \<le> version_key u"
  using version_key_inj [OF assms] unfolding version_compare_key [OF assms] by (cases "v = u") auto

interpretation vc: total_compare version_compare valid_version
proof unfold_locales
  fix a b c assume a: "valid_version a" and b: "valid_version b"
  show flip: "version_compare b a = - version_compare a b"
    using version_key_inj [OF a b] unfolding version_compare_key [OF a b] version_compare_key [OF b a]
    by (cases "a = b") (auto dest: order.asym)
  show "version_compare a b = 0 \<longleftrightarrow> a = b" unfolding version_compare_key [OF a b] by simp
  assume c: "valid_version c" and "version_compare a b \<le> 0" "version_compare b c \<le> 0"
  then show "version_compare a c \<le> 0"
    unfolding version_compare_le [OF a b] version_compare_le [OF b c] version_compare_le [OF a c] by (rule_tac order_trans)
qed

text \<open>On the versions that parse, the comparison is a total order: it yields -1, 0 or 1, it is 0 only
  for equal versions, swapping the arguments flips the sign, and it is transitive.\<close>

theorem version_compare_total_order:
  assumes "valid_version v" and "valid_version u" and "valid_version w"
  shows "version_compare v u \<in> {-1, 0, 1} \<and> version_compare u v = - version_compare v u \<and>
    (version_compare v u = 0 \<longleftrightarrow> v = u) \<and>
    (version_compare v u \<le> 0 \<and> version_compare u w \<le> 0 \<longrightarrow> version_compare v w \<le> 0)"
proof -
  have "version_compare v u \<in> {-1, 0, 1}" unfolding version_compare_key [OF assms(1,2)] by simp
  then show ?thesis
    using vc.cmp_flip [OF assms(1,2)] vc.cmp_eq [OF assms(1,2)] vc.cmp_trans [OF assms] by blast
qed

subsection \<open>Requirements\<close>

text \<open>The versions compatible with a base: equal up to the leftmost number of the base that is not zero.\<close>

definition caret_compatible :: "version \<Rightarrow> version \<Rightarrow> bool" where
  "caret_compatible b v \<longleftrightarrow> v_major v = v_major b \<and>
     (v_major b = 0 \<longrightarrow> v_minor v = v_minor b \<and> (v_minor b = 0 \<longrightarrow> v_patch v = v_patch b))"

definition below_max :: "version \<Rightarrow> bool" where
  "below_max v \<longleftrightarrow> v_major v \<noteq> - 1 \<and> v_minor v \<noteq> - 1 \<and> v_patch v \<noteq> - 1"

lemma word_less_inc: "(b :: 64 word) \<noteq> - 1 \<Longrightarrow> x < b + 1 \<longleftrightarrow> x \<le> b"
  using inc_less_eq_iff [of b x] by (simp add: linorder_not_le [symmetric])

lemma word_antisym_inc: "(b :: 64 word) \<noteq> - 1 \<Longrightarrow> \<not> x < b \<Longrightarrow> x < b + 1 \<longleftrightarrow> x = b"
  using word_less_inc [of b x] by auto

lemma compare_nonneg_major: "version_compare v b \<ge> 0 \<Longrightarrow> \<not> v_major v < v_major b"
  by (auto simp: version_compare_def split: if_splits)

lemma compare_nonneg_minor: "version_compare v b \<ge> 0 \<Longrightarrow> v_major v = v_major b \<Longrightarrow> \<not> v_minor v < v_minor b"
  by (auto simp: version_compare_def split: if_splits)

lemma compare_nonneg_patch:
  "version_compare v b \<ge> 0 \<Longrightarrow> v_major v = v_major b \<Longrightarrow> v_minor v = v_minor b \<Longrightarrow> \<not> v_patch v < v_patch b"
  by (auto simp: version_compare_def split: if_splits)

lemma compare_plain_major: "v_pre v = [] \<Longrightarrow> version_compare v (plain_version a 0 0) < 0 \<longleftrightarrow> v_major v < a"
  by (simp add: version_compare_def plain_version_def)

lemma compare_plain_minor:
  "v_pre v = [] \<Longrightarrow> version_compare v (plain_version a b 0) < 0 \<longleftrightarrow> v_major v < a \<or> v_major v = a \<and> v_minor v < b"
  by (simp add: version_compare_def plain_version_def)

lemma compare_plain_patch:
  "v_pre v = [] \<Longrightarrow> version_compare v (plain_version a b c) < 0 \<longleftrightarrow>
     v_major v < a \<or> v_major v = a \<and> (v_minor v < b \<or> v_minor v = b \<and> v_patch v < c)"
  by (simp add: version_compare_def plain_version_def)

lemma caret_bound:
  assumes "v_pre v = []" and "below_max b" and "version_compare v b \<ge> 0"
  shows "version_compare v (caret_upper b) < 0 \<longleftrightarrow> caret_compatible b v"
proof -
  note ge = compare_nonneg_major [OF assms(3)] compare_nonneg_minor [OF assms(3)] compare_nonneg_patch [OF assms(3)]
  have inc: "v_major b \<noteq> - 1" "v_minor b \<noteq> - 1" "v_patch b \<noteq> - 1" using assms(2) by (simp_all add: below_max_def)
  consider "v_major b \<noteq> 0" | "v_major b = 0" "v_minor b \<noteq> 0" | "v_major b = 0" "v_minor b = 0" by blast
  then show ?thesis
  proof cases
    case 1
    then show ?thesis using word_antisym_inc [OF inc(1) ge(1)] assms(1)
      by (simp add: caret_upper_def compare_plain_major caret_compatible_def)
  next
    case 2
    then show ?thesis using word_antisym_inc [OF inc(2) ge(2)] assms(1)
      by (auto simp: caret_upper_def compare_plain_minor caret_compatible_def)
  next
    case 3
    then show ?thesis using word_antisym_inc [OF inc(3) ge(3)] assms(1)
      by (auto simp: caret_upper_def compare_plain_patch caret_compatible_def)
  qed
qed

lemma tilde_bound:
  assumes "v_pre v = []" and "below_max b" and "version_compare v b \<ge> 0"
  shows "version_compare v (plain_version (v_major b) (v_minor b + 1) 0) < 0 \<longleftrightarrow>
    v_major v = v_major b \<and> v_minor v = v_minor b"
  using word_antisym_inc [of "v_minor b" "v_minor v"] compare_nonneg_major [OF assms(3)]
    compare_nonneg_minor [OF assms(3)] assms(1,2)
  by (auto simp: compare_plain_minor below_max_def)

lemma trim_operator:
  assumes "valid_version b" and "plain_char c"
  shows "trim_space (c # version_string b) = c # version_string b"
  using version_string_chars [OF assms(1)] assms(2)
  by (intro trim_space_plain) (auto simp: version_string_def)

text \<open>C40: A caret requirement accepts exactly the releases from its base on that agree with it up to the
  leftmost number that is not zero, a tilde requirement those that agree in the first two numbers, a
  bare version only itself and a star every release. Prereleases match only the bare form. The bounds
  hold for bases whose numbers are below the largest 64-bit value.\<close>

theorem requirement_spec:
  assumes b: "valid_version b" and v: "valid_version v" and m: "below_max b"
  shows "(requirement_matches (''^'' @ version_string b) v \<longleftrightarrow>
      v_pre v = [] \<and> version_compare v b \<ge> 0 \<and> caret_compatible b v) \<and>
    (requirement_matches (''~'' @ version_string b) v \<longleftrightarrow>
      v_pre v = [] \<and> version_compare v b \<ge> 0 \<and> v_major v = v_major b \<and> v_minor v = v_minor b) \<and>
    (requirement_matches (version_string b) v \<longleftrightarrow> v = b) \<and>
    (requirement_matches ''*'' v \<longleftrightarrow> v_pre v = [])"
proof (intro conjI)
  have t: "trim_space (CHR ''^'' # version_string b) = CHR ''^'' # version_string b"
    "trim_space (CHR ''~'' # version_string b) = CHR ''~'' # version_string b"
    using trim_operator [OF b] by (simp_all add: plain_char_def)
  show "requirement_matches (''^'' @ version_string b) v \<longleftrightarrow>
      v_pre v = [] \<and> version_compare v b \<ge> 0 \<and> caret_compatible b v"
    using caret_bound [OF _ m, of v] by (auto simp: requirement_matches_def t parse_version_string [OF b])
  show "requirement_matches (''~'' @ version_string b) v \<longleftrightarrow>
      v_pre v = [] \<and> version_compare v b \<ge> 0 \<and> v_major v = v_major b \<and> v_minor v = v_minor b"
    using tilde_bound [OF _ m, of v] by (auto simp: requirement_matches_def t parse_version_string [OF b])
  have ts: "trim_space (version_string b) = version_string b"
    using version_string_chars [OF b] by (intro trim_space_plain) (auto simp: version_string_def)
  have "is_digit (hd (version_string b))"
    using show_nat_chars [of "hd (show_nat (unat (v_major b)))" "unat (v_major b)"] by (simp add: version_string_def)
  then have "hd (version_string b) \<noteq> CHR ''^''" "hd (version_string b) \<noteq> CHR ''~''" "hd (version_string b) \<noteq> CHR ''*''"
    by (auto simp: is_digit_def)
  moreover have "version_string b \<noteq> []" by (simp add: version_string_def)
  ultimately show "requirement_matches (version_string b) v \<longleftrightarrow> v = b"
    using vc.cmp_eq [OF v b] by (auto simp: requirement_matches_def Let_def ts parse_version_string [OF b])
  have "trim_space ''*'' = ''*''" by (rule trim_space_plain) (simp add: plain_char_def)
  then show "requirement_matches ''*'' v \<longleftrightarrow> v_pre v = []" by (simp add: requirement_matches_def)
qed

lemma compare_zero_bound: "v_pre v = [] \<Longrightarrow> \<not> version_compare v (plain_version 0 0 0) < 0"
  by (simp add: compare_plain_patch)

text \<open>At the largest major number the upper bound of a caret requirement wraps to version zero, so the
  requirement accepts nothing, not even its own base.\<close>

theorem caret_wraps:
  assumes b: "valid_version b" and "v_major b = - 1"
  shows "\<not> requirement_matches (''^'' @ version_string b) v"
proof -
  have "caret_upper b = plain_version 0 0 0" using assms(2) by (simp add: caret_upper_def)
  then show ?thesis
    using compare_zero_bound [of v] trim_operator [OF b, of "CHR ''^''"]
    by (auto simp: requirement_matches_def plain_char_def parse_version_string [OF b])
qed

subsection \<open>Digests and module names\<close>

lemma hex_val_digit: "n < 16 \<Longrightarrow> hex_val (hex_digit n) = Some n"
  by (auto simp: hex_val_def hex_digit_def Let_def)

lemma hex_digit_plain: "n < 16 \<Longrightarrow> plain_char (hex_digit n)"
  by (auto simp: plain_char_def hex_digit_def)

lemma byte_nibbles: "unat (b :: 8 word) div 16 < 16" "unat b mod 16 < 16"
  "word_of_nat (16 * (unat b div 16) + unat b mod 16) = b"
proof -
  have "unat b < 2 ^ 8" using unsigned_less [of b, where 'a = nat] by simp
  then show "unat b div 16 < 16" by simp
qed simp_all

lemma hex_decode_encode: "hex_decode (hex_encode bs) = Some bs"
  by (induction bs) (simp_all add: hex_val_digit byte_nibbles)

lemma hex_encode_chars: "c \<in> set (hex_encode bs) \<Longrightarrow> plain_char c"
  by (induction bs) (auto simp: hex_digit_plain byte_nibbles)

lemma parse_digest_string:
  assumes "length d = 32"
  shows "parse_digest (digest_string d) = Some d"
proof -
  have "d \<noteq> []" using assms by auto
  then have "hex_encode d \<noteq> []" by (cases d) auto
  then have "plain_char (hd (digest_string d)) \<and> plain_char (last (digest_string d))"
    using hex_encode_chars [of "last (hex_encode d)" d] by (simp add: digest_string_def) (simp add: plain_char_def)
  then have "trim_space (digest_string d) = digest_string d" by (simp add: trim_space_plain)
  then show ?thesis
    using assms by (simp add: parse_digest_def Let_def digest_string_def trim_prefix_def hex_decode_encode)
qed

lemma parse_digest_length: "parse_digest t = Some e \<Longrightarrow> length e = 32"
  by (auto simp: parse_digest_def Let_def split: if_splits option.splits)

text \<open>A digest prints to a text that parses to the same digest, and whatever parses has 32 bytes.\<close>

theorem digest_roundtrip:
  "(length d = 32 \<longrightarrow> parse_digest (digest_string d) = Some d) \<and> (parse_digest t = Some e \<longrightarrow> length e = 32)"
  using parse_digest_string parse_digest_length by blast

lemma contains_append: "contains (xs @ x @ ys) x"
proof (induction xs)
  case Nil
  show ?case by (cases "x @ ys") (auto, metis prefixI)
qed simp

lemma join_member: "x \<in> set xs \<Longrightarrow> \<exists>ys zs. join sep xs = ys @ x @ zs"
proof (induction sep xs rule: join.induct)
  case (2 sep y)
  then show ?case by (intro exI [of _ "[]"]) simp
next
  case (3 sep y z zs)
  show ?case
  proof (cases "x = y")
    case True
    then show ?thesis by - (rule exI [of _ "[]"], simp)
  next
    case False
    with 3 obtain ps qs where "join sep (z # zs) = ps @ x @ qs" by auto
    then show ?thesis by (intro exI [of _ "y @ sep @ ps"] exI [of _ qs]) simp
  qed
qed simp

lemma split_on_contains: "x \<in> set (split_on c s) \<Longrightarrow> contains s x"
  using join_member [of x "split_on c s" "[c]"] contains_append by (metis join_split_on)

lemma split_on_hd_empty: "hd (split_on c s) = [] \<Longrightarrow> s = [] \<or> hd s = c"
  by (cases s) (auto split: if_splits list.splits)

lemma split_on_tl_empty: "[] \<in> set (tl (split_on c s)) \<Longrightarrow> last s = c \<or> contains s [c, c]"
proof (induction s)
  case (Cons x s)
  obtain y ys where ys: "split_on c s = y # ys" by (cases "split_on c s") auto
  have rest: "last (x # s) = c \<or> contains (x # s) [c, c]" if "[] \<in> set ys"
  proof -
    have "s \<noteq> []" using that ys by auto
    then show ?thesis using Cons.IH that ys by auto
  qed
  show ?case
  proof (cases "x = c \<and> y = []")
    case True
    then have "s = [] \<or> hd s = c" using split_on_hd_empty [of c s] ys by simp
    then show ?thesis using True by (cases s) auto
  qed (use Cons.prems ys rest in \<open>auto split: if_splits\<close>)
qed simp

text \<open>A module identifier that parses is safe as a relative path: it does not start or end with a
  separator and none of its segments is empty or the parent directory; and it parses to itself.\<close>

theorem module_id_safe:
  assumes "parse_module_id t = Some s"
  shows "hd s \<noteq> CHR ''/'' \<and> last s \<noteq> CHR ''/'' \<and> (\<forall>seg \<in> set (split_on (CHR ''/'') s). seg \<noteq> [] \<and> seg \<noteq> ''..'') \<and>
    parse_module_id s = Some s"
proof -
  have s: "s = trim_space t" "module_id_pattern s" "\<not> contains s ''..''" "\<not> contains s ''//''" "length s \<le> 255"
    using assms by (auto simp: parse_module_id_def Let_def split: if_splits)
  then have ends: "hd s \<noteq> CHR ''/''" "last s \<noteq> CHR ''/''" "s \<noteq> []"
    by (auto simp: module_id_pattern_def lower_alnum_def is_digit_def)
  have "[] \<notin> set (split_on (CHR ''/'') s)"
    using split_on_hd_empty [of "CHR ''/''" s] split_on_tl_empty [of "CHR ''/''" s] ends s(4)
    by (cases "split_on (CHR ''/'') s") auto
  moreover have "''..'' \<notin> set (split_on (CHR ''/'') s)" using split_on_contains s(3) by blast
  moreover have "parse_module_id s = Some s" using s ends by (simp add: parse_module_id_def)
  ultimately show ?thesis using ends by metis
qed

subsection \<open>Witnesses\<close>

definition demo_version :: version where
  "demo_version = \<lparr>v_major = 1, v_minor = 2, v_patch = 3, v_pre = ''rc.1''\<rparr>"

lemma demo_valid: "valid_version demo_version" "valid_version (plain_version 1 2 3)" "valid_version (plain_version 1 4 0)"
  "valid_version (plain_version (- 1) 0 0)"
  by code_simp+

theorem version_roundtrip_witness: "parse_version (version_string demo_version) = Inr demo_version"
  using version_roundtrip [of "[]" demo_version] demo_valid(1) by blast

theorem version_compare_total_order_witness: "version_compare demo_version (plain_version 1 4 0) \<le> 0"
proof -
  have "version_compare demo_version (plain_version 1 2 3) = -1" "version_compare (plain_version 1 2 3) (plain_version 1 4 0) = -1"
    by code_simp+
  then show ?thesis using version_compare_total_order [OF demo_valid(1,2,3)] by simp
qed

theorem requirement_spec_witness: "requirement_matches ''^1.2.3'' (plain_version 1 4 0)"
proof -
  have "below_max (plain_version 1 2 3)" "version_compare (plain_version 1 4 0) (plain_version 1 2 3) \<ge> 0"
    "caret_compatible (plain_version 1 2 3) (plain_version 1 4 0)" "v_pre (plain_version 1 4 0) = []"
    "''^1.2.3'' = ''^'' @ version_string (plain_version 1 2 3)"
    by code_simp+
  then show ?thesis using requirement_spec [OF demo_valid(2,3)] by metis
qed

theorem caret_wraps_witness:
  "\<not> requirement_matches (''^'' @ version_string (plain_version (- 1) 0 0)) (plain_version (- 1) 0 0)"
  by (rule caret_wraps [OF demo_valid(4)]) (simp add: plain_version_def)

theorem digest_roundtrip_witness:
  "parse_digest (digest_string (replicate 32 0xAB)) = Some (replicate 32 0xAB)"
  using digest_roundtrip [of "replicate 32 0xAB"] by simp

theorem module_id_safe_witness:
  "parse_module_id ''acme/web.api'' = Some ''acme/web.api'' \<and> hd ''acme/web.api'' \<noteq> CHR ''/''"
proof -
  have "parse_module_id ''acme/web.api'' = Some ''acme/web.api''" by code_simp
  then show ?thesis using module_id_safe [of "''acme/web.api''"] by blast
qed

end
