(* ===== verification/Cell_Manifest.thy ===== *)
theory Cell_Manifest
  imports Go_Path Dependency_Plan Registry_Version "HOL-Library.Multiset" "HOL-Library.Finite_Map"
begin

text \<open>
  Cell manifests, \<^verbatim>\<open>src/internal/manifest/manifest.go\<close>, \<^verbatim>\<open>digest.go\<close> and \<^verbatim>\<open>batch.go\<close>: what a decoded
  \<^verbatim>\<open>pulp.cell.toml\<close> must satisfy to become a \<^verbatim>\<open>CellSpec\<close>, how environment values enter its
  configuration, and when a collection of cells is a set that can boot. The files, the environment and
  the working directory are the fields of a \<open>world\<close>; so are the TOML decoder, which is a third-party
  package, and SHA-256. A configuration value that is neither a table nor a text is of the opaque type
  \<^typ>\<open>'o\<close>.
\<close>

subsection \<open>Data\<close>

datatype 'o config = CText string | COther 'o | CTable "(string, 'o config) fmap"

type_synonym 'o table = "(string, 'o config) fmap"

record execution_spec =
  ex_mode :: string
  ex_group :: string
  ex_abi :: string

text \<open>A decoded manifest. Go ranges over the map \<^verbatim>\<open>config_env\<close> in an unspecified order: the list holds its
  entries in the order in which the loop visits them. A table that is absent is \<^const>\<open>None\<close> (a nil map).\<close>

record 'o raw_cell =
  rc_schema :: int
  rc_name :: string
  rc_version :: string
  rc_wasm :: string
  rc_wasm_sha256 :: "string option"
  rc_provides :: "string list"
  rc_consumes :: "string list"
  rc_host_consumes :: "string list"
  rc_depends_on :: "string list"
  rc_capabilities :: "string list"
  rc_execution :: execution_spec
  rc_shared_memory_groups :: "string list"
  rc_dedicated_thread :: bool
  rc_snapshotable :: bool
  rc_restart :: string
  rc_max_memory_pages :: "32 word"
  rc_call_timeout_ms :: "32 word"
  rc_config :: "'o table option"
  rc_config_env :: "(string \<times> string) list"

record 'o cell_spec =
  cs_schema :: int
  cs_name :: string
  cs_version :: string
  cs_provides :: "string list"
  cs_consumes :: "string list"
  cs_host_consumes :: "string list"
  cs_depends_on :: "string list"
  cs_capabilities :: "string list"
  cs_execution :: execution_spec
  cs_shared_memory_groups :: "string list"
  cs_dedicated_thread :: bool
  cs_snapshotable :: bool
  cs_max_memory_pages :: "32 word"
  cs_call_timeout_ms :: "32 word"
  cs_restart :: string
  cs_config :: "'o table option"
  cs_config_env :: "(string \<times> string) list"
  cs_manifest_path :: string
  cs_wasm_path :: string
  cs_wasm_sha256 :: string

datatype io_error = NotExist | IoFailed

record 'o manifest_world =
  w_cwd :: "string option"
  w_read :: "string \<Rightarrow> (io_error, string) result"
  w_env :: "string \<rightharpoonup> string"
  w_decode_cell :: "string \<Rightarrow> ('o raw_cell \<times> string list) option"
  w_sha256 :: "string \<Rightarrow> digest"

datatype path_error = EmptySegment | NotTable string

datatype normalize_error = NameRequired | VersionRequired | SchemaTooNew int | SchemaTooOld int | BadRestart string
  | HostConsumeEmpty nat | HostConsumeSpace nat string | HostConsumeQualifier nat string | HostConsumeDuplicate string
  | DigestRequired string | DigestFormat string
  | GroupNeedsFusible | GroupRequired | AbiRequired | GroupSpace | BadMode string
  | ConfigEnvEmpty | ConfigEnvPath string path_error

datatype load_error = ManifestPathError | ReadError io_error | TomlError | UnknownFields "string list"
  | Invalid normalize_error

datatype digest_error = PinRequired | WasmUnreadable io_error | WasmMismatch digest string

datatype set_error = NoManifests | LoadFailed string load_error | DuplicateCell string string string
  | NoProvider string string | AmbiguousProvider string string "string list"
  | MissingDependency string string | SelfDependency string | PlanFailed plan_error

subsection \<open>Texts\<close>

text \<open>\<^verbatim>\<open>strings.Cut\<close> and \<^verbatim>\<open>strings.Count\<close> for a separator that is not empty.\<close>

fun cut_at :: "string \<Rightarrow> string \<Rightarrow> (string \<times> string) option" where
  "cut_at sep [] = None"
| "cut_at sep (c # s) =
     (if prefix sep (c # s) then Some ([], drop (length sep) (c # s))
      else map_option (\<lambda>(a, b). (c # a, b)) (cut_at sep s))"

lemma cut_at_length: "cut_at sep s = Some (a, b) \<Longrightarrow> sep \<noteq> [] \<Longrightarrow> length b < length s"
  by (induction s arbitrary: a b) (auto split: if_splits simp: less_Suc_eq_le prefix_def neq_Nil_conv)

function count_sub :: "string \<Rightarrow> string \<Rightarrow> nat" where
  "count_sub sep s =
     (if sep = [] then 0 else case cut_at sep s of None \<Rightarrow> 0 | Some (a, b) \<Rightarrow> Suc (count_sub sep b))"
  by pat_completeness auto
termination by (relation "measure (\<lambda>(sep, s). length s)") (auto dest: cut_at_length)

declare count_sub.simps [simp del]

text \<open>\<^verbatim>\<open>strings.IndexFunc\<close> looks for a code point up to the blank; those are single bytes.\<close>

definition has_blank :: "string \<Rightarrow> bool" where
  "has_blank s \<longleftrightarrow> list_ex (\<lambda>c. (of_char c :: int) \<le> 32) s"

definition host_char :: "char \<Rightarrow> bool" where
  "host_char c \<longleftrightarrow> lower_alnum c \<or> c = CHR ''_'' \<or> c = CHR ''-''"

text \<open>The pattern \<^verbatim>\<open>^[a-z][a-z0-9_-]{0,62}$\<close>.\<close>

fun host_identifier :: "string \<Rightarrow> bool" where
  "host_identifier [] \<longleftrightarrow> False"
| "host_identifier (c # s) \<longleftrightarrow> lower_alnum c \<and> \<not> is_digit c \<and> length s \<le> 62 \<and> list_all host_char s"

definition lower_all :: "string list \<Rightarrow> string list" where
  "lower_all xs = map (\<lambda>s. to_lower (trim_space s)) xs"

fun dedupe_loop :: "string set \<Rightarrow> string list \<Rightarrow> string list" where
  "dedupe_loop seen [] = []"
| "dedupe_loop seen (s # ss) =
     (if s = [] \<or> s \<in> seen then dedupe_loop seen ss else s # dedupe_loop (insert s seen) ss)"

definition dedupe :: "string list \<Rightarrow> string list" where
  "dedupe xs = dedupe_loop {} xs"

subsection \<open>Normalizing a manifest\<close>

definition normalize_sha256 :: "string \<Rightarrow> string \<Rightarrow> (normalize_error, string) result" where
  "normalize_sha256 v field =
     (let s = trim_space v
      in if s = [] then Inl (DigestRequired field)
         else case hex_decode s of
                None \<Rightarrow> Inl (DigestFormat field)
              | Some b \<Rightarrow> if length b \<noteq> 32 then Inl (DigestFormat field) else Inr (hex_encode b))"

definition normalize_execution :: "execution_spec \<Rightarrow> (normalize_error, execution_spec) result" where
  "normalize_execution r =
     (let m = to_lower (trim_space (ex_mode r)); mode = (if m = [] then ''isolated'' else m);
          group = trim_space (ex_group r); abi = trim_space (ex_abi r)
      in if mode = ''isolated'' then
           if group \<noteq> [] \<or> abi \<noteq> [] then Inl GroupNeedsFusible
           else Inr \<lparr>ex_mode = mode, ex_group = group, ex_abi = abi\<rparr>
         else if mode = ''fusible'' then
           if group = [] then Inl GroupRequired
           else if abi = [] then Inl AbiRequired
           else if has_blank group then Inl GroupSpace
           else Inr \<lparr>ex_mode = mode, ex_group = group, ex_abi = abi\<rparr>
         else Inl (BadMode mode))"

definition check_host_consume :: "nat \<Rightarrow> string \<Rightarrow> (normalize_error, unit) result" where
  "check_host_consume i v =
     (let n = trim_space v
      in if n = [] then Inl (HostConsumeEmpty i)
         else if n \<noteq> v \<or> has_blank n then Inl (HostConsumeSpace i v)
         else if count_sub ''::'' n > 1 then Inl (HostConsumeQualifier i v)
         else case cut_at ''::'' n of
                None \<Rightarrow> Inr ()
              | Some (app, provider) \<Rightarrow>
                  if \<not> host_identifier app \<or> provider = [] then Inl (HostConsumeQualifier i v) else Inr ())"

fun host_consumes_loop :: "nat \<Rightarrow> string set \<Rightarrow> string list \<Rightarrow> (normalize_error, string list) result" where
  "host_consumes_loop i seen [] = Inr []"
| "host_consumes_loop i seen (v # vs) =
     bindE (check_host_consume i v) (\<lambda>_.
     if trim_space v \<in> seen then Inl (HostConsumeDuplicate (trim_space v))
     else bindE (host_consumes_loop (Suc i) (insert (trim_space v) seen) vs) (\<lambda>out. Inr (trim_space v # out)))"

definition normalize_host_consumes :: "string list \<Rightarrow> (normalize_error, string list) result" where
  "normalize_host_consumes vs = host_consumes_loop 0 {} vs"

text \<open>\<^verbatim>\<open>setConfigPath\<close> walks the segments before the last one, creating missing tables.\<close>

fun set_path :: "string list \<Rightarrow> string \<Rightarrow> 'o table \<Rightarrow> (path_error, 'o table) result" where
  "set_path [] v c = Inl EmptySegment"
| "set_path [leaf] v c = (if leaf = [] then Inl EmptySegment else Inr (fmupd leaf (CText v) c))"
| "set_path (part # p # ps) v c =
     (if part = [] then Inl EmptySegment
      else case fmlookup c part of
             None \<Rightarrow> bindE (set_path (p # ps) v fmempty) (\<lambda>t. Inr (fmupd part (CTable t) c))
           | Some (CTable t) \<Rightarrow> bindE (set_path (p # ps) v t) (\<lambda>t'. Inr (fmupd part (CTable t') c))
           | Some _ \<Rightarrow> Inl (NotTable part))"

definition set_config_path :: "'o table \<Rightarrow> string \<Rightarrow> string \<Rightarrow> (path_error, 'o table) result" where
  "set_config_path c path v = set_path (split_on (CHR ''.'') path) v c"

fun apply_config_env :: "(string \<rightharpoonup> string) \<Rightarrow> (string \<times> string) list \<Rightarrow> 'o table option
    \<Rightarrow> (normalize_error, 'o table option) result" where
  "apply_config_env env [] c = Inr c"
| "apply_config_env env ((k, n) # kns) c =
     (let key = trim_space k; name = trim_space n
      in if key = [] \<or> name = [] then Inl ConfigEnvEmpty
         else case env name of
                None \<Rightarrow> apply_config_env env kns c
              | Some v \<Rightarrow>
                  (case set_config_path (case c of None \<Rightarrow> fmempty | Some t \<Rightarrow> t) key v of
                     Inl e \<Rightarrow> Inl (ConfigEnvPath key e)
                   | Inr t \<Rightarrow> apply_config_env env kns (Some t)))"

definition normalize_schema :: "int \<Rightarrow> (normalize_error, int) result" where
  "normalize_schema v =
     (let s = (if v = 0 then 1 else v)
      in if s > 1 then Inl (SchemaTooNew s) else if s < 1 then Inl (SchemaTooOld s) else Inr s)"

definition normalize_restart :: "string \<Rightarrow> (normalize_error, string) result" where
  "normalize_restart r =
     (let t = trim_space r; s = (if t = [] then ''on_crash'' else t)
      in if s \<in> {''never'', ''on_crash'', ''always''} then Inr s else Inl (BadRestart s))"

definition resolve_wasm :: "string \<Rightarrow> string \<Rightarrow> string" where
  "resolve_wasm dir w =
     (let p = (if w = [] then ''cell.wasm'' else w) in if is_abs p then p else path_join [dir, p])"

definition normalize_cell :: "(string \<rightharpoonup> string) \<Rightarrow> 'o raw_cell \<Rightarrow> string \<Rightarrow> (normalize_error, 'o cell_spec) result" where
  "normalize_cell env r path =
     (if trim_space (rc_name r) = [] then Inl NameRequired
      else if trim_space (rc_version r) = [] then Inl VersionRequired
      else bindE (normalize_schema (rc_schema r)) (\<lambda>schema.
      bindE (normalize_restart (rc_restart r)) (\<lambda>restart.
      bindE (normalize_host_consumes (rc_host_consumes r)) (\<lambda>hc.
      bindE (case rc_wasm_sha256 r of None \<Rightarrow> Inr [] | Some s \<Rightarrow> normalize_sha256 s ''wasm_sha256'') (\<lambda>sha.
      bindE (normalize_execution (rc_execution r)) (\<lambda>ex.
      bindE (apply_config_env env (rc_config_env r) (rc_config r)) (\<lambda>cfg.
      Inr \<lparr>cs_schema = schema, cs_name = trim_space (rc_name r), cs_version = trim_space (rc_version r),
           cs_provides = dedupe (rc_provides r), cs_consumes = dedupe (rc_consumes r), cs_host_consumes = hc,
           cs_depends_on = dedupe (rc_depends_on r), cs_capabilities = dedupe (lower_all (rc_capabilities r)),
           cs_execution = ex, cs_shared_memory_groups = dedupe (rc_shared_memory_groups r),
           cs_dedicated_thread = rc_dedicated_thread r, cs_snapshotable = rc_snapshotable r,
           cs_max_memory_pages = rc_max_memory_pages r, cs_call_timeout_ms = rc_call_timeout_ms r,
           cs_restart = restart, cs_config = cfg, cs_config_env = rc_config_env r, cs_manifest_path = path,
           cs_wasm_path = resolve_wasm (path_dir path) (rc_wasm r), cs_wasm_sha256 = sha\<rparr>)))))))"

text \<open>Keys below \<^verbatim>\<open>config\<close> are free-form; every other key the decoder did not know is refused.\<close>

definition config_key :: "string \<Rightarrow> string \<Rightarrow> bool" where
  "config_key root k \<longleftrightarrow> k = root \<or> prefix (root @ ''.'') k"

definition load_cell :: "('o, 'z) manifest_world_scheme \<Rightarrow> string \<Rightarrow> (load_error, 'o cell_spec) result" where
  "load_cell w path =
     (case path_abs (w_cwd w) path of
        None \<Rightarrow> Inl ManifestPathError
      | Some p \<Rightarrow>
          (case w_read w p of
             Inl e \<Rightarrow> Inl (ReadError e)
           | Inr data \<Rightarrow>
               (case w_decode_cell w data of
                  None \<Rightarrow> Inl TomlError
                | Some (r, undecoded) \<Rightarrow>
                    let names = filter (\<lambda>k. \<not> config_key ''config'' k) undecoded
                    in if names \<noteq> [] then Inl (UnknownFields names)
                       else map_err Invalid (normalize_cell (w_env w) r p))))"

definition verify_wasm_digest :: "('o, 'z) manifest_world_scheme \<Rightarrow> 'o cell_spec \<Rightarrow> bool \<Rightarrow> (digest_error, unit) result" where
  "verify_wasm_digest w spec required =
     (if cs_wasm_sha256 spec = [] then if required then Inl PinRequired else Inr ()
      else case w_read w (cs_wasm_path spec) of
             Inl e \<Rightarrow> Inl (WasmUnreadable e)
           | Inr wasm \<Rightarrow>
               if hex_encode (w_sha256 w wasm) \<noteq> cs_wasm_sha256 spec
               then Inl (WasmMismatch (w_sha256 w wasm) (cs_wasm_sha256 spec)) else Inr ())"

subsection \<open>Sets of cells\<close>

record 'o cell_set =
  set_cells :: "'o cell_spec list"
  set_order :: "'o cell_spec list"
  set_plan :: plan

definition lookup_cell :: "'o cell_set \<Rightarrow> string \<Rightarrow> 'o cell_spec option" where
  "lookup_cell s name = List.find (\<lambda>p. cs_name p = name) (set_cells s)"

fun check_names :: "(string \<rightharpoonup> 'o cell_spec) \<Rightarrow> 'o cell_spec list \<Rightarrow> (set_error, string \<rightharpoonup> 'o cell_spec) result" where
  "check_names by_name [] = Inr by_name"
| "check_names by_name (s # ss) =
     (case by_name (cs_name s) of
        Some prev \<Rightarrow> Inl (DuplicateCell (cs_name s) (cs_manifest_path prev) (cs_manifest_path s))
      | None \<Rightarrow> check_names (by_name(cs_name s \<mapsto> s)) ss)"

text \<open>The cells that provide a function, each named once, in the order of the cells.\<close>

definition providers :: "'o cell_spec list \<Rightarrow> string \<Rightarrow> string list" where
  "providers specs p = map cs_name (filter (\<lambda>s. p \<in> set (cs_provides s)) specs)"

fun check_consumes :: "(string \<Rightarrow> string list) \<Rightarrow> string \<Rightarrow> string list \<Rightarrow> (set_error, unit) result" where
  "check_consumes owners cell [] = Inr ()"
| "check_consumes owners cell (c # cs) =
     (case owners c of
        [] \<Rightarrow> Inl (NoProvider cell c)
      | [_] \<Rightarrow> check_consumes owners cell cs
      | os \<Rightarrow> Inl (AmbiguousProvider cell c os))"

fun check_depends :: "(string \<rightharpoonup> 'o cell_spec) \<Rightarrow> string \<Rightarrow> string list \<Rightarrow> (set_error, unit) result" where
  "check_depends by_name cell [] = Inr ()"
| "check_depends by_name cell (d # ds) =
     (if by_name d = None then Inl (MissingDependency cell d)
      else if d = cell then Inl (SelfDependency cell)
      else check_depends by_name cell ds)"

definition cell_items :: "'o cell_spec list \<Rightarrow> item list" where
  "cell_items specs = map (\<lambda>s. \<lparr>item_id = cs_name s, depends_on = cs_depends_on s\<rparr>) specs"

definition build_set :: "'o cell_spec list \<Rightarrow> (set_error, 'o cell_set) result" where
  "build_set specs =
     (if specs = [] then Inl NoManifests
      else bindE (check_names Map.empty specs) (\<lambda>by_name.
      bindE (mapM (\<lambda>s. check_consumes (providers specs) (cs_name s) (cs_consumes s)) specs) (\<lambda>_.
      bindE (mapM (\<lambda>s. check_depends by_name (cs_name s) (cs_depends_on s)) specs) (\<lambda>_.
      bindE (map_err PlanFailed (build (cell_items specs))) (\<lambda>plan.
      Inr \<lparr>set_cells = specs, set_order = map (\<lambda>i. the (by_name i)) (plan_start_order plan), set_plan = plan\<rparr>)))))"

definition load_all :: "('o, 'z) manifest_world_scheme \<Rightarrow> string list \<Rightarrow> (set_error, 'o cell_set) result" where
  "load_all w paths =
     (if paths = [] then Inl NoManifests
      else bindE (mapM (\<lambda>p. map_err (LoadFailed p) (load_cell w p)) paths) build_set)"

subsection \<open>Lists and texts\<close>

lemma dedupe_loop_set: "set (dedupe_loop seen xs) = set xs - insert [] seen"
  by (induction seen xs rule: dedupe_loop.induct) auto

lemma dedupe_loop_distinct: "distinct (dedupe_loop seen xs)"
  by (induction seen xs rule: dedupe_loop.induct) (auto simp: dedupe_loop_set)

lemma dedupe_set [simp]: "set (dedupe xs) = set xs - {[]}"
  by (simp add: dedupe_def dedupe_loop_set)

lemma dedupe_distinct [simp]: "distinct (dedupe xs)"
  by (simp add: dedupe_def dedupe_loop_distinct)

lemma dedupe_subseq: "subseq (dedupe xs) xs"
proof -
  have "subseq (dedupe_loop seen xs) xs" for seen
    by (induction seen xs rule: dedupe_loop.induct) auto
  then show ?thesis by (simp add: dedupe_def)
qed

lemma count_sub_le_one:
  "sep \<noteq> [] \<Longrightarrow> \<not> count_sub sep s > 1 \<longleftrightarrow> (case cut_at sep s of None \<Rightarrow> True | Some (a, b) \<Rightarrow> cut_at sep b = None)"
  by (auto simp: count_sub.simps [of sep s] count_sub.simps [of sep "snd _"] split: option.splits)
     (auto simp: count_sub.simps split: option.splits)

subsection \<open>Well-formed cells\<close>

definition names_ok :: "string list \<Rightarrow> bool" where
  "names_ok xs \<longleftrightarrow> distinct xs \<and> [] \<notin> set xs"

definition host_consume_ok :: "string \<Rightarrow> bool" where
  "host_consume_ok v \<longleftrightarrow> v \<noteq> [] \<and> \<not> has_blank v \<and>
     (case cut_at ''::'' v of None \<Rightarrow> True
      | Some (app, provider) \<Rightarrow> host_identifier app \<and> provider \<noteq> [] \<and> cut_at ''::'' provider = None)"

definition execution_ok :: "execution_spec \<Rightarrow> bool" where
  "execution_ok e \<longleftrightarrow>
     ex_mode e = ''isolated'' \<and> ex_group e = [] \<and> ex_abi e = [] \<or>
     ex_mode e = ''fusible'' \<and> ex_group e \<noteq> [] \<and> ex_abi e \<noteq> [] \<and> \<not> has_blank (ex_group e)"

definition spec_wf :: "'o cell_spec \<Rightarrow> bool" where
  "spec_wf s \<longleftrightarrow> cs_schema s = 1 \<and> cs_name s \<noteq> [] \<and> trim_space (cs_name s) = cs_name s \<and> cs_version s \<noteq> [] \<and>
     cs_restart s \<in> {''never'', ''on_crash'', ''always''} \<and>
     names_ok (cs_provides s) \<and> names_ok (cs_consumes s) \<and> names_ok (cs_depends_on s) \<and> names_ok (cs_capabilities s) \<and>
     names_ok (cs_host_consumes s) \<and> list_all host_consume_ok (cs_host_consumes s) \<and> execution_ok (cs_execution s) \<and>
     (cs_wasm_sha256 s = [] \<or> (\<exists>d. length d = 32 \<and> cs_wasm_sha256 s = hex_encode d)) \<and>
     (is_abs (cs_manifest_path s) \<longrightarrow> is_abs (cs_wasm_path s))"

lemma check_host_consume_ok: "check_host_consume i v = Inr u \<Longrightarrow> host_consume_ok v \<and> trim_space v = v"
  using count_sub_le_one [of "''::''" v]
  by (auto simp: check_host_consume_def host_consume_ok_def Let_def split: if_splits option.splits)

lemma host_consumes_loop_ok:
  "host_consumes_loop i seen vs = Inr out \<Longrightarrow>
     out = vs \<and> list_all host_consume_ok vs \<and> distinct vs \<and> set vs \<inter> seen = {}"
proof (induction i seen vs arbitrary: out rule: host_consumes_loop.induct)
  case (2 i seen v vs)
  then obtain out' where v: "check_host_consume i v = Inr ()" "trim_space v \<notin> seen"
      and out': "host_consumes_loop (Suc i) (insert (trim_space v) seen) vs = Inr out'" "out = trim_space v # out'"
    by (auto split: if_splits)
  have "trim_space v = v" "host_consume_ok v" using check_host_consume_ok [OF v(1)] by auto
  then show ?case using "2.IH" [OF v(2) out'(1)] v out' by auto
qed simp

lemma normalize_host_consumes_ok:
  "normalize_host_consumes vs = Inr out \<Longrightarrow> out = vs \<and> list_all host_consume_ok vs \<and> names_ok vs"
  unfolding normalize_host_consumes_def names_ok_def
  by (drule host_consumes_loop_ok) (auto simp: list_all_iff host_consume_ok_def)

lemma normalize_sha256_ok: "normalize_sha256 v f = Inr s \<Longrightarrow> \<exists>d. length d = 32 \<and> hex_decode (trim_space v) = Some d \<and> s = hex_encode d"
  by (auto simp: normalize_sha256_def Let_def split: if_splits option.splits)

lemma normalize_execution_ok: "normalize_execution r = Inr e \<Longrightarrow> execution_ok e"
  by (auto simp: normalize_execution_def execution_ok_def Let_def split: if_splits)

lemma resolve_wasm_abs: "is_abs dir \<Longrightarrow> is_abs (resolve_wasm dir w)"
  by (simp add: resolve_wasm_def Let_def is_abs_join)

lemma normalize_schema_ok: "normalize_schema v = Inr s \<Longrightarrow> s = 1"
  by (auto simp: normalize_schema_def Let_def split: if_splits)

lemma normalize_restart_ok: "normalize_restart r = Inr s \<Longrightarrow> s \<in> {''never'', ''on_crash'', ''always''}"
  by (auto simp: normalize_restart_def Let_def split: if_splits)

lemma normalize_cell_ok:
  assumes "normalize_cell env r path = Inr s"
  shows "spec_wf s \<and> cs_manifest_path s = path"
proof -
  have "cs_wasm_sha256 s = [] \<or> (\<exists>d. length d = 32 \<and> cs_wasm_sha256 s = hex_encode d)"
    using assms by (fastforce simp: normalize_cell_def dest!: normalize_sha256_ok split: if_splits option.splits)
  then show ?thesis
    using assms
    by (auto simp: normalize_cell_def spec_wf_def names_ok_def resolve_wasm_abs is_abs_dir
        dest!: normalize_host_consumes_ok normalize_execution_ok normalize_schema_ok normalize_restart_ok split: if_splits)
qed

lemma load_cell_ok:
  assumes "load_cell w path = Inr s"
  shows "spec_wf s \<and> path_abs (w_cwd w) path = Some (cs_manifest_path s)"
  using assms by (auto simp: load_cell_def Let_def dest: normalize_cell_ok split: option.splits sum.splits if_splits)

subsection \<open>Configuration paths\<close>

fun get_path :: "string list \<Rightarrow> 'o table \<Rightarrow> 'o config option" where
  "get_path [] c = None"
| "get_path [k] c = fmlookup c k"
| "get_path (k # p # ps) c = (case fmlookup c k of Some (CTable t) \<Rightarrow> get_path (p # ps) t | _ \<Rightarrow> None)"

lemma set_path_get: "set_path ps v c = Inr c' \<Longrightarrow> get_path ps c' = Some (CText v)"
  by (induction ps v c arbitrary: c' rule: set_path.induct) (auto split: if_splits option.splits config.splits)

text \<open>Setting a path rewrites one entry of the table, and looks at no other.\<close>

lemma set_path_head: "\<exists>g. \<forall>c. set_path (k # ps) v c = bindE (g (fmlookup c k)) (\<lambda>x. Inr (fmupd k x c))"
proof (cases ps)
  case Nil
  then show ?thesis
    by (intro exI [of _ "\<lambda>_. if k = [] then Inl EmptySegment else Inr (CText v)"]) auto
next
  case (Cons p qs)
  define g :: "'a config option \<Rightarrow> (path_error, 'a config) result" where
    "g = (\<lambda>e. if k = [] then Inl EmptySegment else case e of
       None \<Rightarrow> bindE (set_path (p # qs) v fmempty) (\<lambda>t. Inr (CTable t))
     | Some (CTable t) \<Rightarrow> bindE (set_path (p # qs) v t) (\<lambda>t. Inr (CTable t))
     | Some _ \<Rightarrow> Inl (NotTable k))"
  have "set_path (k # ps) v c = bindE (g (fmlookup c k)) (\<lambda>x. Inr (fmupd k x c))" for c
    by (cases "set_path (p # qs) v (case fmlookup c k of Some (CTable t) \<Rightarrow> t | _ \<Rightarrow> fmempty)")
       (auto simp: g_def Cons split: option.splits config.splits)
  then show ?thesis by blast
qed

lemma set_path_same_head:
  "k \<noteq> [] \<Longrightarrow> set_path (k # p # ps) v c =
     (case (case fmlookup c k of None \<Rightarrow> Some fmempty | Some (CTable t) \<Rightarrow> Some t | Some _ \<Rightarrow> None) of
        None \<Rightarrow> Inl (NotTable k)
      | Some t \<Rightarrow> bindE (set_path (p # ps) v t) (\<lambda>t'. Inr (fmupd k (CTable t') c)))"
  by (auto split: option.splits config.splits)

lemma set_path_swap:
  fixes c :: "'o table"
  assumes "\<not> prefix p q" and "\<not> prefix q p" and "bindE (set_path p v c) (set_path q w) = Inr d"
  shows "bindE (set_path q w c) (set_path p v) = Inr d"
  using assms
proof (induction p arbitrary: q c d)
  case (Cons a ps)
  obtain b qs where q: "q = b # qs" using Cons.prems(2) by (cases q) auto
  show ?case
  proof (cases "a = b")
    case False
    obtain f where f: "\<And>c :: 'o table. set_path (a # ps) v c = bindE (f (fmlookup c a)) (\<lambda>x. Inr (fmupd a x c))"
      using set_path_head by metis
    obtain g where g: "\<And>c :: 'o table. set_path q w c = bindE (g (fmlookup c b)) (\<lambda>x. Inr (fmupd b x c))"
      using set_path_head q by metis
    show ?thesis using Cons.prems(3) False by (auto simp: f g fmupd_reorder_neq)
  next
    case True
    then have np: "\<not> prefix ps qs" "\<not> prefix qs ps" using Cons.prems q by auto
    obtain a1 ps1 where ps: "ps = a1 # ps1" using np(1) by (cases ps) auto
    obtain b1 qs1 where qs: "qs = b1 # qs1" using np(2) by (cases qs) auto
    have a: "a \<noteq> []" using Cons.prems(3) ps by auto
    obtain t where t: "(case fmlookup c a of None \<Rightarrow> Some fmempty | Some (CTable t) \<Rightarrow> Some t | Some _ \<Rightarrow> None) = Some t"
      using Cons.prems(3) a unfolding ps by (auto split: option.splits config.splits)
    have p: "set_path (a # ps) v c = bindE (set_path ps v t) (\<lambda>t'. Inr (fmupd a (CTable t') c))"
      unfolding ps set_path_same_head [OF a] t by simp
    have q': "set_path q w c = bindE (set_path qs w t) (\<lambda>t'. Inr (fmupd a (CTable t') c))"
      unfolding q qs True [symmetric] set_path_same_head [OF a] t by simp
    obtain t1 t2 where t12: "set_path ps v t = Inr t1" "set_path qs w t1 = Inr t2" "d = fmupd a (CTable t2) c"
      using Cons.prems(3) a True unfolding p by (auto simp: q qs)
    then have "bindE (set_path qs w t) (set_path ps v) = Inr t2"
      using Cons.IH [OF np] by simp
    then show ?thesis unfolding q' using t12(3) a by (auto simp: ps)
  qed
qed simp

lemma set_path_other:
  assumes "set_path ps v c = Inr c'" and "\<not> prefix ps qs" and "\<not> prefix qs ps"
  shows "get_path qs c' = get_path qs c"
  using assms
proof (induction ps v c arbitrary: c' qs rule: set_path.induct)
  case (2 leaf v c)
  then show ?case by (cases "(qs, c)" rule: get_path.cases) (auto split: if_splits)
next
  case (3 k p ps v c)
  obtain b bs where qs: "qs = b # bs" using "3.prems"(3) by (cases qs) auto
  show ?case
  proof (cases "b = k")
    case False
    then show ?thesis using 3 qs by (cases bs) (auto split: if_splits option.splits config.splits)
  next
    case True
    then have np: "\<not> prefix (p # ps) bs" "\<not> prefix bs (p # ps)" using "3.prems" qs by auto
    obtain b1 bs1 where bs: "bs = b1 # bs1" using np(2) by (cases bs) auto
    have "get_path bs fmempty = (None :: 'a config option)" unfolding bs by (cases bs1) auto
    then show ?thesis using "3.prems" "3.IH" np qs True bs by (auto split: if_splits option.splits config.splits)
  qed
qed simp

subsection \<open>Environment values in the configuration\<close>

text \<open>The path an entry of \<^verbatim>\<open>config_env\<close> writes, and the value it writes when its variable is set.\<close>

definition env_path :: "string \<times> string \<Rightarrow> string list" where
  "env_path kn = split_on (CHR ''.'') (trim_space (fst kn))"

definition env_value :: "(string \<rightharpoonup> string) \<Rightarrow> string \<times> string \<Rightarrow> string option" where
  "env_value env kn = env (trim_space (snd kn))"

definition table_of :: "'o table option \<Rightarrow> 'o table" where
  "table_of c = (case c of None \<Rightarrow> fmempty | Some t \<Rightarrow> t)"

definition env_step :: "(string \<rightharpoonup> string) \<Rightarrow> string \<times> string \<Rightarrow> 'o table option \<Rightarrow> (normalize_error, 'o table option) result" where
  "env_step env kn c =
     (if trim_space (fst kn) = [] \<or> trim_space (snd kn) = [] then Inl ConfigEnvEmpty
      else case env_value env kn of
             None \<Rightarrow> Inr c
           | Some v \<Rightarrow> map_err (ConfigEnvPath (trim_space (fst kn))) (map_sum id Some (set_path (env_path kn) v (table_of c))))"

lemma apply_config_env_Cons: "apply_config_env env (kn # kns) c = bindE (env_step env kn c) (apply_config_env env kns)"
  by (cases kn) (auto simp: env_step_def env_path_def env_value_def set_config_path_def table_of_def Let_def
      split: option.splits sum.splits)

text \<open>Two paths are independent when neither leads to or through the other.\<close>

definition independent :: "string \<times> string \<Rightarrow> string \<times> string \<Rightarrow> bool" where
  "independent a b \<longleftrightarrow> \<not> prefix (env_path a) (env_path b) \<and> \<not> prefix (env_path b) (env_path a)"

lemma independent_sym: "independent a b \<Longrightarrow> independent b a"
  by (simp add: independent_def)

lemma map_sum_id_Inr: "map_sum id g r = Inr x \<longleftrightarrow> (\<exists>a. r = Inr a \<and> x = g a)"
  by (cases r) auto

lemma env_step_Inr:
  "env_step env kn c = Inr c' \<longleftrightarrow> trim_space (fst kn) \<noteq> [] \<and> trim_space (snd kn) \<noteq> [] \<and>
     (case env_value env kn of None \<Rightarrow> c' = c
      | Some v \<Rightarrow> \<exists>t. set_path (env_path kn) v (table_of c) = Inr t \<and> c' = Some t)"
  by (auto simp: env_step_def map_sum_id_Inr split: option.splits)

lemma env_step_swap:
  assumes "independent a b" and "bindE (env_step env a c) (env_step env b) = Inr d"
  shows "bindE (env_step env b c) (env_step env a) = Inr d"
proof (cases "env_value env a = None \<or> env_value env b = None")
  case True
  then show ?thesis using assms(2) by (auto simp: env_step_Inr split: option.splits)
next
  case False
  then obtain v w where vw: "env_value env a = Some v" "env_value env b = Some w" by auto
  have "bindE (set_path (env_path b) w (table_of c)) (set_path (env_path a) v) = Inr (table_of d)"
    by (rule set_path_swap) (use assms vw in \<open>auto simp: independent_def env_step_Inr table_of_def\<close>)
  then show ?thesis using assms(2) vw by (auto simp: env_step_Inr table_of_def)
qed

lemma env_move_front:
  assumes "\<forall>x \<in> set as. independent x a" and "apply_config_env env (as @ a # bs) c = Inr d"
  shows "apply_config_env env (a # as @ bs) c = Inr d"
  using assms
proof (induction as arbitrary: c)
  case (Cons x as)
  then obtain c1 where c1: "env_step env x c = Inr c1" "apply_config_env env (a # as @ bs) c1 = Inr d"
    by (auto simp: apply_config_env_Cons)
  then obtain c2 where c2: "env_step env a c1 = Inr c2" "apply_config_env env (as @ bs) c2 = Inr d"
    by (auto simp: apply_config_env_Cons)
  have "bindE (env_step env a c) (env_step env x) = Inr c2"
    by (rule env_step_swap) (use Cons.prems c1 c2 in auto)
  then show ?case using c2 by (auto simp: apply_config_env_Cons)
qed simp

lemma apply_config_env_perm:
  assumes "mset ys = mset xs" and "pairwise independent (set xs)" and "distinct xs"
    and "apply_config_env env xs c = Inr d"
  shows "apply_config_env env ys c = Inr d"
  using assms
proof (induction ys arbitrary: xs c)
  case (Cons y ys)
  have "y \<in> set xs" using Cons.prems(1) by (metis list.set_intros(1) set_mset_mset)
  then obtain as bs where xs: "xs = as @ y # bs" by (meson split_list)
  have "\<forall>x \<in> set as. independent x y" using Cons.prems(2,3) xs by (auto simp: pairwise_def)
  then have "apply_config_env env (y # as @ bs) c = Inr d"
    by (rule env_move_front) (use Cons.prems(4) xs in simp)
  then obtain c1 where c1: "env_step env y c = Inr c1" "apply_config_env env (as @ bs) c1 = Inr d"
    by (auto simp: apply_config_env_Cons)
  have "apply_config_env env ys c1 = Inr d"
    by (rule Cons.IH [OF _ _ _ c1(2)]) (use Cons.prems xs in \<open>auto simp: pairwise_def\<close>)
  then show ?case using c1 by (simp add: apply_config_env_Cons)
qed simp

lemma apply_config_env_other:
  assumes "apply_config_env env kns c = Inr d"
    and "\<forall>kn \<in> set kns. env_value env kn \<noteq> None \<longrightarrow> \<not> prefix (env_path kn) qs \<and> \<not> prefix qs (env_path kn)"
  shows "get_path qs (table_of d) = get_path qs (table_of c)"
  using assms
proof (induction kns arbitrary: c)
  case (Cons kn kns)
  obtain c1 where c1: "env_step env kn c = Inr c1" "apply_config_env env kns c1 = Inr d"
    using Cons.prems(1) by (auto simp: apply_config_env_Cons)
  have "get_path qs (table_of c1) = get_path qs (table_of c)"
    using c1(1) Cons.prems(2) by (auto simp: env_step_Inr table_of_def split: option.splits dest: set_path_other)
  then show ?case using Cons.IH [OF c1(2)] Cons.prems(2) by simp
qed simp

lemma apply_config_env_value:
  assumes "apply_config_env env kns c = Inr d" and "pairwise independent (set kns)" and "distinct kns"
    and "kn \<in> set kns" and "env_value env kn = Some v"
  shows "get_path (env_path kn) (table_of d) = Some (CText v)"
proof -
  obtain as bs where kns: "kns = as @ kn # bs" using assms(4) by (meson split_list)
  have "\<forall>x \<in> set as. independent x kn" using assms(2,3) kns by (auto simp: pairwise_def)
  then have "apply_config_env env (kn # as @ bs) c = Inr d" by (rule env_move_front) (use assms(1) kns in simp)
  then obtain c1 where c1: "env_step env kn c = Inr c1" "apply_config_env env (as @ bs) c1 = Inr d"
    by (auto simp: apply_config_env_Cons)
  have "get_path (env_path kn) (table_of d) = get_path (env_path kn) (table_of c1)"
    by (rule apply_config_env_other [OF c1(2)]) (use assms(2,3) kns in \<open>auto simp: pairwise_def independent_def\<close>)
  then show ?thesis using c1(1) assms(5) by (auto simp: env_step_Inr table_of_def dest: set_path_get)
qed

subsection \<open>Sets that can boot\<close>

definition cell_names :: "'o cell_spec list \<Rightarrow> string list" where
  "cell_names specs = map cs_name specs"

definition cells_by_name :: "'o cell_spec list \<Rightarrow> (string \<rightharpoonup> 'o cell_spec)" where
  "cells_by_name specs = map_of (map (\<lambda>s. (cs_name s, s)) specs)"

text \<open>Each consumed function has exactly one providing cell, each dependency is another cell of the set,
  listed once, and the dependencies have no cycle.\<close>

definition bootable :: "'o cell_spec list \<Rightarrow> bool" where
  "bootable specs \<longleftrightarrow> specs \<noteq> [] \<and> distinct (cell_names specs) \<and>
     (\<forall>s \<in> set specs. trim_space (cs_name s) \<noteq> [] \<and>
        (\<forall>c \<in> set (cs_consumes s). \<exists>!p. p \<in> set specs \<and> c \<in> set (cs_provides p)) \<and>
        set (cs_depends_on s) \<subseteq> set (cell_names specs) - {cs_name s} \<and> distinct (cs_depends_on s)) \<and>
     acyclic {(d, x). \<exists>s \<in> set specs. cs_name s = x \<and> d \<in> set (cs_depends_on s)}"

lemma check_names_Inr:
  "check_names m ss = Inr m' \<longleftrightarrow>
     distinct (cell_names ss) \<and> set (cell_names ss) \<inter> dom m = {} \<and> m' = m ++ cells_by_name ss"
proof (induction m ss rule: check_names.induct)
  case (2 m s ss)
  show ?case
  proof (cases "m (cs_name s)")
    case None
    have "m(cs_name s \<mapsto> s) ++ cells_by_name ss = m ++ cells_by_name (s # ss)"
      if "cs_name s \<notin> set (cell_names ss)"
      using that by (auto simp: cells_by_name_def cell_names_def map_add_def fun_eq_iff image_iff
          split: option.splits dest!: map_of_SomeD)
    moreover have "check_names m (s # ss) = Inr m' \<longleftrightarrow> check_names (m(cs_name s \<mapsto> s)) ss = Inr m'"
      using None by simp
    ultimately show ?thesis unfolding "2.IH" [OF None] using None by (auto simp: cell_names_def)
  qed (auto simp: cell_names_def)
qed (auto simp: cell_names_def cells_by_name_def)

lemma check_consumes_Inr: "check_consumes owners cell cs = Inr u \<longleftrightarrow> (\<forall>c \<in> set cs. length (owners c) = 1)"
  by (induction owners cell cs rule: check_consumes.induct) (auto split: list.splits)

lemma check_depends_Inr:
  "check_depends m cell ds = Inr u \<longleftrightarrow> (\<forall>d \<in> set ds. m d \<noteq> None \<and> d \<noteq> cell)"
  by (induction m cell ds rule: check_depends.induct) auto

lemma mapM_ok: "(\<exists>ys. mapM f xs = Inr ys) \<longleftrightarrow> (\<forall>x \<in> set xs. \<exists>y. f x = Inr y)"
  by (induction xs) auto

lemma one_provider:
  assumes "distinct (cell_names specs)"
  shows "length (providers specs c) = 1 \<longleftrightarrow> (\<exists>!p. p \<in> set specs \<and> c \<in> set (cs_provides p))"
proof -
  have d: "distinct (filter (\<lambda>s. c \<in> set (cs_provides s)) specs)"
    using assms by (simp add: cell_names_def distinct_map)
  have "length (providers specs c) = card {p. p \<in> set specs \<and> c \<in> set (cs_provides p)}"
    using distinct_card [OF d] by (simp add: providers_def Collect_conj_eq Int_commute)
  then show ?thesis by (simp add: card_1_singleton_iff Ex1_def) blast
qed

lemma cells_by_name_Some:
  "distinct (cell_names specs) \<Longrightarrow> cells_by_name specs n = Some s \<longleftrightarrow> s \<in> set specs \<and> cs_name s = n"
  by (auto simp: cells_by_name_def cell_names_def comp_def dest!: map_of_SomeD intro!: map_of_is_SomeI)

lemma cells_by_name_None: "cells_by_name specs n = None \<longleftrightarrow> n \<notin> set (cell_names specs)"
  by (auto simp: cells_by_name_def cell_names_def map_of_eq_None_iff image_iff)

lemma ids_cell_items: "ids (cell_items specs) = cell_names specs"
  by (simp add: ids_def cell_items_def cell_names_def comp_def)

lemma dep_rel_cell_items:
  "dep_rel (cell_items specs) = {(d, x). \<exists>s \<in> set specs. cs_name s = x \<and> d \<in> set (cs_depends_on s)}"
  by (auto simp: dep_rel_def cell_items_def)

lemma build_set_Inr:
  "build_set specs = Inr S \<longleftrightarrow>
     specs \<noteq> [] \<and> distinct (cell_names specs) \<and>
     (\<forall>s \<in> set specs. \<forall>c \<in> set (cs_consumes s). length (providers specs c) = 1) \<and>
     (\<forall>s \<in> set specs. set (cs_depends_on s) \<subseteq> set (cell_names specs) - {cs_name s}) \<and>
     (\<exists>plan. build (cell_items specs) = Inr plan \<and>
        S = \<lparr>set_cells = specs, set_order = map (\<lambda>i. the (cells_by_name specs i)) (plan_start_order plan), set_plan = plan\<rparr>)"
proof -
  have c: "(\<exists>ys. mapM (\<lambda>s. check_consumes (providers specs) (cs_name s) (cs_consumes s)) specs = Inr ys) \<longleftrightarrow>
      (\<forall>s \<in> set specs. \<forall>c \<in> set (cs_consumes s). length (providers specs c) = 1)"
    by (simp add: mapM_ok check_consumes_Inr)
  have d: "(\<exists>ys. mapM (\<lambda>s. check_depends (cells_by_name specs) (cs_name s) (cs_depends_on s)) specs = Inr ys) \<longleftrightarrow>
      (\<forall>s \<in> set specs. set (cs_depends_on s) \<subseteq> set (cell_names specs) - {cs_name s})"
    by (simp only: mapM_ok check_depends_Inr cells_by_name_None) auto
  show ?thesis
    unfolding build_set_def using c d by (auto simp: check_names_Inr)
qed

lemma build_set_total: "(\<exists>S. build_set specs = Inr S) \<longleftrightarrow> bootable specs"
proof (cases "distinct (cell_names specs)")
  case True
  have plan: "(\<exists>p. build (cell_items specs) = Inr p) \<longleftrightarrow> valid_items (cell_items specs) \<and> acyclic (dep_rel (cell_items specs))"
    using dp.mk_sound dp.mk_total by blast
  have valid: "valid_items (cell_items specs) \<longleftrightarrow> specs \<noteq> [] \<and>
      (\<forall>s \<in> set specs. trim_space (cs_name s) \<noteq> [] \<and> cs_name s \<notin> set (cs_depends_on s) \<and>
         set (cs_depends_on s) \<subseteq> set (cell_names specs) \<and> distinct (cs_depends_on s))"
    using True by (simp add: valid_items_def ids_cell_items) (simp add: cell_items_def)
  have "(\<exists>S. build_set specs = Inr S) \<longleftrightarrow>
      specs \<noteq> [] \<and> (\<forall>s \<in> set specs. \<forall>c \<in> set (cs_consumes s). length (providers specs c) = 1) \<and>
      (\<forall>s \<in> set specs. set (cs_depends_on s) \<subseteq> set (cell_names specs) - {cs_name s}) \<and>
      (\<exists>p. build (cell_items specs) = Inr p)"
    using True by (auto simp: build_set_Inr)
  then have split: "(\<exists>S. build_set specs = Inr S) \<longleftrightarrow> specs \<noteq> [] \<and>
      (\<forall>s \<in> set specs. trim_space (cs_name s) \<noteq> [] \<and> (\<forall>c \<in> set (cs_consumes s). length (providers specs c) = 1) \<and>
         set (cs_depends_on s) \<subseteq> set (cell_names specs) - {cs_name s} \<and> distinct (cs_depends_on s)) \<and>
      acyclic (dep_rel (cell_items specs))"
    unfolding plan valid by blast
  show ?thesis
    unfolding split bootable_def one_provider [OF True] dep_rel_cell_items by (simp only: True simp_thms)
qed (auto simp: build_set_Inr bootable_def)

text \<open>Looking up a rearrangement of the keys of a list gives a rearrangement of the list.\<close>

lemma lookup_rearranged:
  assumes "distinct (map k xs)" and "distinct so" and "set so = set (map k xs)" and f: "\<And>x. x \<in> set xs \<Longrightarrow> f (k x) = Some x"
  shows "map k (map (\<lambda>i. the (f i)) so) = so \<and> mset (map (\<lambda>i. the (f i)) so) = mset xs"
proof -
  have cell: "the (f i) \<in> set xs \<and> k (the (f i)) = i" if "i \<in> set so" for i using that assms(3) f by auto
  then have names: "map k (map (\<lambda>i. the (f i)) so) = so" by (auto intro!: map_idI)
  have "set (map (\<lambda>i. the (f i)) so) = set xs" using cell assms(3) f by force
  moreover have "distinct (map (\<lambda>i. the (f i)) so)" using names assms(2) by (metis distinct_map)
  moreover have "distinct xs" using assms(1) by (simp add: distinct_map)
  ultimately show ?thesis using names set_eq_iff_mset_eq_distinct by blast
qed

lemma build_set_order:
  assumes "build_set specs = Inr S"
  shows "set_cells S = specs \<and> mset (set_order S) = mset specs \<and> distinct (cell_names (set_order S)) \<and>
    (\<forall>i < length (set_order S). set (cs_depends_on (set_order S ! i)) \<subseteq> cs_name ` set (take i (set_order S)))"
proof -
  obtain plan where d: "distinct (cell_names specs)" and b: "build (cell_items specs) = Inr plan"
    and S: "set_cells S = specs" "set_order S = map (\<lambda>i. the (cells_by_name specs i)) (plan_start_order plan)"
    using assms by (auto simp: build_set_Inr)
  define so where "so = plan_start_order plan"
  have wf: "distinct so" "set so = set (cell_names specs)" "topo (dependencies plan) so"
    using dp.mk_wf [OF b] dp.mk_nodes [OF b] by (auto simp: so_def plan_wf_def ids_cell_items)
  have names: "map cs_name (set_order S) = so" and ms: "mset (set_order S) = mset specs"
    unfolding S so_def [symmetric]
    using lookup_rearranged [of cs_name specs so "cells_by_name specs"] d wf cells_by_name_Some [OF d]
    by (auto simp: cell_names_def)
  have "set (cs_depends_on (set_order S ! i)) \<subseteq> cs_name ` set (take i (set_order S))" if i: "i < length (set_order S)" for i
  proof -
    have si: "so ! i = cs_name (set_order S ! i)" "i < length so" using names i by (metis nth_map length_map)+
    have "set_order S ! i \<in> set specs" using ms i nth_mem by (metis set_mset_mset)
    then have "dependencies plan (so ! i) = cs_depends_on (set_order S ! i)"
      using dp.mk_deps [OF b, of "\<lparr>item_id = cs_name (set_order S ! i), depends_on = cs_depends_on (set_order S ! i)\<rparr>"] si
      by (auto simp: cell_items_def)
    then have "set (cs_depends_on (set_order S ! i)) \<subseteq> set (take i so)" using wf(3) si(2) unfolding topo_def by metis
    then show ?thesis by (simp add: names [symmetric] take_map)
  qed
  then show ?thesis using S(1) names wf(1) ms by (simp add: cell_names_def)
qed

subsection \<open>Properties\<close>

text \<open>A manifest that loads is well formed: the schema version is the supported one, name and version
  are not blank, the restart policy is one of the three, the name lists have neither blank nor repeated
  entries, the cross-application grants are exact and their application qualifier is a host identifier, an
  isolated cell has neither group nor interface while a fusible one has both, a pinned digest is the canonical
  hexadecimal text of 32 bytes, and the path of the Wasm file is absolute.\<close>

theorem load_cell_wf:
  assumes "load_cell w path = Inr s" and "w_cwd w = Some d" and "is_abs d"
  shows "spec_wf s \<and> is_abs (cs_manifest_path s) \<and> path_clean (cs_manifest_path s) = cs_manifest_path s \<and> is_abs (cs_wasm_path s)"
  using load_cell_ok [OF assms(1)] path_abs_abs [of "Some d" path] assms(2,3) by (auto simp: spec_wf_def)

text \<open>C11: A collection of cells is accepted exactly when it can boot: it is not empty, the names are distinct,
  each consumed function has exactly one providing cell, each dependency is another cell of the collection and
  there is no dependency cycle. The accepted set has the same cells, and its boot order lists each of them once,
  after the cells it depends on.\<close>

theorem cell_set_exact:
  "((\<exists>S. build_set specs = Inr S) \<longleftrightarrow> bootable specs) \<and>
   (\<forall>S. build_set specs = Inr S \<longrightarrow> set_cells S = specs \<and> mset (set_order S) = mset specs \<and>
      (\<forall>i < length (set_order S). set (cs_depends_on (set_order S ! i)) \<subseteq> cs_name ` set (take i (set_order S))))"
  using build_set_total [of specs] build_set_order [of specs] by blast

text \<open>Environment values enter the configuration exactly where \<^verbatim>\<open>config_env\<close> says. When no two of its
  paths lead to or through one another, each set variable ends up as the text at its path, every path that none
  of them touches keeps its value, and the order in which the entries are visited does not matter.\<close>

theorem config_env_exact:
  assumes "apply_config_env env kns c = Inr d" and "distinct kns" and "pairwise independent (set kns)"
  shows "(\<forall>kn \<in> set kns. \<forall>v. env_value env kn = Some v \<longrightarrow> get_path (env_path kn) (table_of d) = Some (CText v)) \<and>
    (\<forall>qs. (\<forall>kn \<in> set kns. env_value env kn \<noteq> None \<longrightarrow> \<not> prefix (env_path kn) qs \<and> \<not> prefix qs (env_path kn)) \<longrightarrow>
       get_path qs (table_of d) = get_path qs (table_of c)) \<and>
    (\<forall>kns'. mset kns' = mset kns \<longrightarrow> apply_config_env env kns' c = Inr d)"
proof (intro conjI ballI allI impI)
  fix kn v assume "kn \<in> set kns" and "env_value env kn = Some v"
  then show "get_path (env_path kn) (table_of d) = Some (CText v)"
    using apply_config_env_value [OF assms(1) assms(3,2)] by blast
next
  fix qs assume "\<forall>kn \<in> set kns. env_value env kn \<noteq> None \<longrightarrow> \<not> prefix (env_path kn) qs \<and> \<not> prefix qs (env_path kn)"
  then show "get_path qs (table_of d) = get_path qs (table_of c)" by (rule apply_config_env_other [OF assms(1)])
next
  fix kns' assume "mset kns' = mset kns"
  then show "apply_config_env env kns' c = Inr d" by (rule apply_config_env_perm [OF _ assms(3,2,1)])
qed

text \<open>Without that condition the order decides: one order of the keys \<^verbatim>\<open>a\<close> and \<^verbatim>\<open>a.b\<close> is refused, the other is
  accepted and loses a value.\<close>

definition both_set :: "string \<rightharpoonup> string" where
  "both_set = [''X'' \<mapsto> ''1'', ''Y'' \<mapsto> ''2'']"

lemma config_env_order_matters:
  "apply_config_env both_set [(''a'', ''X''), (''a.b'', ''Y'')] None = Inl (ConfigEnvPath ''a.b'' (NotTable ''a'')) \<and>
   (\<exists>d. apply_config_env both_set [(''a.b'', ''Y''), (''a'', ''X'')] None = Inr (Some d) \<and>
      fmlookup d ''a'' = Some (CText ''1'') \<and> get_path [''a'', ''b''] d = None)"
proof -
  have t: "trim_space ''a'' = ''a''" "trim_space ''a.b'' = ''a.b''" "trim_space ''X'' = ''X''" "trim_space ''Y'' = ''Y''"
    by (rule trim_space_plain; simp add: plain_char_def)+
  show ?thesis by (simp add: t both_set_def set_config_path_def)
qed

subsection \<open>Concrete runs\<close>

definition demo_raw_cell :: "string \<Rightarrow> string list \<Rightarrow> string list \<Rightarrow> string list \<Rightarrow> unit raw_cell" where
  "demo_raw_cell name prov cons deps =
     \<lparr>rc_schema = 0, rc_name = name, rc_version = ''1.0.0'', rc_wasm = [], rc_wasm_sha256 = None, rc_provides = prov,
      rc_consumes = cons, rc_host_consumes = [], rc_depends_on = deps, rc_capabilities = [''HTTP''],
      rc_execution = \<lparr>ex_mode = [], ex_group = [], ex_abi = []\<rparr>, rc_shared_memory_groups = [],
      rc_dedicated_thread = False, rc_snapshotable = False, rc_restart = [], rc_max_memory_pages = 0,
      rc_call_timeout_ms = 0, rc_config = None, rc_config_env = []\<rparr>"

definition demo_cell_world :: "unit manifest_world" where
  "demo_cell_world = \<lparr>w_cwd = Some ''/srv'', w_read = (\<lambda>p. if p = ''/srv/a.toml'' then Inr ''A'' else Inl NotExist),
     w_env = Map.empty, w_decode_cell = (\<lambda>b. Some (demo_raw_cell ''a'' [''f''] [] [], [''config.x''])),
     w_sha256 = (\<lambda>b. replicate 32 7)\<rparr>"

definition demo_cell :: "string \<Rightarrow> string list \<Rightarrow> string list \<Rightarrow> string list \<Rightarrow> unit cell_spec" where
  "demo_cell name prov cons deps =
     \<lparr>cs_schema = 1, cs_name = name, cs_version = ''1.0.0'', cs_provides = prov, cs_consumes = cons,
      cs_host_consumes = [], cs_depends_on = deps, cs_capabilities = [],
      cs_execution = \<lparr>ex_mode = ''isolated'', ex_group = [], ex_abi = []\<rparr>, cs_shared_memory_groups = [],
      cs_dedicated_thread = False, cs_snapshotable = False, cs_max_memory_pages = 0, cs_call_timeout_ms = 0,
      cs_restart = ''never'', cs_config = None, cs_config_env = [], cs_manifest_path = ''/srv/'' @ name,
      cs_wasm_path = ''/srv/w'', cs_wasm_sha256 = []\<rparr>"

definition demo_cells :: "unit cell_spec list" where
  "demo_cells = [demo_cell ''web'' [] [''f''] [''db''], demo_cell ''db'' [''f''] [] []]"

theorem load_cell_wf_witness:
  "\<exists>s. load_cell demo_cell_world ''a.toml'' = Inr s \<and> w_cwd demo_cell_world = Some ''/srv'' \<and> spec_wf s \<and>
     cs_capabilities s = [''http''] \<and> cs_wasm_path s = ''/srv/cell.wasm''"
proof -
  have l: "\<not> isl (load_cell demo_cell_world ''a.toml'')" by code_simp
  have c: "w_cwd demo_cell_world = Some ''/srv''" "is_abs ''/srv''" by code_simp+
  have "cs_capabilities (projr (load_cell demo_cell_world ''a.toml'')) = [''http''] \<and>
      cs_wasm_path (projr (load_cell demo_cell_world ''a.toml'')) = ''/srv/cell.wasm''" by code_simp
  then show ?thesis using load_cell_wf [OF Inr_projr [OF l] c] Inr_projr [OF l] c(1) by blast
qed

theorem cell_set_exact_witness:
  "\<exists>S. build_set demo_cells = Inr S \<and> set_cells S = demo_cells \<and> mset (set_order S) = mset demo_cells \<and>
     map cs_name (set_order S) = [''db'', ''web''] \<and> bootable demo_cells"
proof -
  define p where "p = projr (build (cell_items demo_cells))"
  have "\<not> isl (build (cell_items demo_cells))" by code_simp
  then have b: "build (cell_items demo_cells) = Inr p" unfolding p_def by (rule Inr_projr)
  have so: "plan_start_order p = [''db'', ''web'']" unfolding p_def by code_simp
  have "build_set demo_cells = Inr \<lparr>set_cells = demo_cells,
      set_order = [demo_cell ''db'' [''f''] [] [], demo_cell ''web'' [] [''f''] [''db'']], set_plan = p\<rparr>"
    unfolding build_set_Inr using b so
    by (auto simp: demo_cells_def demo_cell_def cell_names_def providers_def cells_by_name_def)
  then show ?thesis using cell_set_exact [of demo_cells] by (auto simp: demo_cell_def)
qed

theorem config_env_exact_witness:
  "\<exists>d. apply_config_env both_set [(''a.b'', ''Y''), (''c'', ''X'')] (None :: unit table option) = Inr (Some d) \<and>
     get_path [''a'', ''b''] d = Some (CText ''2'') \<and>
     apply_config_env both_set [(''c'', ''X''), (''a.b'', ''Y'')] (None :: unit table option) = Inr (Some d)"
proof -
  have t: "trim_space ''c'' = ''c''" "trim_space ''a.b'' = ''a.b''" "trim_space ''X'' = ''X''" "trim_space ''Y'' = ''Y''"
    by (rule trim_space_plain; simp add: plain_char_def)+
  obtain d where d: "apply_config_env both_set [(''a.b'', ''Y''), (''c'', ''X'')] (None :: unit table option) = Inr (Some d)"
    by (simp add: t both_set_def set_config_path_def)
  have dist: "distinct [(''a.b'', ''Y''), (''c'', ''X'')]" by simp
  have "pairwise independent (set [(''a.b'', ''Y''), (''c'', ''X'')])"
    by (auto simp: pairwise_def independent_def env_path_def t)
  note r = config_env_exact [OF d dist this]
  have "get_path (env_path (''a.b'', ''Y'')) (table_of (Some d)) = Some (CText ''2'')"
    using r by (simp add: env_value_def t both_set_def)
  moreover have "apply_config_env both_set [(''c'', ''X''), (''a.b'', ''Y'')] (None :: unit table option) = Inr (Some d)"
    by (rule r [THEN conjunct2, THEN conjunct2, rule_format]) (auto simp: add_mset_commute)
  ultimately show ?thesis using d by (simp add: env_path_def t table_of_def del: apply_config_env.simps)
qed

end
