(* ===== verification/App_Manifest.thy ===== *)
theory App_Manifest
  imports Cell_Manifest
begin

text \<open>
  Application manifests, \<^verbatim>\<open>src/internal/manifest/app.go\<close> and \<^verbatim>\<open>app_identity.go\<close>: \<^verbatim>\<open>LoadApp\<close> with its
  checks in order, the placements of the cells and their addresses, the execution units that map several
  logical cells to one artifact, and the canonical identity of the composition. \<^verbatim>\<open>LoadApp\<close> writes the
  orchestration script into the configuration of the orchestrator through a pointer into the list of cells;
  here the cell at that index is replaced. The JSON encoder of the identity is a field of the world.
\<close>

subsection \<open>Data\<close>

record 'o raw_placement =
  rp_cell :: string
  rp_instances :: "string list"
  rp_count :: int
  rp_aliases :: "string list"
  rp_config :: "'o table option"

record raw_unit =
  ru_name :: string
  ru_artifact :: string
  ru_members :: "string list"

record raw_orchestrator =
  ro_manifest :: string
  ro_script :: string
  ro_sha256 :: string

record 'o raw_app =
  rap_schema :: int
  rap_name :: string
  rap_version :: string
  rap_cells :: "string list"
  rap_require_wasm_sha256 :: bool
  rap_placements :: "'o raw_placement list"
  rap_units :: "raw_unit list"
  rap_orchestrator :: raw_orchestrator

record 'o cell_placement =
  cp_spec :: "'o cell_spec"
  cp_instance :: string
  cp_address :: string

record 'o execution_unit =
  eu_name :: string
  eu_artifact :: "'o cell_spec"
  eu_members :: "string list"

record 'o application =
  app_schema :: int
  app_name :: string
  app_version :: string
  app_manifest_path :: string
  app_cell_paths :: "string list"
  app_orchestrator_cell :: string
  app_orchestrator_manifest :: string
  app_script_path :: string
  app_script_sha256 :: string
  app_require_wasm_sha256 :: bool
  app_cells :: "'o cell_set"
  app_placements :: "'o cell_placement list"
  app_units :: "'o execution_unit list"
  app_composition_sha256 :: string

record 'o cell_identity =
  ci_name :: string
  ci_version :: string
  ci_wasm_sha256 :: string
  ci_schema :: int
  ci_provides :: "string list"
  ci_consumes :: "string list"
  ci_host_consumes :: "string list"
  ci_depends_on :: "string list"
  ci_capabilities :: "string list"
  ci_shared_memory_groups :: "string list"
  ci_execution :: execution_spec
  ci_dedicated_thread :: bool
  ci_snapshotable :: bool
  ci_restart :: string
  ci_max_memory_pages :: "32 word"
  ci_call_timeout_ms :: "32 word"
  ci_config :: "'o table option"

record 'o app_identity =
  ai_schema_name :: string
  ai_schema :: int
  ai_name :: string
  ai_version :: string
  ai_require_wasm_sha256 :: bool
  ai_orchestrator_cell :: string
  ai_script_sha256 :: string
  ai_script :: string
  ai_cells :: "'o cell_identity list"
  ai_placements :: "(string \<times> string \<times> 'o cell_identity) list"
  ai_units :: "(string \<times> string list \<times> 'o cell_identity) list"

record 'o app_world = "'o manifest_world" +
  w_decode_app :: "string \<Rightarrow> ('o raw_app \<times> string list) option"
  w_marshal_identity :: "'o app_identity \<Rightarrow> string option"

datatype field_error = FieldRequired string | FieldAbsolute string | FieldUnresolved string

datatype placement_error = PlacementCellRequired | PlacementUnknownCell string | PlacementDuplicate string
  | CountNegative string | CountMismatch string int nat | NoInstances string | InstanceEmpty string nat
  | InstanceAt string string | InstanceDuplicate string string

datatype unit_error = UnitNameRequired nat | UnitArtifactPath field_error | UnitArtifactLoad string load_error
  | UnitPin digest_error | UnitTooFewMembers string | UnitUnknownMember string string
  | UnitMemberClaimed string string string | UnitMissingProvider string string string string

datatype identity_error = WasmRead string io_error | IdentityEncoding

datatype app_error = AppPath | AppRead io_error | AppToml | AppUnknownFields "string list" | AppSchemaTooOld int
  | AppSchemaTooNew int | AppNameRequired | AppVersionRequired | AppNoCells | AppField field_error
  | AppDuplicateCell string | OrchestratorNotListed string | OrchestratorDigest normalize_error
  | ScriptRead io_error | ScriptMismatch digest digest | AppCellLoad string load_error | OrchestratorNotLoaded string
  | AppCells set_error | AppPlacements placement_error | AppUnits unit_error | AppPin string digest_error
  | OrchestratorPlacements string nat | AppIdentity identity_error

subsection \<open>Paths and digests\<close>

definition resolve_app_relative_path :: "string option \<Rightarrow> string \<Rightarrow> string \<Rightarrow> string \<Rightarrow> (field_error, string) result" where
  "resolve_app_relative_path cwd base rel field =
     (let r = trim_space rel
      in if r = [] then Inl (FieldRequired field)
         else if is_abs r then Inl (FieldAbsolute field)
         else case path_abs cwd (path_join [base, r]) of
                None \<Rightarrow> Inl (FieldUnresolved field)
              | Some p \<Rightarrow> Inr p)"

definition parse_app_sha256 :: "string \<Rightarrow> (normalize_error, digest) result" where
  "parse_app_sha256 v =
     bindE (normalize_sha256 v ''orchestrator.sha256'') (\<lambda>n.
     Inr (case hex_decode n of None \<Rightarrow> replicate 32 0 | Some b \<Rightarrow> b))"

definition same_path :: "string \<Rightarrow> string \<Rightarrow> bool" where
  "same_path a b \<longleftrightarrow> path_clean a = path_clean b"

subsection \<open>Placements\<close>

fun instances_loop :: "string \<Rightarrow> nat \<Rightarrow> string set \<Rightarrow> string list \<Rightarrow> (placement_error, string list) result" where
  "instances_loop cell i seen [] = Inr []"
| "instances_loop cell i seen (x # xs) =
     (let n = trim_space x
      in if n = [] then Inl (InstanceEmpty cell i)
         else if CHR ''@'' \<in> set n then Inl (InstanceAt cell n)
         else if n \<in> seen then Inl (InstanceDuplicate cell n)
         else bindE (instances_loop cell (Suc i) (insert n seen) xs) (\<lambda>ns. Inr (n # ns)))"

text \<open>The names \<^verbatim>\<open>fmt.Sprintf("%d", index+1)\<close> for the indexes from the number of listed instances on.\<close>

definition numbered :: "nat \<Rightarrow> nat \<Rightarrow> string list" where
  "numbered a b = map (\<lambda>i. show_nat (Suc i)) [a..<b]"

definition placement_instances :: "string \<Rightarrow> 'o raw_placement option \<Rightarrow> (placement_error, string list) result" where
  "placement_instances cell placement =
     (case placement of
        None \<Rightarrow> Inr [''primary'']
      | Some p \<Rightarrow>
          let listed = (if rp_instances p = [] then rp_aliases p else rp_instances p)
          in if rp_count p < 0 then Inl (CountNegative cell)
             else if rp_count p > 0 \<and> listed \<noteq> [] \<and> int (length listed) \<noteq> rp_count p
             then Inl (CountMismatch cell (rp_count p) (length listed))
             else let all = (if rp_count p > 0 then listed @ numbered (length listed) (nat (rp_count p)) else listed)
                  in if all = [] then Inl (NoInstances cell) else instances_loop cell 0 {} all)"

definition clone_placement_spec :: "'o cell_spec \<Rightarrow> 'o table option \<Rightarrow> 'o cell_spec" where
  "clone_placement_spec source override =
     (if table_of (cs_config source) = fmempty \<and> table_of override = fmempty then source
      else source\<lparr>cs_config := Some (table_of (cs_config source) ++\<^sub>f table_of override)\<rparr>)"

fun configure_placements :: "(string \<rightharpoonup> 'o cell_spec) \<Rightarrow> (string \<rightharpoonup> 'o raw_placement) \<Rightarrow> 'o raw_placement list
    \<Rightarrow> (placement_error, string \<rightharpoonup> 'o raw_placement) result" where
  "configure_placements by_name configured [] = Inr configured"
| "configure_placements by_name configured (p # ps) =
     (let cell = trim_space (rp_cell p)
      in if cell = [] then Inl PlacementCellRequired
         else if by_name cell = None then Inl (PlacementUnknownCell cell)
         else if configured cell \<noteq> None then Inl (PlacementDuplicate cell)
         else configure_placements by_name (configured(cell \<mapsto> p\<lparr>rp_cell := cell\<rparr>)) ps)"

definition place_cell :: "(string \<rightharpoonup> 'o raw_placement) \<Rightarrow> 'o cell_spec \<Rightarrow> string list \<Rightarrow> 'o cell_placement list" where
  "place_cell configured spec instances =
     map (\<lambda>i. \<lparr>cp_spec = clone_placement_spec spec (case configured (cs_name spec) of None \<Rightarrow> None | Some p \<Rightarrow> rp_config p),
              cp_instance = i,
              cp_address = (if length instances > 1 then cs_name spec @ ''@'' @ i else cs_name spec)\<rparr>) instances"

definition build_app_placements :: "'o cell_set \<Rightarrow> 'o raw_placement list \<Rightarrow> (placement_error, 'o cell_placement list) result" where
  "build_app_placements S raws =
     bindE (configure_placements (cells_by_name (set_cells S)) Map.empty raws) (\<lambda>configured.
     bindE (mapM (\<lambda>spec. placement_instances (cs_name spec) (configured (cs_name spec))) (set_order S)) (\<lambda>instances.
     Inr (concat (map2 (place_cell configured) (set_order S) instances))))"

subsection \<open>Execution units\<close>

fun claim_members :: "(string \<rightharpoonup> 'o cell_spec) \<Rightarrow> string \<Rightarrow> 'o cell_spec \<Rightarrow> (string \<rightharpoonup> string) \<Rightarrow> string list
    \<Rightarrow> (unit_error, string \<rightharpoonup> string) result" where
  "claim_members by_name name artifact claimed [] = Inr claimed"
| "claim_members by_name name artifact claimed (m # ms) =
     (case by_name m of
        None \<Rightarrow> Inl (UnitUnknownMember name m)
      | Some spec \<Rightarrow>
          (case claimed m of
             Some previous \<Rightarrow> Inl (UnitMemberClaimed m previous name)
           | None \<Rightarrow>
               (case List.find (\<lambda>p. p \<notin> set (cs_provides artifact)) (cs_provides spec) of
                  Some p \<Rightarrow> Inl (UnitMissingProvider name (cs_name artifact) m p)
                | None \<Rightarrow> claim_members by_name name artifact (claimed(m \<mapsto> name)) ms)))"

fun units_loop :: "('o, 'z) manifest_world_scheme \<Rightarrow> string \<Rightarrow> (string \<rightharpoonup> 'o cell_spec) \<Rightarrow> bool \<Rightarrow> nat \<Rightarrow> (string \<rightharpoonup> string)
    \<Rightarrow> raw_unit list \<Rightarrow> (unit_error, 'o execution_unit list) result" where
  "units_loop w base by_name required i claimed [] = Inr []"
| "units_loop w base by_name required i claimed (u # us) =
     (let name = trim_space (ru_name u)
      in if name = [] then Inl (UnitNameRequired i)
         else bindE (map_err UnitArtifactPath (resolve_app_relative_path (w_cwd w) base (ru_artifact u)
                (''execution_units['' @ show_nat i @ ''].artifact''))) (\<lambda>path.
         bindE (map_err (UnitArtifactLoad (ru_artifact u)) (load_cell w path)) (\<lambda>artifact.
         bindE (map_err UnitPin (verify_wasm_digest w artifact required)) (\<lambda>_.
         let members = dedupe (ru_members u)
         in if length members < 2 then Inl (UnitTooFewMembers name)
            else bindE (claim_members by_name name artifact claimed members) (\<lambda>claimed'.
            bindE (units_loop w base by_name required (Suc i) claimed' us) (\<lambda>units.
            Inr (\<lparr>eu_name = name, eu_artifact = artifact, eu_members = members\<rparr> # units)))))))"

definition build_execution_units :: "('o, 'z) manifest_world_scheme \<Rightarrow> string \<Rightarrow> 'o cell_set \<Rightarrow> raw_unit list \<Rightarrow> bool
    \<Rightarrow> (unit_error, 'o execution_unit list) result" where
  "build_execution_units w base S raws required = units_loop w base (cells_by_name (set_cells S)) required 0 Map.empty raws"

subsection \<open>The identity of a composition\<close>

definition canonical_cell :: "('o, 'z) manifest_world_scheme \<Rightarrow> 'o cell_spec \<Rightarrow> (identity_error, 'o cell_identity) result" where
  "canonical_cell w s =
     bindE (case w_read w (cs_wasm_path s) of
              Inr body \<Rightarrow> Inr (hex_encode (w_sha256 w body))
            | Inl e \<Rightarrow> if e = NotExist \<and> cs_wasm_sha256 s = [] then Inr [] else Inl (WasmRead (cs_name s) e)) (\<lambda>sha.
     Inr \<lparr>ci_name = cs_name s, ci_version = cs_version s, ci_wasm_sha256 = sha, ci_schema = cs_schema s,
          ci_provides = sort (cs_provides s), ci_consumes = sort (cs_consumes s),
          ci_host_consumes = sort (cs_host_consumes s), ci_depends_on = sort (cs_depends_on s),
          ci_capabilities = sort (cs_capabilities s), ci_shared_memory_groups = sort (cs_shared_memory_groups s),
          ci_execution = cs_execution s, ci_dedicated_thread = cs_dedicated_thread s,
          ci_snapshotable = cs_snapshotable s, ci_restart = cs_restart s,
          ci_max_memory_pages = cs_max_memory_pages s, ci_call_timeout_ms = cs_call_timeout_ms s,
          ci_config = cs_config s\<rparr>)"

definition canonical_application :: "('o, 'z) app_world_scheme \<Rightarrow> 'o application \<Rightarrow> string \<Rightarrow> (identity_error, 'o app_identity) result" where
  "canonical_application w a script =
     bindE (mapM (canonical_cell w) (set_cells (app_cells a))) (\<lambda>cells.
     bindE (mapM (\<lambda>p. bindE (canonical_cell w (cp_spec p)) (\<lambda>c. Inr (cp_address p, cp_instance p, c))) (app_placements a)) (\<lambda>places.
     bindE (mapM (\<lambda>u. bindE (canonical_cell w (eu_artifact u)) (\<lambda>c. Inr (eu_name u, eu_members u, c))) (app_units a)) (\<lambda>units.
     Inr \<lparr>ai_schema_name = ''pulp.application-composition/v1'', ai_schema = app_schema a, ai_name = app_name a,
          ai_version = app_version a, ai_require_wasm_sha256 = app_require_wasm_sha256 a,
          ai_orchestrator_cell = app_orchestrator_cell a, ai_script_sha256 = app_script_sha256 a, ai_script = script,
          ai_cells = cells, ai_placements = places, ai_units = units\<rparr>)))"

definition canonical_application_digest :: "('o, 'z) app_world_scheme \<Rightarrow> 'o application \<Rightarrow> string \<Rightarrow> (identity_error, string) result" where
  "canonical_application_digest w a script =
     bindE (canonical_application w a script) (\<lambda>identity.
     case w_marshal_identity w identity of
       None \<Rightarrow> Inl IdentityEncoding
     | Some wire \<Rightarrow> Inr (hex_encode (w_sha256 w wire)))"

subsection \<open>Loading an application\<close>

fun resolve_cells :: "string option \<Rightarrow> string \<Rightarrow> nat \<Rightarrow> string set \<Rightarrow> string list \<Rightarrow> (app_error, string list) result" where
  "resolve_cells cwd base i seen [] = Inr []"
| "resolve_cells cwd base i seen (rel # rels) =
     bindE (map_err AppField (resolve_app_relative_path cwd base rel (''cells['' @ show_nat i @ '']''))) (\<lambda>p.
     if path_clean p \<in> seen then Inl (AppDuplicateCell rel)
     else bindE (resolve_cells cwd base (Suc i) (insert (path_clean p) seen) rels) (\<lambda>ps. Inr (p # ps)))"

text \<open>The loop over the loaded cells leaves the last one with the manifest path of the orchestrator.\<close>

definition last_index :: "('a \<Rightarrow> bool) \<Rightarrow> 'a list \<Rightarrow> nat option" where
  "last_index P xs = (case filter (\<lambda>i. P (xs ! i)) [0..<length xs] of [] \<Rightarrow> None | is \<Rightarrow> Some (last is))"

definition inject_script :: "string \<Rightarrow> 'o cell_spec \<Rightarrow> 'o cell_spec" where
  "inject_script script s = s\<lparr>cs_config := Some (fmupd ''script'' (CText script) (table_of (cs_config s)))\<rparr>"

definition app_schema_of :: "int \<Rightarrow> (app_error, int) result" where
  "app_schema_of v =
     (let s = (if v = 0 then 1 else v)
      in if s < 1 then Inl (AppSchemaTooOld s) else if s > 1 then Inl (AppSchemaTooNew s) else Inr s)"

definition fused_members :: "'o execution_unit list \<Rightarrow> string set" where
  "fused_members units = set (concat (map eu_members units))"

text \<open>The orchestrator manifest, the script path, the expected digest and the script.\<close>

definition load_script :: "('o, 'z) app_world_scheme \<Rightarrow> string \<Rightarrow> string list \<Rightarrow> raw_orchestrator
    \<Rightarrow> (app_error, string \<times> string \<times> digest \<times> string) result" where
  "load_script w base paths r =
     bindE (map_err AppField (resolve_app_relative_path (w_cwd w) base (ro_manifest r) ''orchestrator.manifest'')) (\<lambda>om.
     bindE (guardE (path_clean om \<in> path_clean ` set paths) (OrchestratorNotListed (ro_manifest r))) (\<lambda>_.
     bindE (map_err AppField (resolve_app_relative_path (w_cwd w) base (ro_script r) ''orchestrator.script'')) (\<lambda>sp.
     bindE (map_err OrchestratorDigest (parse_app_sha256 (ro_sha256 r))) (\<lambda>expected.
     bindE (map_err ScriptRead (w_read w sp)) (\<lambda>script.
     if w_sha256 w script \<noteq> expected then Inl (ScriptMismatch (w_sha256 w script) expected)
     else Inr (om, sp, expected, script))))))"

definition verify_pins_of :: "('o, 'z) manifest_world_scheme \<Rightarrow> string set \<Rightarrow> bool \<Rightarrow> 'o cell_spec list \<Rightarrow> (app_error, unit) result" where
  "verify_pins_of w fused required specs =
     bindE (mapM (\<lambda>s. if cs_name s \<in> fused then Inr ()
                      else map_err (AppPin (cs_manifest_path s)) (verify_wasm_digest w s required)) specs) (\<lambda>_. Inr ())"

text \<open>From the loaded cells on: \<open>i\<close> is the index of the orchestrator.\<close>

definition compose_app :: "('o, 'z) app_world_scheme \<Rightarrow> string \<Rightarrow> 'o raw_app \<Rightarrow> int \<Rightarrow> string list
    \<Rightarrow> string \<times> string \<times> digest \<times> string \<Rightarrow> 'o cell_spec list \<Rightarrow> nat \<Rightarrow> (app_error, 'o application) result" where
  "compose_app w path r schema paths orchestration loaded i =
     (let (om, sp, expected, script) = orchestration; orch = cs_name (loaded ! i)
      in bindE (map_err AppCells (build_set (loaded[i := inject_script script (loaded ! i)]))) (\<lambda>S.
         bindE (map_err AppPlacements (build_app_placements S (rap_placements r))) (\<lambda>ps.
         bindE (map_err AppUnits (build_execution_units w (path_dir path) S (rap_units r) (rap_require_wasm_sha256 r))) (\<lambda>units.
         bindE (verify_pins_of w (fused_members units) (rap_require_wasm_sha256 r) (set_cells S)) (\<lambda>_.
         let n = length (filter (\<lambda>p. cs_name (cp_spec p) = orch) ps)
         in bindE (guardE (n = 1) (OrchestratorPlacements orch n)) (\<lambda>_.
            let a = \<lparr>app_schema = schema, app_name = trim_space (rap_name r), app_version = trim_space (rap_version r),
                     app_manifest_path = path, app_cell_paths = paths, app_orchestrator_cell = orch,
                     app_orchestrator_manifest = om, app_script_path = sp, app_script_sha256 = hex_encode expected,
                     app_require_wasm_sha256 = rap_require_wasm_sha256 r, app_cells = S, app_placements = ps,
                     app_units = units, app_composition_sha256 = []\<rparr>
            in bindE (map_err AppIdentity (canonical_application_digest w a script)) (\<lambda>d.
               Inr (a\<lparr>app_composition_sha256 := d\<rparr>))))))))"

definition assemble_app :: "('o, 'z) app_world_scheme \<Rightarrow> string \<Rightarrow> 'o raw_app \<Rightarrow> (app_error, 'o application) result" where
  "assemble_app w path r =
     bindE (app_schema_of (rap_schema r)) (\<lambda>schema.
     bindE (guardE (trim_space (rap_name r) \<noteq> []) AppNameRequired) (\<lambda>_.
     bindE (guardE (trim_space (rap_version r) \<noteq> []) AppVersionRequired) (\<lambda>_.
     bindE (guardE (rap_cells r \<noteq> []) AppNoCells) (\<lambda>_.
     bindE (resolve_cells (w_cwd w) (path_dir path) 0 {} (rap_cells r)) (\<lambda>paths.
     bindE (load_script w (path_dir path) paths (rap_orchestrator r)) (\<lambda>orchestration.
     bindE (mapM (\<lambda>p. map_err (AppCellLoad p) (load_cell w p)) paths) (\<lambda>loaded.
     case last_index (\<lambda>s. same_path (cs_manifest_path s) (fst orchestration)) loaded of
       None \<Rightarrow> Inl (OrchestratorNotLoaded (ro_manifest (rap_orchestrator r)))
     | Some i \<Rightarrow> compose_app w path r schema paths orchestration loaded i)))))))"

definition load_app :: "('o, 'z) app_world_scheme \<Rightarrow> string \<Rightarrow> (app_error, 'o application) result" where
  "load_app w path =
     (case path_abs (w_cwd w) path of
        None \<Rightarrow> Inl AppPath
      | Some p \<Rightarrow>
          (case w_read w p of
             Inl e \<Rightarrow> Inl (AppRead e)
           | Inr data \<Rightarrow>
               (case w_decode_app w data of
                  None \<Rightarrow> Inl AppToml
                | Some (r, undecoded) \<Rightarrow>
                    let names = filter (\<lambda>k. \<not> config_key ''cell_placements.config'' k) undecoded
                    in if names \<noteq> [] then Inl (AppUnknownFields names) else assemble_app w p r)))"

subsection \<open>Placements have distinct addresses\<close>

lemma instances_loop_ok:
  "instances_loop cell i seen xs = Inr ns \<Longrightarrow>
     length ns = length xs \<and> distinct ns \<and> set ns \<inter> seen = {} \<and> (\<forall>n \<in> set ns. n \<noteq> [] \<and> CHR ''@'' \<notin> set n)"
  by (induction cell i seen xs arbitrary: ns rule: instances_loop.induct) (fastforce simp: Let_def split: if_splits)+

lemma placement_instances_ok:
  "placement_instances cell p = Inr ns \<Longrightarrow> ns \<noteq> [] \<and> distinct ns \<and> (\<forall>n \<in> set ns. n \<noteq> [] \<and> CHR ''@'' \<notin> set n)"
  by (auto simp: placement_instances_def Let_def split: option.splits if_splits dest!: instances_loop_ok)

lemma clone_name [simp]: "cs_name (clone_placement_spec s c) = cs_name s"
  by (simp add: clone_placement_spec_def)

lemma place_cell_name: "p \<in> set (place_cell configured s is) \<Longrightarrow> cs_name (cp_spec p) = cs_name s"
  by (auto simp: place_cell_def)

lemma takeWhile_sep: "c \<notin> set x \<Longrightarrow> takeWhile (\<lambda>d. d \<noteq> c) (x @ c # y) = x"
  by (induction x) auto

lemma place_cell_address:
  assumes "p \<in> set (place_cell configured s is)" and "CHR ''@'' \<notin> set (cs_name s)"
  shows "takeWhile (\<lambda>c. c \<noteq> CHR ''@'') (cp_address p) = cs_name s"
  using assms by (auto simp: place_cell_def takeWhile_sep takeWhile_eq_all_conv)

lemma place_cell_distinct:
  assumes "distinct is"
  shows "distinct (map cp_address (place_cell configured s is))"
proof (cases "length is > 1")
  case True
  then have "map cp_address (place_cell configured s is) = map (\<lambda>i. cs_name s @ ''@'' @ i) is"
    by (simp add: place_cell_def comp_def)
  moreover have "inj_on (\<lambda>i. cs_name s @ ''@'' @ i) (set is)" by (rule inj_onI) simp
  ultimately show ?thesis using assms by (simp add: distinct_map)
next
  case False
  then show ?thesis by (cases "is") (auto simp: place_cell_def)
qed

lemma placements_distinct:
  assumes "list_all2 (\<lambda>s is. distinct is) specs iss" and "distinct (cell_names specs)"
    and "\<forall>s \<in> set specs. CHR ''@'' \<notin> set (cs_name s)"
  shows "distinct (map cp_address (concat (map2 (place_cell configured) specs iss))) \<and>
    (\<forall>p \<in> set (concat (map2 (place_cell configured) specs iss)).
       takeWhile (\<lambda>c. c \<noteq> CHR ''@'') (cp_address p) \<in> set (cell_names specs))"
  using assms
proof (induction specs iss rule: list_all2_induct)
  case (Cons s specs "is" iss)
  have d: "distinct (map cp_address (concat (map2 (place_cell configured) specs iss)))"
    and r: "\<forall>p \<in> set (concat (map2 (place_cell configured) specs iss)).
       takeWhile (\<lambda>c. c \<noteq> CHR ''@'') (cp_address p) \<in> set (cell_names specs)"
    using Cons by (auto simp: cell_names_def)
  have h: "takeWhile (\<lambda>c. c \<noteq> CHR ''@'') (cp_address p) = cs_name s" if "p \<in> set (place_cell configured s is)" for p
    using that Cons.prems(2) by (intro place_cell_address) auto
  have "cs_name s \<notin> set (cell_names specs)" using Cons.prems(1) by (simp add: cell_names_def)
  then have "cp_address p \<noteq> cp_address q" if "p \<in> set (place_cell configured s is)"
      and "q \<in> set (concat (map2 (place_cell configured) specs iss))" for p q
    using h [OF that(1)] r that(2) by metis
  then have "cp_address ` set (place_cell configured s is) \<inter>
      cp_address ` set (concat (map2 (place_cell configured) specs iss)) = {}"
    by blast
  then show ?case using d r h place_cell_distinct [OF Cons.hyps(1), of configured s]
    by (auto simp: cell_names_def image_Un)
qed (simp add: cell_names_def)

text \<open>What a placement keeps of its template: everything but the configuration, which the placement overrides.\<close>

definition places :: "'o cell_spec \<Rightarrow> 'o cell_placement \<Rightarrow> bool" where
  "places s p \<longleftrightarrow> (\<exists>c ov. cp_spec p = s\<lparr>cs_config := c\<rparr> \<and>
     (\<forall>k. fmlookup (table_of c) k = (case fmlookup ov k of Some v \<Rightarrow> Some v | None \<Rightarrow> fmlookup (table_of (cs_config s)) k))) \<and>
     (cp_address p = cs_name s \<or> cp_address p = cs_name s @ ''@'' @ cp_instance p)"

lemma place_cell_places:
  assumes "p \<in> set (place_cell configured s is)"
  shows "places s p"
proof -
  obtain ov where p: "cp_spec p = clone_placement_spec s ov" "cp_address p = cs_name s \<or> cp_address p = cs_name s @ ''@'' @ cp_instance p"
    using assms by (auto simp: place_cell_def)
  let ?c = "cs_config (clone_placement_spec s ov)"
  have "clone_placement_spec s ov = s\<lparr>cs_config := ?c\<rparr>" by (simp add: clone_placement_spec_def)
  moreover have "fmlookup (table_of ?c) k = (case fmlookup (table_of ov) k of Some v \<Rightarrow> Some v | None \<Rightarrow> fmlookup (table_of (cs_config s)) k)" for k
    by (auto simp: clone_placement_spec_def table_of_def split: option.splits)
  ultimately show ?thesis unfolding places_def using p by (intro conjI exI [of _ ?c] exI [of _ "table_of ov"]) auto
qed

lemma map2_concat:
  "list_all2 P xs ys \<Longrightarrow> z \<in> set (concat (map2 f xs ys)) \<longleftrightarrow> (\<exists>i < length xs. z \<in> set (f (xs ! i) (ys ! i)))"
  by (auto simp: set_zip dest: list_all2_lengthD) (metis list_all2_lengthD)

lemma build_app_placements_ok:
  assumes b: "build_app_placements S raws = Inr ps"
  shows "(\<forall>p \<in> set ps. \<exists>s \<in> set (set_order S). places s p) \<and> (\<forall>s \<in> set (set_order S). \<exists>p \<in> set ps. places s p) \<and>
    (distinct (cell_names (set_order S)) \<longrightarrow> (\<forall>s \<in> set (set_order S). CHR ''@'' \<notin> set (cs_name s)) \<longrightarrow>
       distinct (map cp_address ps))"
proof -
  obtain configured iss where
      m: "list_all2 (\<lambda>s is. placement_instances (cs_name s) (configured (cs_name s)) = Inr is) (set_order S) iss"
      and ps: "ps = concat (map2 (place_cell configured) (set_order S) iss)"
    using b by (auto simp: build_app_placements_def mapM_Inr_conv)
  have ne: "iss ! i \<noteq> []" if "i < length (set_order S)" for i
    using list_all2_nthD [OF m that] placement_instances_ok by blast
  have "list_all2 (\<lambda>s is. distinct is) (set_order S) iss"
    using m by (rule list_all2_mono) (auto dest: placement_instances_ok)
  then have "distinct (cell_names (set_order S)) \<longrightarrow> (\<forall>s \<in> set (set_order S). CHR ''@'' \<notin> set (cs_name s)) \<longrightarrow> distinct (map cp_address ps)"
    using placements_distinct ps by blast
  moreover have "\<exists>s \<in> set (set_order S). places s p" if "p \<in> set ps" for p
    using that unfolding ps map2_concat [OF m] by (metis nth_mem place_cell_places)
  moreover have "\<exists>p \<in> set ps. places s p" if s: "s \<in> set (set_order S)" for s
  proof -
    obtain i where i: "i < length (set_order S)" "set_order S ! i = s" using s by (auto simp: in_set_conv_nth)
    obtain p where p: "p \<in> set (place_cell configured s (iss ! i))"
      using ne [OF i(1)] by (cases "iss ! i") (auto simp: place_cell_def)
    then have "p \<in> set ps" unfolding ps map2_concat [OF m] using i by blast
    then show ?thesis using place_cell_places [OF p] by blast
  qed
  ultimately show ?thesis by blast
qed

subsection \<open>Execution units and pins\<close>

definition pinned :: "('o, 'z) manifest_world_scheme \<Rightarrow> bool \<Rightarrow> 'o cell_spec \<Rightarrow> bool" where
  "pinned w required s \<longleftrightarrow> (required \<longrightarrow> cs_wasm_sha256 s \<noteq> []) \<and>
     (cs_wasm_sha256 s \<noteq> [] \<longrightarrow> (\<exists>b. w_read w (cs_wasm_path s) = Inr b \<and> hex_encode (w_sha256 w b) = cs_wasm_sha256 s))"

lemma verify_wasm_digest_Inr: "verify_wasm_digest w s required = Inr u \<longleftrightarrow> pinned w required s"
  by (auto simp: verify_wasm_digest_def pinned_def split: if_splits sum.splits)

lemma verify_pins_of_Inr:
  "verify_pins_of w fused required specs = Inr u \<longleftrightarrow> (\<forall>s \<in> set specs. cs_name s \<in> fused \<or> pinned w required s)"
proof -
  let ?f = "\<lambda>s. if cs_name s \<in> fused then Inr () else map_err (AppPin (cs_manifest_path s)) (verify_wasm_digest w s required)"
  have "(\<exists>ys. mapM ?f specs = Inr ys) \<longleftrightarrow> (\<forall>s \<in> set specs. cs_name s \<in> fused \<or> pinned w required s)"
    by (auto simp: mapM_ok verify_wasm_digest_Inr)
  then show ?thesis by (simp add: verify_pins_of_def)
qed

definition covers :: "'o cell_spec list \<Rightarrow> 'o cell_spec \<Rightarrow> string \<Rightarrow> bool" where
  "covers cells artifact m \<longleftrightarrow> (\<exists>s \<in> set cells. cs_name s = m \<and> set (cs_provides s) \<subseteq> set (cs_provides artifact))"

lemma claim_members_ok:
  assumes "claim_members (cells_by_name cells) name artifact claimed ms = Inr claimed'" and "distinct (cell_names cells)"
  shows "(\<forall>m \<in> set ms. covers cells artifact m \<and> claimed m = None) \<and> dom claimed' = dom claimed \<union> set ms"
  using assms
proof (induction ms arbitrary: claimed)
  case (Cons m ms)
  obtain s where s: "cells_by_name cells m = Some s" "claimed m = None"
      "List.find (\<lambda>p. p \<notin> set (cs_provides artifact)) (cs_provides s) = None"
      "claim_members (cells_by_name cells) name artifact (claimed(m \<mapsto> name)) ms = Inr claimed'"
    using Cons.prems(1) by (auto split: option.splits)
  have "covers cells artifact m"
    using s(1,3) cells_by_name_Some [OF Cons.prems(2)] by (auto simp: covers_def find_None_iff)
  then show ?case using Cons.IH [OF s(4) Cons.prems(2)] s(2) by (auto split: if_splits)
qed auto

definition unit_ok :: "('o, 'z) manifest_world_scheme \<Rightarrow> bool \<Rightarrow> 'o cell_spec list \<Rightarrow> 'o execution_unit \<Rightarrow> bool" where
  "unit_ok w required cells u \<longleftrightarrow> eu_name u \<noteq> [] \<and> pinned w required (eu_artifact u) \<and> spec_wf (eu_artifact u) \<and>
     2 \<le> length (eu_members u) \<and> (\<forall>m \<in> set (eu_members u). covers cells (eu_artifact u) m)"

lemma units_loop_ok:
  assumes "units_loop w base (cells_by_name cells) required i claimed us = Inr units" and "distinct (cell_names cells)"
  shows "list_all (unit_ok w required cells) units \<and> distinct (concat (map eu_members units)) \<and>
    set (concat (map eu_members units)) \<inter> dom claimed = {}"
  using assms
proof (induction us arbitrary: i claimed units)
  case (Cons u us)
  define ms where "ms = dedupe (ru_members u)"
  obtain path artifact claimed' rest where
      a: "trim_space (ru_name u) \<noteq> []" "load_cell w path = Inr artifact" "verify_wasm_digest w artifact required = Inr ()"
      "2 \<le> length ms" "claim_members (cells_by_name cells) (trim_space (ru_name u)) artifact claimed ms = Inr claimed'"
      "units_loop w base (cells_by_name cells) required (Suc i) claimed' us = Inr rest"
      and units: "units = \<lparr>eu_name = trim_space (ru_name u), eu_artifact = artifact, eu_members = ms\<rparr> # rest"
    using Cons.prems(1) by (auto simp: Let_def ms_def split: if_splits)
  note c = claim_members_ok [OF a(5) Cons.prems(2)]
  have "unit_ok w required cells \<lparr>eu_name = trim_space (ru_name u), eu_artifact = artifact, eu_members = ms\<rparr>"
    using a c load_cell_ok [OF a(2)] by (auto simp: unit_ok_def verify_wasm_digest_Inr)
  then show ?case using Cons.IH [OF a(6) Cons.prems(2)] c units by (auto simp: ms_def)
qed simp

subsection \<open>What a loaded application is\<close>

lemma last_index_Some: "last_index P xs = Some i \<Longrightarrow> i < length xs \<and> P (xs ! i)"
proof -
  assume "last_index P xs = Some i"
  then have "filter (\<lambda>i. P (xs ! i)) [0..<length xs] \<noteq> []" and "i = last (filter (\<lambda>i. P (xs ! i)) [0..<length xs])"
    by (auto simp: last_index_def split: list.splits)
  then have "i \<in> set (filter (\<lambda>i. P (xs ! i)) [0..<length xs])" using last_in_set by blast
  then show ?thesis by auto
qed

lemma load_script_Inr:
  "load_script w base paths r = Inr (om, sp, expected, script) \<Longrightarrow>
     w_read w sp = Inr script \<and> w_sha256 w script = expected \<and> parse_app_sha256 (ro_sha256 r) = Inr expected"
  by (auto simp: load_script_def split: if_splits)

lemma compose_app_Inr:
  assumes "compose_app w path r schema paths (om, sp, expected, script) loaded i = Inr a"
  shows "app_script_path a = sp \<and> app_script_sha256 a = hex_encode expected \<and> app_orchestrator_cell a = cs_name (loaded ! i) \<and>
    build_set (loaded[i := inject_script script (loaded ! i)]) = Inr (app_cells a) \<and>
    build_app_placements (app_cells a) (rap_placements r) = Inr (app_placements a) \<and>
    build_execution_units w (path_dir path) (app_cells a) (rap_units r) (app_require_wasm_sha256 a) = Inr (app_units a) \<and>
    verify_pins_of w (fused_members (app_units a)) (app_require_wasm_sha256 a) (set_cells (app_cells a)) = Inr () \<and>
    length (filter (\<lambda>p. cs_name (cp_spec p) = app_orchestrator_cell a) (app_placements a)) = 1"
  using assms by (auto simp: compose_app_def Let_def)

text \<open>The application manifest that was loaded, as it was decoded.\<close>

definition decoded_app :: "('o, 'z) app_world_scheme \<Rightarrow> string \<Rightarrow> 'o raw_app \<Rightarrow> bool" where
  "decoded_app w path r \<longleftrightarrow>
     (\<exists>p data undecoded. path_abs (w_cwd w) path = Some p \<and> w_read w p = Inr data \<and> w_decode_app w data = Some (r, undecoded))"

lemma load_app_decoded:
  assumes "load_app w path = Inr a"
  obtains p r schema paths om script loaded i where "i < length loaded" "w_read w (app_script_path a) = Inr script"
    "compose_app w p r schema paths (om, app_script_path a, w_sha256 w script, script) loaded i = Inr a"
    "decoded_app w path r" "parse_app_sha256 (ro_sha256 (rap_orchestrator r)) = Inr (w_sha256 w script)"
proof -
  obtain p r where "assemble_app w p r = Inr a" and dec: "decoded_app w path r"
    using assms unfolding decoded_app_def by (auto simp: load_app_def Let_def split: option.splits sum.splits if_splits)
  then obtain schema paths om sp expected script loaded i where
      s: "load_script w (path_dir p) paths (rap_orchestrator r) = Inr (om, sp, expected, script)"
      and i: "last_index (\<lambda>s. same_path (cs_manifest_path s) om) loaded = Some i"
      and c: "compose_app w p r schema paths (om, sp, expected, script) loaded i = Inr a"
    by (auto simp: assemble_app_def split: option.splits)
  have "app_script_path a = sp" using compose_app_Inr [OF c] by simp
  then show thesis
    using that [of i loaded script p r schema paths om] c last_index_Some [OF i] load_script_Inr [OF s] dec by simp
qed

lemma load_app_Inr:
  assumes "load_app w path = Inr a"
  obtains p r schema paths om script loaded i where "i < length loaded" "w_read w (app_script_path a) = Inr script"
    "compose_app w p r schema paths (om, app_script_path a, w_sha256 w script, script) loaded i = Inr a"
  using load_app_decoded [OF assms] by metis

lemma load_app_bootable: "load_app w path = Inr a \<Longrightarrow> bootable (set_cells (app_cells a))"
proof -
  assume "load_app w path = Inr a"
  then obtain p r schema paths om script loaded i where
      "compose_app w p r schema paths (om, app_script_path a, w_sha256 w script, script) loaded i = Inr a"
    by (rule load_app_Inr)
  then have "\<exists>specs. build_set specs = Inr (app_cells a)" using compose_app_Inr by blast
  then show ?thesis using build_set_total build_set_order by blast
qed

subsection \<open>Properties\<close>

text \<open>The entry of the manifest that configures a cell's placements, and what it puts under a key.\<close>

definition placement_entry :: "'o raw_app \<Rightarrow> string \<Rightarrow> 'o raw_placement option" where
  "placement_entry r cell = List.find (\<lambda>p. trim_space (rp_cell p) = cell) (rap_placements r)"

definition placement_override :: "'o raw_app \<Rightarrow> string \<Rightarrow> string \<Rightarrow> 'o config option" where
  "placement_override r cell key = (case placement_entry r cell of None \<Rightarrow> None | Some p \<Rightarrow> fmlookup (table_of (rp_config p)) key)"

lemma configure_placements_entry:
  assumes "configure_placements by_name configured ps = Inr m"
  shows "m cell = (case configured cell of Some p \<Rightarrow> Some p
    | None \<Rightarrow> map_option (\<lambda>p. p\<lparr>rp_cell := cell\<rparr>) (List.find (\<lambda>p. trim_space (rp_cell p) = cell) ps))"
  using assms by (induction by_name configured ps rule: configure_placements.induct) (auto simp: Let_def split: if_splits option.splits)

text \<open>A placement is its cell with the configuration that its entry leaves.\<close>

lemma placement_config:
  assumes b: "build_app_placements S (rap_placements r) = Inr ps" and p: "p \<in> set ps"
  shows "\<exists>s \<in> set (set_order S). \<exists>c. cp_spec p = s\<lparr>cs_config := c\<rparr> \<and>
    (\<forall>k. fmlookup (table_of c) k = (case placement_override r (cs_name s) k of Some v \<Rightarrow> Some v | None \<Rightarrow> fmlookup (table_of (cs_config s)) k))"
proof -
  obtain configured iss where c: "configure_placements (cells_by_name (set_cells S)) Map.empty (rap_placements r) = Inr configured"
      and m: "list_all2 (\<lambda>s is. placement_instances (cs_name s) (configured (cs_name s)) = Inr is) (set_order S) iss"
      and ps: "ps = concat (map2 (place_cell configured) (set_order S) iss)"
    using b by (auto simp: build_app_placements_def mapM_Inr_conv)
  obtain i where i: "i < length (set_order S)" "p \<in> set (place_cell configured (set_order S ! i) (iss ! i))"
    using p unfolding ps map2_concat [OF m] by blast
  define s where "s = set_order S ! i"
  let ?ov = "case configured (cs_name s) of None \<Rightarrow> None | Some p \<Rightarrow> rp_config p"
  let ?c = "cs_config (clone_placement_spec s ?ov)"
  have "cp_spec p = clone_placement_spec s ?ov" using i(2) by (auto simp: place_cell_def s_def)
  moreover have "clone_placement_spec s ?ov = s\<lparr>cs_config := ?c\<rparr>" by (simp add: clone_placement_spec_def)
  moreover have "fmlookup (table_of ?ov) k = placement_override r (cs_name s) k" for k
    using configure_placements_entry [OF c, of "cs_name s"]
    by (auto simp: placement_override_def placement_entry_def table_of_def split: option.splits)
  moreover have "fmlookup (table_of ?c) k = (case fmlookup (table_of ?ov) k of Some v \<Rightarrow> Some v | None \<Rightarrow> fmlookup (table_of (cs_config s)) k)" for k
    by (auto simp: clone_placement_spec_def table_of_def split: option.splits)
  ultimately show ?thesis using i(1) unfolding s_def by (intro bexI [of _ "set_order S ! i"]) auto
qed

lemma pinned_config [simp]: "pinned w required (s\<lparr>cs_config := c\<rparr>) = pinned w required s"
  by (simp add: pinned_def)

text \<open>C10: An application that loads is verified. The orchestration script on disk has the digest the manifest declares. It is
  what the orchestrator finds under the key script of its configuration, both in the cell set and in its one placement,
  which is what runs; only a placement entry of the manifest whose own configuration has that key replaces it, unverified.
  The cells form a set that can boot; every cell and every placement that no execution unit replaces, and the artifact of every
  unit, has the Wasm bytes its pin names, and a pin when the application requires one; every member of a unit is a cell
  all of whose functions the artifact provides, and no cell belongs to two units.\<close>

theorem app_verified:
  assumes "load_app w path = Inr a"
  shows "(\<exists>r script. decoded_app w path r \<and> w_read w (app_script_path a) = Inr script \<and>
      parse_app_sha256 (ro_sha256 (rap_orchestrator r)) = Inr (w_sha256 w script) \<and> app_script_sha256 a = hex_encode (w_sha256 w script) \<and>
      (\<forall>s \<in> set (set_cells (app_cells a)). cs_name s = app_orchestrator_cell a \<longrightarrow>
         fmlookup (table_of (cs_config s)) ''script'' = Some (CText script)) \<and>
      (\<exists>p. filter (\<lambda>p. cs_name (cp_spec p) = app_orchestrator_cell a) (app_placements a) = [p] \<and>
         fmlookup (table_of (cs_config (cp_spec p))) ''script'' =
           (case placement_override r (app_orchestrator_cell a) ''script'' of Some v \<Rightarrow> Some v | None \<Rightarrow> Some (CText script)))) \<and>
    app_orchestrator_cell a \<in> cs_name ` set (set_cells (app_cells a)) \<and>
    bootable (set_cells (app_cells a)) \<and>
    (\<forall>s \<in> set (set_cells (app_cells a)). cs_name s \<in> fused_members (app_units a) \<or> pinned w (app_require_wasm_sha256 a) s) \<and>
    (\<forall>p \<in> set (app_placements a). cs_name (cp_spec p) \<in> fused_members (app_units a) \<or> pinned w (app_require_wasm_sha256 a) (cp_spec p)) \<and>
    list_all (unit_ok w (app_require_wasm_sha256 a) (set_cells (app_cells a))) (app_units a) \<and>
    distinct (concat (map eu_members (app_units a)))"
proof -
  obtain p r schema paths om script loaded i where i: "i < length loaded"
      and rd: "w_read w (app_script_path a) = Inr script" and dec: "decoded_app w path r"
      and sha: "parse_app_sha256 (ro_sha256 (rap_orchestrator r)) = Inr (w_sha256 w script)"
      and comp: "compose_app w p r schema paths (om, app_script_path a, w_sha256 w script, script) loaded i = Inr a"
    using load_app_decoded [OF assms] by metis
  note c = compose_app_Inr [OF comp]
  define specs where "specs = loaded[i := inject_script script (loaded ! i)]"
  have b: "build_set specs = Inr (app_cells a)" using c unfolding specs_def by blast
  have boot: "bootable specs" using build_set_total b by blast
  have cells: "set_cells (app_cells a) = specs" and order: "set (set_order (app_cells a)) = set specs"
    using build_set_order [OF b] by (auto dest: mset_eq_setD)
  have orch: "specs ! i \<in> set specs" "specs ! i = inject_script script (loaded ! i)" "cs_name (specs ! i) = app_orchestrator_cell a"
    using i c by (simp_all add: specs_def set_update_memI inject_script_def)
  have dist: "distinct (cell_names specs)" using boot by (simp add: bootable_def)
  then have only: "s = specs ! i" if "s \<in> set specs" "cs_name s = app_orchestrator_cell a" for s
    using that orch unfolding cell_names_def by (metis distinct_map inj_onD)
  have scripts: "fmlookup (table_of (cs_config s)) ''script'' = Some (CText script)" if "s \<in> set specs" "cs_name s = app_orchestrator_cell a" for s
    using only [OF that] orch(2) by (simp add: inject_script_def table_of_def)
  have units: "list_all (unit_ok w (app_require_wasm_sha256 a) specs) (app_units a) \<and> distinct (concat (map eu_members (app_units a)))"
    using c dist units_loop_ok [of w "path_dir p" specs "app_require_wasm_sha256 a" 0 Map.empty "rap_units r" "app_units a"]
    by (simp add: build_execution_units_def cells)
  have pins: "\<forall>s \<in> set specs. cs_name s \<in> fused_members (app_units a) \<or> pinned w (app_require_wasm_sha256 a) s"
    using c by (simp add: cells verify_pins_of_Inr)
  have bp: "build_app_placements (app_cells a) (rap_placements r) = Inr (app_placements a)" using c by blast
  note pl = placement_config [OF bp, unfolded order]
  have places: "\<forall>q \<in> set (app_placements a). cs_name (cp_spec q) \<in> fused_members (app_units a) \<or> pinned w (app_require_wasm_sha256 a) (cp_spec q)"
  proof
    fix q assume "q \<in> set (app_placements a)"
    from pl [OF this] obtain s cfg where "s \<in> set specs" "cp_spec q = s\<lparr>cs_config := cfg\<rparr>" by blast
    then show "cs_name (cp_spec q) \<in> fused_members (app_units a) \<or> pinned w (app_require_wasm_sha256 a) (cp_spec q)" using pins by simp
  qed
  obtain q where q: "filter (\<lambda>p. cs_name (cp_spec p) = app_orchestrator_cell a) (app_placements a) = [q]"
    using c by (auto simp: length_Suc_conv)
  then have "q \<in> set (app_placements a)" "cs_name (cp_spec q) = app_orchestrator_cell a" by (auto simp: filter_eq_Cons_iff)
  moreover from pl [OF this(1)] obtain s cfg where "s \<in> set specs" "cp_spec q = s\<lparr>cs_config := cfg\<rparr>"
      "fmlookup (table_of cfg) ''script'' =
        (case placement_override r (cs_name s) ''script'' of Some v \<Rightarrow> Some v | None \<Rightarrow> fmlookup (table_of (cs_config s)) ''script'')" by blast
  ultimately have "fmlookup (table_of (cs_config (cp_spec q))) ''script'' =
      (case placement_override r (app_orchestrator_cell a) ''script'' of Some v \<Rightarrow> Some v | None \<Rightarrow> Some (CText script))"
    using scripts by (simp split: option.splits)
  then have "\<exists>r script. decoded_app w path r \<and> w_read w (app_script_path a) = Inr script \<and>
      parse_app_sha256 (ro_sha256 (rap_orchestrator r)) = Inr (w_sha256 w script) \<and> app_script_sha256 a = hex_encode (w_sha256 w script) \<and>
      (\<forall>s \<in> set specs. cs_name s = app_orchestrator_cell a \<longrightarrow> fmlookup (table_of (cs_config s)) ''script'' = Some (CText script)) \<and>
      (\<exists>p. filter (\<lambda>p. cs_name (cp_spec p) = app_orchestrator_cell a) (app_placements a) = [p] \<and>
         fmlookup (table_of (cs_config (cp_spec p))) ''script'' =
           (case placement_override r (app_orchestrator_cell a) ''script'' of Some v \<Rightarrow> Some v | None \<Rightarrow> Some (CText script)))"
    using dec rd sha c scripts q by (intro exI [of _ r] exI [of _ script]) auto
  moreover have "app_orchestrator_cell a \<in> cs_name ` set specs" using orch by (metis imageI)
  ultimately show ?thesis using units pins places boot unfolding cells by blast
qed

text \<open>When no cell name contains an at sign, the placements of a loaded application have pairwise distinct
  addresses, so an address names one instance. Every placement is a copy of a cell with its configuration
  overridden and nothing else changed, and every cell has a placement.\<close>

theorem placement_addresses:
  assumes "load_app w path = Inr a"
  shows "(\<forall>p \<in> set (app_placements a). \<exists>s \<in> set (set_cells (app_cells a)). places s p) \<and>
    (\<forall>s \<in> set (set_cells (app_cells a)). \<exists>p \<in> set (app_placements a). places s p) \<and>
    ((\<forall>s \<in> set (set_cells (app_cells a)). CHR ''@'' \<notin> set (cs_name s)) \<longrightarrow> distinct (map cp_address (app_placements a)))"
proof -
  obtain p r schema paths om script loaded i where
      "compose_app w p r schema paths (om, app_script_path a, w_sha256 w script, script) loaded i = Inr a"
    using load_app_Inr [OF assms] by metis
  then have b: "\<exists>specs. build_set specs = Inr (app_cells a)" "build_app_placements (app_cells a) (rap_placements r) = Inr (app_placements a)"
    using compose_app_Inr by blast+
  then have "mset (set_order (app_cells a)) = mset (set_cells (app_cells a))" "distinct (cell_names (set_order (app_cells a)))"
    using build_set_order by blast+
  then have "set (set_order (app_cells a)) = set (set_cells (app_cells a))" by (metis set_mset_mset)
  then show ?thesis using build_app_placements_ok [OF b(2)] \<open>distinct (cell_names (set_order (app_cells a)))\<close> by auto
qed

subsection \<open>Concrete runs\<close>

text \<open>Cell names are free text: a cell called \<^verbatim>\<open>a@1\<close> beside two instances of the cell \<^verbatim>\<open>a\<close> gives two placements
  with one address.\<close>

definition two_instances :: "unit raw_placement" where
  "two_instances = \<lparr>rp_cell = ''a'', rp_instances = [], rp_count = 2, rp_aliases = [], rp_config = None\<rparr>"

lemma address_collision:
  "\<exists>S ps. build_set [demo_cell ''a'' [] [] [], demo_cell ''a@1'' [] [] []] = Inr S \<and>
     build_app_placements S [two_instances] = Inr ps \<and> map cp_address ps = [''a@1'', ''a@2'', ''a@1'']"
proof -
  let ?cells = "[demo_cell ''a'' [] [] [], demo_cell ''a@1'' [] [] []]"
  define p where "p = projr (build (cell_items ?cells))"
  have "\<not> isl (build (cell_items ?cells))" by code_simp
  then have b: "build (cell_items ?cells) = Inr p" unfolding p_def by (rule Inr_projr)
  have so: "plan_start_order p = [''a'', ''a@1'']" unfolding p_def by code_simp
  have S: "build_set ?cells = Inr \<lparr>set_cells = ?cells, set_order = ?cells, set_plan = p\<rparr>"
    unfolding build_set_Inr using b so
    by (auto simp: demo_cell_def cell_names_def providers_def cells_by_name_def)
  have t: "trim_space ''a'' = ''a''" "trim_space ''1'' = ''1''" "trim_space ''2'' = ''2''"
    by (rule trim_space_plain; simp add: plain_char_def)+
  have n: "show_nat (Suc 0) = ''1''" "show_nat (Suc (Suc 0)) = ''2''" by code_simp+
  have i: "placement_instances ''a'' (Some two_instances) = Inr [''1'', ''2'']"
    by (simp add: placement_instances_def two_instances_def numbered_def upt_rec n t Let_def)
  have "configure_placements (cells_by_name ?cells) Map.empty [two_instances] = Inr [''a'' \<mapsto> two_instances]"
    by (simp add: two_instances_def t cells_by_name_def demo_cell_def Let_def)
  moreover have "placement_instances ''a@1'' (None :: unit raw_placement option) = Inr [''primary'']"
    by (simp add: placement_instances_def)
  ultimately obtain ps where "build_app_placements \<lparr>set_cells = ?cells, set_order = ?cells, set_plan = p\<rparr> [two_instances] = Inr ps"
      "map cp_address ps = [''a@1'', ''a@2'', ''a@1'']"
    using i by (simp add: build_app_placements_def demo_cell_def place_cell_def)
  with S show ?thesis by (intro exI conjI)
qed

definition demo_app :: "unit raw_app" where
  "demo_app = \<lparr>rap_schema = 0, rap_name = ''app'', rap_version = ''1'', rap_cells = [''a.toml''],
     rap_require_wasm_sha256 = False, rap_placements = [], rap_units = [],
     rap_orchestrator = \<lparr>ro_manifest = ''a.toml'', ro_script = ''m.lua'', ro_sha256 = hex_encode (replicate 32 7)\<rparr>\<rparr>"

definition demo_app_world :: "unit app_world" where
  "demo_app_world = \<lparr>w_cwd = Some ''/srv'',
     w_read = (\<lambda>p. if p = ''/srv/app.toml'' \<or> p = ''/srv/a.toml'' \<or> p = ''/srv/m.lua'' then Inr ''x'' else Inl NotExist),
     w_env = Map.empty, w_decode_cell = (\<lambda>b. Some (demo_raw_cell ''a'' [''f''] [] [], [])), w_sha256 = (\<lambda>b. replicate 32 7),
     w_decode_app = (\<lambda>b. Some (demo_app, [])), w_marshal_identity = (\<lambda>i. Some ''wire'')\<rparr>"

definition demo_loaded_app :: "unit application" where
  "demo_loaded_app = projr (load_app demo_app_world ''app.toml'')"

lemma demo_app_loads:
  "load_app demo_app_world ''app.toml'' = Inr demo_loaded_app"
  "app_script_path demo_loaded_app = ''/srv/m.lua''" "app_orchestrator_cell demo_loaded_app = ''a''"
  "map cs_name (set_cells (app_cells demo_loaded_app)) = [''a'']"
proof -
  have "map_sum (\<lambda>_. ()) (\<lambda>a. (app_script_path a, app_orchestrator_cell a, map cs_name (set_cells (app_cells a)))) (load_app demo_app_world ''app.toml'') =
      Inr (''/srv/m.lua'', ''a'', [''a''])" by code_simp
  then show "load_app demo_app_world ''app.toml'' = Inr demo_loaded_app"
      "app_script_path demo_loaded_app = ''/srv/m.lua''" "app_orchestrator_cell demo_loaded_app = ''a''"
      "map cs_name (set_cells (app_cells demo_loaded_app)) = [''a'']"
    by (cases "load_app demo_app_world ''app.toml''"; simp add: demo_loaded_app_def)+
qed

theorem app_verified_witness:
  "\<exists>a p. load_app demo_app_world ''app.toml'' = Inr a \<and> app_script_path a = ''/srv/m.lua'' \<and> app_orchestrator_cell a = ''a'' \<and>
     filter (\<lambda>p. cs_name (cp_spec p) = ''a'') (app_placements a) = [p] \<and>
     fmlookup (table_of (cs_config (cp_spec p))) ''script'' = Some (CText ''x'') \<and> bootable (set_cells (app_cells a))"
proof -
  define a where "a = demo_loaded_app"
  have l: "load_app demo_app_world ''app.toml'' = Inr a" unfolding a_def by (rule demo_app_loads)
  have sp: "app_script_path a = ''/srv/m.lua''" and orch: "app_orchestrator_cell a = ''a''" unfolding a_def by (rule demo_app_loads)+
  have dec: "decoded_app demo_app_world ''app.toml'' r \<Longrightarrow> r = demo_app" for r by (auto simp: decoded_app_def demo_app_world_def)
  have none: "placement_override demo_app ''a'' ''script'' = None" by (simp add: placement_override_def placement_entry_def demo_app_def)
  have rd: "w_read demo_app_world ''/srv/m.lua'' = Inr ''x''" by (simp add: demo_app_world_def)
  obtain r script p where r: "decoded_app demo_app_world ''app.toml'' r" "w_read demo_app_world (app_script_path a) = Inr script"
      and p: "filter (\<lambda>p. cs_name (cp_spec p) = ''a'') (app_placements a) = [p]"
      "fmlookup (table_of (cs_config (cp_spec p))) ''script'' = (case placement_override r ''a'' ''script'' of Some v \<Rightarrow> Some v | None \<Rightarrow> Some (CText script))"
      and boot: "bootable (set_cells (app_cells a))"
    using app_verified [OF l] unfolding orch by blast
  have "script = ''x''" using r(2) rd unfolding sp by simp
  then have "fmlookup (table_of (cs_config (cp_spec p))) ''script'' = Some (CText ''x'')" using p(2) none unfolding dec [OF r(1)] by simp
  then show ?thesis using l sp orch p(1) boot by blast
qed

text \<open>A placement entry for the orchestrator replaces the verified script: the application loads, and the orchestrator's
  placement carries a script that nothing was compared with.\<close>

definition demo_override_app :: "unit raw_app" where
  "demo_override_app = demo_app\<lparr>rap_placements := [\<lparr>rp_cell = ''a'', rp_instances = [], rp_count = 1, rp_aliases = [],
     rp_config = Some (fmupd ''script'' (CText ''evil'') fmempty)\<rparr>]\<rparr>"

definition demo_override_world :: "unit app_world" where
  "demo_override_world = demo_app_world\<lparr>w_decode_app := (\<lambda>b. Some (demo_override_app, []))\<rparr>"

lemma unverified_script:
  "\<exists>a. load_app demo_override_world ''app.toml'' = Inr a \<and>
     map (\<lambda>p. (cs_name (cp_spec p), fmlookup (table_of (cs_config (cp_spec p))) ''script'')) (app_placements a) = [(app_orchestrator_cell a, Some (CText ''evil''))] \<and>
     w_read demo_override_world (app_script_path a) = Inr ''x''"
proof -
  let ?view = "\<lambda>a :: unit application. (app_orchestrator_cell a, app_script_path a,
    map (\<lambda>p. (cs_name (cp_spec p), fmlookup (table_of (cs_config (cp_spec p))) ''script'')) (app_placements a))"
  have "map_sum (\<lambda>_. ()) ?view (load_app demo_override_world ''app.toml'') =
      Inr (''a'', ''/srv/m.lua'', [(''a'', Some (CText ''evil''))])" by code_simp
  moreover have "w_read demo_override_world ''/srv/m.lua'' = Inr ''x''" by (simp add: demo_override_world_def demo_app_world_def)
  ultimately show ?thesis by (cases "load_app demo_override_world ''app.toml''") auto
qed

theorem placement_addresses_witness:
  "\<exists>a s p. load_app demo_app_world ''app.toml'' = Inr a \<and> map cs_name (set_cells (app_cells a)) = [''a''] \<and>
     distinct (map cp_address (app_placements a)) \<and> p \<in> set (app_placements a) \<and> places s p"
proof -
  define a where "a = demo_loaded_app"
  have l: "load_app demo_app_world ''app.toml'' = Inr a" unfolding a_def by (rule demo_app_loads)
  have n: "map cs_name (set_cells (app_cells a)) = [''a'']" unfolding a_def by (rule demo_app_loads)
  then obtain s where s: "set_cells (app_cells a) = [s]" "cs_name s = ''a''" by auto
  have d: "distinct (map cp_address (app_placements a))" and "\<exists>p \<in> set (app_placements a). places s p"
    using placement_addresses [OF l] by (auto simp: s)
  then obtain p where p: "p \<in> set (app_placements a)" "places s p" by blast
  show ?thesis by (intro exI conjI) (rule l n d p)+
qed

end
