(* ===== verification/Host_Manifest.thy ===== *)
theory Host_Manifest
  imports App_Manifest
begin

text \<open>
  Host manifests, \<^verbatim>\<open>src/internal/manifest/host.go\<close>: which applications share a host, in which order they
  start, which cross-application calls they are granted and which routes lead to them. The start order is a
  depth-first search with an explicit stack; the model keeps the stack (\<^verbatim>\<open>visiting\<close>) and the finished
  applications (\<^verbatim>\<open>visited\<close>, which are those appended to the order) as lists of identifiers.
\<close>

subsection \<open>Data\<close>

record raw_hosted_app =
  rh_id :: string
  rh_manifest :: string
  rh_instances :: int
  rh_aliases :: "string list"
  rh_storage_namespace :: string
  rh_event_namespace :: string
  rh_depends_on :: "string list"

record raw_route =
  rr_path :: string
  rr_application :: string
  rr_instance :: string

record raw_host =
  rho_schema :: int
  rho_name :: string
  rho_health_path :: string
  rho_applications :: "raw_hosted_app list"
  rho_routes :: "raw_route list"

record app_instance =
  in_ordinal :: nat
  in_alias :: string

record 'o hosted_app =
  ha_id :: string
  ha_manifest_path :: string
  ha_application :: "'o application"
  ha_instances :: "app_instance list"
  ha_storage_namespace :: string
  ha_event_namespace :: string
  ha_depends_on :: "string list"

record route_binding =
  rb_path :: string
  rb_application :: string
  rb_instance :: string

record 'o host =
  h_schema :: int
  h_name :: string
  h_manifest_path :: string
  h_health_path :: string
  h_applications :: "'o hosted_app list"
  h_order :: "'o hosted_app list"
  h_routes :: "route_binding list"

record 'o host_world = "'o app_world" +
  w_decode_host :: "string \<Rightarrow> (raw_host \<times> string list) option"

datatype host_error = HostPath | HostRead io_error | HostToml | HostUnknownFields "string list"
  | HostSchemaTooOld int | HostSchemaTooNew int | HostNameRequired | HostNoApplications | BadHealthPath string
  | BadApplicationId nat | HostField field_error | HostApplication string app_error
  | InstancesTooFew nat | TooManyAliases nat nat int | BadAlias nat string | DuplicateAlias nat string
  | BadNamespace nat string | DuplicateApplication string | SharedStorage string string string
  | SharedEvents string string string | UnknownDependency string string | ApplicationCycle "string list"
  | NoGrantProvider string string string | AmbiguousGrant string string string "string list"
  | RoutePathRequired nat | RouteNotAbsolute nat string | RouteNotCanonical nat string | DuplicateRoute string
  | RouteUnknownApplication nat string | RouteInstanceRequired nat string nat | RouteUnknownInstance nat string string

subsection \<open>One hosted application\<close>

definition is_letter :: "char \<Rightarrow> bool" where
  "is_letter c \<longleftrightarrow> (let n = of_char c :: int in 65 \<le> n \<and> n \<le> 90 \<or> 97 \<le> n \<and> n \<le> 122)"

definition backslash :: char where
  "backslash = CHR 0x5C"

definition is_portable_absolute :: "string \<Rightarrow> bool" where
  "is_portable_absolute v \<longleftrightarrow> is_abs v \<or> prefix [backslash, backslash] v \<or>
     (case v of c # d # e # _ \<Rightarrow> is_letter c \<and> d = CHR '':'' \<and> (e = CHR ''/'' \<or> e = backslash) | _ \<Rightarrow> False)"

definition resolve_host_relative_path :: "string option \<Rightarrow> string \<Rightarrow> string \<Rightarrow> string \<Rightarrow> (field_error, string) result" where
  "resolve_host_relative_path cwd base rel field =
     (let r = trim_space rel
      in if r = [] then Inl (FieldRequired field)
         else if is_portable_absolute r then Inl (FieldAbsolute field)
         else case path_abs cwd (path_join [base, r]) of
                None \<Rightarrow> Inl (FieldUnresolved field)
              | Some p \<Rightarrow> Inr p)"

definition alias_at :: "string \<Rightarrow> string list \<Rightarrow> nat \<Rightarrow> string" where
  "alias_at i aliases k =
     (let a = (if k \<le> length aliases then trim_space (aliases ! (k - 1)) else [])
      in if a = [] then i @ ''-'' @ show_nat k else a)"

fun alias_loop :: "nat \<Rightarrow> string \<Rightarrow> string list \<Rightarrow> string set \<Rightarrow> nat list \<Rightarrow> (host_error, app_instance list) result" where
  "alias_loop index i aliases seen [] = Inr []"
| "alias_loop index i aliases seen (k # ks) =
     (let a = alias_at i aliases k
      in if \<not> host_identifier a then Inl (BadAlias index a)
         else if a \<in> seen then Inl (DuplicateAlias index a)
         else bindE (alias_loop index i aliases (insert a seen) ks) (\<lambda>rest. Inr (\<lparr>in_ordinal = k, in_alias = a\<rparr> # rest)))"

definition normalize_application_instances :: "nat \<Rightarrow> string \<Rightarrow> int \<Rightarrow> string list \<Rightarrow> (host_error, app_instance list) result" where
  "normalize_application_instances index i requested aliases =
     (let n = (if requested = 0 then 1 else requested)
      in if n < 1 then Inl (InstancesTooFew index)
         else if int (length aliases) > n then Inl (TooManyAliases index (length aliases) n)
         else alias_loop index i aliases {} [1..<Suc (nat n)])"

definition normalize_namespace :: "nat \<Rightarrow> string \<Rightarrow> string \<Rightarrow> (host_error, string) result" where
  "normalize_namespace index v field =
     (if host_identifier (trim_space v) then Inr (trim_space v) else Inl (BadNamespace index field))"

definition normalize_hosted_dependencies :: "string list \<Rightarrow> string list" where
  "normalize_hosted_dependencies ds = dedupe (map trim_space ds)"

definition load_hosted_application :: "('o, 'z) app_world_scheme \<Rightarrow> string \<Rightarrow> nat \<Rightarrow> raw_hosted_app \<Rightarrow> (host_error, 'o hosted_app) result" where
  "load_hosted_application w base index r =
     (let i = trim_space (rh_id r)
      in if \<not> host_identifier i then Inl (BadApplicationId index)
         else bindE (map_err HostField (resolve_host_relative_path (w_cwd w) base (rh_manifest r)
                (''applications['' @ show_nat index @ ''].manifest''))) (\<lambda>path.
         bindE (map_err (HostApplication i) (load_app w path)) (\<lambda>app.
         bindE (normalize_application_instances index i (rh_instances r) (rh_aliases r)) (\<lambda>ins.
         bindE (normalize_namespace index (rh_storage_namespace r) ''storage_namespace'') (\<lambda>storage.
         bindE (normalize_namespace index (rh_event_namespace r) ''event_namespace'') (\<lambda>events.
         Inr \<lparr>ha_id = i, ha_manifest_path = path, ha_application = app, ha_instances = ins,
              ha_storage_namespace = storage, ha_event_namespace = events,
              ha_depends_on = normalize_hosted_dependencies (rh_depends_on r)\<rparr>))))))"

text \<open>The loop of \<^verbatim>\<open>LoadHost\<close>, with the applications accepted so far.\<close>

fun load_applications :: "('o, 'z) app_world_scheme \<Rightarrow> string \<Rightarrow> nat \<Rightarrow> 'o hosted_app list \<Rightarrow> raw_hosted_app list
    \<Rightarrow> (host_error, 'o hosted_app list) result" where
  "load_applications w base index acc [] = Inr acc"
| "load_applications w base index acc (r # rs) =
     bindE (load_hosted_application w base index r) (\<lambda>a.
     if List.find (\<lambda>b. ha_id b = ha_id a) acc \<noteq> None then Inl (DuplicateApplication (ha_id a))
     else case List.find (\<lambda>b. ha_storage_namespace b = ha_storage_namespace a) acc of
            Some b \<Rightarrow> Inl (SharedStorage (ha_storage_namespace a) (ha_id b) (ha_id a))
          | None \<Rightarrow>
              (case List.find (\<lambda>b. ha_event_namespace b = ha_event_namespace a) acc of
                 Some b \<Rightarrow> Inl (SharedEvents (ha_event_namespace a) (ha_id b) (ha_id a))
               | None \<Rightarrow> load_applications w base (Suc index) (acc @ [a]) rs))"

subsection \<open>The start order\<close>

definition app_deps :: "'o hosted_app list \<Rightarrow> string \<Rightarrow> string list" where
  "app_deps apps i = (case List.find (\<lambda>a. ha_id a = i) apps of None \<Rightarrow> [] | Some a \<Rightarrow> ha_depends_on a)"

lemma app_deps_unknown: "i \<notin> ha_id ` set apps \<Longrightarrow> app_deps apps i = []"
  by (auto simp: app_deps_def find_Some_iff image_iff split: option.splits)

function visit_apps :: "'o hosted_app list \<Rightarrow> string list \<Rightarrow> string list \<Rightarrow> string list \<Rightarrow> (host_error, string list) result" where
  "visit_apps apps stack order [] = Inr order"
| "visit_apps apps stack order (i # is) =
     (if i \<in> set stack then Inl (ApplicationCycle (dropWhile (\<lambda>x. x \<noteq> i) stack @ [i]))
      else if i \<in> set order then visit_apps apps stack order is
      else bindE (visit_apps apps (stack @ [i]) order (app_deps apps i)) (\<lambda>order'.
           visit_apps apps stack (order' @ [i]) is))"
  by pat_completeness auto
termination
proof (relation "inv_image (finite_psubset <*lex*> less_than)
    (\<lambda>(apps, stack, order, is). (ha_id ` set apps - set stack, length is))")
  fix apps :: "'o hosted_app list" and stack order :: "string list" and i "is"
  assume "i \<notin> set stack"
  then show "((apps, stack @ [i], order, app_deps apps i), apps, stack, order, i # is)
      \<in> inv_image (finite_psubset <*lex*> less_than) (\<lambda>(apps, stack, order, is). (ha_id ` set apps - set stack, length is))"
    by (cases "i \<in> ha_id ` set apps") (auto simp: finite_psubset_def app_deps_unknown)
qed auto

definition app_of :: "'o hosted_app list \<Rightarrow> string \<Rightarrow> 'o hosted_app option" where
  "app_of apps i = List.find (\<lambda>a. ha_id a = i) apps"

definition check_known :: "'o hosted_app list \<Rightarrow> (host_error, unit) result" where
  "check_known apps =
     (case List.find (\<lambda>(a, d). app_of apps d = None) (concat (map (\<lambda>a. map (\<lambda>d. (ha_id a, d)) (ha_depends_on a)) apps)) of
        Some (a, d) \<Rightarrow> Inl (UnknownDependency a d)
      | None \<Rightarrow> Inr ())"

definition resolve_application_order :: "'o hosted_app list \<Rightarrow> (host_error, 'o hosted_app list) result" where
  "resolve_application_order apps =
     bindE (check_known apps) (\<lambda>_.
     bindE (visit_apps apps [] [] (map ha_id apps)) (\<lambda>order. Inr (map (\<lambda>i. the (app_of apps i)) order)))"

subsection \<open>Cross-application grants\<close>

text \<open>The cells of an application that provide a function, as \<^verbatim>\<open>application/cell\<close>.\<close>

definition provider_cells :: "'o hosted_app \<Rightarrow> string \<Rightarrow> string list" where
  "provider_cells a p = map (\<lambda>c. ha_id a @ ''/'' @ cs_name c)
     (filter (\<lambda>c. p \<in> set (cs_provides c)) (set_cells (app_cells (ha_application a))))"

definition direct_dependencies :: "'o hosted_app list \<Rightarrow> 'o hosted_app \<Rightarrow> 'o hosted_app list" where
  "direct_dependencies apps caller = concat (map (\<lambda>d. case app_of apps d of None \<Rightarrow> [] | Some a \<Rightarrow> [a]) (ha_depends_on caller))"

definition grant_owners :: "'o hosted_app list \<Rightarrow> 'o hosted_app \<Rightarrow> string \<Rightarrow> string list" where
  "grant_owners apps caller grant =
     (case cut_at ''::'' grant of
        None \<Rightarrow> concat (map (\<lambda>a. provider_cells a grant) (direct_dependencies apps caller))
      | Some (i, p) \<Rightarrow> concat (map (\<lambda>a. provider_cells a p) (filter (\<lambda>a. ha_id a = i) (direct_dependencies apps caller))))"

fun check_grants :: "'o hosted_app list \<Rightarrow> 'o hosted_app \<Rightarrow> string \<Rightarrow> string list \<Rightarrow> (host_error, unit) result" where
  "check_grants apps caller cell [] = Inr ()"
| "check_grants apps caller cell (g # gs) =
     (case grant_owners apps caller g of
        [] \<Rightarrow> Inl (NoGrantProvider (ha_id caller) cell g)
      | [_] \<Rightarrow> check_grants apps caller cell gs
      | os \<Rightarrow> Inl (AmbiguousGrant (ha_id caller) cell g os))"

definition validate_host_consumes :: "'o hosted_app list \<Rightarrow> (host_error, unit) result" where
  "validate_host_consumes apps =
     bindE (mapM (\<lambda>caller. mapM (\<lambda>c. check_grants apps caller (cs_name c) (cs_host_consumes c))
       (set_cells (app_cells (ha_application caller)))) apps) (\<lambda>_. Inr ())"

subsection \<open>Routes\<close>

definition url_special :: "string \<Rightarrow> bool" where
  "url_special s \<longleftrightarrow> CHR ''?'' \<in> set s \<or> CHR ''#'' \<in> set s \<or> backslash \<in> set s"

definition normalize_route_path :: "nat \<Rightarrow> string \<Rightarrow> (host_error, string) result" where
  "normalize_route_path index v =
     (let p = trim_space v
      in if p = [] then Inl (RoutePathRequired index)
         else if \<not> prefix ''/'' p \<or> url_special p then Inl (RouteNotAbsolute index p)
         else if path_clean p \<noteq> p then Inl (RouteNotCanonical index p) else Inr p)"

definition application_has_instance :: "'o hosted_app \<Rightarrow> string \<Rightarrow> bool" where
  "application_has_instance a alias \<longleftrightarrow> list_ex (\<lambda>i. in_alias i = alias) (ha_instances a)"

definition route_instance :: "nat \<Rightarrow> 'o hosted_app \<Rightarrow> string \<Rightarrow> (host_error, string) result" where
  "route_instance index a v =
     (let t = trim_space v
      in bindE (if t \<noteq> [] then Inr t
                else case ha_instances a of
                       [i] \<Rightarrow> Inr (in_alias i)
                     | is \<Rightarrow> Inl (RouteInstanceRequired index (ha_id a) (length is))) (\<lambda>inst.
         if application_has_instance a inst then Inr inst else Inl (RouteUnknownInstance index inst (ha_id a))))"

fun routes_loop :: "'o hosted_app list \<Rightarrow> nat \<Rightarrow> string set \<Rightarrow> raw_route list \<Rightarrow> (host_error, route_binding list) result" where
  "routes_loop apps index seen [] = Inr []"
| "routes_loop apps index seen (r # rs) =
     bindE (normalize_route_path index (rr_path r)) (\<lambda>p.
     if p \<in> seen then Inl (DuplicateRoute p)
     else case app_of apps (trim_space (rr_application r)) of
            None \<Rightarrow> Inl (RouteUnknownApplication index (trim_space (rr_application r)))
          | Some a \<Rightarrow>
              bindE (route_instance index a (rr_instance r)) (\<lambda>inst.
              bindE (routes_loop apps (Suc index) (insert p seen) rs) (\<lambda>rest.
              Inr (\<lparr>rb_path = p, rb_application = trim_space (rr_application r), rb_instance = inst\<rparr> # rest))))"

definition load_route_bindings :: "raw_route list \<Rightarrow> 'o hosted_app list \<Rightarrow> (host_error, route_binding list) result" where
  "load_route_bindings rs apps = bindE (routes_loop apps 0 {} rs) (\<lambda>routes. Inr (sort_key rb_path routes))"

subsection \<open>The host\<close>

definition host_schema_of :: "int \<Rightarrow> (host_error, int) result" where
  "host_schema_of v =
     (let s = (if v = 0 then 1 else v)
      in if s < 1 then Inl (HostSchemaTooOld s) else if s > 1 then Inl (HostSchemaTooNew s) else Inr s)"

definition health_path_ok :: "string \<Rightarrow> bool" where
  "health_path_ok p \<longleftrightarrow> p = [] \<or>
     prefix ''/'' p \<and> \<not> url_special p \<and> path_clean p = p \<and> p \<noteq> ''/'' \<and> \<not> suffix ''/'' p"

definition assemble_host :: "('o, 'z) app_world_scheme \<Rightarrow> string \<Rightarrow> raw_host \<Rightarrow> (host_error, 'o host) result" where
  "assemble_host w path r =
     bindE (host_schema_of (rho_schema r)) (\<lambda>schema.
     bindE (guardE (trim_space (rho_name r) \<noteq> []) HostNameRequired) (\<lambda>_.
     bindE (guardE (rho_applications r \<noteq> []) HostNoApplications) (\<lambda>_.
     let health = trim_space (rho_health_path r)
     in bindE (guardE (health_path_ok health) (BadHealthPath health)) (\<lambda>_.
        bindE (load_applications w (path_dir path) 0 [] (rho_applications r)) (\<lambda>apps.
        bindE (resolve_application_order apps) (\<lambda>order.
        bindE (validate_host_consumes apps) (\<lambda>_.
        bindE (load_route_bindings (rho_routes r) apps) (\<lambda>routes.
        Inr \<lparr>h_schema = schema, h_name = trim_space (rho_name r), h_manifest_path = path, h_health_path = health,
             h_applications = apps, h_order = order, h_routes = routes\<rparr>))))))))"

definition load_host :: "('o, 'z) host_world_scheme \<Rightarrow> string \<Rightarrow> (host_error, 'o host) result" where
  "load_host w path =
     (case path_abs (w_cwd w) path of
        None \<Rightarrow> Inl HostPath
      | Some p \<Rightarrow>
          (case w_read w p of
             Inl e \<Rightarrow> Inl (HostRead e)
           | Inr data \<Rightarrow>
               (case w_decode_host w data of
                  None \<Rightarrow> Inl HostToml
                | Some (r, undecoded) \<Rightarrow>
                    if undecoded \<noteq> [] then Inl (HostUnknownFields undecoded) else assemble_host w p r)))"

subsection \<open>The order respects the dependencies\<close>

definition depends_rel :: "'o hosted_app list \<Rightarrow> (string \<times> string) set" where
  "depends_rel apps = {(d, x). d \<in> set (app_deps apps x)}"

lemma topo_Nil [simp]: "topo deps []"
  by (simp add: topo_def)

lemma topo_snoc: "topo deps xs \<Longrightarrow> set (deps x) \<subseteq> set xs \<Longrightarrow> topo deps (xs @ [x])"
  by (auto simp: topo_def nth_append less_Suc_eq)

lemma visit_apps_Inr:
  assumes "visit_apps apps stack order is = Inr order'" and "topo (app_deps apps) order" and "distinct order"
    and "set order \<inter> set stack = {}"
  shows "topo (app_deps apps) order' \<and> distinct order' \<and> set order' \<inter> set stack = {} \<and> set order \<union> set is \<subseteq> set order'"
  using assms
proof (induction apps stack order "is" arbitrary: order' rule: visit_apps.induct)
  case (2 apps stack order i "is")
  have i: "i \<notin> set stack" using "2.prems"(1) by (auto split: if_splits)
  show ?case
  proof (cases "i \<in> set order")
    case True
    then show ?thesis using "2.IH"(1) [OF i True, of order'] "2.prems" i by auto
  next
    case False
    obtain o1 where o1: "visit_apps apps (stack @ [i]) order (app_deps apps i) = Inr o1"
        "visit_apps apps stack (o1 @ [i]) is = Inr order'"
      using "2.prems"(1) i False by auto
    have r: "topo (app_deps apps) o1 \<and> distinct o1 \<and> set o1 \<inter> set (stack @ [i]) = {} \<and> set order \<union> set (app_deps apps i) \<subseteq> set o1"
      by (rule "2.IH"(2) [OF i False o1(1)]) (use "2.prems" False in auto)
    have "topo (app_deps apps) order' \<and> distinct order' \<and> set order' \<inter> set stack = {} \<and> set (o1 @ [i]) \<union> set is \<subseteq> set order'"
      by (rule "2.IH"(3) [OF i False o1(2)]) (use r i in \<open>auto intro: topo_snoc\<close>)
    then show ?thesis using r by auto
  qed
qed auto

lemma visit_apps_known:
  assumes "visit_apps apps stack order is = Inr order'" and "\<forall>x. set (app_deps apps x) \<subseteq> known"
    and "set order \<union> set is \<subseteq> known"
  shows "set order' \<subseteq> known"
  using assms
proof (induction apps stack order "is" arbitrary: order' rule: visit_apps.induct)
  case (2 apps stack order i "is")
  have i: "i \<notin> set stack" using "2.prems"(1) by (auto split: if_splits)
  show ?case
  proof (cases "i \<in> set order")
    case True
    then show ?thesis using "2.IH"(1) [OF i True, of order'] "2.prems" i by auto
  next
    case False
    obtain o1 where o1: "visit_apps apps (stack @ [i]) order (app_deps apps i) = Inr o1"
        "visit_apps apps stack (o1 @ [i]) is = Inr order'"
      using "2.prems"(1) i False by auto
    have "set o1 \<subseteq> known" by (rule "2.IH"(2) [OF i False o1(1)]) (use "2.prems" in auto)
    then show ?thesis using "2.IH"(3) [OF i False o1(2)] "2.prems" by auto
  qed
qed auto

text \<open>A cycle is a walk along dependencies that returns to where it started.\<close>

definition walk :: "'o hosted_app list \<Rightarrow> string list \<Rightarrow> bool" where
  "walk apps xs \<longleftrightarrow> successively (\<lambda>a b. b \<in> set (app_deps apps a)) xs"

definition app_cycle :: "'o hosted_app list \<Rightarrow> string list \<Rightarrow> bool" where
  "app_cycle apps xs \<longleftrightarrow> 2 \<le> length xs \<and> hd xs = last xs \<and> walk apps xs"

lemma walk_snoc: "walk apps xs \<Longrightarrow> (xs \<noteq> [] \<longrightarrow> y \<in> set (app_deps apps (last xs))) \<Longrightarrow> walk apps (xs @ [y])"
  by (auto simp: walk_def successively_append_iff)

lemma visit_apps_Inl:
  assumes "visit_apps apps stack order is = Inl e" and "walk apps stack"
    and "stack \<noteq> [] \<longrightarrow> set is \<subseteq> set (app_deps apps (last stack))"
  shows "\<exists>xs. e = ApplicationCycle xs \<and> app_cycle apps xs"
  using assms
proof (induction apps stack order "is" arbitrary: e rule: visit_apps.induct)
  case (2 apps stack order i "is")
  show ?case
  proof (cases "i \<in> set stack")
    case True
    obtain as bs where st: "stack = as @ i # bs" "i \<notin> set as" using True by (meson split_list_first)
    then have dw: "dropWhile (\<lambda>x. x \<noteq> i) stack = i # bs" by (induction as arbitrary: stack) auto
    have "walk apps (stack @ [i])" by (rule walk_snoc) (use "2.prems" True in auto)
    then have "walk apps (as @ (i # bs @ [i]))" using st by simp
    then have "walk apps (i # bs @ [i])" unfolding walk_def successively_append_iff by blast
    then show ?thesis using "2.prems"(1) True dw by (auto simp: app_cycle_def)
  next
    case i: False
    show ?thesis
    proof (cases "i \<in> set order")
      case True
      then show ?thesis using "2.IH"(1) [OF i True, of e] "2.prems" i by auto
    next
      case False
      have w: "walk apps (stack @ [i])" by (rule walk_snoc) (use "2.prems" in auto)
      show ?thesis
      proof (cases "visit_apps apps (stack @ [i]) order (app_deps apps i)")
        case (Inl e1)
        then show ?thesis using "2.IH"(2) [OF i False Inl w] "2.prems"(1) i False by auto
      next
        case (Inr o1)
        then show ?thesis using "2.IH"(3) [OF i False, of o1 e] "2.prems" i False by auto
      qed
    qed
  qed
qed simp

lemma walk_trancl:
  assumes "walk apps (x # ys @ [z])"
  shows "(z, x) \<in> (depends_rel apps)\<^sup>+"
  using assms
proof (induction ys arbitrary: x)
  case (Cons y ys)
  then have "(z, y) \<in> (depends_rel apps)\<^sup>+" by (simp add: walk_def)
  moreover have "(y, x) \<in> depends_rel apps" using Cons.prems by (simp add: walk_def depends_rel_def)
  ultimately show ?case by simp
qed (auto simp: walk_def depends_rel_def)

lemma cycle_not_acyclic: "app_cycle apps xs \<Longrightarrow> \<not> acyclic (depends_rel apps)"
proof -
  assume c: "app_cycle apps xs"
  then obtain x ys z where "xs = x # ys @ [z]"
    by (metis One_nat_def app_cycle_def append_butlast_last_id length_Cons list.exhaust list.size(3) not_less_eq_eq numeral_2_eq_2 le0)
  then have "(x, x) \<in> (depends_rel apps)\<^sup>+" using c walk_trancl by (auto simp: app_cycle_def)
  then show ?thesis by (auto simp: acyclic_def)
qed

text \<open>An order in which the dependencies come first rules out cycles.\<close>

lemma topo_acyclic:
  assumes "topo deps xs" and "distinct xs" and "\<forall>x. deps x \<noteq> [] \<longrightarrow> x \<in> set xs"
  shows "acyclic {(d, x). d \<in> set (deps x)}"
proof -
  define pos where "pos x = (THE i. i < length xs \<and> xs ! i = x)" for x
  have pos: "pos (xs ! i) = i" if "i < length xs" for i
    unfolding pos_def using that assms(2) by (intro the_equality) (auto simp: nth_eq_iff_index_eq)
  have "pos d < pos x" if d: "d \<in> set (deps x)" for d x
  proof -
    obtain j where j: "j < length xs" "xs ! j = x" using assms(3) d by (metis empty_iff in_set_conv_nth list.set(1))
    have "d \<in> set (take j xs)" using assms(1) d j by (auto simp: topo_def)
    then obtain i where i: "i < j" "xs ! i = d" using j(1) by (auto simp: in_set_conv_nth)
    then have "pos d = i" "pos x = j" using pos [of i] pos [of j] j by auto
    then show ?thesis using i by simp
  qed
  then have "{(d, x). d \<in> set (deps x)} \<subseteq> measure pos" by auto
  then show ?thesis using wf_acyclic wf_measure acyclic_subset by metis
qed

lemma app_of_Some: "distinct (map ha_id apps) \<Longrightarrow> app_of apps i = Some a \<longleftrightarrow> a \<in> set apps \<and> ha_id a = i"
  by (induction apps) (auto simp: app_of_def)

lemma app_of_Some': "distinct (map ha_id apps) \<Longrightarrow> Some a = app_of apps i \<longleftrightarrow> a \<in> set apps \<and> ha_id a = i"
  using app_of_Some by metis

lemma app_of_None: "app_of apps i = None \<longleftrightarrow> i \<notin> ha_id ` set apps"
  by (auto simp: app_of_def find_None_iff)

lemma app_deps_of: "distinct (map ha_id apps) \<Longrightarrow> a \<in> set apps \<Longrightarrow> app_deps apps (ha_id a) = ha_depends_on a"
  using app_of_Some [of apps "ha_id a" a] by (simp add: app_deps_def app_of_def)

lemma depends_rel_apps:
  assumes "distinct (map ha_id apps)"
  shows "depends_rel apps = {(d, x). \<exists>a \<in> set apps. ha_id a = x \<and> d \<in> set (ha_depends_on a)}"
proof -
  have "d \<in> set (app_deps apps x) \<longleftrightarrow> (\<exists>a \<in> set apps. ha_id a = x \<and> d \<in> set (ha_depends_on a))" for d x
  proof (cases "app_of apps x")
    case None
    then have "x \<notin> ha_id ` set apps" by (simp add: app_of_None)
    then show ?thesis using app_deps_unknown [of x apps] by auto
  next
    case (Some b)
    then have "\<forall>a \<in> set apps. ha_id a = x \<longrightarrow> a = b" using app_of_Some [OF assms] by (metis option.inject)
    then show ?thesis using Some app_of_Some [OF assms, of x b] by (auto simp: app_deps_def app_of_def)
  qed
  then show ?thesis by (simp add: depends_rel_def)
qed

lemma check_known_Inr: "check_known apps = Inr u \<longleftrightarrow> (\<forall>a \<in> set apps. set (ha_depends_on a) \<subseteq> ha_id ` set apps)"
proof -
  have "check_known apps = Inr u \<longleftrightarrow>
      List.find (\<lambda>(a, d). app_of apps d = None) (concat (map (\<lambda>a. map (\<lambda>d. (ha_id a, d)) (ha_depends_on a)) apps)) = None"
    by (auto simp: check_known_def split: option.splits)
  also have "\<dots> \<longleftrightarrow> (\<forall>a \<in> set apps. set (ha_depends_on a) \<subseteq> ha_id ` set apps)"
    unfolding find_None_iff app_of_None by (fastforce simp: image_iff)
  finally show ?thesis .
qed

lemma check_known_error: "check_known apps = Inl e \<Longrightarrow> \<exists>a d. e = UnknownDependency a d"
  by (auto simp: check_known_def split: option.splits)

lemma resolve_order_Inr:
  assumes r: "resolve_application_order apps = Inr ord" and d: "distinct (map ha_id apps)"
  shows "mset ord = mset apps \<and> (\<forall>i < length ord. set (ha_depends_on (ord ! i)) \<subseteq> ha_id ` set (take i ord)) \<and>
    acyclic (depends_rel apps)"
proof -
  obtain so where k: "\<forall>a \<in> set apps. set (ha_depends_on a) \<subseteq> ha_id ` set apps"
      and so: "visit_apps apps [] [] (map ha_id apps) = Inr so" and ord: "ord = map (\<lambda>i. the (app_of apps i)) so"
    using r by (auto simp: resolve_application_order_def check_known_Inr)
  have known: "set (app_deps apps x) \<subseteq> ha_id ` set apps" for x
    using k app_deps_of [OF d] app_deps_unknown [of x apps] by (metis empty_subsetI imageE list.set(1))
  have t: "topo (app_deps apps) so" "distinct so" "ha_id ` set apps \<subseteq> set so"
    using visit_apps_Inr [OF so] by auto
  have "set so = set (map ha_id apps)" using t(3) visit_apps_known [OF so, of "ha_id ` set apps"] known by auto
  then have names: "map ha_id ord = so" and ms: "mset ord = mset apps"
    unfolding ord using lookup_rearranged [of ha_id apps so "app_of apps"] d t(2) app_of_Some [OF d] by auto
  have "set (ha_depends_on (ord ! i)) \<subseteq> ha_id ` set (take i ord)" if i: "i < length ord" for i
  proof -
    have si: "so ! i = ha_id (ord ! i)" "i < length so" using names i by (metis nth_map length_map)+
    have "ord ! i \<in> set apps" using ms i nth_mem by (metis set_mset_mset)
    then have "app_deps apps (so ! i) = ha_depends_on (ord ! i)" using app_deps_of [OF d] si(1) by simp
    then have "set (ha_depends_on (ord ! i)) \<subseteq> set (take i so)" using t(1) si(2) unfolding topo_def by metis
    then show ?thesis by (simp add: names [symmetric] take_map)
  qed
  moreover have "acyclic (depends_rel apps)"
    unfolding depends_rel_def
    by (rule topo_acyclic [OF t(1,2)]) (use t(3) app_deps_unknown in blast)
  ultimately show ?thesis using ms by blast
qed

lemma resolve_order_Inl:
  assumes "resolve_application_order apps = Inl e" and "\<forall>a \<in> set apps. set (ha_depends_on a) \<subseteq> ha_id ` set apps"
  shows "\<exists>xs. e = ApplicationCycle xs \<and> app_cycle apps xs"
proof -
  have "check_known apps = Inr ()" using assms(2) by (simp add: check_known_Inr)
  then have "visit_apps apps [] [] (map ha_id apps) = Inl e"
    using assms(1) by (auto simp: resolve_application_order_def bindE_Inl_conv)
  then show ?thesis by (rule visit_apps_Inl) (auto simp: walk_def)
qed

subsection \<open>Grants name one provider\<close>

definition grant_target :: "'o hosted_app list \<Rightarrow> 'o hosted_app \<Rightarrow> string \<Rightarrow> 'o hosted_app \<times> 'o cell_spec \<Rightarrow> bool" where
  "grant_target apps caller g = (\<lambda>(d, t). d \<in> set apps \<and> ha_id d \<in> set (ha_depends_on caller) \<and>
     t \<in> set (set_cells (app_cells (ha_application d))) \<and>
     (case cut_at ''::'' g of None \<Rightarrow> g \<in> set (cs_provides t) | Some (i, p) \<Rightarrow> ha_id d = i \<and> p \<in> set (cs_provides t)))"

lemma direct_dependencies_set:
  assumes "distinct (map ha_id apps)"
  shows "set (direct_dependencies apps caller) = {a \<in> set apps. ha_id a \<in> set (ha_depends_on caller)}"
  using app_of_Some' [OF assms] by (auto simp: direct_dependencies_def split: option.splits)

lemma direct_dependencies_distinct:
  assumes d: "distinct (map ha_id apps)" and "distinct (ha_depends_on caller)"
  shows "distinct (direct_dependencies apps caller)"
proof -
  have "distinct (concat (map (\<lambda>d. case app_of apps d of None \<Rightarrow> [] | Some a \<Rightarrow> [a]) ds))" if "distinct ds" for ds
    using that
  proof (induction ds)
    case (Cons x ds)
    have "ha_id b \<in> set ds" if "b \<in> set (concat (map (\<lambda>d. case app_of apps d of None \<Rightarrow> [] | Some a \<Rightarrow> [a]) ds))" for b
      using that app_of_Some' [OF d] by (auto split: option.splits)
    then have other: "b \<notin> set (concat (map (\<lambda>d. case app_of apps d of None \<Rightarrow> [] | Some a \<Rightarrow> [a]) ds))" if "ha_id b = x" for b
      using that Cons.prems by auto
    show ?case
    proof (cases "app_of apps x")
      case (Some b)
      then have "ha_id b = x" using app_of_Some [OF d] by blast
      then show ?thesis using Cons other [of b] Some by (simp del: set_concat)
    qed (use Cons in auto)
  qed simp
  then show ?thesis using assms(2) by (simp add: direct_dependencies_def)
qed

lemma provider_cells_pairs:
  "length (concat (map (\<lambda>a. provider_cells a p) ds)) =
     length (concat (map (\<lambda>a. map (Pair a) (filter (\<lambda>c. p \<in> set (cs_provides c)) (set_cells (app_cells (ha_application a))))) ds))"
  by (induction ds) (auto simp: provider_cells_def)

lemma distinct_pairs:
  "distinct ds \<Longrightarrow> (\<And>a. a \<in> set ds \<Longrightarrow> distinct (f a)) \<Longrightarrow> distinct (concat (map (\<lambda>a. map (Pair a) (f a)) ds))"
  by (induction ds) (auto simp: distinct_map inj_on_def)

lemma singleton_iff_Ex1: "distinct ps \<Longrightarrow> length ps = 1 \<longleftrightarrow> (\<exists>!p. p \<in> set ps)"
  by (simp add: distinct_card [symmetric] card_1_singleton_iff Ex1_def set_eq_iff) blast

lemma grant_owners_iff:
  assumes d: "distinct (map ha_id apps)" and "distinct (ha_depends_on caller)"
    and cells: "\<And>a. a \<in> set apps \<Longrightarrow> distinct (set_cells (app_cells (ha_application a)))"
  shows "length (grant_owners apps caller g) = 1 \<longleftrightarrow> (\<exists>!dt. grant_target apps caller g dt)"
proof -
  define ds p where "ds = (case cut_at ''::'' g of None \<Rightarrow> direct_dependencies apps caller
      | Some (i, p) \<Rightarrow> filter (\<lambda>a. ha_id a = i) (direct_dependencies apps caller))"
    and "p = (case cut_at ''::'' g of None \<Rightarrow> g | Some (i, p) \<Rightarrow> p)"
  define ps where "ps = concat (map (\<lambda>a. map (Pair a) (filter (\<lambda>c. p \<in> set (cs_provides c)) (set_cells (app_cells (ha_application a))))) ds)"
  have "set ds \<subseteq> set apps" "distinct ds"
    using direct_dependencies_set [OF d] direct_dependencies_distinct [OF d assms(2)]
    by (auto simp: ds_def split: option.splits)
  then have "distinct ps" unfolding ps_def using cells by (intro distinct_pairs) auto
  moreover have "length (grant_owners apps caller g) = length ps"
    unfolding ps_def provider_cells_pairs [symmetric] by (auto simp: grant_owners_def ds_def p_def split: option.splits)
  moreover have "dt \<in> set ps \<longleftrightarrow> grant_target apps caller g dt" for dt
    using direct_dependencies_set [OF d]
    by (cases dt) (auto simp: ps_def ds_def p_def grant_target_def split: option.splits)
  ultimately show ?thesis using singleton_iff_Ex1 [of ps] by simp
qed

lemma check_grants_Inr: "check_grants apps caller cell gs = Inr u \<longleftrightarrow> (\<forall>g \<in> set gs. length (grant_owners apps caller g) = 1)"
  by (induction apps caller cell gs rule: check_grants.induct) (auto split: list.splits)

lemma validate_host_consumes_Inr:
  "validate_host_consumes apps = Inr u \<longleftrightarrow>
     (\<forall>caller \<in> set apps. \<forall>c \<in> set (set_cells (app_cells (ha_application caller))). \<forall>g \<in> set (cs_host_consumes c).
        length (grant_owners apps caller g) = 1)"
proof -
  let ?f = "\<lambda>caller. mapM (\<lambda>c. check_grants apps caller (cs_name c) (cs_host_consumes c)) (set_cells (app_cells (ha_application caller)))"
  have "(\<exists>ys. mapM ?f apps = Inr ys) \<longleftrightarrow> (\<forall>caller \<in> set apps. \<forall>c \<in> set (set_cells (app_cells (ha_application caller))).
      \<forall>g \<in> set (cs_host_consumes c). length (grant_owners apps caller g) = 1)"
    by (simp add: mapM_ok check_grants_Inr)
  then show ?thesis by (simp add: validate_host_consumes_def)
qed

subsection \<open>Accepted applications and routes\<close>

definition hosted_ok :: "('o, 'z) app_world_scheme \<Rightarrow> 'o hosted_app \<Rightarrow> bool" where
  "hosted_ok w a \<longleftrightarrow> host_identifier (ha_id a) \<and> host_identifier (ha_storage_namespace a) \<and>
     host_identifier (ha_event_namespace a) \<and> load_app w (ha_manifest_path a) = Inr (ha_application a) \<and>
     ha_instances a \<noteq> [] \<and> distinct (map in_alias (ha_instances a)) \<and>
     (\<forall>i \<in> set (ha_instances a). host_identifier (in_alias i)) \<and> distinct (ha_depends_on a)"

definition hosts_apart :: "'o hosted_app list \<Rightarrow> bool" where
  "hosts_apart apps \<longleftrightarrow> distinct (map ha_id apps) \<and> distinct (map ha_storage_namespace apps) \<and>
     distinct (map ha_event_namespace apps)"

lemma alias_loop_ok:
  "alias_loop index i aliases seen ks = Inr ins \<Longrightarrow>
     map in_ordinal ins = ks \<and> distinct (map in_alias ins) \<and> in_alias ` set ins \<inter> seen = {} \<and>
     (\<forall>x \<in> set ins. host_identifier (in_alias x))"
proof (induction index i aliases seen ks arbitrary: ins rule: alias_loop.induct)
  case (2 index i aliases seen k ks)
  define a where "a = alias_at i aliases k"
  obtain rest where a: "host_identifier a" "a \<notin> seen" and rest: "alias_loop index i aliases (insert a seen) ks = Inr rest"
      and ins: "ins = \<lparr>in_ordinal = k, in_alias = a\<rparr> # rest"
    using "2.prems" by (auto simp: Let_def a_def split: if_splits)
  have "map in_ordinal rest = ks \<and> distinct (map in_alias rest) \<and> in_alias ` set rest \<inter> insert a seen = {} \<and>
      (\<forall>x \<in> set rest. host_identifier (in_alias x))"
    by (rule "2.IH") (use a rest in \<open>auto simp: a_def\<close>)
  then show ?case using a ins by auto
qed simp

lemma instances_ok:
  assumes "normalize_application_instances index i n aliases = Inr ins"
  shows "ins \<noteq> [] \<and> distinct (map in_alias ins) \<and> (\<forall>x \<in> set ins. host_identifier (in_alias x))"
proof -
  define m where "m = (if n = 0 then 1 else n)"
  have "1 \<le> m" and l: "alias_loop index i aliases {} [1..<Suc (nat m)] = Inr ins"
    using assms unfolding normalize_application_instances_def Let_def m_def [symmetric]
    by (auto simp del: upt_Suc split: if_splits)
  then have "map in_ordinal ins \<noteq> []" using alias_loop_ok [OF l] by simp
  then show ?thesis using alias_loop_ok [OF l] by auto
qed

lemma load_hosted_ok: "load_hosted_application w base index r = Inr a \<Longrightarrow> hosted_ok w a"
  by (auto simp: load_hosted_application_def hosted_ok_def normalize_namespace_def normalize_hosted_dependencies_def Let_def
      split: if_splits dest!: instances_ok)

lemma load_applications_ok:
  assumes "load_applications w base index acc rs = Inr apps" and "hosts_apart acc" and "\<forall>a \<in> set acc. hosted_ok w a"
  shows "hosts_apart apps \<and> (\<forall>a \<in> set apps. hosted_ok w a)"
  using assms
proof (induction rs arbitrary: index acc)
  case (Cons r rs)
  obtain a where a: "load_hosted_application w base index r = Inr a"
      "List.find (\<lambda>b. ha_id b = ha_id a) acc = None" "List.find (\<lambda>b. ha_storage_namespace b = ha_storage_namespace a) acc = None"
      "List.find (\<lambda>b. ha_event_namespace b = ha_event_namespace a) acc = None"
      "load_applications w base (Suc index) (acc @ [a]) rs = Inr apps"
    using Cons.prems(1) by (auto split: if_splits option.splits)
  have "hosts_apart (acc @ [a])" using a(2,3,4) Cons.prems(2) by (auto simp: hosts_apart_def find_None_iff)
  then show ?case using Cons.IH [OF a(5)] Cons.prems(3) load_hosted_ok [OF a(1)] by auto
qed simp

definition route_ok :: "'o hosted_app list \<Rightarrow> route_binding \<Rightarrow> bool" where
  "route_ok apps r \<longleftrightarrow> is_abs (rb_path r) \<and> \<not> url_special (rb_path r) \<and>
     (\<exists>segs. rb_path r = ''/'' @ join ''/'' segs \<and> list_all seg_ok segs \<and> ''..'' \<notin> set segs) \<and>
     (\<exists>a \<in> set apps. ha_id a = rb_application r \<and> rb_instance r \<in> in_alias ` set (ha_instances a))"

lemma normalize_route_path_ok:
  "normalize_route_path index v = Inr p \<Longrightarrow> is_abs p \<and> \<not> url_special p \<and> path_clean p = p"
  by (auto simp: normalize_route_path_def is_abs_def Let_def split: if_splits)

lemma has_instance_iff: "application_has_instance a x \<longleftrightarrow> x \<in> in_alias ` set (ha_instances a)"
  by (force simp: application_has_instance_def list_ex_iff)

lemma route_instance_ok: "route_instance index a v = Inr i \<Longrightarrow> i \<in> in_alias ` set (ha_instances a)"
  by (auto simp: route_instance_def has_instance_iff Let_def split: if_splits)

lemma routes_loop_ok:
  assumes "routes_loop apps index seen rs = Inr routes"
  shows "(\<forall>r \<in> set routes. route_ok apps r) \<and> distinct (map rb_path routes) \<and> rb_path ` set routes \<inter> seen = {}"
  using assms
proof (induction apps index seen rs arbitrary: routes rule: routes_loop.induct)
  case (2 apps index seen r rs)
  obtain p a inst rest where
      p: "normalize_route_path index (rr_path r) = Inr p" "p \<notin> seen" and a: "app_of apps (trim_space (rr_application r)) = Some a"
      and i: "route_instance index a (rr_instance r) = Inr inst" and rest: "routes_loop apps (Suc index) (insert p seen) rs = Inr rest"
      and routes: "routes = \<lparr>rb_path = p, rb_application = trim_space (rr_application r), rb_instance = inst\<rparr> # rest"
    using "2.prems" by (auto split: if_splits option.splits)
  have aa: "a \<in> set apps \<and> ha_id a = trim_space (rr_application r)" using a by (auto simp: app_of_def find_Some_iff)
  have "route_ok apps \<lparr>rb_path = p, rb_application = trim_space (rr_application r), rb_instance = inst\<rparr>"
    using normalize_route_path_ok [OF p(1)] clean_abs_iff [of p] aa route_instance_ok [OF i] by (auto simp: route_ok_def)
  then show ?case using "2.IH" [OF p(2) a rest] p(2) routes by auto
qed simp

lemma assemble_host_Inr:
  assumes "assemble_host w path r = Inr h"
  shows "hosts_apart (h_applications h) \<and> (\<forall>a \<in> set (h_applications h). hosted_ok w a) \<and>
    resolve_application_order (h_applications h) = Inr (h_order h) \<and> validate_host_consumes (h_applications h) = Inr () \<and>
    load_route_bindings (rho_routes r) (h_applications h) = Inr (h_routes h)"
proof -
  have l: "load_applications w (path_dir path) 0 [] (rho_applications r) = Inr (h_applications h)"
    and "resolve_application_order (h_applications h) = Inr (h_order h)" "validate_host_consumes (h_applications h) = Inr ()"
    "load_route_bindings (rho_routes r) (h_applications h) = Inr (h_routes h)"
    using assms by (auto simp: assemble_host_def Let_def)
  then show ?thesis using load_applications_ok [OF l] by (simp add: hosts_apart_def)
qed

lemma load_host_Inr: "load_host w path = Inr h \<Longrightarrow> \<exists>p r. assemble_host w p r = Inr h"
  by (auto simp: load_host_def split: option.splits sum.splits if_splits intro!: exI)

subsection \<open>Properties\<close>

text \<open>C21: The start order of the hosted applications exists exactly when every dependency is a hosted
  application and there is no dependency cycle. It is then a rearrangement of the applications in which each one
  comes after those it depends on; otherwise the reported cycle is a walk along dependencies back to its start.\<close>

theorem application_order_exact:
  assumes "distinct (map ha_id apps)"
  shows "((\<exists>ord. resolve_application_order apps = Inr ord) \<longleftrightarrow>
      (\<forall>a \<in> set apps. set (ha_depends_on a) \<subseteq> ha_id ` set apps) \<and>
      acyclic {(d, x). \<exists>a \<in> set apps. ha_id a = x \<and> d \<in> set (ha_depends_on a)}) \<and>
    (\<forall>ord. resolve_application_order apps = Inr ord \<longrightarrow> mset ord = mset apps \<and>
      (\<forall>i < length ord. set (ha_depends_on (ord ! i)) \<subseteq> ha_id ` set (take i ord))) \<and>
    (\<forall>xs. resolve_application_order apps = Inl (ApplicationCycle xs) \<longrightarrow> app_cycle apps xs)"
proof -
  let ?known = "\<forall>a \<in> set apps. set (ha_depends_on a) \<subseteq> ha_id ` set apps"
  have known: "?known" if "resolve_application_order apps = Inr ord" for ord
    using that by (auto simp: resolve_application_order_def check_known_Inr)
  have cycle: "app_cycle apps xs" if r: "resolve_application_order apps = Inl (ApplicationCycle xs)" for xs
  proof (rule ccontr)
    assume n: "\<not> app_cycle apps xs"
    then have "\<not> ?known" using resolve_order_Inl [OF r] by auto
    then obtain e where "check_known apps = Inl e" "resolve_application_order apps = Inl e"
      by (cases "check_known apps") (auto simp: check_known_Inr resolve_application_order_def)
    then show False using r check_known_error by force
  qed
  have "\<exists>ord. resolve_application_order apps = Inr ord" if "?known" and "acyclic (depends_rel apps)"
    using resolve_order_Inl [OF _ that(1)] cycle_not_acyclic that(2) by (cases "resolve_application_order apps") blast+
  then show ?thesis
    using known cycle resolve_order_Inr [OF _ assms] unfolding depends_rel_apps [OF assms, symmetric] by blast
qed

text \<open>C6: The applications of a loaded host are kept apart and connected only as declared. Identifiers, storage
  namespaces and event namespaces are not shared; every cross-application grant of a cell names exactly one
  cell of exactly one application its own application directly depends on; the routes are sorted, no path is
  bound twice, and each is a clean absolute path bound to an existing instance of a hosted application.\<close>

theorem host_isolated:
  assumes "load_host w path = Inr h"
  shows "distinct (map ha_id (h_applications h)) \<and> distinct (map ha_storage_namespace (h_applications h)) \<and>
    distinct (map ha_event_namespace (h_applications h)) \<and>
    (\<forall>caller \<in> set (h_applications h). \<forall>c \<in> set (set_cells (app_cells (ha_application caller))). \<forall>g \<in> set (cs_host_consumes c).
       \<exists>!dt. grant_target (h_applications h) caller g dt) \<and>
    sorted (map rb_path (h_routes h)) \<and> distinct (map rb_path (h_routes h)) \<and>
    (\<forall>r \<in> set (h_routes h). route_ok (h_applications h) r)"
proof -
  obtain p r where "assemble_host w p r = Inr h" using load_host_Inr [OF assms] by blast
  note a = assemble_host_Inr [OF this]
  have d: "distinct (map ha_id (h_applications h))" using a by (simp add: hosts_apart_def)
  have cells: "distinct (set_cells (app_cells (ha_application x)))" if "x \<in> set (h_applications h)" for x
    using a that load_app_bootable by (auto simp: hosted_ok_def bootable_def cell_names_def distinct_map)
  have "\<exists>!dt. grant_target (h_applications h) caller g dt"
    if c: "caller \<in> set (h_applications h)" "c \<in> set (set_cells (app_cells (ha_application caller)))" "g \<in> set (cs_host_consumes c)" for caller c g
  proof -
    have "distinct (ha_depends_on caller)" using a c(1) by (simp add: hosted_ok_def)
    then show ?thesis using grant_owners_iff [OF d _ cells, of caller g] a c by (auto simp: validate_host_consumes_Inr)
  qed
  moreover obtain routes where ro: "routes_loop (h_applications h) 0 {} (rho_routes r) = Inr routes" "h_routes h = sort_key rb_path routes"
    using a by (auto simp: load_route_bindings_def)
  have "distinct (map rb_path (h_routes h))" "\<forall>r \<in> set (h_routes h). route_ok (h_applications h) r"
    using routes_loop_ok [OF ro(1)] ro(2) by (auto simp: distinct_map)
  ultimately show ?thesis using a ro(2) by (simp add: hosts_apart_def)
qed

subsection \<open>Concrete runs\<close>

text \<open>A host with two applications, both loaded from the manifest of \<^const>\<open>demo_app_world\<close>; the second depends on the
  first.\<close>

definition demo_hosted_raw :: "string \<Rightarrow> string list \<Rightarrow> raw_hosted_app" where
  "demo_hosted_raw i deps = \<lparr>rh_id = i, rh_manifest = ''app.toml'', rh_instances = 0, rh_aliases = [],
     rh_storage_namespace = i, rh_event_namespace = i, rh_depends_on = deps\<rparr>"

definition demo_host :: raw_host where
  "demo_host = \<lparr>rho_schema = 0, rho_name = ''h'', rho_health_path = [],
     rho_applications = [demo_hosted_raw ''web'' [''core''], demo_hosted_raw ''core'' []],
     rho_routes = [\<lparr>rr_path = ''/z'', rr_application = ''web'', rr_instance = []\<rparr>,
                   \<lparr>rr_path = ''/a'', rr_application = ''core'', rr_instance = ''core-1''\<rparr>]\<rparr>"

definition demo_host_world :: "unit host_world" where
  "demo_host_world = \<lparr>w_cwd = Some ''/srv'',
     w_read = (\<lambda>p. if p \<in> {''/srv/h.toml'', ''/srv/app.toml'', ''/srv/a.toml'', ''/srv/m.lua''} then Inr ''x'' else Inl NotExist),
     w_env = Map.empty, w_decode_cell = (\<lambda>b. Some (demo_raw_cell ''a'' [''f''] [] [], [])), w_sha256 = (\<lambda>b. replicate 32 7),
     w_decode_app = (\<lambda>b. Some (demo_app, [])), w_marshal_identity = (\<lambda>i. Some ''wire''),
     w_decode_host = (\<lambda>b. Some (demo_host, []))\<rparr>"

definition demo_loaded :: "unit host" where
  "demo_loaded = projr (load_host demo_host_world ''h.toml'')"

text \<open>What the witnesses need of the loaded host, evaluated once.\<close>

definition host_summary :: "'o host \<Rightarrow> string list \<times> string \<times> route_binding list \<times> (string \<times> string \<times> string \<times> string \<times> string list \<times> app_instance list) list" where
  "host_summary h = (map ha_id (h_applications h), h_health_path h, h_routes h,
     map (\<lambda>a. (ha_id a, ha_manifest_path a, ha_storage_namespace a, ha_event_namespace a, ha_depends_on a, ha_instances a)) (h_order h))"

lemma demo_host_loads:
  "load_host demo_host_world ''h.toml'' = Inr demo_loaded"
  "host_summary demo_loaded = ([''web'', ''core''], [],
     [\<lparr>rb_path = ''/a'', rb_application = ''core'', rb_instance = ''core-1''\<rparr>, \<lparr>rb_path = ''/z'', rb_application = ''web'', rb_instance = ''web-1''\<rparr>],
     [(''core'', ''/srv/app.toml'', ''core'', ''core'', [], [\<lparr>in_ordinal = 1, in_alias = ''core-1''\<rparr>]),
      (''web'', ''/srv/app.toml'', ''web'', ''web'', [''core''], [\<lparr>in_ordinal = 1, in_alias = ''web-1''\<rparr>])])"
proof -
  have "map_sum (\<lambda>_. ()) host_summary (load_host demo_host_world ''h.toml'') = Inr ([''web'', ''core''], [],
     [\<lparr>rb_path = ''/a'', rb_application = ''core'', rb_instance = ''core-1''\<rparr>, \<lparr>rb_path = ''/z'', rb_application = ''web'', rb_instance = ''web-1''\<rparr>],
     [(''core'', ''/srv/app.toml'', ''core'', ''core'', [], [\<lparr>in_ordinal = 1, in_alias = ''core-1''\<rparr>]),
      (''web'', ''/srv/app.toml'', ''web'', ''web'', [''core''], [\<lparr>in_ordinal = 1, in_alias = ''web-1''\<rparr>])])" by code_simp
  then show "load_host demo_host_world ''h.toml'' = Inr demo_loaded"
    "host_summary demo_loaded = ([''web'', ''core''], [],
     [\<lparr>rb_path = ''/a'', rb_application = ''core'', rb_instance = ''core-1''\<rparr>, \<lparr>rb_path = ''/z'', rb_application = ''web'', rb_instance = ''web-1''\<rparr>],
     [(''core'', ''/srv/app.toml'', ''core'', ''core'', [], [\<lparr>in_ordinal = 1, in_alias = ''core-1''\<rparr>]),
      (''web'', ''/srv/app.toml'', ''web'', ''web'', [''core''], [\<lparr>in_ordinal = 1, in_alias = ''web-1''\<rparr>])])"
    by (cases "load_host demo_host_world ''h.toml''"; simp add: demo_loaded_def)+
qed

theorem host_isolated_witness:
  "\<exists>h. load_host demo_host_world ''h.toml'' = Inr h \<and> map rb_path (h_routes h) = [''/a'', ''/z''] \<and>
     map rb_instance (h_routes h) = [''core-1'', ''web-1''] \<and> distinct (map ha_storage_namespace (h_applications h))"
proof -
  define h where "h = demo_loaded"
  have l: "load_host demo_host_world ''h.toml'' = Inr h" unfolding h_def by (rule demo_host_loads)
  moreover have "map rb_path (h_routes h) = [''/a'', ''/z''] \<and> map rb_instance (h_routes h) = [''core-1'', ''web-1'']"
    using demo_host_loads(2) by (simp add: h_def host_summary_def)
  ultimately show ?thesis using host_isolated [OF l] by auto
qed

text \<open>Three applications and their order, and two that wait for each other.\<close>

definition demo_hosted_raw_app :: "string \<Rightarrow> string list \<Rightarrow> unit hosted_app" where
  "demo_hosted_raw_app i deps = \<lparr>ha_id = i, ha_manifest_path = [], ha_application = projr (load_app demo_app_world ''app.toml''),
     ha_instances = [], ha_storage_namespace = i, ha_event_namespace = i, ha_depends_on = deps\<rparr>"

theorem application_order_exact_witness:
  "\<exists>ord. resolve_application_order [demo_hosted_raw_app ''a'' [''b''], demo_hosted_raw_app ''b'' []] = Inr ord \<and>
     map ha_id ord = [''b'', ''a''] \<and>
     resolve_application_order [demo_hosted_raw_app ''a'' [''b''], demo_hosted_raw_app ''b'' [''a'']] =
       Inl (ApplicationCycle [''a'', ''b'', ''a'']) \<and>
     app_cycle [demo_hosted_raw_app ''a'' [''b''], demo_hosted_raw_app ''b'' [''a'']] [''a'', ''b'', ''a'']"
proof -
  let ?apps = "[demo_hosted_raw_app ''a'' [''b''], demo_hosted_raw_app ''b'' []]"
  let ?loop = "[demo_hosted_raw_app ''a'' [''b''], demo_hosted_raw_app ''b'' [''a'']]"
  have v: "resolve_application_order ?apps = Inr [demo_hosted_raw_app ''b'' [], demo_hosted_raw_app ''a'' [''b'']]"
    by (simp add: resolve_application_order_def check_known_def app_of_def app_deps_def demo_hosted_raw_app_def)
  have c: "resolve_application_order ?loop = Inl (ApplicationCycle [''a'', ''b'', ''a''])"
    by (simp add: resolve_application_order_def check_known_def app_of_def app_deps_def demo_hosted_raw_app_def)
  have "distinct (map ha_id ?loop)" by (simp add: demo_hosted_raw_app_def)
  then have "app_cycle ?loop [''a'', ''b'', ''a'']" using application_order_exact [of ?loop] c by blast
  then show ?thesis using v c by (intro exI [of _ "[demo_hosted_raw_app ''b'' [], demo_hosted_raw_app ''a'' [''b'']]"]) (simp add: demo_hosted_raw_app_def)
qed

end
