(* ===== verification/Ext_Scope.thy ===== *)
theory Ext_Scope
  imports Pulp_Prelude
begin

text \<open>
  Ownership of host resources: \<^verbatim>\<open>src/ext/scope.go\<close> (placements, routing identifiers, resource keys and the
  scoped factory) and \<^verbatim>\<open>src/ext/placement_grant.go\<close> (host-assigned grants). Go maps with comparable struct keys
  are maps; the constructor a factory calls is a parameter with a state of its own. Mutexes have no
  counterpart because each call is one step. Identifiers are lower-cased on ASCII.
\<close>

subsection \<open>Placements\<close>

record scope =
  application_id :: string
  application_instance_id :: string
  cell_id :: string
  cell_instance_id :: string

datatype scope_error = FieldRequired string | FieldNul string

definition nul :: char where
  "nul = CHR 0x00"

fun check_fields :: "(string \<times> string) list \<Rightarrow> (scope_error, unit) result" where
  "check_fields [] = Inr ()"
| "check_fields ((name, v) # fs) =
     (if trim_space v = [] then Inl (FieldRequired name)
      else if nul \<in> set v then Inl (FieldNul name)
      else check_fields fs)"

definition validate :: "scope \<Rightarrow> (scope_error, unit) result" where
  "validate s = check_fields
     [(''application ID'', application_id s), (''application instance ID'', application_instance_id s),
      (''cell ID'', cell_id s), (''cell instance ID'', cell_instance_id s)]"

definition new_scope :: "string \<Rightarrow> string \<Rightarrow> string \<Rightarrow> string \<Rightarrow> (scope_error, scope) result" where
  "new_scope a ai c ci =
     (let s = \<lparr>application_id = a, application_instance_id = ai, cell_id = c, cell_instance_id = ci\<rparr>
      in bindE (validate s) (\<lambda>_. Inr s))"

definition legacy_scope :: "string \<Rightarrow> scope" where
  "legacy_scope c =
     \<lparr>application_id = ''legacy'', application_instance_id = ''default'',
      cell_id = (if trim_space c = [] then ''default'' else c), cell_instance_id = ''default''\<rparr>"

text \<open>A cell is nil, one that only has a name, or one that also has a scope.\<close>

datatype cell = NilCell | NamedCell string | ScopedCell string scope

fun cell_name :: "cell \<Rightarrow> string" where
  "cell_name NilCell = []"
| "cell_name (NamedCell n) = n"
| "cell_name (ScopedCell n _) = n"

definition validated_scope_of :: "cell \<Rightarrow> scope option" where
  "validated_scope_of c =
     (case c of
        NilCell \<Rightarrow> None
      | NamedCell n \<Rightarrow> Some (legacy_scope n)
      | ScopedCell n s \<Rightarrow> if validate s = Inr () then Some s else None)"

definition scope_of :: "cell \<Rightarrow> scope" where
  "scope_of c =
     (case validated_scope_of c of
        Some s \<Rightarrow> s
      | None \<Rightarrow> if c = NilCell then legacy_scope ''default'' else legacy_scope (cell_name c))"

definition is_legacy :: "scope \<Rightarrow> bool" where
  "is_legacy s \<longleftrightarrow> application_id s = ''legacy'' \<and> application_instance_id s = ''default'' \<and> cell_instance_id s = ''default''"

text \<open>Each part with its length, separated by bars.\<close>

definition length_prefixed :: "string \<Rightarrow> string" where
  "length_prefixed p = show_nat (length p) @ '':'' @ p"

definition join_parts :: "string list \<Rightarrow> string" where
  "join_parts ps = join ''|'' (map length_prefixed ps)"

definition routing_id :: "scope \<Rightarrow> string" where
  "routing_id s = ''pulp-scope/v1/'' @
     join_parts [application_id s, application_instance_id s, cell_id s, cell_instance_id s]"

definition cell_id_of :: "cell \<Rightarrow> string" where
  "cell_id_of c =
     (case c of
        NilCell \<Rightarrow> []
      | NamedCell n \<Rightarrow> n
      | ScopedCell n _ \<Rightarrow> (let s = scope_of c in if is_legacy s then n else routing_id s))"

subsection \<open>Resource keys\<close>

record resource_key =
  rk_scope :: scope
  rk_type :: string
  rk_id :: string

datatype key_error = KeyScope scope_error | TypeRequired | IdRequired | KeyNul

definition scope_resource_key :: "scope \<Rightarrow> string \<Rightarrow> string \<Rightarrow> (key_error, resource_key) result" where
  "scope_resource_key s t i =
     bindE (map_err KeyScope (validate s)) (\<lambda>_.
       if trim_space t = [] then Inl TypeRequired
       else if trim_space i = [] then Inl IdRequired
       else if nul \<in> set t \<or> nul \<in> set i then Inl KeyNul
       else Inr \<lparr>rk_scope = s, rk_type = t, rk_id = i\<rparr>)"

definition resource_key_string :: "resource_key \<Rightarrow> string" where
  "resource_key_string k =
     join_parts [application_id (rk_scope k), application_instance_id (rk_scope k), cell_id (rk_scope k),
       cell_instance_id (rk_scope k), rk_type k, rk_id k]"

subsection \<open>The scoped factory\<close>

datatype factory_error = FactoryScope scope_error | InvalidKey | CreateFailed string

text \<open>The constructor has a state of its own, so that calls of it can be told apart.\<close>

type_synonym ('w, 'a) constructor = "'w \<Rightarrow> resource_key \<Rightarrow> 'w \<times> (string, 'a) result"

record ('w, 'a) factory =
  f_resources :: "(resource_key \<times> 'a) list"
  f_world :: 'w

definition get_or_create :: "('w, 'a) constructor \<Rightarrow> ('w, 'a) factory \<Rightarrow> resource_key
    \<Rightarrow> ('w, 'a) factory \<times> (factory_error, 'a \<times> bool) result" where
  "get_or_create new f k =
     (case validate (rk_scope k) of
        Inl e \<Rightarrow> (f, Inl (FactoryScope e))
      | Inr _ \<Rightarrow>
          if trim_space (rk_type k) = [] \<or> trim_space (rk_id k) = [] then (f, Inl InvalidKey)
          else (case map_of (f_resources f) k of
                  Some r \<Rightarrow> (f, Inr (r, False))
                | None \<Rightarrow>
                    (case new (f_world f) k of
                       (w, Inl e) \<Rightarrow> (f\<lparr>f_world := w\<rparr>, Inl (CreateFailed e))
                     | (w, Inr r) \<Rightarrow> (f\<lparr>f_resources := (k, r) # f_resources f, f_world := w\<rparr>, Inr (r, True)))))"

definition factory_count :: "('w, 'a) factory \<Rightarrow> nat" where
  "factory_count f = length (f_resources f)"

subsection \<open>Placement grants\<close>

record placement_grant =
  g_scope :: scope
  g_capability :: string
  g_resource :: string
  g_rights :: "string list"
  g_attributes :: "(string \<times> string) list"

datatype grant_error =
    GrantScope scope_error | CapabilityOrResource | InvalidRight | DuplicateRight string | NoRights
  | InvalidAttribute | DuplicateAttribute string | DuplicateGrant scope string

definition norm_name :: "string \<Rightarrow> string" where
  "norm_name s = trim_space (to_lower s)"

definition bad_name :: "string \<Rightarrow> bool" where
  "bad_name s \<longleftrightarrow> s = [] \<or> list_ex (\<lambda>c. c \<in> set [CHR '' '', CHR 0x09, CHR 0x0D, CHR 0x0A]) s"

fun norm_rights :: "string list \<Rightarrow> string list \<Rightarrow> (grant_error, string list) result" where
  "norm_rights [] acc = Inr acc"
| "norm_rights (r # rs) acc =
     (let right = norm_name r
      in if bad_name right then Inl InvalidRight
         else if right \<in> set acc then Inl (DuplicateRight right)
         else norm_rights rs (acc @ [right]))"

fun norm_attributes :: "(string \<times> string) list \<Rightarrow> (string \<times> string) list \<Rightarrow> (grant_error, (string \<times> string) list) result" where
  "norm_attributes [] acc = Inr acc"
| "norm_attributes ((k, v) # as) acc =
     (let k' = norm_name k
      in if bad_name k' then Inl InvalidAttribute
         else if k' \<in> fst ` set acc then Inl (DuplicateAttribute k')
         else norm_attributes as (acc @ [(k', v)]))"

definition normalize_grant :: "placement_grant \<Rightarrow> (grant_error, placement_grant) result" where
  "normalize_grant g =
     bindE (map_err GrantScope (validate (g_scope g))) (\<lambda>_.
     let cap = norm_name (g_capability g); res = trim_space (g_resource g)
     in if cap = [] \<or> res = [] then Inl CapabilityOrResource
        else bindE (norm_rights (g_rights g) []) (\<lambda>rights.
             if rights = [] then Inl NoRights
             else bindE (norm_attributes (g_attributes g) []) (\<lambda>attrs.
               Inr \<lparr>g_scope = g_scope g, g_capability = cap, g_resource = res, g_rights = sort rights, g_attributes = attrs\<rparr>)))"

type_synonym grants = "((scope \<times> string) \<times> placement_grant) list"

fun static_grants :: "placement_grant list \<Rightarrow> grants \<Rightarrow> (grant_error, grants) result" where
  "static_grants [] acc = Inr acc"
| "static_grants (g # gs) acc =
     bindE (normalize_grant g) (\<lambda>n.
       if (g_scope n, g_capability n) \<in> fst ` set acc then Inl (DuplicateGrant (g_scope n) (g_capability n))
       else static_grants gs (acc @ [((g_scope n, g_capability n), n)]))"

definition new_static_grants :: "placement_grant list \<Rightarrow> (grant_error, grants) result" where
  "new_static_grants gs = static_grants gs []"

definition resolve_grant :: "grants \<Rightarrow> scope \<Rightarrow> string \<Rightarrow> placement_grant option" where
  "resolve_grant gs s c = (if validate s \<noteq> Inr () then None else map_of gs (s, norm_name c))"

text \<open>\<^verbatim>\<open>sort.SearchStrings\<close>: binary search for the first position whose element is not smaller.\<close>

function search_from :: "string list \<Rightarrow> string \<Rightarrow> nat \<Rightarrow> nat \<Rightarrow> nat" where
  "search_from xs x i j =
     (if i < j then (let h = (i + j) div 2 in if xs ! h < x then search_from xs x (h + 1) j else search_from xs x i h)
      else i)"
  by auto
termination
  by (relation "measure (\<lambda>(xs, x, i, j). j - i)") auto

declare search_from.simps [simp del]

definition search_strings :: "string list \<Rightarrow> string \<Rightarrow> nat" where
  "search_strings xs x = search_from xs x 0 (length xs)"

definition allows :: "placement_grant \<Rightarrow> string \<Rightarrow> bool" where
  "allows g right =
     (let r = norm_name right; i = search_strings (g_rights g) r
      in i < length (g_rights g) \<and> g_rights g ! i = r)"

subsection \<open>Length-prefixed texts\<close>

lemma show_nat_colon: "CHR '':'' \<notin> set (show_nat n)"
  using show_nat_digits [of n] by (auto simp: list_all_iff is_digit_def)

lemma colon_split: "x \<notin> set v \<Longrightarrow> x \<notin> set w \<Longrightarrow> v @ x # a = w @ x # b \<longleftrightarrow> v = w \<and> a = b"
  by (auto simp: append_eq_append_conv2 Cons_eq_append_conv append_eq_Cons_conv)

lemma length_prefixed_inj: "length_prefixed p @ s = length_prefixed q @ t \<longleftrightarrow> p = q \<and> s = t"
proof
  assume "length_prefixed p @ s = length_prefixed q @ t"
  then have "show_nat (length p) = show_nat (length q)" "p @ s = q @ t"
    using colon_split [OF show_nat_colon show_nat_colon] by (auto simp: length_prefixed_def)
  then show "p = q \<and> s = t" using show_nat_inj by (auto simp: append_eq_append_conv)
qed auto

lemma join_parts_inj: "length ps = length qs \<Longrightarrow> join_parts ps = join_parts qs \<longleftrightarrow> ps = qs"
proof (induction ps qs rule: list_induct2)
  case (Cons p ps q qs)
  show ?case
  proof (cases "ps = []")
    case True
    then have "qs = []" using Cons.hyps by simp
    then show ?thesis using True length_prefixed_inj [of p "[]" q "[]"] by (simp add: join_parts_def)
  next
    case False
    then have "qs \<noteq> []" using Cons.hyps by auto
    then have "join_parts (q # qs) = length_prefixed q @ ''|'' @ join_parts qs" "join_parts (p # ps) = length_prefixed p @ ''|'' @ join_parts ps"
      using False by (cases ps; cases qs; simp add: join_parts_def)+
    then show ?thesis using Cons.IH length_prefixed_inj [of p "''|'' @ join_parts ps" q "''|'' @ join_parts qs"] by simp
  qed
qed simp

text \<open>Routing identifiers and the texts of resource keys are injective, whatever bytes the identifiers
  contain: two placements have the same routing identifier only if they are the same, and likewise for keys.\<close>

theorem routing_injective:
  "(routing_id s = routing_id t \<longleftrightarrow> s = t) \<and> (resource_key_string k = resource_key_string l \<longleftrightarrow> k = l)"
proof
  have scope_eq: "s = t \<longleftrightarrow> application_id s = application_id t \<and> application_instance_id s = application_instance_id t \<and>
      cell_id s = cell_id t \<and> cell_instance_id s = cell_instance_id t" for s t :: scope
    by (auto intro: scope.equality)
  show "routing_id s = routing_id t \<longleftrightarrow> s = t" by (simp add: routing_id_def join_parts_inj scope_eq)
  have "k = l \<longleftrightarrow> rk_scope k = rk_scope l \<and> rk_type k = rk_type l \<and> rk_id k = rk_id l"
    by (auto intro: resource_key.equality)
  then show "resource_key_string k = resource_key_string l \<longleftrightarrow> k = l"
    by (simp add: resource_key_string_def join_parts_inj scope_eq)
qed

subsection \<open>The factory\<close>

abbreviation (input) after_requests :: "('w, 'a) constructor \<Rightarrow> resource_key list \<Rightarrow> ('w, 'a) factory \<Rightarrow> ('w, 'a) factory" where
  "after_requests new ks f \<equiv> fold (\<lambda>k f. fst (get_or_create new f k)) ks f"

lemma get_or_create_cases:
  assumes "get_or_create new f k = (f', res)"
  obtains (refused) e where "f' = f" "res = Inl e" "\<And>g. get_or_create new g k = (g, Inl e)"
    | (retained) r where "map_of (f_resources f) k = Some r" "f' = f" "res = Inr (r, False)"
    | (failed) w e where "map_of (f_resources f) k = None" "new (f_world f) k = (w, Inl e)" "f' = f\<lparr>f_world := w\<rparr>" "res = Inl (CreateFailed e)"
    | (created) w r where "map_of (f_resources f) k = None" "new (f_world f) k = (w, Inr r)"
        "f' = f\<lparr>f_resources := (k, r) # f_resources f, f_world := w\<rparr>" "res = Inr (r, True)"
proof (cases "validate (rk_scope k)")
  case (Inl e)
  then show thesis using assms refused [of "FactoryScope e"] by (simp add: get_or_create_def)
next
  case v: (Inr u)
  show thesis
  proof (cases "trim_space (rk_type k) = [] \<or> trim_space (rk_id k) = []")
    case True
    then show thesis using assms v refused [of InvalidKey] by (simp add: get_or_create_def)
  next
    case False
    show thesis
    proof (cases "map_of (f_resources f) k")
      case None
      obtain w x where "new (f_world f) k = (w, x)" by force
      then show thesis
        using assms v False None failed [of w] created [of w] by (cases x) (simp_all add: get_or_create_def)
    next
      case (Some r)
      have "get_or_create new f k = (f, Inr (r, False))" using v False Some by (simp add: get_or_create_def)
      then have "f' = f" "res = Inr (r, False)" using assms by auto
      then show thesis by (rule retained [OF Some])
    qed
  qed
qed

lemma get_or_create_valid:
  "get_or_create new f k = (f', Inr x) \<Longrightarrow> validate (rk_scope k) = Inr () \<and> trim_space (rk_type k) \<noteq> [] \<and> trim_space (rk_id k) \<noteq> []"
  by (auto simp: get_or_create_def split: sum.splits if_splits)

lemma get_or_create_keeps:
  assumes "get_or_create new f k = (f', res)" and "map_of (f_resources f) j = Some r"
  shows "map_of (f_resources f') j = Some r"
  using assms(1) by (cases rule: get_or_create_cases) (use assms(2) in auto)

lemma requests_keep: "map_of (f_resources f) j = Some r \<Longrightarrow> map_of (f_resources (after_requests new ks f)) j = Some r"
proof (induction ks arbitrary: f)
  case (Cons k ks)
  have "map_of (f_resources (fst (get_or_create new f k))) j = Some r"
    using get_or_create_keeps [OF prod.collapse [symmetric] Cons.prems] .
  then show ?case using Cons.IH by simp
qed simp

text \<open>The factory keeps one resource per key. A key that was given a resource gets the same resource on
  every later request, whatever is requested in between, and asking for one key touches no other; a resource
  is added exactly when the constructor was called and succeeded.\<close>

theorem factory_retains:
  assumes "get_or_create new f k = (f', Inr (r, created))"
  shows "(\<forall>ks. get_or_create new (after_requests new ks f') k = (after_requests new ks f', Inr (r, False))) \<and>
    (\<forall>j. j \<noteq> k \<longrightarrow> map_of (f_resources f') j = map_of (f_resources f) j) \<and>
    factory_count f' = factory_count f + (if created then 1 else 0) \<and>
    (created \<longleftrightarrow> map_of (f_resources f) k = None)"
proof -
  note v = get_or_create_valid [OF assms]
  have facts: "map_of (f_resources f') k = Some r \<and> (\<forall>j. j \<noteq> k \<longrightarrow> map_of (f_resources f') j = map_of (f_resources f) j) \<and>
      factory_count f' = factory_count f + (if created then 1 else 0) \<and> (created \<longleftrightarrow> map_of (f_resources f) k = None)"
    using assms by (cases rule: get_or_create_cases) (auto simp: factory_count_def)
  then have "map_of (f_resources (after_requests new ks f')) k = Some r" for ks
    using requests_keep [of f' k r new ks] by simp
  then have "get_or_create new (after_requests new ks f') k = (after_requests new ks f', Inr (r, False))" for ks
    using v by (simp add: get_or_create_def)
  then show ?thesis using facts by blast
qed

subsection \<open>Grants\<close>

lemma norm_rights_acc: "norm_rights rs acc = Inr out \<Longrightarrow> distinct acc \<Longrightarrow> distinct out \<and> set out = set acc \<union> norm_name ` set rs"
  by (induction rs arbitrary: acc) (auto simp: Let_def split: if_splits)

lemma search_from_spec:
  assumes "sorted xs" and "i \<le> j" and "j \<le> length xs" and "\<forall>k < i. xs ! k < x" and "\<forall>k. j \<le> k \<and> k < length xs \<longrightarrow> x \<le> xs ! k"
  shows "search_from xs x i j \<le> length xs \<and> (\<forall>k < search_from xs x i j. xs ! k < x) \<and>
    (\<forall>k. search_from xs x i j \<le> k \<and> k < length xs \<longrightarrow> x \<le> xs ! k)"
  using assms
proof (induction xs x i j rule: search_from.induct)
  case (1 xs x i j)
  show ?case
  proof (cases "i < j")
    case False
    then have "i = j" using "1.prems"(2) by simp
    moreover have "search_from xs x i j = i" using False by (simp add: search_from.simps [of xs x i j])
    ultimately show ?thesis using "1.prems" by simp
  next
    case True
    define h where "h = (i + j) div 2"
    have h: "i \<le> h" "h < j" using True by (auto simp: h_def)
    have eq: "search_from xs x i j = (if xs ! h < x then search_from xs x (h + 1) j else search_from xs x i h)"
      using True by (subst search_from.simps) (simp add: h_def Let_def)
    show ?thesis
    proof (cases "xs ! h < x")
      case less: True
      have low: "xs ! k < x" if "k < h + 1" for k
        using le_less_trans [OF sorted_nth_mono [of xs k h] less] that h "1.prems"(1,3) by simp
      have "search_from xs x (h + 1) j \<le> length xs \<and> (\<forall>k < search_from xs x (h + 1) j. xs ! k < x) \<and>
          (\<forall>k. search_from xs x (h + 1) j \<le> k \<and> k < length xs \<longrightarrow> x \<le> xs ! k)"
        by (rule "1.IH"(1) [OF True h_def less "1.prems"(1) _ "1.prems"(3) _ "1.prems"(5)]) (use h low in auto)
      then show ?thesis unfolding eq using less by simp
    next
      case False
      have high: "x \<le> xs ! k" if "h \<le> k" "k < length xs" for k
        using order_trans [OF _ sorted_nth_mono [of xs h k]] that False "1.prems"(1) by simp
      have "search_from xs x i h \<le> length xs \<and> (\<forall>k < search_from xs x i h. xs ! k < x) \<and>
          (\<forall>k. search_from xs x i h \<le> k \<and> k < length xs \<longrightarrow> x \<le> xs ! k)"
        by (rule "1.IH"(2) [OF True h_def False "1.prems"(1) h(1) _ "1.prems"(4)]) (use h high "1.prems"(3) in auto)
      then show ?thesis unfolding eq using False by simp
    qed
  qed
qed

lemma search_strings_mem:
  assumes "sorted xs"
  shows "search_strings xs x < length xs \<and> xs ! search_strings xs x = x \<longleftrightarrow> x \<in> set xs"
proof
  have "\<forall>k. length xs \<le> k \<and> k < length xs \<longrightarrow> x \<le> xs ! k" by auto
  then have s: "search_strings xs x \<le> length xs" "\<forall>k < search_strings xs x. xs ! k < x"
      "\<forall>k. search_strings xs x \<le> k \<and> k < length xs \<longrightarrow> x \<le> xs ! k"
    using search_from_spec [OF assms, of 0 "length xs" x] unfolding search_strings_def by blast+
  assume "x \<in> set xs"
  then obtain k where k: "k < length xs" "xs ! k = x" by (auto simp: in_set_conv_nth)
  have le: "search_strings xs x \<le> k" using s(2) k by (metis less_irrefl not_le)
  then have "xs ! search_strings xs x \<le> x" using k assms sorted_nth_mono by metis
  moreover have "x \<le> xs ! search_strings xs x" using s(3) k le by simp
  ultimately show "search_strings xs x < length xs \<and> xs ! search_strings xs x = x" using le k by simp
qed (metis nth_mem)

lemma normalize_grant_Inr:
  assumes "normalize_grant g = Inr n"
  shows "validate (g_scope g) = Inr ()" and "g_scope n = g_scope g" and "g_capability n = norm_name (g_capability g)"
    and "sorted (g_rights n)" and "set (g_rights n) = norm_name ` set (g_rights g)"
  using assms norm_rights_acc [of "g_rights g" "[]"] by (auto simp: normalize_grant_def Let_def split: if_splits)

lemma static_grants_Inr:
  assumes "static_grants gs acc = Inr G" and "distinct (map fst acc)"
  shows "distinct (map fst G) \<and> set G = set acc \<union> {((g_scope g, norm_name (g_capability g)), n) | g n. g \<in> set gs \<and> normalize_grant g = Inr n} \<and>
    (\<forall>g \<in> set gs. \<exists>n. normalize_grant g = Inr n)"
  using assms
proof (induction gs arbitrary: acc)
  case (Cons g gs)
  then obtain n where n: "normalize_grant g = Inr n" "(g_scope n, g_capability n) \<notin> fst ` set acc"
      "static_grants gs (acc @ [((g_scope n, g_capability n), n)]) = Inr G"
    by (auto split: if_splits)
  note ih = Cons.IH [OF n(3)]
  have "distinct (map fst (acc @ [((g_scope n, g_capability n), n)]))" using n(2) Cons.prems(2) by simp
  note ih = ih [OF this]
  then show ?case using n(1) normalize_grant_Inr(2,3) [OF n(1)] by auto
qed simp

text \<open>C38: Grants are exact. A resolver built from a list of grants answers for a placement and capability with
  the grant of the list for exactly that placement and capability, and every grant of the list is answered; the
  right check, a binary search, permits a right exactly when the grant lists it, up to case and white space.\<close>

theorem grants_exact:
  assumes "new_static_grants gs = Inr G"
  shows "(resolve_grant G s c = Some n \<longleftrightarrow>
      (\<exists>g \<in> set gs. normalize_grant g = Inr n \<and> g_scope g = s \<and> norm_name (g_capability g) = norm_name c)) \<and>
    (\<forall>g \<in> set gs. \<exists>n. normalize_grant g = Inr n \<and>
      (\<forall>right. allows n right \<longleftrightarrow> norm_name right \<in> norm_name ` set (g_rights g)))"
proof
  have G: "distinct (map fst G)" "set G = {((g_scope g, norm_name (g_capability g)), n) | g n. g \<in> set gs \<and> normalize_grant g = Inr n}"
    "\<forall>g \<in> set gs. \<exists>n. normalize_grant g = Inr n"
    using static_grants_Inr [of gs "[]" G] assms by (auto simp: new_static_grants_def)
  have "map_of G (s, norm_name c) = Some n \<longleftrightarrow> ((s, norm_name c), n) \<in> set G" using G(1) by simp
  then show "resolve_grant G s c = Some n \<longleftrightarrow>
      (\<exists>g \<in> set gs. normalize_grant g = Inr n \<and> g_scope g = s \<and> norm_name (g_capability g) = norm_name c)"
    unfolding resolve_grant_def G(2) using normalize_grant_Inr(1) by auto
  show "\<forall>g \<in> set gs. \<exists>n. normalize_grant g = Inr n \<and> (\<forall>right. allows n right \<longleftrightarrow> norm_name right \<in> norm_name ` set (g_rights g))"
  proof
    fix g assume "g \<in> set gs"
    then obtain n where n: "normalize_grant g = Inr n" using G(3) by blast
    have "allows n right \<longleftrightarrow> norm_name right \<in> norm_name ` set (g_rights g)" for right
      using search_strings_mem [OF normalize_grant_Inr(4) [OF n]] normalize_grant_Inr(5) [OF n] by (simp add: allows_def Let_def)
    then show "\<exists>n. normalize_grant g = Inr n \<and> (\<forall>right. allows n right \<longleftrightarrow> norm_name right \<in> norm_name ` set (g_rights g))" using n by blast
  qed
qed

subsection \<open>Witnesses\<close>

definition demo_scope :: scope where
  "demo_scope = \<lparr>application_id = ''shop'', application_instance_id = ''1'', cell_id = ''web'', cell_instance_id = ''0''\<rparr>"

definition demo_key :: resource_key where
  "demo_key = \<lparr>rk_scope = demo_scope, rk_type = ''sqlite'', rk_id = ''main''\<rparr>"

definition counting :: "(nat, nat) constructor" where
  "counting w k = (Suc w, Inr w)"

theorem factory_retains_witness:
  "get_or_create counting (after_requests counting [demo_key] (\<lparr>f_resources = [(demo_key, 0)], f_world = 1\<rparr>)) demo_key =
     (after_requests counting [demo_key] (\<lparr>f_resources = [(demo_key, 0)], f_world = 1\<rparr>), Inr (0, False))"
proof -
  have "validate demo_scope = Inr ()" "trim_space ''sqlite'' \<noteq> []" "trim_space ''main'' \<noteq> []" by code_simp+
  then have "get_or_create counting \<lparr>f_resources = [], f_world = 0\<rparr> demo_key = (\<lparr>f_resources = [(demo_key, 0)], f_world = 1\<rparr>, Inr (0, True))"
    by (simp add: get_or_create_def counting_def demo_key_def)
  then show ?thesis using factory_retains [of counting _ demo_key] by blast
qed

text \<open>A constructor that fails is called again for the same key.\<close>

lemma factory_retries:
  "f_world (after_requests (\<lambda>w k. (Suc w, Inl ''busy'')) [demo_key, demo_key] (\<lparr>f_resources = ([] :: (resource_key \<times> nat) list), f_world = 0\<rparr>)) = 2"
proof -
  have "validate demo_scope = Inr ()" "trim_space ''sqlite'' \<noteq> []" "trim_space ''main'' \<noteq> []" by code_simp+
  then show ?thesis by (simp add: get_or_create_def demo_key_def)
qed

definition demo_grant :: placement_grant where
  "demo_grant = \<lparr>g_scope = demo_scope, g_capability = '' Storage'', g_resource = ''db'', g_rights = [''Write'', ''read''], g_attributes = []\<rparr>"

theorem grants_exact_witness: "\<exists>n. normalize_grant demo_grant = Inr n \<and> allows n ''READ '' \<and> \<not> allows n ''admin''"
proof -
  have "\<not> isl (new_static_grants [demo_grant])" by code_simp
  then obtain G where G: "new_static_grants [demo_grant] = Inr G" by (metis Inr_projr)
  have "norm_name ''READ '' \<in> norm_name ` set (g_rights demo_grant)" "norm_name ''admin'' \<notin> norm_name ` set (g_rights demo_grant)"
    by code_simp+
  moreover obtain n where "normalize_grant demo_grant = Inr n"
      "\<forall>right. allows n right \<longleftrightarrow> norm_name right \<in> norm_name ` set (g_rights demo_grant)"
    using grants_exact [OF G] by (simp only: list.set ball_simps) blast
  ultimately show ?thesis by blast
qed

end
