(* ===== verification/Multi_Host.thy ===== *)
theory Multi_Host
  imports Host_Manifest Ext_Scope
begin

text \<open>
  The supervisor of a host with several applications, \<^verbatim>\<open>src/run/multihost.go\<close>: what it starts for a loaded host manifest, the
  order in which it starts, the roll back of a failed start and the shutdown. Go maps are enumerated in an arbitrary order, which is
  the argument \<open>keys\<close>. The factory and the runtimes it makes are an interface of the code; their answers are the record
  \<open>runtime_env\<close>, and the calls they receive are a trace. Methods hold the mutex, so each is one step.
\<close>

subsection \<open>Applications of a host\<close>

record app_identity =
  ai_application :: string
  ai_instance :: string

definition identity_string :: "app_identity \<Rightarrow> string" where
  "identity_string i = ai_application i @ ''/'' @ ai_instance i"

datatype hosting_error = ApplicationIdRequired | InstanceIdRequired string | ManifestPathRequired app_identity
  | DuplicateHosted app_identity | UnknownHostedDependency string string | InconsistentInstances string | HostedCycle

definition identity_validate :: "app_identity \<Rightarrow> (hosting_error, unit) result" where
  "identity_validate i =
     (if trim_space (ai_application i) = [] then Inl ApplicationIdRequired
      else if trim_space (ai_instance i) = [] then Inl (InstanceIdRequired (ai_application i))
      else Inr ())"

record hosted_application =
  ho_identity :: app_identity
  ho_manifest_path :: string
  ho_storage_namespace :: string
  ho_event_namespace :: string
  ho_depends_on :: "string list"

definition hosted_of :: "'o hosted_app \<Rightarrow> app_instance \<Rightarrow> hosted_application" where
  "hosted_of a i =
     \<lparr>ho_identity = \<lparr>ai_application = ha_id a, ai_instance = in_alias i\<rparr>, ho_manifest_path = ha_manifest_path a,
      ho_storage_namespace = ha_storage_namespace a, ho_event_namespace = ha_event_namespace a, ho_depends_on = ha_depends_on a\<rparr>"

definition host_applications :: "'o host \<Rightarrow> hosted_application list" where
  "host_applications h = concat (map (\<lambda>a. map (hosted_of a) (ha_instances a)) (h_order h))"

datatype load_failure = LoadCancelled | LoadFailed host_error

definition load_host_applications :: "bool \<Rightarrow> ('o, 'z) host_world_scheme \<Rightarrow> string \<Rightarrow> (load_failure, hosted_application list) result" where
  "load_host_applications cancelled w path =
     (if cancelled then Inl LoadCancelled
      else bindE (map_err LoadFailed (load_host w path)) (\<lambda>h. Inr (host_applications h)))"

definition hosted_validate :: "hosted_application \<Rightarrow> (hosting_error, unit) result" where
  "hosted_validate a =
     bindE (identity_validate (ho_identity a)) (\<lambda>_.
     if trim_space (ho_manifest_path a) = [] then Inl (ManifestPathRequired (ho_identity a)) else Inr ())"

datatype cell_scope_error = ScopeIdentity hosting_error | ScopeField scope_error

definition new_cell_scope :: "hosted_application \<Rightarrow> string \<Rightarrow> string \<Rightarrow> (cell_scope_error, scope) result" where
  "new_cell_scope a c ci =
     bindE (map_err ScopeIdentity (identity_validate (ho_identity a))) (\<lambda>_.
     map_err ScopeField (new_scope (ai_application (ho_identity a)) (ai_instance (ho_identity a)) c ci))"

subsection \<open>The canonical order\<close>

definition same_string_set :: "string list \<Rightarrow> string list \<Rightarrow> bool" where
  "same_string_set ls rs \<longleftrightarrow> length ls = length rs \<and> list_all (\<lambda>r. r \<in> set ls) rs"

fun check_hosted :: "app_identity set \<Rightarrow> hosted_application list \<Rightarrow> (hosting_error, unit) result" where
  "check_hosted seen [] = Inr ()"
| "check_hosted seen (a # as) =
     bindE (hosted_validate a) (\<lambda>_.
     if ho_identity a \<in> seen then Inl (DuplicateHosted (ho_identity a)) else check_hosted (insert (ho_identity a) seen) as)"

definition by_application :: "hosted_application list \<Rightarrow> string \<Rightarrow> hosted_application list" where
  "by_application apps i = filter (\<lambda>a. ai_application (ho_identity a) = i) apps"

definition check_instances :: "(string \<Rightarrow> hosted_application list) \<Rightarrow> string \<Rightarrow> (hosting_error, unit) result" where
  "check_instances insts i =
     (case insts i of
        [] \<Rightarrow> Inr ()
      | a # rest \<Rightarrow>
          (case List.find (\<lambda>d. insts d = []) (ho_depends_on a) of
             Some d \<Rightarrow> Inl (UnknownHostedDependency i d)
           | None \<Rightarrow> if list_all (\<lambda>x. same_string_set (ho_depends_on a) (ho_depends_on x)) rest then Inr ()
                     else Inl (InconsistentInstances i)))"

text \<open>One round of the loop over \<^verbatim>\<open>dependents[applicationID]\<close>, and the loop over the applications that are ready. An
  application becomes ready once, so the number of applications bounds the rounds.\<close>

definition settle :: "string \<Rightarrow> string list \<Rightarrow> (string \<Rightarrow> string list) \<times> string list \<Rightarrow> (string \<Rightarrow> string list) \<times> string list" where
  "settle i ds st = fold (\<lambda>k (rem, ready).
     let s = removeAll i (rem k) in (rem(k := s), if s = [] then ready @ [k] else ready)) ds st"

fun order_loop :: "nat \<Rightarrow> (string \<Rightarrow> string list) \<Rightarrow> (string \<Rightarrow> string list) \<Rightarrow> string list \<Rightarrow> string list \<Rightarrow> string list" where
  "order_loop 0 deps_on rem ready ordered = ordered"
| "order_loop (Suc n) deps_on rem [] ordered = ordered"
| "order_loop (Suc n) deps_on rem (i # ready) ordered =
     (let (rem', ready') = settle i (deps_on i) (rem, ready)
      in order_loop n deps_on rem' (sort ready') (ordered @ [i]))"

definition first_deps :: "(string \<Rightarrow> hosted_application list) \<Rightarrow> string \<Rightarrow> string list" where
  "first_deps insts i = (case insts i of [] \<Rightarrow> [] | a # _ \<Rightarrow> remdups (ho_depends_on a))"

definition canonical_application_order :: "string list \<Rightarrow> (string \<Rightarrow> hosted_application list) \<Rightarrow> (hosting_error, string list) result" where
  "canonical_application_order keys insts =
     (let rem = first_deps insts;
          deps_on = (\<lambda>d. filter (\<lambda>k. d \<in> set (rem k)) keys);
          ready = sort (filter (\<lambda>k. rem k = []) keys);
          ordered = order_loop (length keys) deps_on rem ready []
      in if length ordered \<noteq> length keys then Inl HostedCycle else Inr ordered)"

definition canonical_hosted_applications :: "string list \<Rightarrow> hosted_application list \<Rightarrow> (hosting_error, hosted_application list) result" where
  "canonical_hosted_applications keys apps =
     bindE (check_hosted {} apps) (\<lambda>_.
     bindE (mapM (check_instances (by_application apps)) keys) (\<lambda>_.
     let insts = (\<lambda>i. sort_key (\<lambda>a. ai_instance (ho_identity a)) (by_application apps i))
     in bindE (canonical_application_order keys insts) (\<lambda>ordered.
        Inr (concat (map insts ordered)))))"

subsection \<open>The supervisor\<close>

datatype host_state = MultiHostNew | MultiHostRunning | MultiHostStopped

record 'r supervisor_host =
  mh_state :: host_state
  mh_runtimes :: "'r list"

record ('r, 'e) runtime_env =
  re_load :: "('e, hosted_application list) result"
  re_keys :: "string list"
  re_create :: "hosted_application \<Rightarrow> ('e, 'r option) result"
  re_identity :: "'r \<Rightarrow> app_identity"
  re_start :: "'r \<Rightarrow> 'e option"
  re_shutdown :: "'r \<Rightarrow> 'e option"

datatype 'r host_call = CallCreated 'r | CallStart 'r | CallShutdown 'r

datatype 'e host_failure = AlreadyRunning | AlreadyStopped | LoadApplications 'e | BadApplications hosting_error
  | CreateFailed 'e | NilRuntime app_identity | WrongIdentity app_identity app_identity "'e option" | StartFailed app_identity 'e

definition new_multi_host :: "'r supervisor_host" where
  "new_multi_host = \<lparr>mh_state = MultiHostNew, mh_runtimes = []\<rparr>"

text \<open>\<^verbatim>\<open>shutdownRuntimes\<close>: every runtime gets its call, the errors are collected.\<close>

definition shutdown_runtimes :: "('r \<Rightarrow> 'e option) \<Rightarrow> 'r list \<Rightarrow> 'e list \<times> 'r host_call list" where
  "shutdown_runtimes stop rs =
     (concat (map (\<lambda>r. case stop r of None \<Rightarrow> [] | Some e \<Rightarrow> [e]) (rev rs)), map CallShutdown (rev rs))"

definition start_failure :: "('r, 'e) runtime_env \<Rightarrow> 'e host_failure \<Rightarrow> 'r list \<Rightarrow> ('e host_failure \<times> 'e list) \<times> 'r host_call list" where
  "start_failure env cause started =
     (let (errs, tr) = shutdown_runtimes (re_shutdown env) started in ((cause, errs), tr))"

fun start_each :: "('r, 'e) runtime_env \<Rightarrow> 'r list \<Rightarrow> hosted_application list \<Rightarrow> ('e host_failure \<times> 'e list, 'r list) result \<times> 'r host_call list" where
  "start_each env started [] = (Inr started, [])"
| "start_each env started (a # as) =
     (case re_create env a of
        Inl e \<Rightarrow> apfst Inl (start_failure env (CreateFailed e) started)
      | Inr None \<Rightarrow> apfst Inl (start_failure env (NilRuntime (ho_identity a)) started)
      | Inr (Some r) \<Rightarrow>
          if re_identity env r \<noteq> ho_identity a
          then (let (f, tr) = start_failure env (WrongIdentity (ho_identity a) (re_identity env r) (re_shutdown env r)) started
                in (Inl f, CallCreated r # CallShutdown r # tr))
          else (case re_start env r of
                  Some e \<Rightarrow> (let (f, tr) = start_failure env (StartFailed (ho_identity a) e) (started @ [r])
                             in (Inl f, CallCreated r # CallStart r # tr))
                | None \<Rightarrow> (let (res, tr) = start_each env (started @ [r]) as
                           in (res, CallCreated r # CallStart r # tr))))"

definition host_start :: "('r, 'e) runtime_env \<Rightarrow> 'r supervisor_host \<Rightarrow> (('e host_failure \<times> 'e list) option \<times> 'r supervisor_host) \<times> 'r host_call list" where
  "host_start env s =
     (case mh_state s of
        MultiHostRunning \<Rightarrow> ((Some (AlreadyRunning, []), s), [])
      | MultiHostStopped \<Rightarrow> ((Some (AlreadyStopped, []), s), [])
      | MultiHostNew \<Rightarrow>
          (case re_load env of
             Inl e \<Rightarrow> ((Some (LoadApplications e, []), s), [])
           | Inr apps \<Rightarrow>
               (case canonical_hosted_applications (re_keys env) apps of
                  Inl e \<Rightarrow> ((Some (BadApplications e, []), s), [])
                | Inr ordered \<Rightarrow>
                    (case start_each env [] ordered of
                       (Inl f, tr) \<Rightarrow> ((Some f, s), tr)
                     | (Inr started, tr) \<Rightarrow> ((None, s\<lparr>mh_runtimes := started, mh_state := MultiHostRunning\<rparr>), tr)))))"

definition host_shutdown :: "('r, 'e) runtime_env \<Rightarrow> 'r supervisor_host \<Rightarrow> ('e list \<times> 'r supervisor_host) \<times> 'r host_call list" where
  "host_shutdown env s =
     (if mh_state s = MultiHostStopped \<or> mh_state s = MultiHostNew then (([], s), [])
      else let (errs, tr) = shutdown_runtimes (re_shutdown env) (mh_runtimes s)
           in ((errs, s\<lparr>mh_runtimes := [], mh_state := MultiHostStopped\<rparr>), tr))"

subsection \<open>The order against a reference\<close>

text \<open>The reference: start, again and again, the least application that has not started and whose dependencies have.\<close>

definition startable :: "string set \<Rightarrow> (string \<Rightarrow> string list) \<Rightarrow> string list \<Rightarrow> string set" where
  "startable K deps ord = {k \<in> K. k \<notin> set ord \<and> set (deps k) \<subseteq> set ord}"

fun reference_order :: "nat \<Rightarrow> string set \<Rightarrow> (string \<Rightarrow> string list) \<Rightarrow> string list \<Rightarrow> string list" where
  "reference_order 0 K deps ord = ord"
| "reference_order (Suc n) K deps ord =
     (if startable K deps ord = {} then ord else reference_order n K deps (ord @ [Min (startable K deps ord)]))"

lemma sort_distinct: "distinct xs \<Longrightarrow> sort xs = sorted_list_of_set (set xs)"
  by (simp add: sorted_list_of_set_sort_remdups distinct_remdups_id)

lemma settle_sets:
  assumes "distinct ds"
  shows "settle i ds (rem, ready) =
    (\<lambda>k. if k \<in> set ds then removeAll i (rem k) else rem k, ready @ filter (\<lambda>k. removeAll i (rem k) = []) ds)"
  using assms
proof (induction ds arbitrary: rem ready)
  case (Cons d ds)
  then have "filter (\<lambda>k. removeAll i ((rem(d := removeAll i (rem d))) k) = []) ds = filter (\<lambda>k. removeAll i (rem k) = []) ds"
    by (auto intro: filter_cong)
  with Cons show ?case by (auto simp: settle_def Let_def fun_eq_iff)
qed (simp add: settle_def)

lemma order_loop_reference:
  assumes K: "finite K" "set keys = K" "distinct keys" and deps_on: "\<And>d. deps_on d = filter (\<lambda>k. d \<in> set (deps k)) keys"
    and rem: "\<forall>k \<in> K. rem k = filter (\<lambda>d. d \<notin> set ord) (deps k)" and ready: "ready = sorted_list_of_set (startable K deps ord)"
    and closed: "\<forall>x \<in> set ord. set (deps x) \<subseteq> set ord"
  shows "order_loop n deps_on rem ready ord = reference_order n K deps ord"
  using rem ready closed
proof (induction n arbitrary: rem ready ord)
  case (Suc n)
  let ?S = "startable K deps ord"
  have fin: "finite (startable K deps xs)" for xs using K(1) by (simp add: startable_def)
  show ?case
  proof (cases "?S = {}")
    case False
    define i where "i = Min ?S"
    have i: "i \<in> ?S" unfolding i_def using False fin by (rule_tac Min_in)
    have rd: "ready = i # sorted_list_of_set (?S - {i})"
      using sorted_list_of_set_nonempty [OF fin False] Suc.prems(2) by (simp add: i_def)
    define ds where "ds = filter (\<lambda>k. i \<in> set (deps k)) keys"
    define rem' where "rem' k = (if k \<in> set ds then removeAll i (rem k) else rem k)" for k
    let ?new = "filter (\<lambda>k. removeAll i (rem k) = []) ds"
    have rem': "\<forall>k \<in> K. rem' k = filter (\<lambda>d. d \<notin> set (ord @ [i])) (deps k)"
      using Suc.prems(1) K(2) by (auto simp: rem'_def ds_def removeAll_filter_not_eq filter_empty_conv intro!: filter_cong)
    have new: "k \<in> set ?new \<longleftrightarrow> k \<in> K \<and> i \<in> set (deps k) \<and> set (deps k) \<subseteq> insert i (set ord)" for k
      using Suc.prems(1) K(2) by (auto simp: ds_def removeAll_filter_not_eq filter_empty_conv)
    have st: "set (sorted_list_of_set (?S - {i}) @ ?new) = startable K deps (ord @ [i])"
      using i new fin [of ord] Suc.prems(3) by (auto simp: startable_def)
    have "distinct (sorted_list_of_set (?S - {i}) @ ?new)" using K(3) i new fin [of ord] by (auto simp: ds_def startable_def)
    then have "sort (sorted_list_of_set (?S - {i}) @ ?new) = sorted_list_of_set (startable K deps (ord @ [i]))"
      unfolding st [symmetric] by (rule sort_distinct)
    then have "order_loop n deps_on rem' (sort (sorted_list_of_set (?S - {i}) @ ?new)) (ord @ [i]) = reference_order n K deps (ord @ [i])"
      using i Suc.prems(3) by (intro Suc.IH [OF rem']) (auto simp: startable_def)
    moreover have "settle i (deps_on i) (rem, sorted_list_of_set (?S - {i})) = (rem', sorted_list_of_set (?S - {i}) @ ?new)"
      using settle_sets [of ds] K(3) by (simp add: deps_on ds_def rem'_def fun_eq_iff)
    ultimately show ?thesis using False by (simp add: rd i_def [symmetric])
  qed (simp add: Suc.prems)
qed simp

lemma reference_order_ok:
  assumes "finite K" and "topo deps ord" and "distinct ord" and "set ord \<subseteq> K"
  shows "topo deps (reference_order n K deps ord) \<and> distinct (reference_order n K deps ord) \<and> set (reference_order n K deps ord) \<subseteq> K"
  using assms(2-)
proof (induction n arbitrary: ord)
  case (Suc n)
  show ?case
  proof (cases "startable K deps ord = {}")
    case False
    have "Min (startable K deps ord) \<in> startable K deps ord" using False assms(1) by (intro Min_in) (auto simp: startable_def)
    then show ?thesis using Suc False by (simp add: topo_snoc startable_def)
  qed (use Suc in simp)
qed simp

lemma reference_order_complete:
  assumes "finite K" and "acyclic {(d, x). d \<in> set (deps x)}" and "\<forall>k \<in> K. set (deps k) \<subseteq> K"
    and "distinct ord" and "set ord \<subseteq> K" and "card K \<le> n + length ord"
  shows "set (reference_order n K deps ord) = K"
  using assms(4-)
proof (induction n arbitrary: ord)
  case 0
  then have "card (set ord) = card K" using card_mono [OF assms(1) 0(2)] by (simp add: distinct_card)
  then show ?case using card_subset_eq [OF assms(1) 0(2)] by simp
next
  case (Suc n)
  show ?case
  proof (cases "startable K deps ord = {}")
    case True
    let ?r = "{(d, x). d \<in> set (deps x)} \<inter> K \<times> K"
    have "wf ?r" using assms(1,2) acyclic_subset finite_acyclic_wf by (metis finite_Int finite_SigmaI inf_le1)
    have "x \<notin> K - set ord" for x
    proof
      assume "x \<in> K - set ord"
      then obtain z where z: "z \<in> K - set ord" and min: "\<And>y. (y, z) \<in> ?r \<Longrightarrow> y \<notin> K - set ord" by (metis wfE_min [OF \<open>wf ?r\<close>])
      then have "set (deps z) \<subseteq> set ord" using assms(3) by blast
      then have "z \<in> startable K deps ord" using z by (simp add: startable_def)
      then show False using True by simp
    qed
    then show ?thesis using True Suc.prems(2) by auto
  next
    case False
    have "Min (startable K deps ord) \<in> startable K deps ord" using False assms(1) by (intro Min_in) (auto simp: startable_def)
    then show ?thesis using Suc False by (auto simp: startable_def)
  qed
qed

lemma canonical_order_reference:
  assumes "distinct keys"
  shows "canonical_application_order keys insts =
    (let ord = reference_order (card (set keys)) (set keys) (first_deps insts) []
     in if card (set ord) = card (set keys) then Inr ord else Inl HostedCycle)"
proof -
  let ?d = "first_deps insts"
  have "sort (filter (\<lambda>k. ?d k = []) keys) = sorted_list_of_set (startable (set keys) ?d [])"
    using assms by (simp add: sort_distinct startable_def)
  then have "order_loop (length keys) (\<lambda>d. filter (\<lambda>k. d \<in> set (?d k)) keys) ?d (sort (filter (\<lambda>k. ?d k = []) keys)) [] =
      reference_order (length keys) (set keys) ?d []"
    by (intro order_loop_reference [of _ keys]) (use assms in simp_all)
  moreover have "distinct (reference_order n (set keys) ?d [])" for n using reference_order_ok [of "set keys" ?d "[]" n] by simp
  ultimately show ?thesis using assms by (simp add: canonical_application_order_def Let_def distinct_card)
qed

subsection \<open>A loaded host passes the checks of the supervisor\<close>

lemma trim_seqs_keeps: "c \<in> set s \<Longrightarrow> \<forall>q \<in> set ws. c \<notin> set q \<Longrightarrow> c \<in> set (trim_seqs ws s)"
proof (induction ws s rule: trim_seqs.induct)
  case (1 ws s)
  show ?case
  proof (cases "List.find (\<lambda>w. w \<noteq> [] \<and> prefix w s) ws")
    case (Some w)
    then obtain t where t: "s = w @ t" and w: "w \<in> set ws" by (auto simp: find_Some_iff prefix_def)
    then have "c \<in> set (trim_seqs ws (drop (length w) s))" using "1.IH" [OF Some] "1.prems" by auto
    then show ?thesis using Some by (simp add: trim_seqs.simps [of ws s])
  qed (use "1.prems" in \<open>simp add: trim_seqs.simps [of ws s]\<close>)
qed

lemma trim_plain_nonempty:
  assumes "s \<noteq> []" and "plain_char (hd s)"
  shows "trim_space s \<noteq> []"
proof -
  have n: "\<forall>q \<in> set (map rev space_seqs). hd s \<notin> set q" using assms(2) by (auto simp: space_seqs_def plain_char_def)
  have "trim_left s = s" unfolding trim_left_def using assms by (intro trim_seqs_id no_seq_plain) simp
  moreover have "hd s \<in> set (trim_seqs (map rev space_seqs) (rev s))" using trim_seqs_keeps [OF _ n] assms(1) by simp
  ultimately show ?thesis by (auto simp: trim_space_def trim_right_def)
qed

lemma check_hosted_Inr:
  "check_hosted seen as = Inr u \<longleftrightarrow> (\<forall>a \<in> set as. hosted_validate a = Inr ()) \<and> distinct (map ho_identity as) \<and> ho_identity ` set as \<inter> seen = {}"
  by (induction seen as rule: check_hosted.induct) (auto split: if_splits)

lemma concat_position:
  "i < length (concat xss) \<Longrightarrow> \<exists>j < length xss. concat xss ! i \<in> set (xss ! j) \<and> set (concat (take j xss)) \<subseteq> set (take i (concat xss))"
proof (induction xss arbitrary: i)
  case (Cons xs xss)
  show ?case
  proof (cases "i < length xs")
    case True
    then show ?thesis by (intro exI [of _ 0]) (simp add: nth_append)
  next
    case False
    then have "i - length xs < length (concat xss)" using Cons.prems by simp
    then obtain j where "j < length xss" "concat xss ! (i - length xs) \<in> set (xss ! j)"
        "set (concat (take j xss)) \<subseteq> set (take (i - length xs) (concat xss))"
      using Cons.IH [of "i - length xs"] by blast
    then show ?thesis using False by (intro exI [of _ "Suc j"]) (auto simp: nth_append)
  qed
qed simp

lemma mset_by_id:
  assumes "distinct names" and "f ` set xs \<subseteq> set names"
  shows "mset (concat (map (\<lambda>i. filter (\<lambda>a. f a = i) xs) names)) = mset xs"
  using assms
proof (induction names arbitrary: xs)
  case (Cons n names)
  let ?ys = "filter (\<lambda>a. f a \<noteq> n) xs"
  have "filter (\<lambda>a. f a = i) ?ys = filter (\<lambda>a. f a = i) xs" if "i \<in> set names" for i
    using that Cons.prems(1) by (auto intro: filter_cong)
  then have "map (\<lambda>i. filter (\<lambda>a. f a = i) ?ys) names = map (\<lambda>i. filter (\<lambda>a. f a = i) xs) names" by simp
  moreover have "mset (concat (map (\<lambda>i. filter (\<lambda>a. f a = i) ?ys) names)) = mset ?ys"
    using Cons.prems by (intro Cons.IH) auto
  ultimately have "mset (concat (map (\<lambda>i. filter (\<lambda>a. f a = i) xs) names)) = mset ?ys" by (simp only:)
  then show ?case using multiset_partition [of "mset xs" "\<lambda>a. f a = n"] by simp
qed auto

lemma load_applications_each:
  "load_applications w base k acc rs = Inr apps \<Longrightarrow> a \<in> set apps \<Longrightarrow> a \<in> set acc \<or> (\<exists>k r. load_hosted_application w base k r = Inr a)"
  by (induction rs arbitrary: k acc) (force split: if_splits option.splits)+

lemma host_paths:
  assumes "load_host w path = Inr h" and "\<forall>d. w_cwd w = Some d \<longrightarrow> is_abs d" and "a \<in> set (h_applications h)"
  shows "is_abs (ha_manifest_path a)"
proof -
  obtain p r where "assemble_host w p r = Inr h" using load_host_Inr [OF assms(1)] by blast
  then have "load_applications w (path_dir p) 0 [] (rho_applications r) = Inr (h_applications h)"
    by (auto simp: assemble_host_def Let_def)
  then obtain k x where "load_hosted_application w (path_dir p) k x = Inr a" using load_applications_each assms(3) by fastforce
  then obtain q where "path_abs (w_cwd w) q = Some (ha_manifest_path a)"
    by (auto simp: load_hosted_application_def resolve_host_relative_path_def Let_def split: if_splits option.splits)
  then show ?thesis using path_abs_abs assms(2) by blast
qed

lemma host_identifier_trim:
  assumes "host_identifier s"
  shows "trim_space s \<noteq> []"
proof (rule trim_plain_nonempty)
  show "s \<noteq> []" using assms by auto
  show "plain_char (hd s)" using assms by (cases s) (auto simp: lower_alnum_def is_digit_def plain_char_def of_char_int)
qed

lemma abs_trim: "is_abs p \<Longrightarrow> trim_space p \<noteq> []"
  by (rule trim_plain_nonempty) (auto simp: is_abs_def prefix_def plain_char_def)

lemma distinct_identities:
  assumes "distinct (map ha_id os)" and "\<forall>a \<in> set os. distinct (map in_alias (ha_instances a))"
  shows "distinct (map ho_identity (concat (map (\<lambda>a. map (hosted_of a) (ha_instances a)) os)))"
  using assms
proof (induction os)
  case (Cons a os)
  have "distinct (map (ho_identity \<circ> hosted_of a) (ha_instances a))"
    using Cons.prems(2) by (auto simp: distinct_map inj_on_def hosted_of_def)
  moreover have "ho_identity x \<noteq> ho_identity y" if "x \<in> hosted_of a ` set (ha_instances a)" "b \<in> set os" "y \<in> hosted_of b ` set (ha_instances b)" for x y b
    using that Cons.prems(1) by (auto simp: hosted_of_def image_iff)
  ultimately show ?case using Cons.IH Cons.prems by (fastforce simp: image_iff)
qed simp

text \<open>What the loop of the supervisor sees of a loaded host.\<close>

definition hosts_wf :: "'o hosted_app list \<Rightarrow> 'o hosted_app list \<Rightarrow> bool" where
  "hosts_wf apps os \<longleftrightarrow> distinct (map ha_id apps) \<and> mset os = mset apps \<and> acyclic (depends_rel apps) \<and>
     (\<forall>a \<in> set apps. set (ha_depends_on a) \<subseteq> ha_id ` set apps) \<and>
     (\<forall>a \<in> set apps. host_identifier (ha_id a) \<and> is_abs (ha_manifest_path a) \<and> ha_instances a \<noteq> [] \<and>
        distinct (map in_alias (ha_instances a)) \<and> (\<forall>i \<in> set (ha_instances a). host_identifier (in_alias i)))"

lemma load_hosts_wf:
  assumes "load_host w path = Inr h" and "\<forall>d. w_cwd w = Some d \<longrightarrow> is_abs d"
  shows "hosts_wf (h_applications h) (h_order h)"
proof -
  obtain p r where "assemble_host w p r = Inr h" using load_host_Inr [OF assms(1)] by blast
  note a = assemble_host_Inr [OF this]
  have d: "distinct (map ha_id (h_applications h))" using a by (simp add: hosts_apart_def)
  have "resolve_application_order (h_applications h) = Inr (h_order h)" using a by simp
  note o = resolve_order_Inr [OF this d]
  have "\<forall>a \<in> set (h_applications h). set (ha_depends_on a) \<subseteq> ha_id ` set (h_applications h)"
    using a by (auto simp: resolve_application_order_def check_known_Inr)
  then show ?thesis using a o d host_paths [OF assms] by (simp add: hosts_wf_def hosted_ok_def)
qed

definition start_insts :: "hosted_application list \<Rightarrow> string \<Rightarrow> hosted_application list" where
  "start_insts L i = sort_key (\<lambda>a. ai_instance (ho_identity a)) (by_application L i)"

lemma set_by_application: "x \<in> set (by_application L i) \<longleftrightarrow> x \<in> set L \<and> ai_application (ho_identity x) = i"
  by (simp add: by_application_def)

lemma hosts_deps: "hosts_wf apps os \<Longrightarrow> a \<in> set apps \<Longrightarrow> app_deps apps (ha_id a) = ha_depends_on a"
  by (simp add: hosts_wf_def app_deps_of)

lemma hosts_deps_known: "hosts_wf apps os \<Longrightarrow> set (app_deps apps i) \<subseteq> ha_id ` set apps"
proof (cases "i \<in> ha_id ` set apps")
  case True
  assume h: "hosts_wf apps os"
  from True obtain a where a: "a \<in> set apps" "i = ha_id a" by auto
  then have "app_deps apps i = ha_depends_on a" using hosts_deps [OF h] by simp
  then show ?thesis using h a unfolding hosts_wf_def by metis
qed (simp add: app_deps_unknown)

lemma hosted_of_validate:
  "hosts_wf apps os \<Longrightarrow> a \<in> set apps \<Longrightarrow> i \<in> set (ha_instances a) \<Longrightarrow> hosted_validate (hosted_of a i) = Inr ()"
  by (simp add: hosted_of_def hosted_validate_def identity_validate_def hosts_wf_def host_identifier_trim abs_trim)

lemma hosts_members:
  assumes "hosts_wf apps os" and "L = concat (map (\<lambda>a. map (hosted_of a) (ha_instances a)) os)"
  shows "x \<in> set L \<Longrightarrow> \<exists>a \<in> set apps. ha_id a = ai_application (ho_identity x) \<and> ho_depends_on x = ha_depends_on a \<and> hosted_validate x = Inr ()"
    and "by_application L i \<noteq> [] \<longleftrightarrow> i \<in> ha_id ` set apps"
    and "distinct (map ho_identity L)"
proof -
  have os: "set os = set apps" using assms(1) by (metis hosts_wf_def set_mset_mset)
  have L: "x \<in> set L \<longleftrightarrow> (\<exists>a \<in> set apps. \<exists>i \<in> set (ha_instances a). x = hosted_of a i)" for x using assms(2) os by auto
  show "\<exists>a \<in> set apps. ha_id a = ai_application (ho_identity x) \<and> ho_depends_on x = ha_depends_on a \<and> hosted_validate x = Inr ()" if "x \<in> set L"
    using that hosted_of_validate [OF assms(1)] unfolding L by (force simp: hosted_of_def)
  have "by_application L i \<noteq> [] \<longleftrightarrow> (\<exists>x. x \<in> set L \<and> ai_application (ho_identity x) = i)" by (auto simp: by_application_def filter_empty_conv)
  also have "\<dots> \<longleftrightarrow> (\<exists>a \<in> set apps. \<exists>j \<in> set (ha_instances a). ha_id a = i)" unfolding L by (force simp: hosted_of_def)
  also have "\<dots> \<longleftrightarrow> (\<exists>a \<in> set apps. ha_instances a \<noteq> [] \<and> ha_id a = i)" by (metis list.set_intros(1) neq_Nil_conv set_empty empty_iff)
  also have "\<dots> \<longleftrightarrow> i \<in> ha_id ` set apps" using assms(1) by (auto simp: hosts_wf_def)
  finally show "by_application L i \<noteq> [] \<longleftrightarrow> i \<in> ha_id ` set apps" .
  have "distinct (map ha_id os)" using assms(1) by (metis hosts_wf_def mset_map mset_eq_imp_distinct_iff)
  then show "distinct (map ho_identity L)" unfolding assms(2) using assms(1) os by (intro distinct_identities) (auto simp: hosts_wf_def)
qed

lemma hosts_first_deps:
  assumes "hosts_wf apps os" and "L = concat (map (\<lambda>a. map (hosted_of a) (ha_instances a)) os)"
  shows "set (first_deps (start_insts L) i) = set (app_deps apps i)"
proof (cases "i \<in> ha_id ` set apps")
  case False
  then have "by_application L i = []" using hosts_members(2) [OF assms] by blast
  then show ?thesis using app_deps_unknown [OF False] by (simp add: first_deps_def start_insts_def)
next
  case True
  then have "by_application L i \<noteq> []" using hosts_members(2) [OF assms] by blast
  then obtain x xs where x: "start_insts L i = x # xs" by (metis start_insts_def set_empty set_sort neq_Nil_conv)
  then have "x \<in> set (by_application L i)" by (metis start_insts_def list.set_intros(1) set_sort)
  then obtain a where "a \<in> set apps" "ha_id a = i" "ho_depends_on x = ha_depends_on a"
    using hosts_members(1) [OF assms] by (auto simp: set_by_application)
  then show ?thesis using x hosts_deps [OF assms(1), of a] by (simp add: first_deps_def)
qed

lemma hosts_instances_ok:
  assumes "hosts_wf apps os" and "L = concat (map (\<lambda>a. map (hosted_of a) (ha_instances a)) os)"
  shows "check_instances (by_application L) i = Inr ()"
proof (cases "by_application L i")
  case (Cons x xs)
  have deps: "ho_depends_on y = app_deps apps i" if "y \<in> set (by_application L i)" for y
    using hosts_members(1) [OF assms, of y] that hosts_deps [OF assms(1)] by (metis set_by_application)
  have "by_application L d \<noteq> []" if "d \<in> set (ho_depends_on x)" for d
    using hosts_members(2) [OF assms, of d] that deps [of x] Cons hosts_deps_known [OF assms(1), of i] by auto
  then have "List.find (\<lambda>d. by_application L d = []) (ho_depends_on x) = None" by (simp add: find_None_iff)
  then show ?thesis using deps Cons by (auto simp: check_instances_def same_string_set_def list_all_iff)
qed (simp add: check_instances_def)

lemma hosts_start_order:
  assumes "hosts_wf apps os" and L: "L = concat (map (\<lambda>a. map (hosted_of a) (ha_instances a)) os)"
    and ord: "ord = reference_order (card (ha_id ` set apps)) (ha_id ` set apps) (first_deps (start_insts L)) []"
  shows "distinct keys \<Longrightarrow> set keys = ha_id ` set apps \<Longrightarrow> canonical_hosted_applications keys L = Inr (concat (map (start_insts L) ord))"
    and "topo (first_deps (start_insts L)) ord \<and> distinct ord \<and> set ord = ha_id ` set apps"
proof -
  let ?K = "ha_id ` set apps" and ?d = "first_deps (start_insts L)"
  note m = hosts_members [OF assms(1,2)] and d = hosts_first_deps [OF assms(1,2)]
  have "acyclic {(e, x). e \<in> set (?d x)}" using assms(1) d by (simp add: hosts_wf_def depends_rel_def)
  moreover have "set (?d k) \<subseteq> ?K" if "k \<in> ?K" for k
    using d [of k] hosts_deps_known [OF assms(1), of k] by simp
  ultimately have "set ord = ?K" unfolding ord by (intro reference_order_complete) simp_all
  moreover show t: "topo ?d ord \<and> distinct ord \<and> set ord = ?K"
    using reference_order_ok [of ?K ?d "[]" "card ?K"] calculation by (simp add: ord)
  ultimately show "canonical_hosted_applications keys L = Inr (concat (map (start_insts L) ord))" if "distinct keys" "set keys = ?K"
  proof -
    have "canonical_application_order keys (start_insts L) = Inr ord"
      using canonical_order_reference [OF that(1), of "start_insts L"] t that(2) by (simp add: Let_def ord [symmetric])
    moreover have "check_hosted {} L = Inr ()" unfolding check_hosted_Inr using m(1,3) by auto
    moreover have "\<exists>us. mapM (check_instances (by_application L)) keys = Inr us"
      using hosts_instances_ok [OF assms(1,2)] by (simp add: mapM_ok)
    ultimately show ?thesis by (auto simp: canonical_hosted_applications_def Let_def start_insts_def [abs_def])
  qed
qed

lemma hosts_start_mset:
  assumes "hosts_wf apps os" and L: "L = concat (map (\<lambda>a. map (hosted_of a) (ha_instances a)) os)"
    and ord: "ord = reference_order (card (ha_id ` set apps)) (ha_id ` set apps) (first_deps (start_insts L)) []"
  shows "mset (concat (map (start_insts L) ord)) = mset L"
proof -
  note o = hosts_start_order(2) [OF assms]
  have "(\<lambda>a. ai_application (ho_identity a)) ` set L \<subseteq> set ord" using o hosts_members(1) [OF assms(1,2)] by force
  then have "mset (concat (map (by_application L) ord)) = mset L"
    using mset_by_id [of ord "\<lambda>a. ai_application (ho_identity a)" L] o by (simp add: by_application_def [abs_def])
  then show ?thesis by (simp add: mset_concat o_def start_insts_def)
qed

subsection \<open>Runtimes are accounted for\<close>

definition created :: "'r host_call list \<Rightarrow> 'r list" where
  "created tr = concat (map (\<lambda>c. case c of CallCreated r \<Rightarrow> [r] | _ \<Rightarrow> []) tr)"

definition stopped :: "'r host_call list \<Rightarrow> 'r list" where
  "stopped tr = concat (map (\<lambda>c. case c of CallShutdown r \<Rightarrow> [r] | _ \<Rightarrow> []) tr)"

lemma calls_simps [simp]:
  "created [] = []" "created (CallCreated r # tr) = r # created tr" "created (CallStart r # tr) = created tr" "created (CallShutdown r # tr) = created tr"
  "created (tr @ tr') = created tr @ created tr'" "created (map CallShutdown rs) = []"
  "stopped [] = []" "stopped (CallCreated r # tr) = stopped tr" "stopped (CallStart r # tr) = stopped tr" "stopped (CallShutdown r # tr) = r # stopped tr"
  "stopped (tr @ tr') = stopped tr @ stopped tr'" "stopped (map CallShutdown rs) = rs"
  by (simp_all add: created_def stopped_def) (induction rs; simp)+

lemma start_failure_calls: "start_failure env cause started = (f, tr) \<Longrightarrow> tr = map CallShutdown (rev started)"
  by (auto simp: start_failure_def shutdown_runtimes_def)

lemma start_each_calls:
  assumes "start_each env started as = (res, tr)"
  shows "case res of
      Inr rs \<Rightarrow> rs = started @ created tr \<and> stopped tr = [] \<and> tr = concat (map (\<lambda>r. [CallCreated r, CallStart r]) (created tr)) \<and>
        map (re_identity env) (created tr) = map ho_identity as
    | Inl f \<Rightarrow> stopped tr = rev (started @ created tr)"
  using assms
proof (induction env started as arbitrary: res tr rule: start_each.induct)
  case (2 env started a as)
  consider r res' tr' where "re_create env a = Inr (Some r)" "re_identity env r = ho_identity a" "re_start env r = None"
      "start_each env (started @ [r]) as = (res', tr')" "res = res'" "tr = CallCreated r # CallStart r # tr'"
    | f where "res = Inl f" "stopped tr = rev (started @ created tr)"
    using "2.prems" by (auto dest!: start_failure_calls simp: Let_def apfst_def map_prod_def split: sum.splits option.splits if_splits prod.splits)
  then show ?case
  proof cases
    case 1
    from "2.IH" [OF 1(1) refl _ 1(3) 1(4)] 1 show ?thesis by (auto split: sum.splits)
  qed auto
qed auto

datatype ('r, 'e) host_action = OpStart "('r, 'e) runtime_env" | OpShutdown "('r, 'e) runtime_env"

fun host_op :: "('r, 'e) host_action \<Rightarrow> 'r supervisor_host \<Rightarrow> 'r supervisor_host \<times> 'r host_call list" where
  "host_op (OpStart env) s = apfst snd (host_start env s)"
| "host_op (OpShutdown env) s = apfst snd (host_shutdown env s)"

fun host_ops :: "('r, 'e) host_action list \<Rightarrow> 'r supervisor_host \<Rightarrow> 'r supervisor_host \<times> 'r host_call list" where
  "host_ops [] s = (s, [])"
| "host_ops (p # ps) s = (let (s', tr) = host_op p s; (s'', tr') = host_ops ps s' in (s'', tr @ tr'))"

definition host_ok :: "'r supervisor_host \<Rightarrow> bool" where
  "host_ok s \<longleftrightarrow> mh_state s = MultiHostRunning \<or> mh_runtimes s = []"

lemma host_op_accounts:
  assumes "host_ok s" and "host_op p s = (s', tr)"
  shows "host_ok s' \<and> mset (mh_runtimes s) + mset (created tr) = mset (stopped tr) + mset (mh_runtimes s')"
proof (cases p)
  case (OpStart env)
  then obtain err where h: "host_start env s = ((err, s'), tr)" using assms(2) by (cases "host_start env s") auto
  then show ?thesis using assms(1)
    by (auto simp: host_start_def host_ok_def dest!: start_each_calls split: host_state.splits sum.splits prod.splits)
next
  case (OpShutdown env)
  then show ?thesis using assms by (auto simp: host_shutdown_def host_ok_def shutdown_runtimes_def Let_def split: if_splits)
qed

lemma host_ops_accounts:
  assumes "host_ok s" and "host_ops ps s = (s', tr)"
  shows "host_ok s' \<and> mset (mh_runtimes s) + mset (created tr) = mset (stopped tr) + mset (mh_runtimes s')"
  using assms
proof (induction ps arbitrary: s s' tr)
  case (Cons p ps)
  obtain s1 t1 t2 where s1: "host_op p s = (s1, t1)" and s2: "host_ops ps s1 = (s', t2)" and tr: "tr = t1 @ t2"
    using Cons.prems(2) by (auto simp: Let_def split: prod.splits)
  note a = host_op_accounts [OF Cons.prems(1) s1]
  then have "mset (mh_runtimes s1) + mset (created t2) = mset (stopped t2) + mset (mh_runtimes s')" "host_ok s'"
    using Cons.IH [OF _ s2] by auto
  then show ?case using a by (simp add: tr) (metis add.assoc add.commute)
qed simp

subsection \<open>Properties\<close>

lemma start_block:
  assumes "topo deps names" and "\<And>x i. x \<in> set (insts i) \<Longrightarrow> set (ho_depends_on x) = set (deps i)"
    and i: "i < length (concat (map insts names))" and d: "d \<in> set (ho_depends_on (concat (map insts names) ! i))"
  shows "d \<in> set names \<and> set (insts d) \<subseteq> set (take i (concat (map insts names)))"
proof -
  obtain j where j: "j < length names" "concat (map insts names) ! i \<in> set (insts (names ! j))"
      "set (concat (take j (map insts names))) \<subseteq> set (take i (concat (map insts names)))"
    using concat_position [OF i] by auto
  then have "d \<in> set (take j names)" using assms(1,2) d by (auto simp: topo_def)
  then show ?thesis using j(3) by (auto simp: take_map dest: in_set_takeD)
qed

text \<open>C22: A host that loads passes every check of the supervisor, and the supervisor starts it in one order, whatever order Go enumerates its
  maps in. That order has every instance of the loaded host once, and each instance comes after all instances of every
  application it depends on, of which there is at least one.\<close>

theorem host_start_order:
  assumes "load_host w path = Inr h" and "\<forall>d. w_cwd w = Some d \<longrightarrow> is_abs d"
  shows "\<exists>ord. (\<forall>keys. distinct keys \<and> set keys = ha_id ` set (h_applications h) \<longrightarrow>
        canonical_hosted_applications keys (host_applications h) = Inr ord) \<and>
      mset ord = mset (host_applications h) \<and> distinct (map ho_identity ord) \<and>
      (\<forall>i < length ord. \<forall>d \<in> set (ho_depends_on (ord ! i)).
        {a \<in> set ord. ai_application (ho_identity a) = d} \<noteq> {} \<and> {a \<in> set ord. ai_application (ho_identity a) = d} \<subseteq> set (take i ord))"
proof -
  define L where "L = host_applications h"
  have wf: "hosts_wf (h_applications h) (h_order h)" by (rule load_hosts_wf [OF assms])
  have L: "L = concat (map (\<lambda>a. map (hosted_of a) (ha_instances a)) (h_order h))" by (simp add: L_def host_applications_def)
  define names where "names = reference_order (card (ha_id ` set (h_applications h))) (ha_id ` set (h_applications h)) (first_deps (start_insts L)) []"
  define ord where "ord = concat (map (start_insts L) names)"
  note o = hosts_start_order [OF wf L names_def] and m = hosts_members [OF wf L]
  have ms: "mset ord = mset L" unfolding ord_def by (rule hosts_start_mset [OF wf L names_def])
  have deps: "set (ho_depends_on x) = set (first_deps (start_insts L) i)" if "x \<in> set (start_insts L i)" for x i
  proof -
    have "x \<in> set L" "ai_application (ho_identity x) = i" using that by (auto simp: start_insts_def set_by_application)
    then obtain a where "a \<in> set (h_applications h)" "ha_id a = i" "ho_depends_on x = ha_depends_on a" using m(1) by blast
    then show ?thesis using hosts_deps [OF wf, of a] hosts_first_deps [OF wf L, of i] by simp
  qed
  have inst: "{a \<in> set ord. ai_application (ho_identity a) = d} = set (start_insts L d)" for d
    unfolding mset_eq_setD [OF ms] by (auto simp: start_insts_def set_by_application)
  have "start_insts L d \<noteq> [] \<and> set (start_insts L d) \<subseteq> set (take i ord)" if "i < length ord" "d \<in> set (ho_depends_on (ord ! i))" for i d
  proof -
    have b: "d \<in> set names \<and> set (start_insts L d) \<subseteq> set (take i ord)"
      unfolding ord_def by (rule start_block [of "first_deps (start_insts L)"]) (use o(2) deps that in \<open>simp_all add: ord_def\<close>)
    then have "by_application L d \<noteq> []" using o(2) m(2) by blast
    then have "start_insts L d \<noteq> []" by (metis start_insts_def set_empty set_sort)
    with b show ?thesis by blast
  qed
  moreover have "distinct (map ho_identity ord)" using m(3) ms by (metis mset_map mset_eq_imp_distinct_iff)
  ultimately show ?thesis
    using o(1) ms unfolding L_def [symmetric] ord_def [symmetric] by (intro exI [of _ ord]) (simp add: inst)
qed

lemma host_start_ok:
  "host_start env s = ((None, s'), t) \<Longrightarrow> mh_state s' = MultiHostRunning \<and> mh_runtimes s' = created t \<and> stopped t = [] \<and>
     t = concat (map (\<lambda>r. [CallCreated r, CallStart r]) (created t)) \<and>
     (\<exists>apps ord. re_load env = Inr apps \<and> canonical_hosted_applications (re_keys env) apps = Inr ord \<and>
        map (re_identity env) (created t) = map ho_identity ord)"
  by (auto simp: host_start_def split: host_state.splits sum.splits prod.splits dest!: start_each_calls)

lemma host_start_failed: "host_start env s = ((Some e, s'), t) \<Longrightarrow> s' = s \<and> stopped t = rev (created t)"
  by (auto simp: host_start_def split: host_state.splits sum.splits prod.splits dest!: start_each_calls)

lemma host_shutdown_calls:
  "host_ok s \<Longrightarrow> host_shutdown env s = ((errs, s'), t) \<Longrightarrow> mh_runtimes s' = [] \<and> created t = [] \<and> stopped t = rev (mh_runtimes s)"
  by (auto simp: host_shutdown_def host_ok_def shutdown_runtimes_def Let_def split: if_splits)


subsection \<open>Concrete hosts\<close>

lemma demo_host_facts:
  "map ha_id (h_applications demo_loaded) = [''web'', ''core'']"
  "host_applications demo_loaded =
     [\<lparr>ho_identity = \<lparr>ai_application = ''core'', ai_instance = ''core-1''\<rparr>, ho_manifest_path = ''/srv/app.toml'',
        ho_storage_namespace = ''core'', ho_event_namespace = ''core'', ho_depends_on = []\<rparr>,
      \<lparr>ho_identity = \<lparr>ai_application = ''web'', ai_instance = ''web-1''\<rparr>, ho_manifest_path = ''/srv/app.toml'',
        ho_storage_namespace = ''web'', ho_event_namespace = ''web'', ho_depends_on = [''core'']\<rparr>]"
  using demo_host_loads(2) by (auto simp: host_summary_def host_applications_def hosted_of_def)

theorem host_start_order_witness:
  "\<exists>h ord. load_host demo_host_world ''h.toml'' = Inr h \<and> canonical_hosted_applications [''web'', ''core''] (host_applications h) = Inr ord \<and>
     map (\<lambda>a. ai_instance (ho_identity a)) ord = [''core-1'', ''web-1''] \<and> mset ord = mset (host_applications h)"
proof -
  define h where "h = demo_loaded"
  have l: "load_host demo_host_world ''h.toml'' = Inr h" unfolding h_def by (rule demo_host_loads)
  have "\<forall>d. w_cwd demo_host_world = Some d \<longrightarrow> is_abs d" by (simp add: demo_host_world_def is_abs_def)
  then obtain ord where keys: "\<And>keys. distinct keys \<and> set keys = ha_id ` set (h_applications h) \<Longrightarrow> canonical_hosted_applications keys (host_applications h) = Inr ord"
      and ms: "mset ord = mset (host_applications h)"
    using host_start_order [OF l] by blast
  have "distinct [''web'', ''core''] \<and> set [''web'', ''core''] = ha_id ` set (h_applications h)"
    using arg_cong [OF demo_host_facts(1), of set] by (simp add: h_def)
  then have c: "canonical_hosted_applications [''web'', ''core''] (host_applications h) = Inr ord" by (rule keys)
  have "map_sum (\<lambda>_. ()) (map (\<lambda>a. ai_instance (ho_identity a))) (canonical_hosted_applications [''web'', ''core''] (host_applications h)) =
      Inr [''core-1'', ''web-1'']" unfolding h_def demo_host_facts(2) by code_simp
  then have v: "map (\<lambda>a. ai_instance (ho_identity a)) ord = [''core-1'', ''web-1'']" unfolding c by simp
  show ?thesis by (rule exI [of _ h], rule exI [of _ ord]) (intro conjI l c ms v)
qed

definition demo_hosted :: "string \<Rightarrow> string list \<Rightarrow> hosted_application" where
  "demo_hosted i deps = \<lparr>ho_identity = \<lparr>ai_application = i, ai_instance = ''one''\<rparr>, ho_manifest_path = ''/app.toml'',
     ho_storage_namespace = i, ho_event_namespace = i, ho_depends_on = deps\<rparr>"

text \<open>The second runtime does not start, and complains again when it is shut down.\<close>

definition demo_runtime_env :: "bool \<Rightarrow> (app_identity, string) runtime_env" where
  "demo_runtime_env broken = \<lparr>re_load = Inr [demo_hosted ''web'' [''core''], demo_hosted ''core'' []], re_keys = [''web'', ''core''],
     re_create = (\<lambda>a. Inr (Some (ho_identity a))), re_identity = (\<lambda>r. r),
     re_start = (\<lambda>r. if broken \<and> ai_application r = ''web'' then Some ''no'' else None),
     re_shutdown = (\<lambda>r. if ai_application r = ''web'' then Some ''again'' else None)\<rparr>"


text \<open>\<^verbatim>\<open>sameStringSet\<close> compares lengths and looks the right list up in the left one, so a repeated name hides a missing one: two instances
  of an application whose lists differ are taken for consistent, and the list that is used may lack a dependency.\<close>

lemma same_set_ignores_repeats:
  "same_string_set [''b'', ''c''] [''b'', ''b''] \<and> \<not> same_string_set [''b'', ''b''] [''b'', ''c'']"
  by (simp add: same_string_set_def)

lemma dependency_lost:
  "(let x = (demo_hosted ''a'' [''b'', ''c''])\<lparr>ho_identity := \<lparr>ai_application = ''a'', ai_instance = ''z''\<rparr>\<rparr>;
        apps = [x, demo_hosted ''a'' [''b'', ''b''], demo_hosted ''b'' [], demo_hosted ''c'' []]
    in map_sum (\<lambda>_. ()) (map (\<lambda>a. identity_string (ho_identity a))) (canonical_hosted_applications [''a'', ''b'', ''c''] apps) =
       Inr [''b/one'', ''a/one'', ''a/z'', ''c/one''])"
  by code_simp

end
