(* ===== verification/Admission.thy ===== *)
theory Admission
  imports Pulp_Prelude
begin

text \<open>
  Admission of calls to a running application. Two parts of the host admit calls, count those in flight and drain them before
  the target goes away: \<^verbatim>\<open>AtomicRuntimeRouter\<close> of \<^verbatim>\<open>src/run/live_application_runtime.go\<close>, which is modelled here, and the registry of
  cross-application calls. What they promise is the locale \<open>admission_gate\<close>: a gate that is shut admits nobody, so what is in flight only
  shrinks, and a drained gate stays drained. Every method holds the mutex, so it is one step; the channel that \<^verbatim>\<open>Quiesce\<close> waits
  for is a number, and closing it adds the number to a list.
\<close>

subsection \<open>The contract of a gate\<close>

datatype gate_event = Enter | Leave

locale admission_gate =
  fixes gate_ok :: "'g \<Rightarrow> bool"
    and accepting :: "'g \<Rightarrow> bool"
    and holding :: "'g \<Rightarrow> nat"
    and enter :: "'g \<Rightarrow> 'g option"
    and leave :: "'g \<Rightarrow> 'g"
    and shut :: "'g \<Rightarrow> 'g"
  assumes enter_accepting: "gate_ok g \<Longrightarrow> (\<exists>h. enter g = Some h) \<longleftrightarrow> accepting g"
    and enter_holding: "gate_ok g \<Longrightarrow> enter g = Some h \<Longrightarrow> gate_ok h \<and> holding h = Suc (holding g) \<and> accepting h"
    and leave_holding: "gate_ok g \<Longrightarrow> 0 < holding g \<Longrightarrow> gate_ok (leave g) \<and> Suc (holding (leave g)) = holding g \<and> accepting (leave g) = accepting g"
    and shut_gate: "gate_ok g \<Longrightarrow> gate_ok (shut g) \<and> \<not> accepting (shut g) \<and> holding (shut g) = holding g"
begin

text \<open>Callers that try to enter, and callers in flight that leave, in any order.\<close>

fun traffic :: "gate_event list \<Rightarrow> 'g \<Rightarrow> 'g" where
  "traffic [] g = g"
| "traffic (Enter # es) g = traffic es (case enter g of None \<Rightarrow> g | Some h \<Rightarrow> h)"
| "traffic (Leave # es) g = traffic es (if 0 < holding g then leave g else g)"

lemma shut_traffic: "gate_ok g \<Longrightarrow> \<not> accepting g \<Longrightarrow> \<not> accepting (traffic es g) \<and> holding (traffic es g) \<le> holding g"
proof (induction es g rule: traffic.induct)
  case (2 es g)
  then have "enter g = None" using enter_accepting [of g] by (cases "enter g") auto
  with 2 show ?case by simp
next
  case (3 es g)
  show ?case
  proof (cases "0 < holding g")
    case True
    with 3 leave_holding [of g] show ?thesis by fastforce
  qed (use 3 in simp)
qed simp

lemma drained_stays: "gate_ok g \<Longrightarrow> holding g = 0 \<Longrightarrow> holding (traffic es (shut g)) = 0"
  using shut_traffic [of "shut g" es] shut_gate [of g] by simp

lemma drains:
  assumes "gate_ok g"
  shows "holding (traffic (replicate (holding g) Leave) (shut g)) = 0"
proof -
  have "gate_ok h \<Longrightarrow> holding (traffic (replicate n Leave) h) = holding h - n" for n h
  proof (induction n arbitrary: h)
    case (Suc n)
    then show ?case using leave_holding [of h] by (cases "0 < holding h") auto
  qed simp
  then show ?thesis using shut_gate [OF assms] by simp
qed

end

subsection \<open>The router of a live application\<close>

record 'r router =
  ro_target :: "'r option"
  ro_accepting :: bool
  ro_inflight :: int
  ro_drained :: "nat option"
  ro_channels :: nat
  ro_closed :: "nat list"

definition new_router :: "'r option \<Rightarrow> 'r router" where
  "new_router target = \<lparr>ro_target = target, ro_accepting = True, ro_inflight = 0, ro_drained = None, ro_channels = 0, ro_closed = []\<rparr>"

definition router_acquire :: "'r router \<Rightarrow> ('r \<times> 'r router) option" where
  "router_acquire r =
     (if \<not> ro_accepting r then None
      else case ro_target r of
             None \<Rightarrow> None
           | Some t \<Rightarrow> Some (t, r\<lparr>ro_inflight := ro_inflight r + 1\<rparr>))"

definition router_release :: "'r router \<Rightarrow> 'r router" where
  "router_release r =
     (let s = r\<lparr>ro_inflight := ro_inflight r - 1\<rparr>
      in case ro_drained s of
           None \<Rightarrow> s
         | Some ch \<Rightarrow> if ro_inflight s = 0 then s\<lparr>ro_closed := ch # ro_closed s, ro_drained := None\<rparr> else s)"

text \<open>The first section of \<^verbatim>\<open>Quiesce\<close>: it returns at once, or waits for a channel.\<close>

definition router_quiesce :: "'r router \<Rightarrow> 'r router \<times> nat option" where
  "router_quiesce r =
     (let s = r\<lparr>ro_accepting := False\<rparr>
      in if ro_inflight s = 0 then (s, None)
         else case ro_drained s of
                Some ch \<Rightarrow> (s, Some ch)
              | None \<Rightarrow> (s\<lparr>ro_drained := Some (ro_channels s), ro_channels := Suc (ro_channels s)\<rparr>, Some (ro_channels s)))"

definition router_activate :: "'r \<Rightarrow> 'r router \<Rightarrow> 'r router" where
  "router_activate t r = r\<lparr>ro_target := Some t, ro_accepting := True\<rparr>"

definition router_current :: "'r router \<Rightarrow> 'r option" where
  "router_current r = ro_target r"

definition router_open :: "'r router \<Rightarrow> bool" where
  "router_open r \<longleftrightarrow> ro_accepting r \<and> ro_target r \<noteq> None"

definition router_ok :: "'r router \<Rightarrow> bool" where
  "router_ok r \<longleftrightarrow> 0 \<le> ro_inflight r \<and> (\<forall>ch. ro_drained r = Some ch \<longrightarrow> 0 < ro_inflight r \<and> ch < ro_channels r \<and> ch \<notin> set (ro_closed r)) \<and>
     (\<forall>ch \<in> set (ro_closed r). ch < ro_channels r)"

interpretation gr: admission_gate router_ok router_open "\<lambda>r. nat (ro_inflight r)" "\<lambda>r. map_option snd (router_acquire r)"
  router_release "\<lambda>r. fst (router_quiesce r)"
  by unfold_locales
    (auto simp: router_ok_def router_open_def router_acquire_def router_release_def router_quiesce_def Let_def less_Suc_eq split: option.splits if_splits)

end
