(* ===== verification/Host_Gateway.thy ===== *)
theory Host_Gateway
  imports Multi_Host Admission
begin

text \<open>
  The public front door of a host, \<^verbatim>\<open>src/run/host_gateway.go\<close>: it binds the routes of a host manifest to the running application
  instances, picks the route of a request, strips the matched prefix and holds a lease on the instance for as long as the
  request runs. The routers, which the gateway shares with live swaps, are a map from identities; the instances are a type of
  their own, and what they answer (identity, HTTP address) and what \<^verbatim>\<open>net/url\<close> makes of an address or of a path to escape are
  arguments. Of the request the proxy sends on, the scheme, the host, the path in both forms and the headers are modelled, with what
  \<^verbatim>\<open>ReverseProxy\<close> of \<^verbatim>\<open>net/http/httputil\<close> does to the headers around the gateway's own rewriting; the query, the body and the transport are not.
\<close>

subsection \<open>Data\<close>

record url =
  u_scheme :: string
  u_host :: string
  u_user :: "string option"
  u_path :: string
  u_escaped_path :: string
  u_raw_query :: string
  u_fragment :: string

record 'r runtime_view =
  rv_identity :: "'r \<Rightarrow> app_identity"
  rv_http_address :: "'r \<Rightarrow> string option"
  rv_parse_url :: "string \<Rightarrow> url option"
  rv_escape_path :: "string \<Rightarrow> string"

record gateway_route =
  gr_prefix :: string
  gr_identity :: app_identity

record gateway =
  gw_addr :: string
  gw_health_path :: string
  gw_routes :: "gateway_route list"
  gw_listener :: "string option"
  gw_started :: bool
  gw_stopped :: bool

type_synonym 'r routers = "app_identity \<rightharpoonup> 'r router"

datatype gateway_error = AddressRequired | NilRouter | RouterIdentity hosting_error | DuplicateTarget app_identity
  | RouterMismatch app_identity app_identity | NilBinding nat | PrefixNotAbsolute nat string | PrefixNotCanonical nat string
  | AmbiguousPrefix string app_identity app_identity | TargetUnavailable string app_identity | TargetUnready string app_identity
  | NoHttp string app_identity | BadUpstream string app_identity upstream_error | SupervisorNotRunning
and upstream_error = EmptyAddress | UnparsedAddress | BadOrigin string

subsection \<open>Prefixes and paths\<close>

definition canonical_gateway_prefix :: "nat \<Rightarrow> string \<Rightarrow> (gateway_error, string) result" where
  "canonical_gateway_prefix index v =
     (let p = trim_space v
      in if p = [] \<or> \<not> prefix ''/'' p \<or> url_special p then Inl (PrefixNotAbsolute index p)
         else if path_clean p \<noteq> p \<or> p \<noteq> ''/'' \<and> suffix ''/'' p then Inl (PrefixNotCanonical index p)
         else Inr p)"

definition parse_gateway_upstream :: "(string \<Rightarrow> url option) \<Rightarrow> string \<Rightarrow> (upstream_error, url) result" where
  "parse_gateway_upstream parse v =
     (let a = trim_space v
      in if a = [] then Inl EmptyAddress
         else let b = (if contains ''://'' a then a else ''http://'' @ a)
              in case parse b of
                   None \<Rightarrow> Inl UnparsedAddress
                 | Some u \<Rightarrow>
                     if u_scheme u \<noteq> ''http'' \<and> u_scheme u \<noteq> ''https'' \<or> u_host u = [] \<or> u_user u \<noteq> None \<or> u_raw_query u \<noteq> [] \<or> u_fragment u \<noteq> []
                     then Inl (BadOrigin b) else Inr u)"

definition strip_gateway_prefix :: "string \<Rightarrow> string \<Rightarrow> string" where
  "strip_gateway_prefix path pre =
     (if pre = ''/'' then (if path = [] then ''/'' else path)
      else let remainder = trim_prefix pre path in if remainder = [] then ''/'' else remainder)"

definition trim_suffix :: "string \<Rightarrow> string \<Rightarrow> string" where
  "trim_suffix s v = (if suffix s v then take (length v - length s) v else v)"

definition join_gateway_path :: "string \<Rightarrow> string \<Rightarrow> string" where
  "join_gateway_path base path =
     (if base = [] \<or> base = ''/'' then (if path = [] then ''/'' else path)
      else trim_suffix ''/'' base @ ''/'' @ trim_prefix ''/'' path)"

definition gateway_prefix_matches :: "string \<Rightarrow> string \<Rightarrow> bool" where
  "gateway_prefix_matches pre path \<longleftrightarrow>
     (if pre = ''/'' then prefix ''/'' path else path = pre \<or> prefix (pre @ ''/'') path)"

subsection \<open>Building a gateway\<close>

text \<open>The routers as Go enumerates its map, and the map they are copied to.\<close>

fun bind_routers :: "'r runtime_view \<Rightarrow> 'r routers \<Rightarrow> (app_identity \<times> 'r router option) list \<Rightarrow> (gateway_error, 'r routers) result" where
  "bind_routers v acc [] = Inr acc"
| "bind_routers v acc ((i, r) # rs) =
     (case r of
        None \<Rightarrow> Inl NilRouter
      | Some ro \<Rightarrow>
          (case router_current ro of
             None \<Rightarrow> Inl NilRouter
           | Some t \<Rightarrow>
               bindE (map_err RouterIdentity (identity_validate i)) (\<lambda>_.
               if acc i \<noteq> None then Inl (DuplicateTarget i)
               else if rv_identity v t \<noteq> i then Inl (RouterMismatch i (rv_identity v t))
               else bind_routers v (acc(i \<mapsto> ro)) rs)))"

text \<open>A route is checked under a lease that is given back at once.\<close>

definition check_target :: "'r runtime_view \<Rightarrow> string \<Rightarrow> app_identity \<Rightarrow> 'r router \<Rightarrow> (gateway_error, unit) result" where
  "check_target v p i ro =
     (case router_acquire ro of
        None \<Rightarrow> Inl (TargetUnready p i)
      | Some (t, _) \<Rightarrow>
          (case rv_http_address v t of
             None \<Rightarrow> Inl (NoHttp p i)
           | Some a \<Rightarrow> bindE (map_err (BadUpstream p i) (parse_gateway_upstream (rv_parse_url v) a)) (\<lambda>_. Inr ())))"

definition binding_identity :: "route_binding \<Rightarrow> app_identity" where
  "binding_identity b = \<lparr>ai_application = rb_application b, ai_instance = rb_instance b\<rparr>"

fun bind_routes :: "'r runtime_view \<Rightarrow> 'r routers \<Rightarrow> nat \<Rightarrow> (string \<rightharpoonup> app_identity) \<Rightarrow> route_binding option list
    \<Rightarrow> (gateway_error, gateway_route list) result" where
  "bind_routes v rs index seen [] = Inr []"
| "bind_routes v rs index seen (None # bs) = Inl (NilBinding index)"
| "bind_routes v rs index seen (Some b # bs) =
     bindE (canonical_gateway_prefix index (rb_path b)) (\<lambda>p.
     let i = binding_identity b
     in case seen p of
          Some j \<Rightarrow> Inl (AmbiguousPrefix p j i)
        | None \<Rightarrow>
            (case rs i of
               None \<Rightarrow> Inl (TargetUnavailable p i)
             | Some ro \<Rightarrow>
                 bindE (check_target v p i ro) (\<lambda>_.
                 bindE (bind_routes v rs (Suc index) (seen(p \<mapsto> i)) bs) (\<lambda>rest.
                 Inr (\<lparr>gr_prefix = p, gr_identity = i\<rparr> # rest)))))"

text \<open>Longer prefixes first, equal lengths in order: two stable sorts.\<close>

definition sort_routes :: "gateway_route list \<Rightarrow> gateway_route list" where
  "sort_routes rs = sort_key (\<lambda>r. - int (length (gr_prefix r))) (sort_key gr_prefix rs)"

definition new_gateway_with_routers :: "'r runtime_view \<Rightarrow> string \<Rightarrow> route_binding option list \<Rightarrow> (app_identity \<times> 'r router option) list
    \<Rightarrow> (gateway_error, gateway \<times> 'r routers) result" where
  "new_gateway_with_routers v addr bindings routers =
     (if trim_space addr = [] then Inl AddressRequired
      else bindE (bind_routers v Map.empty routers) (\<lambda>rs.
           bindE (bind_routes v rs 0 Map.empty bindings) (\<lambda>routes.
           Inr (\<lparr>gw_addr = trim_space addr, gw_health_path = [], gw_routes = sort_routes routes, gw_listener = None,
                 gw_started = False, gw_stopped = False\<rparr>, rs))))"

text \<open>\<^verbatim>\<open>NewHostGateway\<close> gives each runtime a router of its own; a later runtime with the same identity replaces the earlier one.\<close>

fun own_routers :: "'r runtime_view \<Rightarrow> 'r option list \<Rightarrow> (app_identity \<times> 'r router option) list \<Rightarrow> (app_identity \<times> 'r router option) list" where
  "own_routers v [] acc = acc"
| "own_routers v (None # ts) acc = own_routers v ts acc"
| "own_routers v (Some t # ts) acc = own_routers v ts (AList.update (rv_identity v t) (Some (new_router (Some t))) acc)"

definition new_host_gateway :: "'r runtime_view \<Rightarrow> string \<Rightarrow> route_binding option list \<Rightarrow> 'r option list \<Rightarrow> (gateway_error, gateway \<times> 'r routers) result" where
  "new_host_gateway v addr bindings ts = new_gateway_with_routers v addr bindings (own_routers v ts [])"

definition new_supervisor_gateway :: "'r runtime_view \<Rightarrow> string \<Rightarrow> 'o host \<Rightarrow> 'r supervisor_host \<Rightarrow> (gateway_error, gateway \<times> 'r routers) result" where
  "new_supervisor_gateway v addr h s =
     (if mh_state s \<noteq> MultiHostRunning then Inl SupervisorNotRunning
      else bindE (new_host_gateway v addr (map Some (h_routes h)) (map Some (mh_runtimes s))) (\<lambda>(g, rs).
           Inr (g\<lparr>gw_health_path := h_health_path h\<rparr>, rs)))"

subsection \<open>Serving\<close>

text \<open>A header is a map from canonical keys to values. Of a request: its method, its path as it is and percent-encoded, its headers, the host it
  names, the client's address when \<^verbatim>\<open>RemoteAddr\<close> has one, and whether it came over TLS.\<close>

type_synonym header = "string \<rightharpoonup> string list"

record request =
  rq_method :: string
  rq_path :: string
  rq_escaped_path :: string
  rq_headers :: header
  rq_host :: string
  rq_client :: "string option"
  rq_tls :: bool

record forwarded =
  fw_scheme :: string
  fw_host :: string
  fw_path :: string
  fw_raw_path :: string
  fw_headers :: header

datatype response = Healthy bool | Unavailable | BadGateway | NotFoundResponse | Proxied app_identity forwarded

definition header_values :: "header \<Rightarrow> string \<Rightarrow> string list" where
  "header_values h k = (case h k of None \<Rightarrow> [] | Some vs \<Rightarrow> vs)"

definition header_get :: "header \<Rightarrow> string \<Rightarrow> string" where
  "header_get h k = (case header_values h k of [] \<Rightarrow> [] | v # vs \<Rightarrow> v)"

definition header_set :: "string \<Rightarrow> string \<Rightarrow> header \<Rightarrow> header" where
  "header_set k v h = h(k \<mapsto> [v])"

definition header_del :: "string \<Rightarrow> header \<Rightarrow> header" where
  "header_del k h = h(k := None)"

text \<open>The canonical form of a key: upper case at the start and after a hyphen. A key with other characters than those of a token stays as it is.\<close>

definition token_char :: "char \<Rightarrow> bool" where
  "token_char c \<longleftrightarrow> is_digit c \<or> is_letter c \<or> c \<in> set ''!#$%&*+-.^_`|~'' \<or> c = CHR 0x27"

definition upper_char :: "char \<Rightarrow> char" where
  "upper_char c = (let n = of_char c :: int in if 97 \<le> n \<and> n \<le> 122 then char_of (n - 32) else c)"

fun canonical_from :: "bool \<Rightarrow> string \<Rightarrow> string" where
  "canonical_from up [] = []"
| "canonical_from up (c # s) = (if up then upper_char c else lower_char c) # canonical_from (c = CHR ''-'') s"

definition canonical_key :: "string \<Rightarrow> string" where
  "canonical_key s = (if list_all token_char s then canonical_from True s else s)"

definition trim_ows :: "string \<Rightarrow> string" where
  "trim_ows s = (let blank = (\<lambda>c. c = CHR '' '' \<or> c = CHR 0x09) in rev (dropWhile blank (rev (dropWhile blank s))))"

definition header_tokens :: "header \<Rightarrow> string \<Rightarrow> string list" where
  "header_tokens h k = concat (map (\<lambda>v. map trim_ows (split_on CHR '','' v)) (header_values h k))"

definition has_token :: "header \<Rightarrow> string \<Rightarrow> string \<Rightarrow> bool" where
  "has_token h k t \<longleftrightarrow> to_lower t \<in> set (map to_lower (header_tokens h k))"

subsubsection \<open>What the proxy does to the headers\<close>

definition hop_headers :: "string list" where
  "hop_headers = [''Connection'', ''Proxy-Connection'', ''Keep-Alive'', ''Proxy-Authenticate'', ''Proxy-Authorization'', ''Te'', ''Trailer'',
     ''Transfer-Encoding'', ''Upgrade'']"

definition listed_headers :: "header \<Rightarrow> string list" where
  "listed_headers h = map canonical_key (filter (\<lambda>s. s \<noteq> []) (header_tokens h ''Connection''))"

definition remove_hop_headers :: "header \<Rightarrow> header" where
  "remove_hop_headers h = fold header_del hop_headers (fold header_del (listed_headers h) h)"

definition upgrade_type :: "header \<Rightarrow> string" where
  "upgrade_type h = (if has_token h ''Connection'' ''Upgrade'' then header_get h ''Upgrade'' else [])"

definition printable :: "string \<Rightarrow> bool" where
  "printable s \<longleftrightarrow> list_all (\<lambda>c. let n = of_char c :: int in 32 \<le> n \<and> n \<le> 126) s"

definition forwarding_headers :: "string list" where
  "forwarding_headers = [''Forwarded'', ''X-Forwarded-For'', ''X-Forwarded-Host'', ''X-Forwarded-Proto'']"

text \<open>The headers of the outgoing request when \<^verbatim>\<open>Rewrite\<close> is called.\<close>

definition outgoing_headers :: "header \<Rightarrow> header" where
  "outgoing_headers h =
     (let a = remove_hop_headers h;
          b = (if has_token h ''Te'' ''trailers'' then header_set ''Te'' ''trailers'' a else a);
          c = (if upgrade_type h \<noteq> [] then header_set ''Upgrade'' (upgrade_type h) (header_set ''Connection'' ''Upgrade'' b) else b)
      in fold header_del forwarding_headers c)"

definition set_x_forwarded :: "request \<Rightarrow> header \<Rightarrow> header" where
  "set_x_forwarded q h =
     header_set ''X-Forwarded-Proto'' (if rq_tls q then ''https'' else ''http'')
       (header_set ''X-Forwarded-Host'' (rq_host q)
         (case rq_client q of
            None \<Rightarrow> header_del ''X-Forwarded-For'' h
          | Some ip \<Rightarrow> header_set ''X-Forwarded-For'' (join '', '' (header_values h ''X-Forwarded-For'' @ [ip])) h))"

text \<open>An absent \<^verbatim>\<open>User-Agent\<close> is sent empty, lest the transport fill in its own.\<close>

definition suppress_agent :: "header \<Rightarrow> header" where
  "suppress_agent h = (if h ''User-Agent'' = None then header_set ''User-Agent'' [] h else h)"

definition rewrite :: "(string \<Rightarrow> string) \<Rightarrow> gateway_route \<Rightarrow> url \<Rightarrow> request \<Rightarrow> forwarded" where
  "rewrite esc r u q =
     (let p = join_gateway_path (u_path u) (strip_gateway_prefix (rq_path q) (gr_prefix r));
          raw = join_gateway_path (u_escaped_path u) (strip_gateway_prefix (rq_escaped_path q) (esc (gr_prefix r)))
      in \<lparr>fw_scheme = u_scheme u, fw_host = u_host u, fw_path = p, fw_raw_path = (if raw = p then [] else raw),
          fw_headers = suppress_agent
            (header_set ''X-Forwarded-Prefix'' (gr_prefix r)
              (header_set ''X-Pulp-Application-Instance'' (ai_instance (gr_identity r))
                (header_set ''X-Pulp-Application'' (ai_application (gr_identity r))
                  (set_x_forwarded q (outgoing_headers (rq_headers q))))))\<rparr>)"

definition route_of :: "gateway \<Rightarrow> string \<Rightarrow> gateway_route option" where
  "route_of g path = List.find (\<lambda>r. gateway_prefix_matches (gr_prefix r) path) (gw_routes g)"

text \<open>\<^verbatim>\<open>ServeHTTP\<close> up to the proxied call, which keeps its lease, and the release when the call is over.\<close>

definition serve_begin :: "'r runtime_view \<Rightarrow> gateway \<Rightarrow> 'r routers \<Rightarrow> request \<Rightarrow> response \<times> 'r routers" where
  "serve_begin v g rs q =
     (if gw_health_path g \<noteq> [] \<and> rq_path q = gw_health_path g \<and> (rq_method q = ''GET'' \<or> rq_method q = ''HEAD'')
      then (Healthy (rq_method q \<noteq> ''HEAD''), rs)
      else case route_of g (rq_path q) of
             None \<Rightarrow> (NotFoundResponse, rs)
           | Some r \<Rightarrow>
               (case rs (gr_identity r) of
                  None \<Rightarrow> (Unavailable, rs)
                | Some ro \<Rightarrow>
                    (case router_acquire ro of
                       None \<Rightarrow> (Unavailable, rs)
                     | Some (t, ro') \<Rightarrow>
                         (case rv_http_address v t of
                            None \<Rightarrow> (Unavailable, rs(gr_identity r \<mapsto> router_release ro'))
                          | Some a \<Rightarrow>
                              (case parse_gateway_upstream (rv_parse_url v) a of
                                 Inl _ \<Rightarrow> (Unavailable, rs(gr_identity r \<mapsto> router_release ro'))
                               | Inr u \<Rightarrow>
                                   if printable (upgrade_type (rq_headers q))
                                   then (Proxied (gr_identity r) (rewrite (rv_escape_path v) r u q), rs(gr_identity r \<mapsto> ro'))
                                   else (BadGateway, rs(gr_identity r \<mapsto> router_release ro')))))))"

definition serve_end :: "response \<Rightarrow> 'r routers \<Rightarrow> 'r routers" where
  "serve_end resp rs =
     (case resp of
        Proxied i _ \<Rightarrow> (case rs i of None \<Rightarrow> rs | Some ro \<Rightarrow> rs(i \<mapsto> router_release ro))
      | _ \<Rightarrow> rs)"

subsection \<open>The listener\<close>

datatype listen_error = GatewayAlreadyStarted | GatewayStopped | ListenFailed

definition gateway_start :: "(string \<Rightarrow> string option) \<Rightarrow> gateway \<Rightarrow> (listen_error, unit) result \<times> gateway" where
  "gateway_start listen g =
     (if gw_started g then (Inl GatewayAlreadyStarted, g)
      else if gw_stopped g then (Inl GatewayStopped, g)
      else case listen (gw_addr g) of
             None \<Rightarrow> (Inl ListenFailed, g)
           | Some bound \<Rightarrow> (Inr (), g\<lparr>gw_listener := Some bound, gw_started := True\<rparr>))"

definition gateway_address :: "gateway \<Rightarrow> string" where
  "gateway_address g = (case gw_listener g of None \<Rightarrow> gw_addr g | Some a \<Rightarrow> a)"

text \<open>The flag says whether the server is told to shut down.\<close>

definition gateway_shutdown :: "gateway \<Rightarrow> bool \<times> gateway" where
  "gateway_shutdown g =
     (if gw_stopped g then (False, g)
      else if \<not> gw_started g then (False, g)
      else (True, g\<lparr>gw_stopped := True\<rparr>))"

subsection \<open>Matching goes by path segments\<close>

definition path_segs :: "string \<Rightarrow> string list" where
  "path_segs p = (if p = ''/'' then [] else split_on CHR ''/'' (tl p))"

definition under :: "string \<Rightarrow> string \<Rightarrow> bool" where
  "under pre path \<longleftrightarrow> prefix ''/'' path \<and> prefix (path_segs pre) (split_on CHR ''/'' (tl path))"

lemma split_on_join_append:
  "xs \<noteq> [] \<Longrightarrow> \<forall>x \<in> set xs. c \<notin> set x \<Longrightarrow> split_on c (join [c] xs @ c # s) = xs @ split_on c s"
  by (induction "[c]" xs rule: join.induct) (auto simp: split_on_append)

lemma join_append: "xs \<noteq> [] \<Longrightarrow> ys \<noteq> [] \<Longrightarrow> join s (xs @ ys) = join s xs @ s @ join s ys"
  by (induction s xs rule: join.induct) (auto simp: neq_Nil_conv)

lemma prefix_split_on:
  assumes "xs \<noteq> []" and "\<forall>x \<in> set xs. c \<notin> set x"
  shows "prefix xs (split_on c s) \<longleftrightarrow> s = join [c] xs \<or> prefix (join [c] xs @ [c]) s"
proof
  assume "prefix xs (split_on c s)"
  then obtain ys where ys: "split_on c s = xs @ ys" by (auto simp: prefix_def)
  then have "s = join [c] (xs @ ys)" using join_split_on [of c s] by simp
  then show "s = join [c] xs \<or> prefix (join [c] xs @ [c]) s" using assms(1) by (cases ys) (auto simp: join_append)
qed (use assms in \<open>auto simp: split_on_join split_on_join_append prefix_def\<close>)

lemma canonical_prefix_Inr:
  assumes "canonical_gateway_prefix index v = Inr p"
  shows "p = trim_space v \<and> (\<exists>segs. p = ''/'' @ join ''/'' segs \<and> list_all seg_ok segs \<and> path_segs p = segs)"
proof -
  have p: "p = trim_space v" "is_abs p" "path_clean p = p"
    using assms by (auto simp: canonical_gateway_prefix_def is_abs_def Let_def split: if_splits)
  then obtain segs where s: "p = ''/'' @ join ''/'' segs" "list_all seg_ok segs" using clean_abs_iff by blast
  have "path_segs p = segs"
  proof (cases "segs = []")
    case False
    then have "split_on CHR ''/'' (join ''/'' segs) = segs" using s(2) by (intro split_on_join) (auto simp: seg_ok_def list_all_iff)
    moreover have "join ''/'' segs \<noteq> []" using False s(2) by (cases "(''/'', segs)" rule: join.cases) (auto simp: seg_ok_def)
    ultimately show ?thesis by (simp add: path_segs_def s(1))
  qed (simp add: path_segs_def s(1))
  then show ?thesis using p(1) s by blast
qed

lemma matches_under:
  assumes "pre = ''/'' @ join ''/'' segs" and "list_all seg_ok segs" and "path_segs pre = segs"
  shows "gateway_prefix_matches pre path \<longleftrightarrow> under pre path"
proof (cases "segs = []")
  case True
  then show ?thesis using assms by (simp add: gateway_prefix_matches_def under_def path_segs_def)
next
  case False
  have ns: "\<forall>x \<in> set segs. CHR ''/'' \<notin> set x" using assms(2) by (auto simp: seg_ok_def list_all_iff)
  have root: "pre \<noteq> ''/''" using False assms(3) by (auto simp: path_segs_def)
  show ?thesis
  proof (cases "prefix ''/'' path")
    case True
    then obtain s where s: "path = CHR ''/'' # s" by (auto simp: prefix_def)
    show ?thesis using prefix_split_on [OF False ns, of s] root assms(1,3) by (auto simp: s gateway_prefix_matches_def under_def)
  qed (use root assms(1) in \<open>auto simp: gateway_prefix_matches_def under_def prefix_def\<close>)
qed

subsection \<open>The routes of a gateway\<close>

lemma bind_routes_Inr:
  assumes "bind_routes v rs index seen bs = Inr routes"
  shows "None \<notin> set bs \<and>
    map (\<lambda>r. (gr_prefix r, gr_identity r)) routes = map (\<lambda>b. (trim_space (rb_path (the b)), binding_identity (the b))) bs \<and>
    distinct (map gr_prefix routes) \<and> (\<forall>r \<in> set routes. seen (gr_prefix r) = None \<and>
      (\<exists>segs. gr_prefix r = ''/'' @ join ''/'' segs \<and> list_all seg_ok segs \<and> path_segs (gr_prefix r) = segs) \<and>
      (\<exists>ro. rs (gr_identity r) = Some ro \<and> check_target v (gr_prefix r) (gr_identity r) ro = Inr ()))"
  using assms
proof (induction v rs index seen bs arbitrary: routes rule: bind_routes.induct)
  case (3 v rs index seen b bs)
  obtain p ro rest where p: "canonical_gateway_prefix index (rb_path b) = Inr p" and n: "seen p = None" and ro: "rs (binding_identity b) = Some ro"
      and c: "check_target v p (binding_identity b) ro = Inr ()" and rest: "bind_routes v rs (Suc index) (seen(p \<mapsto> binding_identity b)) bs = Inr rest"
      and routes: "routes = \<lparr>gr_prefix = p, gr_identity = binding_identity b\<rparr> # rest"
    using "3.prems" by (auto simp: Let_def split: option.splits)
  note ih = "3.IH" [OF refl n ro rest]
  show ?case using ih canonical_prefix_Inr [OF p] n ro c by (auto simp: routes split: if_splits)
qed auto

lemma set_sort_routes [simp]: "set (sort_routes rs) = set rs"
  by (simp add: sort_routes_def)

lemma found_route: "List.find P (sort_routes rs) = Some r \<Longrightarrow> r \<in> set rs \<and> P r"
  by (metis find_Some_iff nth_mem set_sort_routes)

lemma find_longest:
  assumes "List.find P (sort_routes rs) = Some r" and "s \<in> set rs" and "P s"
  shows "length (gr_prefix s) \<le> length (gr_prefix r)"
proof -
  let ?xs = "sort_routes rs" and ?k = "\<lambda>r. - int (length (gr_prefix r))"
  obtain i where i: "i < length ?xs" "r = ?xs ! i" "\<forall>j < i. \<not> P (?xs ! j)" using assms(1) by (auto simp: find_Some_iff)
  have "s \<in> set ?xs" using assms(2) by simp
  then obtain k where k: "k < length ?xs" "?xs ! k = s" unfolding in_set_conv_nth by blast
  then have "i \<le> k" using i(3) assms(3) by (metis not_le)
  moreover have "sorted (map ?k ?xs)" unfolding sort_routes_def by (rule sorted_sort_key)
  ultimately have "map ?k ?xs ! i \<le> map ?k ?xs ! k" using k(1) by (intro sorted_nth_mono) simp_all
  then show ?thesis using i(1,2) k by simp
qed

lemma new_gateway_Inr:
  assumes "new_gateway_with_routers v addr bindings routers = Inr (g, rs)"
  shows "\<exists>routes. bind_routers v Map.empty routers = Inr rs \<and> bind_routes v rs 0 Map.empty bindings = Inr routes \<and> gw_routes g = sort_routes routes"
  using assms by (auto simp: new_gateway_with_routers_def split: if_splits)

lemma matches_prefix: "gateway_prefix_matches pre path \<Longrightarrow> prefix pre path"
  by (auto simp: gateway_prefix_matches_def prefix_def split: if_splits)

lemma strip_matched:
  assumes "gateway_prefix_matches pre path" and "pre \<noteq> ''/''"
  shows "path = pre @ (if path = pre then [] else strip_gateway_prefix path pre)" and "prefix ''/'' (strip_gateway_prefix path pre)"
  using assms by (auto simp: gateway_prefix_matches_def strip_gateway_prefix_def trim_prefix_def Let_def prefix_def)

lemma bound_routes:
  assumes "bind_routes v rs index seen bs = Inr routes"
  shows "(\<lambda>r. (gr_prefix r, gr_identity r)) ` set routes = (\<lambda>b. (trim_space (rb_path b), binding_identity b)) ` {b. Some b \<in> set bs}"
proof -
  note b = bind_routes_Inr [OF assms]
  define B where "B = {b. Some b \<in> set bs}"
  have "x \<in> Some ` B" if "x \<in> set bs" for x using b that by (cases x) (auto simp: B_def)
  then have s: "set bs = Some ` B" by (auto simp: B_def)
  have "(\<lambda>r. (gr_prefix r, gr_identity r)) ` set routes = (\<lambda>b. (trim_space (rb_path (the b)), binding_identity (the b))) ` set bs"
    using arg_cong [OF conjunct1 [OF conjunct2 [OF b]], of set] by (simp only: set_map)
  also have "\<dots> = (\<lambda>b. (trim_space (rb_path b), binding_identity b)) ` B" unfolding s by (simp only: image_image option.sel)
  finally show ?thesis unfolding B_def .
qed

lemma longest_unique:
  assumes f: "List.find (\<lambda>r. gateway_prefix_matches (gr_prefix r) path) (sort_routes routes) = Some r" and "distinct (map gr_prefix routes)"
    and s: "s \<in> set routes" "gateway_prefix_matches (gr_prefix s) path"
  shows "length (gr_prefix s) < length (gr_prefix r) \<or> s = r"
proof (rule disjCI)
  assume n: "s \<noteq> r"
  have r: "r \<in> set routes" "gateway_prefix_matches (gr_prefix r) path" using found_route [OF f] by auto
  have "gr_prefix s \<noteq> gr_prefix r" using n assms(2) r(1) s(1) by (metis distinct_map inj_onD)
  then show "length (gr_prefix s) < length (gr_prefix r)"
    using find_longest [OF f s] matches_prefix [OF s(2)] matches_prefix [OF r(2)]
    by (metis le_neq_implies_less prefix_length_prefix prefix_order.antisym order_refl)
qed

lemma strip_path:
  assumes "gateway_prefix_matches pre path"
  shows "path = (if pre = ''/'' then [] else pre) @ (if path = pre \<and> path \<noteq> ''/'' then [] else strip_gateway_prefix path pre)"
    and "prefix ''/'' (strip_gateway_prefix path pre)"
proof -
  have "path = [] @ (if path = pre \<and> path \<noteq> ''/'' then [] else strip_gateway_prefix path pre) \<and> prefix ''/'' (strip_gateway_prefix path pre)" if "pre = ''/''"
    using that assms by (auto simp: gateway_prefix_matches_def strip_gateway_prefix_def prefix_def)
  then show "path = (if pre = ''/'' then [] else pre) @ (if path = pre \<and> path \<noteq> ''/'' then [] else strip_gateway_prefix path pre)"
    and "prefix ''/'' (strip_gateway_prefix path pre)"
    using strip_matched [OF assms] by (cases "pre = ''/''"; force)+
qed

text \<open>C9: A gateway sends a request to the binding with the longest matching prefix, and only there. A prefix matches when its path segments
  are the first segments of the request, so a route for /api never sees /apix. When no binding matches there is no route;
  otherwise the route carries the prefix and exactly the application instance of a binding, no other matching binding has a prefix as long, and what
  is handed to the instance is the request path without that prefix, still starting with a slash.\<close>

theorem gateway_routes_exact:
  assumes "new_gateway_with_routers v addr bindings routers = Inr (g, rs)"
  shows "None \<notin> set bindings \<and>
    (route_of g path = None \<longleftrightarrow> (\<forall>b. Some b \<in> set bindings \<longrightarrow> \<not> under (trim_space (rb_path b)) path)) \<and>
    (\<forall>r. route_of g path = Some r \<longrightarrow> under (gr_prefix r) path \<and>
       (\<exists>b. Some b \<in> set bindings \<and> gr_prefix r = trim_space (rb_path b) \<and> gr_identity r = binding_identity b) \<and>
       (\<forall>b. Some b \<in> set bindings \<and> under (trim_space (rb_path b)) path \<longrightarrow>
          length (trim_space (rb_path b)) < length (gr_prefix r) \<or> trim_space (rb_path b) = gr_prefix r \<and> binding_identity b = gr_identity r) \<and>
       path = (if gr_prefix r = ''/'' then [] else gr_prefix r) @ (if path = gr_prefix r \<and> path \<noteq> ''/'' then [] else strip_gateway_prefix path (gr_prefix r)) \<and>
       prefix ''/'' (strip_gateway_prefix path (gr_prefix r)))"
proof -
  obtain routes where br: "bind_routes v rs 0 Map.empty bindings = Inr routes" and g: "gw_routes g = sort_routes routes"
    using new_gateway_Inr [OF assms] by blast
  note b = bind_routes_Inr [OF br] and pairs = bound_routes [OF br]
  have match: "gateway_prefix_matches (gr_prefix r) path = under (gr_prefix r) path" if "r \<in> set routes" for r
    using b that matches_under by blast
  have bound: "\<exists>r \<in> set routes. trim_space (rb_path b) = gr_prefix r \<and> binding_identity b = gr_identity r" if "Some b \<in> set bindings" for b
  proof -
    have "(trim_space (rb_path b), binding_identity b) \<in> (\<lambda>r. (gr_prefix r, gr_identity r)) ` set routes" unfolding pairs using that by blast
    then show ?thesis by auto
  qed
  have of_route: "\<exists>b. Some b \<in> set bindings \<and> gr_prefix r = trim_space (rb_path b) \<and> gr_identity r = binding_identity b" if "r \<in> set routes" for r
  proof -
    have "(gr_prefix r, gr_identity r) \<in> (\<lambda>b. (trim_space (rb_path b), binding_identity b)) ` {b. Some b \<in> set bindings}"
      unfolding pairs [symmetric] using that by blast
    then show ?thesis by auto
  qed
  have none: "route_of g path = None \<longleftrightarrow> (\<forall>r \<in> set routes. \<not> under (gr_prefix r) path)"
    using match by (auto simp: route_of_def g find_None_iff)
  have some: "r \<in> set routes \<and> gateway_prefix_matches (gr_prefix r) path \<and>
      (\<forall>s \<in> set routes. under (gr_prefix s) path \<longrightarrow> length (gr_prefix s) < length (gr_prefix r) \<or> s = r)" if "route_of g path = Some r" for r
  proof -
    have f: "List.find (\<lambda>r. gateway_prefix_matches (gr_prefix r) path) (sort_routes routes) = Some r" using that by (simp add: route_of_def g)
    then show ?thesis using found_route [OF f] longest_unique [OF f] b match by blast
  qed
  show ?thesis
  proof (intro conjI allI impI)
    show "None \<notin> set bindings" using b by blast
    show "route_of g path = None \<longleftrightarrow> (\<forall>b. Some b \<in> set bindings \<longrightarrow> \<not> under (trim_space (rb_path b)) path)"
      using none bound of_route by metis
    fix r assume r: "route_of g path = Some r"
    note s = some [OF r]
    show "under (gr_prefix r) path" using s match by blast
    show "\<exists>b. Some b \<in> set bindings \<and> gr_prefix r = trim_space (rb_path b) \<and> gr_identity r = binding_identity b" using s of_route by blast
    show "length (trim_space (rb_path b)) < length (gr_prefix r) \<or> trim_space (rb_path b) = gr_prefix r \<and> binding_identity b = gr_identity r"
      if "Some b \<in> set bindings \<and> under (trim_space (rb_path b)) path" for b using bound that s by metis
  qed (use some strip_path in blast)+
qed

subsection \<open>Leases of requests\<close>

lemma acquire_release:
  "router_ok ro \<Longrightarrow> router_acquire ro = Some (t, ro') \<Longrightarrow> router_ok ro' \<and> router_ok (router_release ro') \<and> ro_target ro = Some t \<and>
     ro_inflight ro' = ro_inflight ro + 1 \<and> ro_inflight (router_release ro') = ro_inflight ro"
  by (auto simp: router_ok_def router_acquire_def router_release_def Let_def split: if_splits option.splits)

lemma serve_begin_cases:
  assumes "serve_begin v g rs q = (resp, rs')"
  shows "rs' = rs \<and> (\<forall>i f. resp \<noteq> Proxied i f) \<or>
    (\<exists>j ro t ro'. rs j = Some ro \<and> router_acquire ro = Some (t, ro') \<and>
       (resp \<in> {Unavailable, BadGateway} \<and> rs' = rs(j \<mapsto> router_release ro') \<or> (\<exists>f. resp = Proxied j f \<and> rs' = rs(j \<mapsto> ro'))))"
proof (cases "gw_health_path g \<noteq> [] \<and> rq_path q = gw_health_path g \<and> (rq_method q = ''GET'' \<or> rq_method q = ''HEAD'')")
  case True
  then have "resp = Healthy (rq_method q \<noteq> ''HEAD'')" "rs' = rs" using assms by (auto simp: serve_begin_def)
  then show ?thesis by simp
next
  case healthy: False
  show ?thesis
  proof (cases "route_of g (rq_path q)")
    case None
    then show ?thesis using assms healthy by (auto simp: serve_begin_def)
  next
    case (Some r)
    show ?thesis
    proof (cases "rs (gr_identity r)")
      case None
      then show ?thesis using assms healthy Some by (auto simp: serve_begin_def)
    next
      case (Some ro)
      then show ?thesis using assms healthy \<open>route_of g (rq_path q) = Some r\<close>
        by (simp add: serve_begin_def split: option.splits prod.splits sum.splits if_splits; blast)
    qed
  qed
qed

text \<open>A request holds a lease exactly while it is proxied. Serving a request raises the number in flight of one router by one when the answer is
  proxied to that instance, and leaves all numbers alone when the gateway answers itself or the instance is not ready; ending it gives the
  lease back. The routers stay well formed throughout, and no request is proxied to an instance whose router is shut.\<close>

theorem gateway_leases:
  assumes "\<forall>i ro. rs i = Some ro \<longrightarrow> router_ok ro" and "serve_begin v g rs q = (resp, rs')"
  shows "\<forall>i. (case rs i of
      None \<Rightarrow> rs' i = None \<and> (\<forall>f. resp \<noteq> Proxied i f)
    | Some ro \<Rightarrow> \<exists>ro'. rs' i = Some ro' \<and> router_ok ro' \<and>
        ro_inflight ro' = ro_inflight ro + (if \<exists>f. resp = Proxied i f then 1 else 0) \<and> ((\<exists>f. resp = Proxied i f) \<longrightarrow> ro_accepting ro) \<and>
        (\<exists>ro''. serve_end resp rs' i = Some ro'' \<and> router_ok ro'' \<and> ro_inflight ro'' = ro_inflight ro))"
proof -
  from serve_begin_cases [OF assms(2)]
  consider "rs' = rs" "\<forall>i f. resp \<noteq> Proxied i f"
    | j ro t ro' where "rs j = Some ro" "router_acquire ro = Some (t, ro')" "resp \<in> {Unavailable, BadGateway}" "rs' = rs(j \<mapsto> router_release ro')"
    | j ro t ro' f where "rs j = Some ro" "router_acquire ro = Some (t, ro')" "resp = Proxied j f" "rs' = rs(j \<mapsto> ro')" by blast
  then show ?thesis
  proof cases
    case 1
    then have "serve_end resp rs' = rs" by (auto simp: serve_end_def split: response.splits)
    then show ?thesis using 1 assms(1) by (auto split: option.splits)
  next
    case 2
    then show ?thesis using assms(1) acquire_release [of ro t ro'] by (auto simp: serve_end_def split: option.splits)
  next
    case 3
    have "ro_accepting ro" using 3(2) by (auto simp: router_acquire_def split: if_splits)
    then show ?thesis using 3 assms(1) acquire_release [of ro t ro'] by (auto simp: serve_end_def split: option.splits)
  qed
qed

subsection \<open>A loaded host has a gateway\<close>

lemma bind_routers_ok:
  assumes "distinct (map fst rs)" and "\<forall>(i, r) \<in> set rs. \<exists>t. r = Some (new_router (Some t)) \<and> rv_identity v t = i \<and> identity_validate i = Inr ()"
    and "dom acc \<inter> fst ` set rs = {}"
  shows "\<exists>m. bind_routers v acc rs = Inr m \<and> (\<forall>(i, r) \<in> set rs. m i = r) \<and> (\<forall>i. i \<notin> fst ` set rs \<longrightarrow> m i = acc i)"
  using assms
proof (induction rs arbitrary: acc)
  case (Cons x rs)
  obtain i t where x: "x = (i, Some (new_router (Some t)))" "rv_identity v t = i" "identity_validate i = Inr ()" using Cons.prems(2) by auto
  have "acc i = None" using Cons.prems(3) x(1) by auto
  moreover have d: "distinct (map fst rs)" "dom (acc(i \<mapsto> new_router (Some t))) \<inter> fst ` set rs = {}" using Cons.prems(1,3) x(1) by auto
  have vv: "\<forall>(i, r) \<in> set rs. \<exists>t. r = Some (new_router (Some t)) \<and> rv_identity v t = i \<and> identity_validate i = Inr ()" using Cons.prems(2) by simp
  obtain m where "bind_routers v (acc(i \<mapsto> new_router (Some t))) rs = Inr m" "\<forall>(i, r) \<in> set rs. m i = r"
      "\<forall>j. j \<notin> fst ` set rs \<longrightarrow> m j = (acc(i \<mapsto> new_router (Some t))) j"
    using Cons.IH [OF d(1) vv d(2)] by blast
  ultimately show ?case using x Cons.prems(1) by (auto simp: router_current_def new_router_def)
qed auto

lemma own_routers_ok:
  assumes "distinct (map fst acc)" and "\<forall>(i, r) \<in> set acc. \<exists>t. r = Some (new_router (Some t)) \<and> rv_identity v t = i \<and> t \<in> T" and "set ts \<subseteq> T"
  shows "distinct (map fst (own_routers v (map Some ts) acc)) \<and>
    (\<forall>(i, r) \<in> set (own_routers v (map Some ts) acc). \<exists>t. r = Some (new_router (Some t)) \<and> rv_identity v t = i \<and> t \<in> T) \<and>
    fst ` set (own_routers v (map Some ts) acc) = fst ` set acc \<union> rv_identity v ` set ts"
  using assms
proof (induction ts arbitrary: acc)
  case (Cons t ts)
  let ?acc = "AList.update (rv_identity v t) (Some (new_router (Some t))) acc"
  have d: "distinct (map fst ?acc)" using Cons.prems(1) by (rule distinct_update)
  have "\<exists>u. r = Some (new_router (Some u)) \<and> rv_identity v u = i \<and> u \<in> T" if "(i, r) \<in> set ?acc" for i r
  proof -
    have "map_of ?acc i = Some r" using that d by simp
    then have "i = rv_identity v t \<and> r = Some (new_router (Some t)) \<or> map_of acc i = Some r" by (auto simp: update_conv split: if_splits)
    then show ?thesis using Cons.prems(2,3) by (auto dest!: map_of_SomeD)
  qed
  then have v: "\<forall>(i, r) \<in> set ?acc. \<exists>t. r = Some (new_router (Some t)) \<and> rv_identity v t = i \<and> t \<in> T" by blast
  have "fst ` set ?acc = insert (rv_identity v t) (fst ` set acc)"
    using dom_update [of "rv_identity v t" "Some (new_router (Some t))" acc] by (simp add: dom_map_of_conv_image_fst)
  then show ?case using Cons.IH [OF d v] Cons.prems(3) by auto
qed auto

lemma bind_routes_ok:
  assumes "\<forall>b \<in> set bs. \<forall>k. canonical_gateway_prefix k (rb_path b) = Inr (rb_path b)" and "distinct (map rb_path bs)"
    and "\<forall>b \<in> set bs. seen (rb_path b) = None"
    and "\<forall>b \<in> set bs. \<exists>ro. rs (binding_identity b) = Some ro \<and> check_target v (rb_path b) (binding_identity b) ro = Inr ()"
  shows "bind_routes v rs index seen (map Some bs) = Inr (map (\<lambda>b. \<lparr>gr_prefix = rb_path b, gr_identity = binding_identity b\<rparr>) bs)"
  using assms
proof (induction bs arbitrary: index seen)
  case (Cons b bs)
  obtain ro where ro: "rs (binding_identity b) = Some ro" "check_target v (rb_path b) (binding_identity b) ro = Inr ()" using Cons.prems(4) by auto
  have ne: "\<forall>c \<in> set bs. rb_path c \<noteq> rb_path b" using Cons.prems(2) by (auto simp: image_iff)
  have "bind_routes v rs (Suc index) (seen(rb_path b \<mapsto> binding_identity b)) (map Some bs) =
      Inr (map (\<lambda>b. \<lparr>gr_prefix = rb_path b, gr_identity = binding_identity b\<rparr>) bs)"
    by (rule Cons.IH) (use Cons.prems ne in simp_all)
  then show ?case using ro Cons.prems(1,3) by simp
qed simp

lemma clean_no_slash:
  assumes "list_all seg_ok segs" and "segs \<noteq> []"
  shows "\<not> suffix ''/'' (join ''/'' segs)"
proof -
  have "join ''/'' (butlast segs @ [last segs]) = (if butlast segs = [] then [] else join ''/'' (butlast segs) @ ''/'') @ last segs"
    by (cases "butlast segs = []") (simp_all add: join_append)
  then have "join ''/'' segs = (if butlast segs = [] then [] else join ''/'' (butlast segs) @ ''/'') @ last segs"
    unfolding append_butlast_last_id [OF assms(2)] .
  moreover have "seg_ok (last segs)" using assms by (simp add: list_all_iff)
  ultimately show ?thesis by (cases "last segs" rule: rev_cases) (auto simp: seg_ok_def suffix_def)
qed

lemma manifest_prefix_ok:
  assumes "normalize_route_path j x = Inr p"
  shows "canonical_gateway_prefix k p = Inr p"
proof -
  have p: "p = trim_space x" "p \<noteq> []" "prefix ''/'' p" "\<not> url_special p" "path_clean p = p"
    using assms by (auto simp: normalize_route_path_def Let_def split: if_splits)
  then have "is_abs p" by (simp add: is_abs_def)
  then obtain segs where s: "p = ''/'' @ join ''/'' segs" "list_all seg_ok segs" using clean_abs_iff p(5) by blast
  have "\<not> (p \<noteq> ''/'' \<and> suffix ''/'' p)"
  proof (cases "segs = []")
    case False
    have "join ''/'' segs \<noteq> []" using False s(2) by (cases "(''/'', segs)" rule: join.cases) (auto simp: seg_ok_def)
    then have "suffix ''/'' p \<longleftrightarrow> suffix ''/'' (join ''/'' segs)" by (simp add: s(1) suffix_Cons)
    then show ?thesis using clean_no_slash [OF s(2) False] by simp
  qed (simp add: s(1))
  then show ?thesis using p by (auto simp: canonical_gateway_prefix_def Let_def)
qed

lemma routes_loop_normalized:
  "routes_loop apps index seen rs = Inr routes \<Longrightarrow> r \<in> set routes \<Longrightarrow> \<exists>j x. normalize_route_path j x = Inr (rb_path r)"
  by (induction apps index seen rs arbitrary: routes rule: routes_loop.induct) (force split: if_splits option.splits)+

lemma host_routes_ok:
  assumes "load_host w path = Inr h"
  shows "distinct (map rb_path (h_routes h)) \<and> (\<forall>b \<in> set (h_routes h). route_ok (h_applications h) b \<and> (\<forall>k. canonical_gateway_prefix k (rb_path b) = Inr (rb_path b)))"
proof -
  obtain p r where "assemble_host w p r = Inr h" using load_host_Inr [OF assms] by blast
  then obtain routes where ro: "routes_loop (h_applications h) 0 {} (rho_routes r) = Inr routes" "h_routes h = sort_key rb_path routes"
    using assemble_host_Inr by (fastforce simp: load_route_bindings_def)
  then show ?thesis using routes_loop_ok [OF ro(1)] routes_loop_normalized [OF ro(1)] manifest_prefix_ok by (auto simp: distinct_map) blast+
qed

lemma self_match: "is_abs p \<Longrightarrow> gateway_prefix_matches p p"
  by (simp add: gateway_prefix_matches_def is_abs_def)

lemma own_route:
  assumes "gw_routes g = sort_routes routes" and "distinct (map gr_prefix routes)" and "r \<in> set routes" and "is_abs (gr_prefix r)"
  shows "route_of g (gr_prefix r) = Some r"
proof -
  have m: "gateway_prefix_matches (gr_prefix r) (gr_prefix r)" using assms(4) by (rule self_match)
  then obtain s where s: "List.find (\<lambda>s. gateway_prefix_matches (gr_prefix s) (gr_prefix r)) (sort_routes routes) = Some s"
    using assms(3) by (metis find_None_iff option.exhaust set_sort_routes)
  have "\<not> length (gr_prefix r) < length (gr_prefix s)" using found_route [OF s] matches_prefix prefix_length_le by fastforce
  then have "s = r" using longest_unique [OF s assms(2,3) m] by blast
  then show ?thesis using s by (simp add: route_of_def assms(1))
qed

lemma started_identities:
  assumes "load_host w path = Inr h" and "\<forall>d. w_cwd w = Some d \<longrightarrow> is_abs d" and "host_start env s0 = ((None, s), tr)"
    and "re_load env = Inr (host_applications h)" and "distinct (re_keys env)" and "set (re_keys env) = ha_id ` set (h_applications h)"
  shows "mh_state s = MultiHostRunning \<and> re_identity env ` set (mh_runtimes s) = ho_identity ` set (host_applications h) \<and>
    (\<forall>i \<in> ho_identity ` set (host_applications h). identity_validate i = Inr ())"
proof -
  have wf: "hosts_wf (h_applications h) (h_order h)" by (rule load_hosts_wf [OF assms(1,2)])
  define L where "L = host_applications h"
  have L: "L = concat (map (\<lambda>a. map (hosted_of a) (ha_instances a)) (h_order h))" by (simp add: L_def host_applications_def)
  obtain ord where c: "canonical_hosted_applications (re_keys env) L = Inr ord" and r: "map (re_identity env) (mh_runtimes s) = map ho_identity ord"
      and "mh_state s = MultiHostRunning"
    using host_start_ok [OF assms(3)] assms(4) by (auto simp: L_def)
  moreover have "mset ord = mset L" using c hosts_start_order(1) [OF wf L refl assms(5,6)] hosts_start_mset [OF wf L refl] by simp
  then have "set ord = set L" by (rule mset_eq_setD)
  moreover have "re_identity env ` set (mh_runtimes s) = ho_identity ` set ord" using arg_cong [OF r, of set] by simp
  moreover have "identity_validate (ho_identity x) = Inr ()" if "x \<in> set L" for x
    using hosts_members(1) [OF wf L that] by (auto simp: hosted_validate_def split: if_splits)
  ultimately show ?thesis by (auto simp: L_def)
qed

lemma route_instance_hosted:
  assumes "route_ok (h_applications h) b" and "hosts_wf (h_applications h) (h_order h)"
  shows "binding_identity b \<in> ho_identity ` set (host_applications h)"
proof -
  obtain a i where a: "a \<in> set (h_applications h)" "ha_id a = rb_application b" "i \<in> set (ha_instances a)" "in_alias i = rb_instance b"
    using assms(1) by (auto simp: route_ok_def)
  have "a \<in> set (h_order h)" using a(1) assms(2) by (metis hosts_wf_def set_mset_mset)
  then have "hosted_of a i \<in> set (host_applications h)" using a(3) by (auto simp: host_applications_def)
  moreover have "ho_identity (hosted_of a i) = binding_identity b" using a by (simp add: hosted_of_def binding_identity_def)
  ultimately show ?thesis by (metis imageI)
qed

definition http_ready :: "'r runtime_view \<Rightarrow> 'r \<Rightarrow> bool" where
  "http_ready v t \<longleftrightarrow> (case rv_http_address v t of None \<Rightarrow> False | Some a \<Rightarrow> \<not> isl (parse_gateway_upstream (rv_parse_url v) a))"

lemma ready_target: "http_ready v t \<Longrightarrow> check_target v p i (new_router (Some t)) = Inr ()"
  by (auto simp: http_ready_def check_target_def router_acquire_def new_router_def split: option.splits) (metis Inr_projr)

text \<open>The address of a runtime, as a URL.\<close>

definition upstream_of :: "'r runtime_view \<Rightarrow> 'r \<Rightarrow> url option" where
  "upstream_of v t =
     (case rv_http_address v t of
        None \<Rightarrow> None
      | Some a \<Rightarrow> (case parse_gateway_upstream (rv_parse_url v) a of Inl _ \<Rightarrow> None | Inr u \<Rightarrow> Some u))"

lemma ready_upstream: "http_ready v t \<longleftrightarrow> upstream_of v t \<noteq> None"
  by (auto simp: http_ready_def upstream_of_def split: option.splits sum.splits)

lemma serve_ready:
  assumes "route_of g (rq_path q) = Some r" and "rs (gr_identity r) = Some (new_router (Some t))" and "upstream_of v t = Some u"
    and "gw_health_path g \<noteq> rq_path q \<or> rq_path q = []"
  shows "fst (serve_begin v g rs q) =
    (if printable (upgrade_type (rq_headers q)) then Proxied (gr_identity r) (rewrite (rv_escape_path v) r u q) else BadGateway)"
  using assms by (auto simp: upstream_of_def serve_begin_def router_acquire_def new_router_def split: option.splits sum.splits)

text \<open>What an instance receives, whatever headers the client sent: the headers that the gateway asserts, the client's own address, host and
  protocol in place of anything it claims to have been forwarded for, and none of the headers that end at the proxy. Every other header that
  the client sent and did not list as ending there is passed on.\<close>

lemma fold_header_del: "fold header_del ks h k = (if k \<in> set ks then None else h k)"
  by (induction ks arbitrary: h) (auto simp: header_del_def)

lemma outgoing_header:
  "outgoing_headers h k =
     (if k \<in> set forwarding_headers then None
      else if k \<in> {''Connection'', ''Upgrade''} \<and> upgrade_type h \<noteq> [] then Some [if k = ''Upgrade'' then upgrade_type h else ''Upgrade'']
      else if k = ''Te'' \<and> has_token h ''Te'' ''trailers'' then Some [''trailers'']
      else if k \<in> set hop_headers \<or> k \<in> set (listed_headers h) then None else h k)"
  unfolding outgoing_headers_def Let_def fold_header_del remove_hop_headers_def by (auto simp: header_set_def fold_header_del)

definition asserted_headers :: "string list" where
  "asserted_headers = [''X-Pulp-Application'', ''X-Pulp-Application-Instance'', ''X-Forwarded-Prefix'', ''X-Forwarded-For'', ''X-Forwarded-Host'',
     ''X-Forwarded-Proto'', ''Forwarded'', ''User-Agent'']"

lemma rewrite_headers:
  shows "fw_headers (rewrite esc r u q) ''X-Pulp-Application'' = Some [ai_application (gr_identity r)]"
    and "fw_headers (rewrite esc r u q) ''X-Pulp-Application-Instance'' = Some [ai_instance (gr_identity r)]"
    and "fw_headers (rewrite esc r u q) ''X-Forwarded-Prefix'' = Some [gr_prefix r]"
    and "fw_headers (rewrite esc r u q) ''X-Forwarded-For'' = map_option (\<lambda>ip. [ip]) (rq_client q)"
    and "fw_headers (rewrite esc r u q) ''X-Forwarded-Host'' = Some [rq_host q]"
    and "fw_headers (rewrite esc r u q) ''X-Forwarded-Proto'' = Some [if rq_tls q then ''https'' else ''http'']"
    and "fw_headers (rewrite esc r u q) ''Forwarded'' = None"
    and "k \<notin> set asserted_headers \<Longrightarrow> fw_headers (rewrite esc r u q) k = outgoing_headers (rq_headers q) k"
proof -
  let ?o = "outgoing_headers (rq_headers q)"
  have o: "?o k = None" if "k \<in> set forwarding_headers" for k using that by (simp add: outgoing_header)
  have f: "?o ''X-Forwarded-For'' = None" "?o ''Forwarded'' = None" by (rule o; simp add: forwarding_headers_def)+
  note defs = rewrite_def Let_def suppress_agent_def header_set_def header_del_def set_x_forwarded_def header_values_def
  show "fw_headers (rewrite esc r u q) ''X-Forwarded-For'' = map_option (\<lambda>ip. [ip]) (rq_client q)"
    by (cases "rq_client q") (simp_all add: defs f)
  show "fw_headers (rewrite esc r u q) ''Forwarded'' = None" by (cases "rq_client q") (simp_all add: defs f)
  show "fw_headers (rewrite esc r u q) k = ?o k" if "k \<notin> set asserted_headers"
    using that by (cases "rq_client q") (simp_all add: defs asserted_headers_def)
qed (simp_all add: rewrite_def Let_def suppress_agent_def header_set_def set_x_forwarded_def split: option.splits)

lemma host_gateway_exists:
  assumes "load_host w path = Inr h" and "\<forall>d. w_cwd w = Some d \<longrightarrow> is_abs d" and "host_start env s0 = ((None, s), tr)"
    and "re_load env = Inr (host_applications h)" and "distinct (re_keys env)" and "set (re_keys env) = ha_id ` set (h_applications h)"
    and "rv_identity v = re_identity env" and "\<forall>t \<in> set (mh_runtimes s). http_ready v t" and "trim_space addr \<noteq> []"
  shows "\<exists>g rs. new_supervisor_gateway v addr h s = Inr (g, rs) \<and> gw_health_path g = h_health_path h \<and>
    (\<forall>b \<in> set (h_routes h). \<exists>t u. t \<in> set (mh_runtimes s) \<and> rv_identity v t = binding_identity b \<and> upstream_of v t = Some u \<and>
       rs (binding_identity b) = Some (new_router (Some t)) \<and>
       route_of g (rb_path b) = Some \<lparr>gr_prefix = rb_path b, gr_identity = binding_identity b\<rparr>)"
proof -
  note st = started_identities [OF assms(1-6)] and ro = host_routes_ok [OF assms(1)] and wf = load_hosts_wf [OF assms(1,2)]
  let ?own = "own_routers v (map Some (mh_runtimes s)) []"
  have own: "distinct (map fst ?own)" "\<forall>(i, r) \<in> set ?own. \<exists>t. r = Some (new_router (Some t)) \<and> rv_identity v t = i \<and> t \<in> set (mh_runtimes s)"
      "fst ` set ?own = rv_identity v ` set (mh_runtimes s)"
    using own_routers_ok [of "[]" v "set (mh_runtimes s)" "mh_runtimes s"] by auto
  have val: "identity_validate (rv_identity v t) = Inr ()" if "t \<in> set (mh_runtimes s)" for t using st that assms(7) by (metis imageI)
  have "\<forall>(i, r) \<in> set ?own. \<exists>t. r = Some (new_router (Some t)) \<and> rv_identity v t = i \<and> identity_validate i = Inr ()"
  proof (clarify)
    fix i r assume "(i, r) \<in> set ?own"
    from bspec [OF own(2) this] obtain t where "r = Some (new_router (Some t))" "rv_identity v t = i" "t \<in> set (mh_runtimes s)" by auto
    then show "\<exists>t. r = Some (new_router (Some t)) \<and> rv_identity v t = i \<and> identity_validate i = Inr ()" using val [of t] by blast
  qed
  then obtain rs where rs: "bind_routers v Map.empty ?own = Inr rs" "\<forall>(i, r) \<in> set ?own. rs i = r"
    using bind_routers_ok [OF own(1), of v Map.empty] by auto
  have target: "\<exists>t u. rs (binding_identity b) = Some (new_router (Some t)) \<and> t \<in> set (mh_runtimes s) \<and>
      rv_identity v t = binding_identity b \<and> upstream_of v t = Some u" if "b \<in> set (h_routes h)" for b
  proof -
    have "binding_identity b \<in> ho_identity ` set (host_applications h)" using route_instance_hosted [OF _ wf] ro that by blast
    then have "binding_identity b \<in> fst ` set ?own" using st own(3) assms(7) by simp
    then obtain r where r: "(binding_identity b, r) \<in> set ?own" by force
    show ?thesis using bspec [OF rs(2) r] bspec [OF own(2) r] assms(8) by (auto simp: ready_upstream)
  qed
  define routes where "routes = map (\<lambda>b. \<lparr>gr_prefix = rb_path b, gr_identity = binding_identity b\<rparr>) (h_routes h)"
  have "bind_routes v rs 0 Map.empty (map Some (h_routes h)) = Inr routes"
    unfolding routes_def
  proof (rule bind_routes_ok)
    show "\<forall>b \<in> set (h_routes h). \<exists>ro. rs (binding_identity b) = Some ro \<and> check_target v (rb_path b) (binding_identity b) ro = Inr ()"
    proof
      fix b assume "b \<in> set (h_routes h)"
      from target [OF this] obtain t where "rs (binding_identity b) = Some (new_router (Some t))" "http_ready v t"
        by (auto simp: ready_upstream)
      then show "\<exists>ro. rs (binding_identity b) = Some ro \<and> check_target v (rb_path b) (binding_identity b) ro = Inr ()"
        using ready_target [of v t] by simp
    qed
  qed (use ro in simp_all)
  then obtain g where g: "new_supervisor_gateway v addr h s = Inr (g, rs)" "gw_routes g = sort_routes routes" "gw_health_path g = h_health_path h"
    using rs(1) st assms(9) by (auto simp: new_supervisor_gateway_def new_host_gateway_def new_gateway_with_routers_def)
  have "route_of g (rb_path b) = Some \<lparr>gr_prefix = rb_path b, gr_identity = binding_identity b\<rparr>" if b: "b \<in> set (h_routes h)" for b
  proof -
    let ?r = "\<lparr>gr_prefix = rb_path b, gr_identity = binding_identity b\<rparr>"
    have "distinct (map gr_prefix routes)" "?r \<in> set routes" "is_abs (gr_prefix ?r)"
      using ro b by (auto simp: routes_def o_def route_ok_def)
    from own_route [OF g(2) this] show ?thesis by simp
  qed
  then show ?thesis using g target by metis
qed

text \<open>What the instance of a route is sent.\<close>

definition sent_to :: "route_binding \<Rightarrow> url \<Rightarrow> request \<Rightarrow> forwarded \<Rightarrow> bool" where
  "sent_to b u q f \<longleftrightarrow>
     fw_scheme f = u_scheme u \<and> fw_host f = u_host u \<and> fw_path f = join_gateway_path (u_path u) (strip_gateway_prefix (rq_path q) (rb_path b)) \<and>
     fw_headers f ''X-Pulp-Application'' = Some [rb_application b] \<and> fw_headers f ''X-Pulp-Application-Instance'' = Some [rb_instance b] \<and>
     fw_headers f ''X-Forwarded-Prefix'' = Some [rb_path b] \<and> fw_headers f ''X-Forwarded-For'' = map_option (\<lambda>ip. [ip]) (rq_client q) \<and>
     fw_headers f ''X-Forwarded-Host'' = Some [rq_host q] \<and>
     fw_headers f ''X-Forwarded-Proto'' = Some [if rq_tls q then ''https'' else ''http''] \<and> fw_headers f ''Forwarded'' = None \<and>
     (\<forall>k. k \<notin> set asserted_headers \<longrightarrow> fw_headers f k = outgoing_headers (rq_headers q) k)"

lemma rewrite_sent_to: "sent_to b u q (rewrite esc \<lparr>gr_prefix = rb_path b, gr_identity = binding_identity b\<rparr> u q)"
  unfolding sent_to_def rewrite_headers by (simp add: rewrite_headers(8) binding_identity_def) (simp add: rewrite_def Let_def)

text \<open>C7: The front door of a loaded host works. When the supervisor has started the applications of a host manifest and every runtime is
  ready for HTTP, a gateway for the supervisor exists, and every route of the manifest is served by the running runtime that answers to the
  identity the manifest names there: a request to the path of the route, unless that is the health path of the host, is proxied to the address
  of that runtime, with the headers that name the application, the instance and the prefix, and with the client's own address, host and
  protocol, whatever the client sent for them. A request that asks to switch to a protocol with an unprintable name is refused.\<close>

theorem host_routes_served:
  assumes "load_host w path = Inr h" and "\<forall>d. w_cwd w = Some d \<longrightarrow> is_abs d" and "host_start env s0 = ((None, s), tr)"
    and "re_load env = Inr (host_applications h)" and "distinct (re_keys env)" and "set (re_keys env) = ha_id ` set (h_applications h)"
    and "rv_identity v = re_identity env" and "\<forall>t \<in> set (mh_runtimes s). http_ready v t" and "trim_space addr \<noteq> []"
  shows "\<exists>g rs. new_supervisor_gateway v addr h s = Inr (g, rs) \<and>
    (\<forall>b \<in> set (h_routes h). \<exists>t u. t \<in> set (mh_runtimes s) \<and> rv_identity v t = binding_identity b \<and> upstream_of v t = Some u \<and>
       rs (binding_identity b) = Some (new_router (Some t)) \<and>
       (\<forall>q. rq_path q = rb_path b \<and> rb_path b \<noteq> h_health_path h \<longrightarrow>
          (if printable (upgrade_type (rq_headers q))
           then \<exists>f. fst (serve_begin v g rs q) = Proxied (binding_identity b) f \<and> sent_to b u q f
           else fst (serve_begin v g rs q) = BadGateway)))"
proof -
  obtain g rs where g: "new_supervisor_gateway v addr h s = Inr (g, rs)" "gw_health_path g = h_health_path h"
    and routes: "\<forall>b \<in> set (h_routes h). \<exists>t u. t \<in> set (mh_runtimes s) \<and> rv_identity v t = binding_identity b \<and> upstream_of v t = Some u \<and>
       rs (binding_identity b) = Some (new_router (Some t)) \<and>
       route_of g (rb_path b) = Some \<lparr>gr_prefix = rb_path b, gr_identity = binding_identity b\<rparr>"
    using host_gateway_exists [OF assms] by blast
  have "fst (serve_begin v g rs q) = (if printable (upgrade_type (rq_headers q))
      then Proxied (binding_identity b) (rewrite (rv_escape_path v) \<lparr>gr_prefix = rb_path b, gr_identity = binding_identity b\<rparr> u q) else BadGateway)"
    if "rs (binding_identity b) = Some (new_router (Some t))" "upstream_of v t = Some u" "rq_path q = rb_path b" "rb_path b \<noteq> h_health_path h"
      "route_of g (rb_path b) = Some \<lparr>gr_prefix = rb_path b, gr_identity = binding_identity b\<rparr>" for b t u q
    using serve_ready [of g q "\<lparr>gr_prefix = rb_path b, gr_identity = binding_identity b\<rparr>" rs t v u] that g(2) by simp
  then show ?thesis using g(1) routes rewrite_sent_to by (intro exI [of _ g] exI [of _ rs]) (simp, metis)
qed

subsection \<open>Concrete gateways\<close>

definition demo_view :: "app_identity runtime_view" where
  "demo_view = \<lparr>rv_identity = (\<lambda>r. r), rv_http_address = (\<lambda>r. Some ''h:1''),
     rv_parse_url = (\<lambda>s. Some \<lparr>u_scheme = ''http'', u_host = drop 7 s, u_user = None, u_path = [], u_escaped_path = [], u_raw_query = [], u_fragment = []\<rparr>),
     rv_escape_path = (\<lambda>p. p)\<rparr>"

lemma demo_view_ready: "http_ready demo_view t"
proof -
  have "\<not> isl (parse_gateway_upstream (rv_parse_url demo_view) ''h:1'')" by code_simp
  then show ?thesis by (simp add: http_ready_def demo_view_def)
qed

text \<open>A client that claims to be forwarded.\<close>

definition demo_request :: "string \<Rightarrow> request" where
  "demo_request p = \<lparr>rq_method = ''GET'', rq_path = p, rq_escaped_path = p,
     rq_headers = [''X-Forwarded-For'' \<mapsto> [''10.0.0.1''], ''X-Pulp-Application'' \<mapsto> [''core''], ''Connection'' \<mapsto> [''close, x-secret''],
       ''X-Secret'' \<mapsto> [''s'']], rq_host = ''pulp'', rq_client = Some ''192.0.2.7'', rq_tls = False\<rparr>"

definition demo_id :: "string \<Rightarrow> app_identity" where
  "demo_id i = \<lparr>ai_application = i, ai_instance = ''one''\<rparr>"

definition demo_bindings :: "route_binding option list" where
  "demo_bindings = [Some \<lparr>rb_path = ''/api'', rb_application = ''web'', rb_instance = ''one''\<rparr>,
     Some \<lparr>rb_path = '' /api/v1'', rb_application = ''core'', rb_instance = ''one''\<rparr>]"

definition demo_gateway :: "gateway \<times> app_identity routers" where
  "demo_gateway = projr (new_host_gateway demo_view '':80'' demo_bindings [Some (demo_id ''web''), Some (demo_id ''core'')])"

lemma demo_gateway_built:
  "new_gateway_with_routers demo_view '':80'' demo_bindings (own_routers demo_view [Some (demo_id ''web''), Some (demo_id ''core'')] []) =
     Inr (fst demo_gateway, snd demo_gateway)"
proof -
  have "\<not> isl (new_host_gateway demo_view '':80'' demo_bindings [Some (demo_id ''web''), Some (demo_id ''core'')])" by code_simp
  from Inr_projr [OF this] show ?thesis by (simp add: demo_gateway_def new_host_gateway_def)
qed

theorem gateway_routes_exact_witness:
  "\<exists>r. route_of (fst demo_gateway) ''/api/v1/x'' = Some r \<and> gr_identity r = demo_id ''core'' \<and> under (gr_prefix r) ''/api/v1/x'' \<and>
     strip_gateway_prefix ''/api/v1/x'' (gr_prefix r) = ''/x'' \<and> \<not> under ''/api'' ''/apix''"
proof -
  define r where "r = \<lparr>gr_prefix = ''/api/v1'', gr_identity = demo_id ''core''\<rparr>"
  have r: "route_of (fst demo_gateway) ''/api/v1/x'' = Some r" unfolding r_def by code_simp
  then have "under (gr_prefix r) ''/api/v1/x''" using gateway_routes_exact [OF demo_gateway_built, of "''/api/v1/x''"] by blast
  moreover have "strip_gateway_prefix ''/api/v1/x'' ''/api/v1'' = ''/x''" "\<not> under ''/api'' ''/apix''" by code_simp+
  ultimately show ?thesis using r by (intro exI [of _ r]) (simp add: r_def)
qed

theorem gateway_leases_witness:
  "\<exists>resp rs ro. serve_begin demo_view (fst demo_gateway) (snd demo_gateway) (demo_request ''/api'') = (resp, rs) \<and>
     rs (demo_id ''web'') = Some ro \<and> ro_inflight ro = 1"
proof -
  let ?q = "demo_request ''/api''" and ?i = "demo_id ''web''"
  obtain resp rs where b: "serve_begin demo_view (fst demo_gateway) (snd demo_gateway) ?q = (resp, rs)" by fastforce
  have snd: "snd demo_gateway = [demo_id ''web'' \<mapsto> new_router (Some (demo_id ''web'')), demo_id ''core'' \<mapsto> new_router (Some (demo_id ''core''))]"
  proof -
    have "bind_routers demo_view Map.empty (own_routers demo_view [Some (demo_id ''web''), Some (demo_id ''core'')] []) = Inr (snd demo_gateway)"
      using new_gateway_Inr [OF demo_gateway_built] by blast
    moreover have "identity_validate (demo_id ''web'') = Inr ()" "identity_validate (demo_id ''core'') = Inr ()" by code_simp+
    ultimately show ?thesis by (simp add: demo_view_def router_current_def new_router_def demo_id_def fun_upd_twist)
  qed
  have ok: "\<forall>i ro. snd demo_gateway i = Some ro \<longrightarrow> router_ok ro" by (auto simp: snd router_ok_def new_router_def split: if_splits)
  have "case fst (serve_begin demo_view (fst demo_gateway) (snd demo_gateway) ?q) of Proxied j f \<Rightarrow> j = ?i | _ \<Rightarrow> False" by code_simp
  then obtain f where f: "resp = Proxied ?i f" unfolding b by (auto split: response.splits)
  have "\<exists>ro'. rs ?i = Some ro' \<and> ro_inflight ro' = 1" using gateway_leases [OF ok b, rule_format, of ?i] f by (auto simp: snd new_router_def demo_id_def)
  then show ?thesis using b by blast
qed

text \<open>The host of \<^const>\<open>demo_host_world\<close>, with runtimes that all start.\<close>

definition demo_start_env :: "(app_identity, string) runtime_env" where
  "demo_start_env = (demo_runtime_env False)\<lparr>re_load := Inr (host_applications demo_loaded)\<rparr>"

definition demo_started :: "app_identity supervisor_host" where
  "demo_started = snd (fst (host_start demo_start_env new_multi_host))"

theorem host_routes_served_witness:
  "\<exists>g rs f. new_supervisor_gateway demo_view '':80'' demo_loaded demo_started = Inr (g, rs) \<and>
     fst (serve_begin demo_view g rs (demo_request ''/z'')) = Proxied \<lparr>ai_application = ''web'', ai_instance = ''web-1''\<rparr> f \<and>
     fw_host f = ''h:1'' \<and> fw_headers f ''X-Pulp-Application'' = Some [''web''] \<and> fw_headers f ''X-Forwarded-For'' = Some [''192.0.2.7''] \<and>
     fw_headers f ''X-Secret'' = None"
proof -
  note l = demo_host_loads(1)
  have cwd: "\<forall>d. w_cwd demo_host_world = Some d \<longrightarrow> is_abs d" by (simp add: demo_host_world_def is_abs_def)
  have "fst (fst (host_start demo_start_env new_multi_host)) = None" unfolding demo_start_env_def demo_host_facts(2) by code_simp
  then obtain tr where st: "host_start demo_start_env new_multi_host = ((None, demo_started), tr)"
    unfolding demo_started_def by (metis prod.collapse)
  have env: "re_load demo_start_env = Inr (host_applications demo_loaded)" "rv_identity demo_view = re_identity demo_start_env"
    by (simp_all add: demo_start_env_def demo_view_def demo_runtime_env_def)
  have keys: "distinct (re_keys demo_start_env)" "set (re_keys demo_start_env) = ha_id ` set (h_applications demo_loaded)"
    using arg_cong [OF demo_host_facts(1), of set] by (simp_all add: demo_start_env_def demo_runtime_env_def)
  have ready: "\<forall>t \<in> set (mh_runtimes demo_started). http_ready demo_view t" using demo_view_ready by blast
  have addr: "trim_space '':80'' \<noteq> []" by code_simp
  define b where "b = \<lparr>rb_path = ''/z'', rb_application = ''web'', rb_instance = ''web-1''\<rparr>"
  have b: "b \<in> set (h_routes demo_loaded)" "rb_path b \<noteq> h_health_path demo_loaded"
    using demo_host_loads(2) by (simp_all add: b_def host_summary_def)
  have p: "printable (upgrade_type (rq_headers (demo_request ''/z'')))" by code_simp
  have secret: "outgoing_headers (rq_headers (demo_request ''/z'')) ''X-Secret'' = None" "''X-Secret'' \<notin> set asserted_headers" by code_simp+
  have up: "upstream_of demo_view t = Some u \<Longrightarrow> u_host u = ''h:1''" for t u
  proof -
    have "map_option u_host (upstream_of demo_view (demo_id [])) = Some ''h:1''" by code_simp
    moreover have "upstream_of demo_view t = upstream_of demo_view (demo_id [])" by (simp add: upstream_of_def demo_view_def)
    ultimately show "u_host u = ''h:1''" if "upstream_of demo_view t = Some u" using that by (metis option.inject option.simps(9))
  qed
  have q: "rq_path (demo_request ''/z'') = rb_path b" "rq_client (demo_request ''/z'') = Some ''192.0.2.7''" by (simp_all add: b_def demo_request_def)
  show ?thesis using host_routes_served [OF l cwd st env(1) keys env(2) ready addr]
  proof (elim exE conjE)
    fix g rs
    assume g: "new_supervisor_gateway demo_view '':80'' demo_loaded demo_started = Inr (g, rs)"
    assume "\<forall>b \<in> set (h_routes demo_loaded). \<exists>t u. t \<in> set (mh_runtimes demo_started) \<and> rv_identity demo_view t = binding_identity b \<and>
       upstream_of demo_view t = Some u \<and> rs (binding_identity b) = Some (new_router (Some t)) \<and>
       (\<forall>q. rq_path q = rb_path b \<and> rb_path b \<noteq> h_health_path demo_loaded \<longrightarrow>
          (if printable (upgrade_type (rq_headers q))
           then \<exists>f. fst (serve_begin demo_view g rs q) = Proxied (binding_identity b) f \<and> sent_to b u q f
           else fst (serve_begin demo_view g rs q) = BadGateway))"
    from bspec [OF this b(1)] obtain t u f where u: "upstream_of demo_view t = Some u"
      and f: "fst (serve_begin demo_view g rs (demo_request ''/z'')) = Proxied (binding_identity b) f" "sent_to b u (demo_request ''/z'') f"
      using p q(1) b(2) by metis
    then show ?thesis using g up [OF u] secret q(2) unfolding sent_to_def
      by (intro exI [of _ g] exI [of _ rs] exI [of _ f]) (simp add: b_def binding_identity_def)
  qed
qed

text \<open>\<^verbatim>\<open>Shutdown\<close> leaves \<^verbatim>\<open>started\<close> set, so the branch for a stopped gateway is dead: starting one again is answered as already started.\<close>

lemma restart_reported_started:
  assumes "gateway_shutdown g = (True, g')"
  shows "gateway_start listen g' = (Inl GatewayAlreadyStarted, g')"
  using assms by (auto simp: gateway_shutdown_def gateway_start_def split: if_splits)

end
