(* ===== verification/Reconcile_Diff.thy ===== *)
theory Reconcile_Diff
  imports Dependency_Plan
begin

text \<open>
  The change analysis of the live reconciler, \<^verbatim>\<open>diff\<close> of \<^verbatim>\<open>src/internal/reconcile/reconciler.go\<close>:
  which nodes of a replacement graph are added, updated, removed or unchanged against the running
  one, and which are affected because they depend, directly or not, on a changed node. Revisions
  are a Go map read with a default, so a function here.
\<close>

record changeset =
  added :: "string list"
  updated :: "string list"
  removed :: "string list"
  unchanged :: "string list"
  affected :: "string list"

fun classify :: "plan \<Rightarrow> plan \<Rightarrow> (string \<Rightarrow> string) \<Rightarrow> (string \<Rightarrow> string) \<Rightarrow> string list
    \<Rightarrow> string list \<times> string list \<times> string list \<Rightarrow> string list \<times> string list \<times> string list" where
  "classify old new oldrev newrev [] acc = acc"
| "classify old new oldrev newrev (x # xs) (ad, up, un) =
     (if x \<notin> set (plan_start_order old) then classify old new oldrev newrev xs (ad @ [x], up, un)
      else if dependencies old x \<noteq> dependencies new x \<or> oldrev x \<noteq> newrev x
      then classify old new oldrev newrev xs (ad, up @ [x], un)
      else classify old new oldrev newrev xs (ad, up, un @ [x]))"

fun mark :: "string list \<Rightarrow> string set \<Rightarrow> string list \<Rightarrow> string set \<times> string list" where
  "mark [] changed queue = (changed, queue)"
| "mark (d # ds) changed queue =
     (if d \<in> changed then mark ds changed queue else mark ds (insert d changed) (queue @ [d]))"

definition all_dependents :: "plan \<Rightarrow> string set" where
  "all_dependents p = (\<Union>(x, n) \<in> set (plan_nodes p). set (node_dependents n))"

lemma dependents_subset: "set (dependents p x) \<subseteq> all_dependents p"
proof (cases "plan_node p x")
  case (Some n)
  then have "(x, n) \<in> set (plan_nodes p)" by (simp add: plan_node_def map_of_SomeD)
  with Some show ?thesis by (force simp: dependents_def all_dependents_def)
qed (simp add: dependents_def)

lemma finite_all_dependents: "finite (all_dependents p)"
  by (auto simp: all_dependents_def)

text \<open>Every mark moves one node from the unmarked ones to the queue.\<close>

lemma mark_spec:
  "\<exists>new. mark ds changed queue = (changed \<union> set ds, queue @ new) \<and> distinct new \<and>
     set new = set ds - changed"
proof (induction ds arbitrary: changed queue)
  case (Cons d ds)
  show ?case
  proof (cases "d \<in> changed")
    case True
    with Cons.IH [of changed queue] show ?thesis by (auto simp: insert_absorb)
  next
    case False
    from Cons.IH [of "insert d changed" "queue @ [d]"] obtain new where
      "mark ds (insert d changed) (queue @ [d]) = (insert d changed \<union> set ds, (queue @ [d]) @ new)"
      "distinct new" "set new = set ds - insert d changed"
      by blast
    with False show ?thesis by (intro exI [of _ "d # new"]) auto
  qed
qed simp

lemma mark_measure:
  assumes "finite U" and "set ds \<subseteq> U" and "mark ds changed queue = (changed', queue')"
  shows "card (U - changed') + length queue' \<le> card (U - changed) + length queue"
proof -
  obtain new where eq: "changed' = changed \<union> set ds" "queue' = queue @ new" "distinct new"
    and new: "set new = set ds - changed"
    using mark_spec [of ds changed queue] assms(3) by auto
  have "U - changed = (U - changed') \<union> set new" and "(U - changed') \<inter> set new = {}"
    using assms(2) eq(1) new by auto
  then have "card (U - changed) = card (U - changed') + card (set new)"
    using assms(1) by (metis card_Un_disjoint finite_Diff List.finite_set)
  then show ?thesis using eq by (simp add: distinct_card)
qed

function spread :: "plan \<Rightarrow> plan \<Rightarrow> string set \<Rightarrow> string list \<Rightarrow> string set" where
  "spread old new changed queue =
     (case queue of
        [] \<Rightarrow> changed
      | x # rest \<Rightarrow>
          (let (c1, q1) = mark (dependents old x) changed rest;
               (c2, q2) = mark (dependents new x) c1 q1
           in spread old new c2 q2))"
  by pat_completeness auto
termination
proof (relation "measure (\<lambda>(old, new, changed, queue).
    card (all_dependents old \<union> all_dependents new - changed) + length queue)", simp)
  fix old new :: plan and changed queue x rest r c1 q1 r2 c2 q2
  let ?U = "all_dependents old \<union> all_dependents new"
  assume q: "queue = x # rest" and m1: "r = mark (dependents old x) changed rest" and r: "(c1, q1) = r"
    and m2: "r2 = mark (dependents new x) c1 q1" and r2: "(c2, q2) = r2"
  have fin: "finite ?U" by (simp add: finite_all_dependents)
  have "set (dependents old x) \<subseteq> ?U" and "set (dependents new x) \<subseteq> ?U"
    using dependents_subset by blast+
  then have "card (?U - c1) + length q1 \<le> card (?U - changed) + length rest"
    and "card (?U - c2) + length q2 \<le> card (?U - c1) + length q1"
    using mark_measure [OF fin] m1 r m2 r2 by (metis, metis)
  then show "((old, new, c2, q2), old, new, changed, queue)
      \<in> measure (\<lambda>(old, new, changed, queue). card (all_dependents old \<union> all_dependents new - changed) + length queue)"
    using q by simp
qed

declare spread.simps [simp del]

fun collect_affected :: "string set \<Rightarrow> string list \<Rightarrow> string list \<Rightarrow> string list" where
  "collect_affected changed [] acc = acc"
| "collect_affected changed (x # xs) acc =
     collect_affected changed xs (if x \<in> changed \<and> x \<notin> set acc then acc @ [x] else acc)"

definition diff :: "plan \<Rightarrow> plan \<Rightarrow> (string \<Rightarrow> string) \<Rightarrow> (string \<Rightarrow> string) \<Rightarrow> changeset" where
  "diff old new oldrev newrev =
     (let oldIDs = plan_start_order old; newIDs = plan_start_order new;
          (ad, up, un) = classify old new oldrev newrev newIDs ([], [], []);
          re = filter (\<lambda>x. x \<notin> set newIDs) oldIDs;
          queue = ad @ up @ re;
          changed = spread old new (set queue) queue
      in \<lparr>added = ad, updated = up, removed = re, unchanged = un,
          affected = collect_affected changed (oldIDs @ newIDs) []\<rparr>)"

definition no_changes :: "changeset \<Rightarrow> bool" where
  "no_changes c \<longleftrightarrow> length (added c) + length (updated c) + length (removed c) = 0"

subsection \<open>Closed forms\<close>

definition same_node :: "plan \<Rightarrow> plan \<Rightarrow> (string \<Rightarrow> string) \<Rightarrow> (string \<Rightarrow> string) \<Rightarrow> string \<Rightarrow> bool" where
  "same_node old new oldrev newrev x \<longleftrightarrow> dependencies old x = dependencies new x \<and> oldrev x = newrev x"

lemma classify_spec:
  "classify old new oldrev newrev xs (ad, up, un) =
     (ad @ filter (\<lambda>x. x \<notin> set (plan_start_order old)) xs,
      up @ filter (\<lambda>x. x \<in> set (plan_start_order old) \<and> \<not> same_node old new oldrev newrev x) xs,
      un @ filter (\<lambda>x. x \<in> set (plan_start_order old) \<and> same_node old new oldrev newrev x) xs)"
  by (induction xs arbitrary: ad up un) (auto simp: same_node_def)

text \<open>\<open>(a, b)\<close>: node \<open>b\<close> depends on \<open>a\<close> in the old or in the new graph.\<close>

definition impact :: "plan \<Rightarrow> plan \<Rightarrow> (string \<times> string) set" where
  "impact old new = {(a, b). b \<in> set (dependents old a) \<or> b \<in> set (dependents new a)}"

lemma spread_closure:
  assumes "set queue \<subseteq> changed" and "changed \<subseteq> (impact old new)\<^sup>* `` S" and "S \<subseteq> changed"
    and "\<forall>x \<in> changed - set queue. impact old new `` {x} \<subseteq> changed"
  shows "spread old new changed queue = (impact old new)\<^sup>* `` S"
  using assms
proof (induction old new changed queue rule: spread.induct)
  case (1 old new changed queue)
  let ?R = "impact old new"
  show ?case
  proof (cases queue)
    case Nil
    then have "?R `` changed \<subseteq> changed" using "1.prems"(4) by auto
    then have "?R\<^sup>* `` changed \<subseteq> changed" by (rule Image_closed_trancl [THEN equalityD1])
    then have "?R\<^sup>* `` S \<subseteq> changed" using "1.prems"(3) by auto
    with Nil "1.prems"(2) show ?thesis by (simp add: spread.simps)
  next
    case (Cons x rest)
    obtain c1 q1 c2 q2 where m1: "mark (dependents old x) changed rest = (c1, q1)"
      and m2: "mark (dependents new x) c1 q1 = (c2, q2)"
      by (metis surj_pair)
    from mark_spec [of "dependents old x" changed rest] m1
    obtain n1 where c1: "c1 = changed \<union> set (dependents old x)" "q1 = rest @ n1"
      "set n1 = set (dependents old x) - changed" by auto
    from mark_spec [of "dependents new x" c1 q1] m2
    obtain n2 where c2: "c2 = c1 \<union> set (dependents new x)" "q2 = q1 @ n2"
      "set n2 = set (dependents new x) - c1" by auto
    have img: "?R `` {x} = set (dependents old x) \<union> set (dependents new x)"
      by (auto simp: impact_def)
    then have c2': "c2 = changed \<union> ?R `` {x}" using c1 c2 by auto
    have x: "x \<in> changed" using "1.prems"(1) Cons by simp
    have "set q2 \<subseteq> c2" using "1.prems"(1) Cons c1 c2 by auto
    moreover have "c2 \<subseteq> ?R\<^sup>* `` S"
      using "1.prems"(2) x c2' by (auto intro: rtrancl_into_rtrancl)
    moreover have "S \<subseteq> c2" using "1.prems"(3) c2' by auto
    moreover have "\<forall>y \<in> c2 - set q2. ?R `` {y} \<subseteq> c2"
    proof
      fix y assume "y \<in> c2 - set q2"
      then have "y = x \<or> y \<in> changed - set queue"
        using c1 c2 Cons by auto
      then show "?R `` {y} \<subseteq> c2" using "1.prems"(4) c2' by auto
    qed
    ultimately have "spread old new c2 q2 = ?R\<^sup>* `` S"
      by (rule "1.IH" [OF Cons m1 [symmetric] refl m2 [symmetric] refl])
    then show ?thesis using Cons m1 m2 by (simp add: spread.simps [of old new changed "x # rest"])
  qed
qed

lemma collect_affected_set: "set (collect_affected changed xs acc) = set acc \<union> (set xs \<inter> changed)"
  by (induction xs arbitrary: acc) auto

lemma collect_affected_distinct: "distinct acc \<Longrightarrow> distinct (collect_affected changed xs acc)"
  by (induction xs arbitrary: acc) auto

lemma diff_fields:
  assumes "c = diff old new oldrev newrev"
  shows "added c = filter (\<lambda>x. x \<notin> set (plan_start_order old)) (plan_start_order new)"
    and "updated c = filter (\<lambda>x. x \<in> set (plan_start_order old) \<and> \<not> same_node old new oldrev newrev x)
      (plan_start_order new)"
    and "unchanged c = filter (\<lambda>x. x \<in> set (plan_start_order old) \<and> same_node old new oldrev newrev x)
      (plan_start_order new)"
    and "removed c = filter (\<lambda>x. x \<notin> set (plan_start_order new)) (plan_start_order old)"
    and "affected c = collect_affected (spread old new (set (added c @ updated c @ removed c)) (added c @ updated c @ removed c))
      (plan_start_order old @ plan_start_order new) []"
  using assms by (simp_all add: diff_def Let_def classify_spec)

lemma spread_seeds: "spread old new (set seeds) seeds = (impact old new)\<^sup>* `` set seeds"
  by (rule spread_closure) auto

subsection \<open>Properties\<close>

text \<open>\<^verbatim>\<open>diff\<close> sorts every node of the two graphs into exactly one class: added (only in the
  new graph), removed (only in the old one), updated (in both, with other dependencies or another
  revision) or unchanged (in both, the same).\<close>

theorem diff_partition:
  assumes "c = diff old new oldrev newrev"
  shows "set (added c) = set (plan_start_order new) - set (plan_start_order old) \<and>
    set (removed c) = set (plan_start_order old) - set (plan_start_order new) \<and>
    set (updated c) \<union> set (unchanged c) = set (plan_start_order old) \<inter> set (plan_start_order new) \<and>
    set (updated c) \<inter> set (unchanged c) = {} \<and>
    (\<forall>x \<in> set (unchanged c). dependencies old x = dependencies new x \<and> oldrev x = newrev x) \<and>
    (\<forall>x \<in> set (updated c). dependencies old x \<noteq> dependencies new x \<or> oldrev x \<noteq> newrev x)"
  unfolding diff_fields [OF assms] by (auto simp: same_node_def)

text \<open>The affected nodes \<^verbatim>\<open>diff\<close> reports are, without repetition, exactly the nodes of the old or
  new graph that are changed themselves or depend on a changed node through any chain of old or new
  dependencies.\<close>

theorem diff_affected:
  assumes "c = diff old new oldrev newrev"
  shows "distinct (affected c) \<and>
    set (affected c) = (set (plan_start_order old) \<union> set (plan_start_order new)) \<inter>
      (impact old new)\<^sup>* `` (set (added c) \<union> set (updated c) \<union> set (removed c))"
  unfolding diff_fields(5) [OF assms]
  by (simp only: spread_seeds collect_affected_set)
     (auto simp: collect_affected_distinct)

text \<open>A graph that does not change leaves nothing to do.\<close>

lemma no_changes_iff:
  assumes "plan_wf old" and "plan_wf new" and c: "c = diff old new oldrev newrev"
  shows "no_changes c \<longleftrightarrow> set (plan_start_order old) = set (plan_start_order new) \<and>
    (\<forall>x \<in> set (plan_start_order new). dependencies old x = dependencies new x \<and> oldrev x = newrev x)"
  unfolding no_changes_def diff_fields(1,2,4) [OF c]
  by (auto simp: filter_empty_conv same_node_def)

subsection \<open>Concrete runs\<close>

definition demo_items2 :: "item list" where
  "demo_items2 =
     [\<lparr>item_id = ''web'', depends_on = [''auth'']\<rparr>, \<lparr>item_id = ''auth'', depends_on = [''db'']\<rparr>,
      \<lparr>item_id = ''db'', depends_on = []\<rparr>, \<lparr>item_id = ''log'', depends_on = []\<rparr>]"

definition demo_plan2 :: plan where
  "demo_plan2 = projr (build demo_items2)"

definition demo_changes :: changeset where
  "demo_changes = diff demo_plan demo_plan2 (\<lambda>_. ''1'') (\<lambda>x. if x = ''db'' then ''2'' else ''1'')"

theorem diff_partition_witness:
  "demo_changes = diff demo_plan demo_plan2 (\<lambda>_. ''1'') (\<lambda>x. if x = ''db'' then ''2'' else ''1'') \<and>
   unchanged demo_changes = [''auth''] \<and> dependencies demo_plan ''auth'' = dependencies demo_plan2 ''auth''"
proof -
  have "unchanged demo_changes = [''auth'']" by code_simp
  with diff_partition [OF demo_changes_def] demo_changes_def show ?thesis by simp
qed

theorem diff_affected_witness:
  "affected demo_changes = [''db'', ''auth'', ''web'', ''log''] \<and> distinct (affected demo_changes)"
proof -
  have "affected demo_changes = [''db'', ''auth'', ''web'', ''log'']" by code_simp
  with diff_affected [OF demo_changes_def] show ?thesis by simp
qed

end
