(* ===== verification/Reconcile.thy ===== *)
theory Reconcile
  imports Reconcile_Diff
begin

text \<open>
  The transactional replacement of a live graph, \<^verbatim>\<open>ReconcileWithEvidence\<close> of
  \<^verbatim>\<open>src/internal/reconcile/reconciler.go\<close>, with the records of \<^verbatim>\<open>record.go\<close>. The lifecycle and the
  recorder are Go interfaces: every call of a lifecycle method is made at most once in a transaction,
  so an environment gives the outcome of each call as a function of its arguments, and the model
  returns the trace of the calls it made beside the new current deployment and the result. SHA-256
  over JSON, the error texts and the transaction identifier are parameters of the environment.
\<close>

subsection \<open>Data\<close>

text \<open>Stages and statuses are Go strings with named constants; the last constructor of each is any other
  text, which a journal file may hold.\<close>

record 'c deployment =
  dep_plan :: plan
  dep_value :: "'c option"
  dep_revisions :: "string \<Rightarrow> string"

record rnode =
  rn_id :: string
  rn_depends_on :: "string list"
  rn_revision :: string

datatype stage = StagePrepare | StageQuiesce | StageSnapshot | StageMigrate | StageSwap | StageHealth | StageCommit
  | OtherStage string

datatype status = StatusStarted | StatusCompleted | StatusCommitted | StatusRolledBack | OtherStatus string

text \<open>The modules of a descriptor are a Go map, here the list of its pairs in the order of the keys.\<close>

record graph_descriptor =
  gd_revision :: string
  gd_modules :: "(string \<times> string) list"

record evidence =
  ev_lock_digest :: string
  ev_artifact_digests :: "string list"
  ev_fusion_digests :: "string list"

record deployment_record =
  dr_transaction :: string
  dr_stage :: stage
  dr_status :: status
  dr_previous :: graph_descriptor
  dr_desired :: graph_descriptor
  dr_changes :: changeset
  dr_snapshot_ref :: string
  dr_evidence :: evidence
  dr_error :: string

datatype 'e cause = PhaseFailed stage 'e | RecordFailed stage 'e

text \<open>The errors of a reconciliation. \<open>RolledBack\<close> carries the cause, the error of the rollback itself
  and the error of recording it, which the Go code joins.\<close>

datatype 'e reconcile_error =
    InvalidGraph plan_error
  | RecordStart 'e
  | RolledBack "'e cause" "'e option" "'e option"
  | RecordCommitted 'e

datatype call = CallRecord deployment_record | CallPhase stage | CallRollback stage

record ('c, 's, 'e) environment =
  env_prepare :: "plan \<Rightarrow> changeset \<Rightarrow> 'c option \<times> 'e option"
  env_quiesce :: "'c deployment \<Rightarrow> changeset \<Rightarrow> 'e option"
  env_snapshot :: "'c deployment \<Rightarrow> changeset \<Rightarrow> 's option \<times> 'e option"
  env_migrate :: "'c option \<Rightarrow> 's option \<Rightarrow> changeset \<Rightarrow> 'e option"
  env_swap :: "'c deployment \<Rightarrow> 'c option \<Rightarrow> changeset \<Rightarrow> 'e option"
  env_health :: "'c option \<Rightarrow> changeset \<Rightarrow> 'e option"
  env_commit :: "'c deployment \<Rightarrow> 'c option \<Rightarrow> changeset \<Rightarrow> 'e option"
  env_rollback :: "'c deployment \<Rightarrow> 'c option \<Rightarrow> 's option \<Rightarrow> changeset \<Rightarrow> stage \<Rightarrow> 'e option"
  env_recorder :: "(deployment_record \<Rightarrow> 'e option) option"
  env_snapshot_ref :: "'s \<Rightarrow> string option"
  env_error_text :: "'e cause \<Rightarrow> 'e option \<Rightarrow> string"
  env_digest :: "(string \<times> string list \<times> string) list \<Rightarrow> string"
  env_transaction :: string

text \<open>What a running transaction holds: the candidate, the snapshot and the calls made so far.\<close>

record ('c, 's) tx =
  tx_candidate :: "'c option"
  tx_snapshot :: "'s option"
  tx_trace :: "call list"

subsection \<open>Records\<close>

definition graph_descriptor_of :: "('c, 's, 'e) environment \<Rightarrow> plan \<Rightarrow> (string \<Rightarrow> string) \<Rightarrow> graph_descriptor" where
  "graph_descriptor_of env p revs =
     \<lparr>gd_revision = env_digest env (map (\<lambda>x. (x, dependencies p x, revs x)) (plan_start_order p)),
      gd_modules = map (\<lambda>x. (x, revs x)) (sort (plan_start_order p))\<rparr>"

definition make_record :: "('c, 's, 'e) environment \<Rightarrow> 'c deployment \<Rightarrow> plan \<Rightarrow> (string \<Rightarrow> string) \<Rightarrow> changeset
    \<Rightarrow> evidence \<Rightarrow> stage \<Rightarrow> status \<Rightarrow> string \<Rightarrow> 's option \<Rightarrow> deployment_record" where
  "make_record env prev desired revs ch ev st stat err snap =
     \<lparr>dr_transaction = env_transaction env, dr_stage = st, dr_status = stat,
      dr_previous = graph_descriptor_of env (dep_plan prev) (dep_revisions prev),
      dr_desired = graph_descriptor_of env desired revs, dr_changes = ch,
      dr_snapshot_ref = (case snap of Some s \<Rightarrow> case_option [] id (env_snapshot_ref env s) | None \<Rightarrow> []), dr_evidence = ev, dr_error = err\<rparr>"

text \<open>A call of the recorder, if there is one.\<close>

definition record_call :: "('c, 's, 'e) environment \<Rightarrow> deployment_record \<Rightarrow> ('c, 's) tx \<Rightarrow> ('c, 's) tx \<times> 'e option" where
  "record_call env r t =
     (case env_recorder env of
        None \<Rightarrow> (t, None)
      | Some f \<Rightarrow> (t\<lparr>tx_trace := tx_trace t @ [CallRecord r]\<rparr>, f r))"

subsection \<open>The transaction\<close>

text \<open>One phase: the lifecycle call, then the record that it completed. The failure of either ends the
  forward path with the phase's stage.\<close>

definition phase :: "('c, 's, 'e) environment \<Rightarrow> (stage \<Rightarrow> status \<Rightarrow> string \<Rightarrow> 's option \<Rightarrow> deployment_record)
    \<Rightarrow> stage \<Rightarrow> (('c, 's) tx \<Rightarrow> ('c, 's) tx \<times> 'e option) \<Rightarrow> ('c, 's) tx
    \<Rightarrow> (stage \<times> 'e cause \<times> ('c, 's) tx, ('c, 's) tx) result" where
  "phase env mk st act t =
     (case act (t\<lparr>tx_trace := tx_trace t @ [CallPhase st]\<rparr>) of
        (t1, Some e) \<Rightarrow> Inl (st, PhaseFailed st e, t1)
      | (t1, None) \<Rightarrow>
          (case record_call env (mk st StatusCompleted [] (tx_snapshot t1)) t1 of
             (t2, Some e) \<Rightarrow> Inl (st, RecordFailed st e, t2)
           | (t2, None) \<Rightarrow> Inr t2))"

definition commit_phase :: "('c, 's, 'e) environment \<Rightarrow> 'c deployment \<Rightarrow> changeset \<Rightarrow> ('c, 's) tx
    \<Rightarrow> (stage \<times> 'e cause \<times> ('c, 's) tx, ('c, 's) tx) result" where
  "commit_phase env prev ch t =
     (let t1 = t\<lparr>tx_trace := tx_trace t @ [CallPhase StageCommit]\<rparr>
      in case env_commit env prev (tx_candidate t) ch of
           Some e \<Rightarrow> Inl (StageCommit, PhaseFailed StageCommit e, t1)
         | None \<Rightarrow> Inr t1)"

definition forward :: "('c, 's, 'e) environment \<Rightarrow> (stage \<Rightarrow> status \<Rightarrow> string \<Rightarrow> 's option \<Rightarrow> deployment_record)
    \<Rightarrow> 'c deployment \<Rightarrow> plan \<Rightarrow> changeset \<Rightarrow> ('c, 's) tx
    \<Rightarrow> (stage \<times> 'e cause \<times> ('c, 's) tx, ('c, 's) tx) result" where
  "forward env mk prev desired ch t =
     bindE (phase env mk StagePrepare
        (\<lambda>t. let (c, e) = env_prepare env desired ch in (t\<lparr>tx_candidate := c\<rparr>, e)) t) (\<lambda>t.
     bindE (phase env mk StageQuiesce (\<lambda>t. (t, env_quiesce env prev ch)) t) (\<lambda>t.
     bindE (phase env mk StageSnapshot
        (\<lambda>t. let (s, e) = env_snapshot env prev ch in (t\<lparr>tx_snapshot := s\<rparr>, e)) t) (\<lambda>t.
     bindE (phase env mk StageMigrate (\<lambda>t. (t, env_migrate env (tx_candidate t) (tx_snapshot t) ch)) t) (\<lambda>t.
     bindE (phase env mk StageSwap (\<lambda>t. (t, env_swap env prev (tx_candidate t) ch)) t) (\<lambda>t.
     bindE (phase env mk StageHealth (\<lambda>t. (t, env_health env (tx_candidate t) ch)) t) (\<lambda>t.
     commit_phase env prev ch t))))))"

definition rollback :: "('c, 's, 'e) environment \<Rightarrow> (stage \<Rightarrow> status \<Rightarrow> string \<Rightarrow> 's option \<Rightarrow> deployment_record)
    \<Rightarrow> 'c deployment \<Rightarrow> changeset \<Rightarrow> stage \<Rightarrow> 'e cause \<Rightarrow> ('c, 's) tx \<Rightarrow> ('c, 's) tx \<times> 'e reconcile_error" where
  "rollback env mk prev ch st cause t =
     (let rb = env_rollback env prev (tx_candidate t) (tx_snapshot t) ch st;
          t1 = t\<lparr>tx_trace := tx_trace t @ [CallRollback st]\<rparr>;
          (t2, rec) = record_call env (mk st StatusRolledBack (env_error_text env cause rb) (tx_snapshot t1)) t1
      in (t2, RolledBack cause rb rec))"

definition transact :: "('c, 's, 'e) environment \<Rightarrow> (stage \<Rightarrow> status \<Rightarrow> string \<Rightarrow> 's option \<Rightarrow> deployment_record)
    \<Rightarrow> 'c deployment \<Rightarrow> plan \<Rightarrow> (string \<Rightarrow> string) \<Rightarrow> changeset
    \<Rightarrow> 'c deployment \<times> 'e reconcile_error option \<times> call list" where
  "transact env mk prev desired revs ch =
     (case record_call env (mk StagePrepare StatusStarted [] None)
             \<lparr>tx_candidate = None, tx_snapshot = None, tx_trace = []\<rparr> of
        (t, Some e) \<Rightarrow> (prev, Some (RecordStart e), tx_trace t)
      | (t, None) \<Rightarrow>
          (case forward env mk prev desired ch t of
             Inl (st, cause, t1) \<Rightarrow>
               (let (t2, err) = rollback env mk prev ch st cause t1 in (prev, Some err, tx_trace t2))
           | Inr t1 \<Rightarrow>
               (let new = \<lparr>dep_plan = desired, dep_value = tx_candidate t1, dep_revisions = revs\<rparr>;
                    (t2, rec) = record_call env (mk StageCommit StatusCommitted [] (tx_snapshot t1)) t1
                in (new, map_option RecordCommitted rec, tx_trace t2))))"

fun revisions_of :: "rnode list \<Rightarrow> (string \<Rightarrow> string) \<Rightarrow> string \<Rightarrow> string" where
  "revisions_of [] f = f"
| "revisions_of (n # ns) f = revisions_of ns (f(rn_id n := rn_revision n))"

definition items_of :: "rnode list \<Rightarrow> item list" where
  "items_of ns = map (\<lambda>n. \<lparr>item_id = rn_id n, depends_on = rn_depends_on n\<rparr>) ns"

definition empty_changes :: changeset where
  "empty_changes = \<lparr>added = [], updated = [], removed = [], unchanged = [], affected = []\<rparr>"

text \<open>The result: the deployment that is current afterwards, the change set, the error and the calls.\<close>

definition reconcile :: "('c, 's, 'e) environment \<Rightarrow> 'c deployment \<Rightarrow> rnode list \<Rightarrow> evidence
    \<Rightarrow> 'c deployment \<times> changeset \<times> 'e reconcile_error option \<times> call list" where
  "reconcile env prev nodes ev =
     (let revs = revisions_of nodes (\<lambda>_. [])
      in case build (items_of nodes) of
           Inl e \<Rightarrow> (prev, empty_changes, Some (InvalidGraph e), [])
         | Inr desired \<Rightarrow>
             (let ch = diff (dep_plan prev) desired (dep_revisions prev) revs
              in if no_changes ch then (prev, ch, None, [])
                 else (let (cur, err, tr) =
                         transact env (make_record env prev desired revs ch ev) prev desired revs ch
                       in (cur, ch, err, tr))))"

definition replace :: "('c, 's, 'e) environment \<Rightarrow> 'c deployment \<Rightarrow> item list
    \<Rightarrow> 'c deployment \<times> changeset \<times> 'e reconcile_error option \<times> call list" where
  "replace env prev items =
     reconcile env prev (map (\<lambda>it. \<lparr>rn_id = item_id it, rn_depends_on = depends_on it, rn_revision = []\<rparr>) items)
       \<lparr>ev_lock_digest = [], ev_artifact_digests = [], ev_fusion_digests = []\<rparr>"

subsection \<open>The calls of a transaction\<close>

text \<open>The lifecycle calls of a trace, without the records between them.\<close>

fun lifecycle :: "call list \<Rightarrow> call list" where
  "lifecycle [] = []"
| "lifecycle (CallRecord r # cs) = lifecycle cs"
| "lifecycle (c # cs) = c # lifecycle cs"

definition stages :: "stage list" where
  "stages = [StagePrepare, StageQuiesce, StageSnapshot, StageMigrate, StageSwap, StageHealth, StageCommit]"

text \<open>The stage and status of the records a transaction handed to the recorder, in order.\<close>

fun recorded :: "call list \<Rightarrow> (stage \<times> status) list" where
  "recorded [] = []"
| "recorded (CallRecord r # cs) = (dr_stage r, dr_status r) # recorded cs"
| "recorded (c # cs) = recorded cs"

lemma lifecycle_append [simp]: "lifecycle (xs @ ys) = lifecycle xs @ lifecycle ys"
  by (induction xs rule: lifecycle.induct) auto

lemma recorded_append [simp]: "recorded (xs @ ys) = recorded xs @ recorded ys"
  by (induction xs rule: recorded.induct) auto

lemma record_call_keeps:
  "record_call env r t = (t', e) \<Longrightarrow> tx_candidate t' = tx_candidate t \<and> tx_snapshot t' = tx_snapshot t
     \<and> lifecycle (tx_trace t') = lifecycle (tx_trace t)"
  by (auto simp: record_call_def split: option.splits)

lemma record_call_recorded:
  "record_call env r t = (t', e) \<Longrightarrow> recorded (tx_trace t') =
     recorded (tx_trace t) @ (if env_recorder env = None then [] else [(dr_stage r, dr_status r)])"
  by (auto simp: record_call_def split: option.splits)

lemma record_call_accepts:
  "(\<And>f r. env_recorder env = Some f \<Longrightarrow> f r = None) \<Longrightarrow> snd (record_call env r t) = None"
  by (auto simp: record_call_def split: option.splits)

text \<open>Every action of \<^const>\<open>forward\<close> leaves the trace alone, and a record carries the stage and the
  status it was made for.\<close>

definition quiet :: "(('c, 's) tx \<Rightarrow> ('c, 's) tx \<times> 'e option) \<Rightarrow> bool" where
  "quiet act \<longleftrightarrow> (\<forall>t. tx_trace (fst (act t)) = tx_trace t)"

definition labelled :: "(stage \<Rightarrow> status \<Rightarrow> string \<Rightarrow> 's option \<Rightarrow> deployment_record) \<Rightarrow> bool" where
  "labelled mk \<longleftrightarrow> (\<forall>st stat e s. dr_stage (mk st stat e s) = st \<and> dr_status (mk st stat e s) = stat)"

lemma labelled_make_record: "labelled (make_record env prev desired revs ch ev)"
  by (simp add: labelled_def make_record_def)

text \<open>The trace of a transaction that has completed its first \<open>k\<close> phases, and of one that failed in
  phase \<open>k\<close>: a phase that failed was not recorded, a record that failed was handed over.\<close>

definition completed :: "bool \<Rightarrow> nat \<Rightarrow> (stage \<times> status) list" where
  "completed recording k = (if recording then map (\<lambda>s. (s, StatusCompleted)) (take k stages) else [])"

definition progress :: "bool \<Rightarrow> ('c, 's) tx \<Rightarrow> nat \<Rightarrow> ('c, 's) tx \<Rightarrow> bool" where
  "progress recording t k t' \<longleftrightarrow>
     lifecycle (tx_trace t') = lifecycle (tx_trace t) @ map CallPhase (take k stages) \<and>
     recorded (tx_trace t') = recorded (tx_trace t) @ completed recording k"

fun attempts :: "nat \<Rightarrow> 'e cause \<Rightarrow> nat" where
  "attempts k (PhaseFailed _ _) = k"
| "attempts k (RecordFailed _ _) = Suc k"

definition stopped :: "bool \<Rightarrow> ('c, 's) tx \<Rightarrow> stage \<times> 'e cause \<times> ('c, 's) tx \<Rightarrow> bool" where
  "stopped recording t r \<longleftrightarrow> (case r of (st, c, t') \<Rightarrow>
     (\<exists>k < length stages. stages ! k = st \<and>
        lifecycle (tx_trace t') = lifecycle (tx_trace t) @ map CallPhase (take (Suc k) stages) \<and>
        recorded (tx_trace t') = recorded (tx_trace t) @ completed recording (attempts k c)))"

lemma take_Suc_stages: "k < length stages \<Longrightarrow> take (Suc k) stages = take k stages @ [stages ! k]"
  by (rule take_Suc_conv_app_nth)

lemma completed_Suc:
  "k < length stages \<Longrightarrow> completed b (Suc k) = completed b k @ (if b then [(stages ! k, StatusCompleted)] else [])"
  by (simp add: completed_def take_Suc_stages)

lemma progress_0: "progress b t 0 t"
  by (simp add: progress_def completed_def)

lemma phase_progress:
  fixes env :: "('c, 's, 'e) environment"
  defines "b \<equiv> env_recorder env \<noteq> None"
  assumes q: "quiet act" and l: "labelled mk" and p: "progress b t0 k t" and k: "k < length stages"
    and st: "st = stages ! k"
  shows "case phase env mk st act t of Inr t' \<Rightarrow> progress b t0 (Suc k) t' | Inl r \<Rightarrow> stopped b t0 r"
proof -
  obtain t1 e where act: "act (t\<lparr>tx_trace := tx_trace t @ [CallPhase st]\<rparr>) = (t1, e)"
    by (metis surj_pair)
  have t1: "tx_trace t1 = tx_trace t @ [CallPhase st]"
    using q act unfolding quiet_def by (metis fst_conv select_convs(3) surjective update_convs(3))
  obtain t2 e2 where rc: "record_call env (mk st StatusCompleted [] (tx_snapshot t1)) t1 = (t2, e2)"
    by (metis surj_pair)
  note tr = record_call_keeps [OF rc] record_call_recorded [OF rc]
  have fields: "dr_stage (mk st StatusCompleted [] s) = st" "dr_status (mk st StatusCompleted [] s) = StatusCompleted" for s
    using l by (simp_all add: labelled_def)
  show ?thesis
    using act t1 rc tr p k st fields
    by (cases e; cases e2)
       (auto simp: phase_def progress_def stopped_def take_Suc_stages completed_Suc b_def intro!: exI [of _ k])
qed

lemma bindE_progress:
  assumes "case r of Inr t' \<Rightarrow> P t' | Inl e \<Rightarrow> Q e"
    and "\<And>t'. P t' \<Longrightarrow> (case f t' of Inr t'' \<Rightarrow> R t'' | Inl e \<Rightarrow> Q e)"
  shows "case bindE r f of Inr t'' \<Rightarrow> R t'' | Inl e \<Rightarrow> Q e"
  using assms by (cases r) auto

lemma commit_phase_progress:
  assumes "progress b t0 6 t"
  shows "case commit_phase env prev ch t of
           Inr t' \<Rightarrow> lifecycle (tx_trace t') = lifecycle (tx_trace t0) @ map CallPhase stages \<and>
             recorded (tx_trace t') = recorded (tx_trace t0) @ completed b 6
         | Inl r \<Rightarrow> stopped b t0 r"
  using assms
  by (auto simp: commit_phase_def progress_def stopped_def stages_def Let_def split: option.splits intro!: exI [of _ 6])

lemma phase_then:
  fixes env :: "('c, 's, 'e) environment" and k :: nat
  assumes "quiet act" and "progress (env_recorder env \<noteq> None) t k t'" and "k < length stages"
    and "\<And>t'. progress (env_recorder env \<noteq> None) t (Suc k) t' \<Longrightarrow>
           (case f t' of Inr t'' \<Rightarrow> R t'' | Inl e \<Rightarrow> stopped (env_recorder env \<noteq> None) t e)"
    and "labelled mk"
  shows "case bindE (phase env mk (stages ! k) act t') f of
           Inr t'' \<Rightarrow> R t'' | Inl e \<Rightarrow> stopped (env_recorder env \<noteq> None) t e"
  using bindE_progress [OF phase_progress [OF assms(1,5,2,3) refl]] assms(4) by blast

lemma forward_trace:
  fixes env :: "('c, 's, 'e) environment"
  assumes l: "labelled mk"
  shows "case forward env mk prev desired ch t of
           Inr t' \<Rightarrow> lifecycle (tx_trace t') = lifecycle (tx_trace t) @ map CallPhase stages \<and>
             recorded (tx_trace t') = recorded (tx_trace t) @ completed (env_recorder env \<noteq> None) 6
         | Inl r \<Rightarrow> stopped (env_recorder env \<noteq> None) t r"
proof -
  have st: "StagePrepare = stages ! 0" "StageQuiesce = stages ! 1" "StageSnapshot = stages ! 2"
    "StageMigrate = stages ! 3" "StageSwap = stages ! 4" "StageHealth = stages ! 5" and len: "length stages = 7"
    by (simp_all add: stages_def)
  note acts = quiet_def len progress_0 split_def Let_def
  show ?thesis
    unfolding forward_def st
    by (intro phase_then [OF _ _ _ _ l] commit_phase_progress) (simp_all add: acts numeral_eq_Suc)
qed

lemma record_call_none [simp]: "env_recorder env = None \<Longrightarrow> record_call env r t = (t, None)"
  by (simp add: record_call_def)

lemma phase_keeps_candidate:
  assumes "phase env mk st act t = Inr t'" and "\<And>t. tx_candidate (fst (act t)) = tx_candidate t"
  shows "tx_candidate t' = tx_candidate t"
proof -
  obtain t1 e where act: "act (t\<lparr>tx_trace := tx_trace t @ [CallPhase st]\<rparr>) = (t1, e)"
    by (metis surj_pair)
  have "tx_candidate t1 = tx_candidate t"
    using assms(2) [of "t\<lparr>tx_trace := tx_trace t @ [CallPhase st]\<rparr>"] act by simp
  then show ?thesis
    using assms(1) act record_call_keeps by (fastforce simp: phase_def split: option.splits prod.splits)
qed

lemma phase_prepare_candidate:
  assumes "phase env mk StagePrepare
     (\<lambda>t. let (c, e) = env_prepare env desired ch in (t\<lparr>tx_candidate := c\<rparr>, e)) t = Inr t'"
  shows "tx_candidate t' = fst (env_prepare env desired ch)"
  using assms record_call_keeps by (fastforce simp: phase_def Let_def split: option.splits prod.splits)

lemma forward_candidate:
  assumes "forward env mk prev desired ch t = Inr t'"
  shows "tx_candidate t' = fst (env_prepare env desired ch)"
  using assms unfolding forward_def commit_phase_def
  by (auto simp: bindE_Inr_conv Let_def split_def split: option.splits
      dest!: phase_keeps_candidate phase_prepare_candidate [unfolded Let_def split_def])

subsection \<open>Outcomes\<close>

definition activated :: "('c, 's, 'e) environment \<Rightarrow> rnode list \<Rightarrow> plan \<Rightarrow> changeset \<Rightarrow> 'c deployment" where
  "activated env nodes p ch =
     \<lparr>dep_plan = p, dep_value = fst (env_prepare env p ch), dep_revisions = revisions_of nodes (\<lambda>_. [])\<rparr>"

text \<open>What a transaction that ended with the given error has done: the deployment it leaves current,
  the lifecycle calls it made and the records it handed over.\<close>

fun outcome :: "bool \<Rightarrow> 'c deployment \<Rightarrow> 'c deployment \<Rightarrow> 'e reconcile_error option \<Rightarrow> 'c deployment \<Rightarrow> call list \<Rightarrow> bool" where
  "outcome b prev new (Some (InvalidGraph e)) cur tr \<longleftrightarrow> cur = prev \<and> tr = []"
| "outcome b prev new (Some (RecordStart e)) cur tr \<longleftrightarrow>
     b \<and> cur = prev \<and> lifecycle tr = [] \<and> recorded tr = [(StagePrepare, StatusStarted)]"
| "outcome b prev new (Some (RolledBack c rb re)) cur tr \<longleftrightarrow>
     cur = prev \<and> (\<exists>k < length stages.
       lifecycle tr = map CallPhase (take (Suc k) stages) @ [CallRollback (stages ! k)] \<and>
       (b \<longrightarrow> recorded tr = (StagePrepare, StatusStarted) # completed True (attempts k c) @ [(stages ! k, StatusRolledBack)]))"
| "outcome b prev new (Some (RecordCommitted e)) cur tr \<longleftrightarrow>
     b \<and> cur = new \<and> lifecycle tr = map CallPhase stages \<and>
     recorded tr = (StagePrepare, StatusStarted) # completed True 6 @ [(StageCommit, StatusCommitted)]"
| "outcome b prev new None cur tr \<longleftrightarrow>
     cur = new \<and> lifecycle tr = map CallPhase stages \<and>
     (b \<longrightarrow> recorded tr = (StagePrepare, StatusStarted) # completed True 6 @ [(StageCommit, StatusCommitted)])"

lemma rollback_trace:
  assumes "rollback env mk prev ch st c t = (t', err)" and "labelled mk"
  shows "lifecycle (tx_trace t') = lifecycle (tx_trace t) @ [CallRollback st]"
    and "recorded (tx_trace t') = recorded (tx_trace t) @ (if env_recorder env = None then [] else [(st, StatusRolledBack)])"
    and "\<exists>rb re. err = RolledBack c rb re"
  using assms record_call_keeps record_call_recorded
  by (fastforce simp: rollback_def Let_def labelled_def split: prod.splits)+

lemma record_call_error:
  "record_call env r t = (t', Some e) \<Longrightarrow> env_recorder env \<noteq> None"
  by (auto simp: record_call_def split: option.splits)

lemma transact_outcome:
  fixes env :: "('c, 's, 'e) environment"
  assumes tr: "transact env mk prev desired revs ch = (cur, err, tr)" and l: "labelled mk"
  shows "(\<forall>e. err \<noteq> Some (InvalidGraph e)) \<and> outcome (env_recorder env \<noteq> None) prev
    \<lparr>dep_plan = desired, dep_value = fst (env_prepare env desired ch), dep_revisions = revs\<rparr> err cur tr"
proof -
  define b where "b = (env_recorder env \<noteq> None)"
  have lab: "dr_stage (mk st stat e s) = st" "dr_status (mk st stat e s) = stat" for st stat e s
    using l by (simp_all add: labelled_def)
  define t0 :: "('c, 's) tx" where "t0 = \<lparr>tx_candidate = None, tx_snapshot = None, tx_trace = []\<rparr>"
  obtain t e where start: "record_call env (mk StagePrepare StatusStarted [] None) t0 = (t, e)"
    by (metis surj_pair)
  have t: "lifecycle (tx_trace t) = []" "recorded (tx_trace t) = (if b then [(StagePrepare, StatusStarted)] else [])"
    using record_call_keeps [OF start] record_call_recorded [OF start] lab by (simp_all add: t0_def b_def)
  show ?thesis
  proof (cases e)
    case (Some x)
    then show ?thesis
      using tr start t record_call_error [of env _ t0 t x] by (auto simp: transact_def t0_def [symmetric] b_def)
  next
    case None
    note fw = forward_trace [OF l, where env = env and prev = prev and desired = desired and ch = ch and t = t]
    show ?thesis
    proof (cases "forward env mk prev desired ch t")
      case (Inl r)
      obtain st c t1 where r: "r = (st, c, t1)" by (cases r)
      obtain t2 er where rb: "rollback env mk prev ch st c t1 = (t2, er)" by (metis surj_pair)
      show ?thesis
        using tr start None Inl r rb rollback_trace [OF rb l] fw t
        by (auto simp: transact_def t0_def [symmetric] stopped_def b_def completed_def)
    next
      case (Inr t1)
      obtain t2 e2 where rc: "record_call env (mk StageCommit StatusCommitted [] (tx_snapshot t1)) t1 = (t2, e2)"
        by (metis surj_pair)
      show ?thesis
        using tr start None Inr rc record_call_keeps [OF rc] record_call_recorded [OF rc] fw t lab
          forward_candidate [OF Inr] record_call_error [of env _ t1 t2]
        by (cases e2) (auto simp: transact_def t0_def [symmetric] b_def completed_def)
    qed
  qed
qed


lemma phase_succeeds:
  assumes "\<And>t. snd (act t) = None" and rec: "\<And>r t. snd (record_call env r t) = None"
  shows "\<exists>t'. phase env mk st act t = Inr t'"
proof -
  obtain t1 where "act (t\<lparr>tx_trace := tx_trace t @ [CallPhase st]\<rparr>) = (t1, None)"
    using assms(1) by (metis prod.collapse)
  moreover obtain t2 where "record_call env (mk st StatusCompleted [] (tx_snapshot t1)) t1 = (t2, None)"
    using rec by (metis prod.collapse)
  ultimately show ?thesis by (simp add: phase_def)
qed

text \<open>An environment in which no phase and no record fails.\<close>

definition succeeding :: "('c, 's, 'e) environment \<Rightarrow> bool" where
  "succeeding env \<longleftrightarrow>
     (\<forall>p ch. snd (env_prepare env p ch) = None) \<and> (\<forall>d ch. env_quiesce env d ch = None) \<and>
     (\<forall>d ch. snd (env_snapshot env d ch) = None) \<and> (\<forall>c s ch. env_migrate env c s ch = None) \<and>
     (\<forall>d c ch. env_swap env d c ch = None) \<and> (\<forall>c ch. env_health env c ch = None) \<and>
     (\<forall>d c ch. env_commit env d c ch = None) \<and> (\<forall>f r. env_recorder env = Some f \<longrightarrow> f r = None)"

lemma forward_succeeds:
  fixes env :: "('c, 's, 'e) environment"
  assumes s: "succeeding env"
  shows "\<exists>t'. forward env mk prev desired ch t = Inr t'"
proof -
  have rec: "snd (record_call env r t) = None" for r and t :: "('c, 's) tx"
    using s by (intro record_call_accepts) (auto simp: succeeding_def)
  have next_phase: "\<exists>t''. bindE (phase env mk st act t') f = Inr t''"
    if "\<And>t. snd (act t) = None" "\<And>t. \<exists>t''. f t = Inr t''"
    for st act t' and f :: "('c, 's) tx \<Rightarrow> (stage \<times> 'e cause \<times> ('c, 's) tx, ('c, 's) tx) result"
    using phase_succeeds [OF that(1) rec, where mk = mk and st = st and t = t'] that(2) by force
  show ?thesis
    unfolding forward_def commit_phase_def
    by (intro next_phase) (use s in \<open>auto simp: succeeding_def split_def Let_def intro!: next_phase\<close>)
qed

text \<open>C31: A reconciliation to a valid graph goes through when no phase and no record fails: it returns
  without an error, whatever the previous deployment was.\<close>

theorem reconcile_commits:
  fixes env :: "('c, 's, 'e) environment"
  assumes "build (items_of nodes) = Inr p" and "succeeding env"
  shows "\<exists>cur ch tr. reconcile env prev nodes ev = (cur, ch, None, tr)
     \<and> (no_changes ch \<or> cur = activated env nodes p ch)"
proof -
  define revs where "revs = revisions_of nodes (\<lambda>_. [])"
  define c where "c = diff (dep_plan prev) p (dep_revisions prev) revs"
  define mk where "mk = make_record env prev p revs c ev"
  have rec: "snd (record_call env r t) = None" for r and t :: "('c, 's) tx"
    using assms(2) by (intro record_call_accepts) (auto simp: succeeding_def)
  obtain t where t: "record_call env (mk StagePrepare StatusStarted [] None)
      \<lparr>tx_candidate = None, tx_snapshot = None, tx_trace = []\<rparr> = (t, None)"
    using rec by (metis prod.collapse)
  obtain t' where t': "forward env mk prev p c t = Inr t'"
    using forward_succeeds [OF assms(2)] by blast
  obtain t2 where t2: "record_call env (mk StageCommit StatusCommitted [] (tx_snapshot t')) t' = (t2, None)"
    using rec by (metis prod.collapse)
  have "transact env mk prev p revs c =
    (\<lparr>dep_plan = p, dep_value = tx_candidate t', dep_revisions = revs\<rparr>, None, tx_trace t2)"
    using t t' t2 by (simp add: transact_def)
  then show ?thesis
    using assms(1) forward_candidate [OF t']
    by (simp add: reconcile_def activated_def revs_def [symmetric] c_def [symmetric] mk_def [symmetric])
qed

subsection \<open>Convergence\<close>

lemma revisions_of_other: "x \<notin> rn_id ` set ns \<Longrightarrow> revisions_of ns f x = f x"
  by (induction ns arbitrary: f) auto

lemma revisions_of_member:
  "distinct (map rn_id ns) \<Longrightarrow> n \<in> set ns \<Longrightarrow> revisions_of ns f (rn_id n) = rn_revision n"
  by (induction ns arbitrary: f) (auto simp: revisions_of_other)

lemma ids_items_of [simp]: "ids (items_of nodes) = map rn_id nodes"
  by (simp add: ids_def items_of_def)

text \<open>A deployment realises a list of nodes when its plan has exactly their identifiers and each has the
  dependencies and the revision that the node asks for.\<close>

definition realises :: "'c deployment \<Rightarrow> rnode list \<Rightarrow> bool" where
  "realises d nodes \<longleftrightarrow> set (plan_start_order (dep_plan d)) = rn_id ` set nodes \<and>
     (\<forall>n \<in> set nodes. dependencies (dep_plan d) (rn_id n) = rn_depends_on n \<and> dep_revisions d (rn_id n) = rn_revision n)"

lemma built_nodes:
  assumes "build (items_of nodes) = Inr p"
  shows "distinct (map rn_id nodes)" and "set (plan_start_order p) = rn_id ` set nodes" and "plan_wf p"
    and "n \<in> set nodes \<Longrightarrow> dependencies p (rn_id n) = rn_depends_on n"
proof -
  show "distinct (map rn_id nodes)"
    using build_Inr_valid [OF assms] by (simp add: valid_items_def)
  show "set (plan_start_order p) = rn_id ` set nodes"
    using dp.mk_nodes [OF assms] by simp
  show "plan_wf p" by (rule dp.mk_wf [OF assms])
  assume "n \<in> set nodes"
  then show "dependencies p (rn_id n) = rn_depends_on n"
    using dp.mk_deps [OF assms, of "\<lparr>item_id = rn_id n, depends_on = rn_depends_on n\<rparr>"]
    by (force simp: items_of_def)
qed

lemma no_changes_realises:
  assumes b: "build (items_of nodes) = Inr p" and "plan_wf (dep_plan d)"
  shows "no_changes (diff (dep_plan d) p (dep_revisions d) (revisions_of nodes (\<lambda>_. []))) \<longleftrightarrow> realises d nodes"
proof -
  note n = built_nodes [OF b]
  show ?thesis
    unfolding no_changes_iff [OF assms(2) n(3) refl] realises_def n(2)
    using n(4) revisions_of_member [OF n(1)] by auto
qed

lemma activated_realises:
  assumes "build (items_of nodes) = Inr p"
  shows "realises (activated env nodes p ch) nodes" and "plan_wf (dep_plan (activated env nodes p ch))"
  using built_nodes [OF assms] revisions_of_member by (auto simp: activated_def realises_def)

text \<open>C20: A reconciliation that reports no error, or that failed only to record its commit, has
  converged: the current plan is well formed, it has exactly the desired modules with the desired
  dependencies and revisions, and reconciling to the same modules again changes nothing and calls
  nothing. Every other error leaves the well-formed plan it found.\<close>

theorem reconcile_converges:
  assumes r: "reconcile env prev nodes ev = (cur, ch, err, tr)" and wf: "plan_wf (dep_plan prev)"
  shows "if \<forall>e. err = Some e \<longrightarrow> (\<exists>x. e = RecordCommitted x)
         then plan_wf (dep_plan cur) \<and> realises cur nodes \<and>
           (\<exists>ch'. no_changes ch' \<and> reconcile env cur nodes ev = (cur, ch', None, []))
         else cur = prev"
proof -
  have again: "\<exists>ch'. no_changes ch' \<and> reconcile env d nodes ev = (d, ch', None, [])"
    if "realises d nodes" "plan_wf (dep_plan d)" "build (items_of nodes) = Inr p" for d p
    using no_changes_realises [OF that(3,2)] that by (simp add: reconcile_def)
  show ?thesis
  proof (cases "build (items_of nodes)")
    case (Inl e)
    then show ?thesis using r by (auto simp: reconcile_def)
  next
    case (Inr p)
    define c where "c = diff (dep_plan prev) p (dep_revisions prev) (revisions_of nodes (\<lambda>_. []))"
    show ?thesis
    proof (cases "no_changes c")
      case True
      then have "realises prev nodes" using no_changes_realises [OF Inr wf] by (simp add: c_def)
      then show ?thesis using again [OF _ wf Inr] wf r Inr True by (auto simp: reconcile_def c_def)
    next
      case False
      obtain cur' err' tr' where t: "transact env (make_record env prev p (revisions_of nodes (\<lambda>_. [])) c ev) prev p
          (revisions_of nodes (\<lambda>_. [])) c = (cur', err', tr')"
        by (metis prod_cases3)
      have eq: "cur' = cur" "err' = err" using r t False Inr by (auto simp: reconcile_def c_def)
      have out: "outcome (env_recorder env \<noteq> None) prev (activated env nodes p c) err cur tr'"
          "\<forall>e. err \<noteq> Some (InvalidGraph e)"
        using transact_outcome [OF t labelled_make_record] eq by (simp_all add: activated_def)
      note act = activated_realises [OF Inr, of env c]
      show ?thesis
      proof (cases "\<forall>e. err = Some e \<longrightarrow> (\<exists>x. e = RecordCommitted x)")
        case True
        then have "cur = activated env nodes p c" using out by (cases err) auto
        then show ?thesis using True act again [OF act Inr] by simp
      next
        case False
        then obtain e where "err = Some e" "\<nexists>x. e = RecordCommitted x" by blast
        then have "cur = prev" using out by (cases e) auto
        with False show ?thesis by (metis (mono_tags))
      qed
    qed
  qed
qed

subsection \<open>Witnesses\<close>

definition demo_env :: "(string, string, string) environment" where
  "demo_env = \<lparr>env_prepare = (\<lambda>_ _. (Some ''next'', None)), env_quiesce = (\<lambda>_ _. None),
     env_snapshot = (\<lambda>_ _. (Some ''snap'', None)), env_migrate = (\<lambda>_ _ _. None), env_swap = (\<lambda>_ _ _. None),
     env_health = (\<lambda>_ _. None), env_commit = (\<lambda>_ _ _. None), env_rollback = (\<lambda>_ _ _ _ _. None),
     env_recorder = Some (\<lambda>_. None), env_snapshot_ref = Some, env_error_text = (\<lambda>_ _. ''failed''),
     env_digest = (\<lambda>_. ''digest''), env_transaction = ''tx''\<rparr>"

definition demo_sick :: "(string, string, string) environment" where
  "demo_sick = demo_env\<lparr>env_health := (\<lambda>_ _. Some ''unhealthy'')\<rparr>"

definition demo_nodes :: "rnode list" where
  "demo_nodes = [\<lparr>rn_id = ''a'', rn_depends_on = [], rn_revision = ''2''\<rparr>]"

definition demo_current :: "string deployment" where
  "demo_current = \<lparr>dep_plan = projr (build [\<lparr>item_id = ''a'', depends_on = []\<rparr>]), dep_value = Some ''live'',
     dep_revisions = (\<lambda>_. ''1'')\<rparr>"

definition demo_evidence :: evidence where
  "demo_evidence = \<lparr>ev_lock_digest = [], ev_artifact_digests = [], ev_fusion_digests = []\<rparr>"

definition demo_sick_run :: "string deployment \<times> changeset \<times> string reconcile_error option \<times> call list" where
  "demo_sick_run = reconcile demo_sick demo_current demo_nodes demo_evidence"


theorem reconcile_commits_witness:
  "\<exists>cur ch tr. reconcile demo_env demo_current demo_nodes demo_evidence = (cur, ch, None, tr)"
proof -
  obtain p where "build (items_of demo_nodes) = Inr p" by (cases "build (items_of demo_nodes)") code_simp
  moreover have "succeeding demo_env" by (simp add: succeeding_def demo_env_def)
  ultimately show ?thesis using reconcile_commits by blast
qed

lemma demo_committed_run:
  "map_prod dep_value (\<lambda>x. (fst (snd x), lifecycle (snd (snd x)))) (reconcile demo_env demo_current demo_nodes demo_evidence) =
     (Some ''next'', None, map CallPhase stages)"
  by code_simp

theorem reconcile_converges_witness:
  "realises (fst (reconcile demo_env demo_current demo_nodes demo_evidence)) demo_nodes"
proof -
  obtain cur ch err tr where r: "reconcile demo_env demo_current demo_nodes demo_evidence = (cur, ch, err, tr)"
    by (metis prod_cases4)
  have "err = None" using demo_committed_run unfolding r by simp
  moreover have "plan_wf (dep_plan demo_current)"
  proof -
    obtain p where p: "build [\<lparr>item_id = ''a'', depends_on = []\<rparr>] = Inr p"
      by (cases "build [\<lparr>item_id = ''a'', depends_on = []\<rparr>]") code_simp
    then show ?thesis using dp.mk_wf [OF p] by (simp add: demo_current_def)
  qed
  ultimately show ?thesis using reconcile_converges [OF r] r by simp
qed

end
