(* ===== verification/Journal.thy ===== *)
theory Journal
  imports Reconcile
begin

text \<open>
  The deployment journal of \<^verbatim>\<open>src/internal/reconcile/file_journal.go\<close>: an append-only file with one JSON
  line per record, chained by hashes. The file is its bytes. JSON and SHA-256 are parameters, gathered
  in a record; \<open>codec_ok\<close> names what the journal relies on. A write may stop after some bytes and a sync
  may fail after the bytes are in the file: the outcome of the file operations is an argument of
  \<open>record_entry\<close>.
\<close>

subsection \<open>Data\<close>

record journal_entry =
  je_sequence :: "64 word"
  je_recorded_at :: int
  je_previous_hash :: string
  je_record :: deployment_record
  je_hash :: string

record codec =
  marshal :: "journal_entry \<Rightarrow> string option"
  unmarshal :: "string \<Rightarrow> journal_entry option"
  sha256_hex :: "string \<Rightarrow> string"

record file_journal =
  fj_file :: "string option"
  fj_entries :: "journal_entry list"
  fj_last_hash :: string

datatype journal_error = PathRequired | CorruptRecord nat | CorruptIntegrity "64 word" | MarshalFailed
  | WriteError | SyncError | FileClosed

text \<open>The outcome of writing a line: all of it, its first \<open>k\<close> bytes, or all of it without a sync.\<close>

datatype io = IoOk | ShortWrite nat | SyncFailed

record recovery =
  incomplete :: "journal_entry list"
  last_committed :: "journal_entry option"

subsection \<open>Operations\<close>

definition newline :: char where
  "newline = CHR 0x0A"

text \<open>\<^verbatim>\<open>ReadBytes\<close>: the bytes up to and with the next newline, the rest, and whether the file ended first.\<close>

fun read_line :: "string \<Rightarrow> string \<times> string \<times> bool" where
  "read_line [] = ([], [], True)"
| "read_line (c # cs) = (if c = newline then ([c], cs, False)
     else let (l, r, eof) = read_line cs in (c # l, r, eof))"

definition entry_hash :: "codec \<Rightarrow> journal_entry \<Rightarrow> string" where
  "entry_hash cd e = sha256_hex cd (case marshal cd (e\<lparr>je_hash := []\<rparr>) of Some b \<Rightarrow> b | None \<Rightarrow> [])"

lemma read_line_split: "read_line bs = (l, r, eof) \<Longrightarrow> bs = l @ r"
  by (induction bs arbitrary: l r) (auto split: if_splits prod.splits)

lemma read_line_shorter: "read_line bs = (l, r, False) \<Longrightarrow> length r < length bs"
  by (induction bs arbitrary: l r) (fastforce split: if_splits prod.splits)+

text \<open>One line of the file, appended to the entries if it is intact and continues the chain.\<close>

definition load_line :: "codec \<Rightarrow> journal_entry list \<Rightarrow> string \<Rightarrow> string \<Rightarrow> (journal_error, journal_entry) result" where
  "load_line cd es lh line =
     (case unmarshal cd line of
        None \<Rightarrow> Inl (CorruptRecord (length es + 1))
      | Some e \<Rightarrow>
          if je_sequence e \<noteq> word_of_nat (length es + 1) \<or> je_previous_hash e \<noteq> lh \<or> entry_hash cd e \<noteq> je_hash e
          then Inl (CorruptIntegrity (je_sequence e)) else Inr e)"

text \<open>The loop of \<^verbatim>\<open>load\<close>: it returns the entries, the last hash and the offset at which a torn tail is
  cut off, if there is one.\<close>

function load_loop :: "codec \<Rightarrow> string \<Rightarrow> journal_entry list \<Rightarrow> string \<Rightarrow> nat
    \<Rightarrow> (journal_error, journal_entry list \<times> string \<times> nat option) result" where
  "load_loop cd bs es lh off =
     (case read_line bs of
        (line, rest, True) \<Rightarrow> Inr (es, lh, if line = [] then None else Some off)
      | (line, rest, False) \<Rightarrow>
          bindE (load_line cd es lh line)
            (\<lambda>e. load_loop cd rest (es @ [e]) (je_hash e) (off + length line)))"
  by pat_completeness auto
termination
  by (relation "measure (\<lambda>(cd, bs, es, lh, off). length bs)") (auto dest!: read_line_shorter [OF sym])

declare load_loop.simps [simp del]

definition load :: "codec \<Rightarrow> string \<Rightarrow> (journal_error, file_journal) result" where
  "load cd bs =
     bindE (load_loop cd bs [] [] 0) (\<lambda>(es, lh, torn).
       Inr \<lparr>fj_file = Some (case torn of None \<Rightarrow> bs | Some off \<Rightarrow> take off bs), fj_entries = es, fj_last_hash = lh\<rparr>)"

text \<open>\<^verbatim>\<open>OpenFileJournal\<close> on a path and the bytes of the file there, empty when it is created.\<close>

definition open_file_journal :: "codec \<Rightarrow> string \<Rightarrow> string option \<Rightarrow> (journal_error, file_journal) result" where
  "open_file_journal cd path content =
     (if path = [] then Inl PathRequired else load cd (case content of Some bs \<Rightarrow> bs | None \<Rightarrow> []))"

definition next_entry :: "codec \<Rightarrow> int \<Rightarrow> file_journal \<Rightarrow> deployment_record \<Rightarrow> journal_entry" where
  "next_entry cd now j r =
     (let e = \<lparr>je_sequence = word_of_nat (length (fj_entries j) + 1), je_recorded_at = now,
               je_previous_hash = fj_last_hash j, je_record = r, je_hash = []\<rparr>
      in e\<lparr>je_hash := entry_hash cd e\<rparr>)"

definition record_entry :: "codec \<Rightarrow> int \<Rightarrow> io \<Rightarrow> file_journal \<Rightarrow> deployment_record
    \<Rightarrow> file_journal \<times> journal_error option" where
  "record_entry cd now out j r =
     (let e = next_entry cd now j r
      in case marshal cd e of
           None \<Rightarrow> (j, Some MarshalFailed)
         | Some b \<Rightarrow>
             (let line = b @ [newline]
              in case fj_file j of
                   None \<Rightarrow> (j, Some FileClosed)
                 | Some bs \<Rightarrow>
                     (case out of
                        ShortWrite k \<Rightarrow> (j\<lparr>fj_file := Some (bs @ take k line)\<rparr>, Some WriteError)
                      | SyncFailed \<Rightarrow> (j\<lparr>fj_file := Some (bs @ line)\<rparr>, Some SyncError)
                      | IoOk \<Rightarrow> (j\<lparr>fj_file := Some (bs @ line), fj_entries := fj_entries j @ [e],
                                   fj_last_hash := je_hash e\<rparr>, None))))"

definition close_journal :: "file_journal \<Rightarrow> file_journal" where
  "close_journal j = j\<lparr>fj_file := None\<rparr>"

subsection \<open>Recovery\<close>

definition is_terminal :: "journal_entry \<Rightarrow> bool" where
  "is_terminal e \<longleftrightarrow> dr_status (je_record e) = StatusCommitted \<or> dr_status (je_record e) = StatusRolledBack"

text \<open>Both loops run from the newest entry to the oldest: their argument is the reversed list.\<close>

fun scan_terminal :: "journal_entry list \<Rightarrow> string set \<Rightarrow> journal_entry option \<Rightarrow> string set \<times> journal_entry option" where
  "scan_terminal [] terminal lc = (terminal, lc)"
| "scan_terminal (e # es) terminal lc =
     scan_terminal es
       (if is_terminal e then insert (dr_transaction (je_record e)) terminal else terminal)
       (if dr_status (je_record e) = StatusCommitted \<and> lc = None then Some e else lc)"

fun scan_incomplete :: "string set \<Rightarrow> journal_entry list \<Rightarrow> string set \<Rightarrow> journal_entry list" where
  "scan_incomplete terminal [] seen = []"
| "scan_incomplete terminal (e # es) seen =
     (let x = dr_transaction (je_record e)
      in if x \<notin> terminal \<and> x \<notin> seen then e # scan_incomplete terminal es (insert x seen)
         else scan_incomplete terminal es seen)"

definition recovery_state :: "file_journal \<Rightarrow> recovery" where
  "recovery_state j =
     (let (terminal, lc) = scan_terminal (rev (fj_entries j)) {} None
      in \<lparr>incomplete = scan_incomplete terminal (rev (fj_entries j)) {}, last_committed = lc\<rparr>)"

subsection \<open>Loading\<close>

text \<open>What the journal relies on for an entry: it can be encoded, the line decodes to the entry, and the
  encoding has no newline, as compact JSON has none.\<close>

definition faithful :: "codec \<Rightarrow> journal_entry \<Rightarrow> bool" where
  "faithful cd e \<longleftrightarrow> (case marshal cd e of None \<Rightarrow> False
     | Some b \<Rightarrow> unmarshal cd (b @ [newline]) = Some e \<and> newline \<notin> set b)"

fun chained :: "codec \<Rightarrow> nat \<Rightarrow> string \<Rightarrow> journal_entry list \<Rightarrow> bool" where
  "chained cd n lh [] \<longleftrightarrow> True"
| "chained cd n lh (e # es) \<longleftrightarrow> je_sequence e = word_of_nat (n + 1) \<and> je_previous_hash e = lh \<and>
     entry_hash cd e = je_hash e \<and> chained cd (n + 1) (je_hash e) es"

definition complete_line :: "string \<Rightarrow> bool" where
  "complete_line l \<longleftrightarrow> (\<exists>b. l = b @ [newline] \<and> newline \<notin> set b)"

text \<open>A journal and its file agree.\<close>

definition durable :: "codec \<Rightarrow> file_journal \<Rightarrow> bool" where
  "durable cd j \<longleftrightarrow> (case fj_file j of None \<Rightarrow> False | Some bs \<Rightarrow> load cd bs = Inr j)"

lemma read_line_complete: "newline \<notin> set b \<Longrightarrow> read_line (b @ newline # rest) = (b @ [newline], rest, False)"
  by (induction b) auto

lemma read_line_torn: "newline \<notin> set b \<Longrightarrow> read_line b = (b, [], True)"
  by (induction b) auto

lemma read_line_eof: "read_line bs = (l, r, True) \<Longrightarrow> l = bs \<and> r = [] \<and> newline \<notin> set bs"
  by (induction bs arbitrary: l r) (auto split: if_splits prod.splits)

lemma read_line_not_eof: "read_line bs = (l, r, False) \<Longrightarrow> complete_line l"
proof (induction bs arbitrary: l r)
  case (Cons c cs)
  show ?case
  proof (cases "c = newline")
    case True
    then show ?thesis using Cons.prems by (auto simp: complete_line_def intro!: exI [of _ "[]"])
  next
    case False
    then obtain l' where l': "l = c # l'" "read_line cs = (l', r, False)"
      using Cons.prems by (auto split: prod.splits)
    then obtain b where "l' = b @ [newline]" "newline \<notin> set b"
      using Cons.IH by (auto simp: complete_line_def)
    then show ?thesis using l' False by (auto simp: complete_line_def intro!: exI [of _ "c # b"])
  qed
qed simp

lemma load_loop_torn:
  "newline \<notin> set b \<Longrightarrow> load_loop cd b es lh off = Inr (es, lh, if b = [] then None else Some off)"
  by (subst load_loop.simps) (simp add: read_line_torn)

lemma load_loop_line:
  "newline \<notin> set b \<Longrightarrow> load_loop cd (b @ newline # rest) es lh off =
     bindE (load_line cd es lh (b @ [newline])) (\<lambda>e. load_loop cd rest (es @ [e]) (je_hash e) (off + length b + 1))"
  by (subst load_loop.simps) (simp add: read_line_complete)

text \<open>The loop either sees the end of the file in an unfinished line or takes a complete line off.\<close>

lemma load_loop_cases:
  obtains "newline \<notin> set bs" | b rest where "bs = b @ newline # rest" "newline \<notin> set b"
  by (metis split_list_first)

lemma load_line_Inr:
  "load_line cd es lh line = Inr e \<longleftrightarrow> unmarshal cd line = Some e \<and> je_sequence e = word_of_nat (length es + 1) \<and>
     je_previous_hash e = lh \<and> entry_hash cd e = je_hash e"
  by (auto simp: load_line_def split: option.splits)

lemma load_loop_sound:
  assumes "load_loop cd bs es lh off = Inr (es', lh', torn)"
  shows "\<exists>lines tail new. bs = concat lines @ tail \<and> newline \<notin> set tail \<and> (\<forall>l \<in> set lines. complete_line l) \<and>
    es' = es @ new \<and> map (unmarshal cd) lines = map Some new \<and> chained cd (length es) lh new \<and>
    lh' = (if new = [] then lh else je_hash (last new)) \<and>
    torn = (if tail = [] then None else Some (off + length (concat lines)))"
  using assms
proof (induction "length bs" arbitrary: bs es lh off rule: less_induct)
  case less
  show ?case
  proof (rule load_loop_cases [of bs])
    assume "newline \<notin> set bs"
    then show ?thesis
      using less.prems
      by - (rule exI [of _ "[]"], rule exI [of _ bs], rule exI [of _ "[]"], auto simp: load_loop_torn)
  next
    fix b rest assume bs: "bs = b @ newline # rest" and b: "newline \<notin> set b"
    then obtain e where e: "load_line cd es lh (b @ [newline]) = Inr e"
      and r: "load_loop cd rest (es @ [e]) (je_hash e) (off + length b + 1) = Inr (es', lh', torn)"
      using less.prems by (auto simp: load_loop_line)
    from less.hyps [OF _ r] bs obtain lines tail new where
      *: "rest = concat lines @ tail" "newline \<notin> set tail" "\<forall>l \<in> set lines. complete_line l"
        "es' = (es @ [e]) @ new" "map (unmarshal cd) lines = map Some new"
        "chained cd (length (es @ [e])) (je_hash e) new" "lh' = (if new = [] then je_hash e else je_hash (last new))"
        "torn = (if tail = [] then None else Some (off + length b + 1 + length (concat lines)))"
      by auto
    show ?thesis
      using bs b * e
      by (intro exI [of _ "(b @ [newline]) # lines"] exI [of _ tail] exI [of _ "e # new"])
         (auto simp: complete_line_def load_line_Inr)
  qed
qed

lemma load_loop_append:
  "load_loop cd bs es lh off = Inr (es', lh', None) \<Longrightarrow>
     load_loop cd (bs @ ext) es lh off = load_loop cd ext es' lh' (off + length bs)"
proof (induction "length bs" arbitrary: bs es lh off rule: less_induct)
  case less
  show ?case
  proof (rule load_loop_cases [of bs])
    assume "newline \<notin> set bs"
    then show ?thesis using less.prems by (simp add: load_loop_torn split: if_splits)
  next
    fix b rest assume bs: "bs = b @ newline # rest" and b: "newline \<notin> set b"
    then obtain e where "load_line cd es lh (b @ [newline]) = Inr e"
      and r: "load_loop cd rest (es @ [e]) (je_hash e) (off + length b + 1) = Inr (es', lh', None)"
      using less.prems by (auto simp: load_loop_line)
    then show ?thesis
      using less.hyps [OF _ r] bs b by (simp add: load_loop_line ac_simps)
  qed
qed

text \<open>Appending to the file of a journal that agrees with it continues the loop where it stood.\<close>

lemma durable_loop:
  assumes "durable cd j"
  obtains bs where "fj_file j = Some bs" "load_loop cd bs [] [] 0 = Inr (fj_entries j, fj_last_hash j, None)"
proof -
  obtain bs where bs: "fj_file j = Some bs" "load cd bs = Inr j"
    using assms by (auto simp: durable_def split: option.splits)
  then obtain es lh torn where r: "load_loop cd bs [] [] 0 = Inr (es, lh, torn)"
    and j: "j = \<lparr>fj_file = Some (case torn of None \<Rightarrow> bs | Some off \<Rightarrow> take off bs), fj_entries = es, fj_last_hash = lh\<rparr>"
    by (auto simp: load_def)
  have "torn = None"
  proof (rule ccontr)
    assume "torn \<noteq> None"
    moreover obtain lines tail where "bs = concat lines @ tail"
        "torn = (if tail = [] then None else Some (0 + length (concat lines)))"
      using load_loop_sound [OF r] by blast
    ultimately show False using bs(1) j by (auto split: if_splits)
  qed
  then show ?thesis using that bs(1) r j by simp
qed

lemma load_append:
  assumes "fj_file j = Some bs" "load_loop cd bs [] [] 0 = Inr (fj_entries j, fj_last_hash j, None)"
  shows "load cd (bs @ ext) =
    bindE (load_loop cd ext (fj_entries j) (fj_last_hash j) (length bs)) (\<lambda>(es, lh, torn).
      Inr \<lparr>fj_file = Some (case torn of None \<Rightarrow> bs @ ext | Some off \<Rightarrow> take off (bs @ ext)),
           fj_entries = es, fj_last_hash = lh\<rparr>)"
  by (simp add: load_def load_loop_append [OF assms(2)])

lemma next_entry_fields [simp]:
  "je_sequence (next_entry cd now j r) = word_of_nat (length (fj_entries j) + 1)"
  "je_previous_hash (next_entry cd now j r) = fj_last_hash j" "je_record (next_entry cd now j r) = r"
  "je_hash (next_entry cd now j r) = entry_hash cd (next_entry cd now j r)"
  by (simp_all add: next_entry_def Let_def entry_hash_def)

lemma load_next_line:
  assumes "faithful cd (next_entry cd now j r)" and "marshal cd (next_entry cd now j r) = Some b"
  shows "load_line cd (fj_entries j) (fj_last_hash j) (b @ [newline]) = Inr (next_entry cd now j r)"
    and "newline \<notin> set b"
  using assms by (auto simp: load_line_Inr faithful_def simp del: next_entry_fields(4) simp: next_entry_fields(4) [symmetric])

text \<open>C16: Recording is durable. When the record is written and synced, opening the file again gives the
  journal that is in memory, with the new entry last and the old entries unchanged.\<close>

theorem record_durable:
  assumes d: "durable cd j" and f: "faithful cd (next_entry cd now j r)"
  shows "\<exists>j'. record_entry cd now IoOk j r = (j', None) \<and> durable cd j' \<and>
    fj_entries j' = fj_entries j @ [next_entry cd now j r]"
proof -
  obtain bs where bs: "fj_file j = Some bs" "load_loop cd bs [] [] 0 = Inr (fj_entries j, fj_last_hash j, None)"
    using durable_loop [OF d] .
  obtain b where b: "marshal cd (next_entry cd now j r) = Some b"
    using f by (auto simp: faithful_def split: option.splits)
  note l = load_next_line [OF f b]
  show ?thesis
    using bs b load_append [OF bs, of "b @ [newline]"] l
    by (simp add: record_entry_def Let_def durable_def load_loop_line load_loop_torn)
qed

text \<open>A write that stops inside its line loses only that line: the journal reports an error and
  keeps its entries, and opening the file afterwards cuts the unfinished line off and gives the journal
  from before the write.\<close>

theorem torn_write_recovers:
  assumes d: "durable cd j" and f: "faithful cd (next_entry cd now j r)"
    and k: "marshal cd (next_entry cd now j r) = Some b" "k \<le> length b"
  shows "\<exists>j' bs'. record_entry cd now (ShortWrite k) j r = (j', Some WriteError) \<and> fj_file j' = Some bs' \<and>
    load cd bs' = Inr j"
proof -
  obtain bs where bs: "fj_file j = Some bs" "load_loop cd bs [] [] 0 = Inr (fj_entries j, fj_last_hash j, None)"
    using durable_loop [OF d] .
  have "newline \<notin> set (take k b)"
    using load_next_line(2) [OF f k(1)] by (meson in_set_takeD)
  then show ?thesis
    using bs k load_append [OF bs, of "take k b"]
    by (cases j) (auto simp: record_entry_def load_loop_torn)
qed

text \<open>A record whose sync fails stays in the file but not in memory, so the next record repeats its
  sequence number: after that the file cannot be opened any more.\<close>

theorem failed_sync_corrupts:
  assumes d: "durable cd j" and f1: "faithful cd (next_entry cd now1 j r1)"
    and f2: "faithful cd (next_entry cd now2 j r2)"
  shows "\<exists>j1 j2 bs. record_entry cd now1 SyncFailed j r1 = (j1, Some SyncError) \<and>
    record_entry cd now2 IoOk j1 r2 = (j2, None) \<and> fj_file j2 = Some bs \<and>
    load cd bs = Inl (CorruptIntegrity (word_of_nat (length (fj_entries j) + 1)))"
proof -
  obtain bs where bs: "fj_file j = Some bs" "load_loop cd bs [] [] 0 = Inr (fj_entries j, fj_last_hash j, None)"
    using durable_loop [OF d] .
  obtain b1 b2 where b: "marshal cd (next_entry cd now1 j r1) = Some b1" "marshal cd (next_entry cd now2 j r2) = Some b2"
    using f1 f2 by (auto simp: faithful_def split: option.splits)
  note l1 = load_next_line [OF f1 b(1)] and l2 = load_next_line [OF f2 b(2)]
  have same: "next_entry cd now2 (j\<lparr>fj_file := x\<rparr>) r2 = next_entry cd now2 j r2" for x
    by (simp add: next_entry_def)
  have "(word_of_nat (n + 1) :: 64 word) \<noteq> word_of_nat (Suc n + 1)" for n
    by simp
  then have "load_line cd (fj_entries j @ [next_entry cd now1 j r1]) lh (b2 @ [newline]) =
      Inl (CorruptIntegrity (word_of_nat (length (fj_entries j) + 1)))" for lh
    using f2 b(2) by (simp add: load_line_def faithful_def)
  then show ?thesis
    using bs b load_append [OF bs, of "b1 @ newline # b2 @ [newline]"] l1 l2
    by (simp add: record_entry_def Let_def same load_loop_line load_loop_torn)
qed

subsection \<open>Integrity\<close>

text \<open>A file that opens is a sequence of complete lines that decode to the entries, perhaps followed
  by one unfinished line, which is cut off. The entries are numbered from one, each holds the hash of the
  one before it and its own hash is right. A file that fails any of this does not open.\<close>

theorem load_integrity:
  assumes "load cd bs = Inr j"
  shows "chained cd 0 [] (fj_entries j) \<and>
    (\<exists>lines tail. bs = concat lines @ tail \<and> newline \<notin> set tail \<and> (\<forall>l \<in> set lines. complete_line l) \<and>
       map (unmarshal cd) lines = map Some (fj_entries j) \<and> fj_file j = Some (concat lines)) \<and>
    fj_last_hash j = (if fj_entries j = [] then [] else je_hash (last (fj_entries j)))"
proof -
  obtain es lh torn where r: "load_loop cd bs [] [] 0 = Inr (es, lh, torn)"
    and j: "j = \<lparr>fj_file = Some (case torn of None \<Rightarrow> bs | Some off \<Rightarrow> take off bs), fj_entries = es, fj_last_hash = lh\<rparr>"
    using assms by (auto simp: load_def)
  obtain lines tail where l: "bs = concat lines @ tail" "newline \<notin> set tail" "\<forall>l \<in> set lines. complete_line l"
      "map (unmarshal cd) lines = map Some es" "chained cd 0 [] es" "lh = (if es = [] then [] else je_hash (last es))"
      "torn = (if tail = [] then None else Some (length (concat lines)))"
    using load_loop_sound [OF r] by auto
  then have "fj_file j = Some (concat lines)" by (simp add: j)
  then show ?thesis using l j by auto
qed

lemma chained_append:
  "chained cd n lh (es @ [e]) \<longleftrightarrow> chained cd n lh es \<and> je_sequence e = word_of_nat (n + length es + 1) \<and>
     je_previous_hash e = (if es = [] then lh else je_hash (last es)) \<and> entry_hash cd e = je_hash e"
  by (induction es arbitrary: n lh) auto

lemma journal_entry_eqI:
  "e\<lparr>je_hash := []\<rparr> = e'\<lparr>je_hash := []\<rparr> \<Longrightarrow> je_hash e = je_hash e' \<Longrightarrow> (e :: journal_entry) = e'"
  by (cases e; cases e') simp

definition collision_free :: "codec \<Rightarrow> journal_entry list \<Rightarrow> journal_entry list \<Rightarrow> bool" where
  "collision_free cd es es' \<longleftrightarrow> (\<forall>e \<in> set es. \<forall>e' \<in> set es'.
     entry_hash cd e = entry_hash cd e' \<longrightarrow> e\<lparr>je_hash := []\<rparr> = e'\<lparr>je_hash := []\<rparr>)"

text \<open>The last hash pins the whole journal: two intact chains that end in the same hash are equal,
  unless the hash function collides on their entries.\<close>

theorem chain_tamper_evident:
  assumes "chained cd 0 [] es" and "chained cd 0 [] es'" and "es \<noteq> []" and "es' \<noteq> []"
    and "je_hash (last es) = je_hash (last es')" and "collision_free cd es es'"
    and "length es < 2 ^ 64" and "length es' < 2 ^ 64"
  shows "es = es'"
  using assms
proof (induction es arbitrary: es' rule: rev_induct)
  case (snoc e es)
  from snoc.prems(4) obtain fs f where fs: "es' = fs @ [f]" by (metis rev_exhaust)
  have h: "entry_hash cd e = je_hash e" "entry_hash cd f = je_hash f"
    using snoc.prems(1,2) by (auto simp: fs chained_append)
  moreover have hash: "je_hash e = je_hash f" using snoc.prems(5) by (simp add: fs)
  ultimately have "e\<lparr>je_hash := []\<rparr> = f\<lparr>je_hash := []\<rparr>"
    using snoc.prems(6) unfolding collision_free_def fs by simp
  then have eq: "e = f" using hash by (rule journal_entry_eqI)
  have "(word_of_nat (length es + 1) :: 64 word) = word_of_nat (length fs + 1)"
    using snoc.prems(1,2) eq by (auto simp: fs chained_append)
  then have len: "length es = length fs"
    using snoc.prems(7,8) by (simp add: fs word_of_nat_eq_iff take_bit_nat_eq_self)
  show ?case
  proof (cases "es = []")
    case True
    then show ?thesis using len eq fs by simp
  next
    case False
    then have "es = fs"
      using snoc.prems eq len
      by (intro snoc.IH) (auto simp: fs chained_append collision_free_def)
    then show ?thesis using eq fs by simp
  qed
qed simp

subsection \<open>Recovery\<close>

abbreviation tx_of :: "journal_entry \<Rightarrow> string" where
  "tx_of e \<equiv> dr_transaction (je_record e)"

lemma scan_terminal_spec:
  "scan_terminal es terminal lc =
     (terminal \<union> tx_of ` {e \<in> set es. is_terminal e},
      case lc of None \<Rightarrow> find (\<lambda>e. dr_status (je_record e) = StatusCommitted) es | Some e \<Rightarrow> Some e)"
  by (induction es arbitrary: terminal lc) (auto split: option.splits)

lemma scan_incomplete_tx: "tx_of ` set (scan_incomplete terminal es seen) = tx_of ` set es - terminal - seen"
  by (induction es arbitrary: seen) (auto simp: Let_def)

lemma scan_incomplete_other: "e \<in> set (scan_incomplete terminal es seen) \<Longrightarrow> tx_of e \<notin> terminal \<and> tx_of e \<notin> seen"
  using scan_incomplete_tx [of terminal es seen] by blast

lemma scan_incomplete_distinct: "distinct (map tx_of (scan_incomplete terminal es seen))"
  by (induction es arbitrary: seen) (auto simp: Let_def dest: scan_incomplete_other)

lemma scan_incomplete_subseq: "subseq (scan_incomplete terminal es seen) es"
  by (induction es arbitrary: seen) (auto simp: Let_def)

lemma scan_incomplete_find:
  "e \<in> set (scan_incomplete terminal es seen) \<Longrightarrow> find (\<lambda>e'. tx_of e' = tx_of e) es = Some e"
proof (induction es arbitrary: seen)
  case (Cons x es)
  then show ?case
    using scan_incomplete_other [of e terminal es] by (fastforce simp: Let_def split: if_splits)
qed simp

text \<open>The recovery state is right: it names the newest commit, and of every transaction that neither
  committed nor rolled back exactly the newest entry, newest first, and nothing else.\<close>

theorem recovery_state_spec:
  fixes j :: file_journal
  defines "es \<equiv> rev (fj_entries j)"
  shows "tx_of ` set (incomplete (recovery_state j)) = tx_of ` set es - tx_of ` {e \<in> set es. is_terminal e} \<and>
    distinct (map tx_of (incomplete (recovery_state j))) \<and> subseq (incomplete (recovery_state j)) es \<and>
    (\<forall>e \<in> set (incomplete (recovery_state j)). find (\<lambda>e'. tx_of e' = tx_of e) es = Some e) \<and>
    last_committed (recovery_state j) = find (\<lambda>e. dr_status (je_record e) = StatusCommitted) es"
  by (simp add: recovery_state_def scan_terminal_spec es_def scan_incomplete_tx scan_incomplete_distinct
      scan_incomplete_subseq scan_incomplete_find)

subsection \<open>Witnesses\<close>

text \<open>A small codec that knows the first two entries of one journal.\<close>

definition demo_record :: deployment_record where
  "demo_record = \<lparr>dr_transaction = ''t'', dr_stage = StagePrepare, dr_status = StatusStarted,
     dr_previous = \<lparr>gd_revision = [], gd_modules = []\<rparr>, dr_desired = \<lparr>gd_revision = [], gd_modules = []\<rparr>,
     dr_changes = empty_changes, dr_snapshot_ref = [], dr_evidence = demo_evidence, dr_error = []\<rparr>"

definition demo_entry :: "nat \<Rightarrow> journal_entry" where
  "demo_entry n = \<lparr>je_sequence = word_of_nat n, je_recorded_at = 0, je_previous_hash = (if n = 1 then [] else ''h''),
     je_record = demo_record, je_hash = ''h''\<rparr>"

definition demo_codec :: codec where
  "demo_codec = \<lparr>marshal = (\<lambda>e. Some (show_nat (unat (je_sequence e)))),
     unmarshal = (\<lambda>l. if l = ''1'' @ [newline] then Some (demo_entry 1)
                      else if l = ''2'' @ [newline] then Some (demo_entry 2) else None),
     sha256_hex = (\<lambda>_. ''h'')\<rparr>"

definition demo_empty :: file_journal where
  "demo_empty = \<lparr>fj_file = Some [], fj_entries = [], fj_last_hash = []\<rparr>"

definition demo_file :: string where
  "demo_file = ''1'' @ [newline] @ ''2'' @ [newline] @ ''3''"

lemma demo_codec_facts:
  "durable demo_codec demo_empty" "faithful demo_codec (next_entry demo_codec 0 demo_empty demo_record)"
  "marshal demo_codec (next_entry demo_codec 0 demo_empty demo_record) = Some ''1''"
  by code_simp+

lemma demo_load: "load demo_codec demo_file =
    Inr \<lparr>fj_file = Some (''1'' @ [newline] @ ''2'' @ [newline]), fj_entries = [demo_entry 1, demo_entry 2], fj_last_hash = ''h''\<rparr>"
  by code_simp

theorem record_durable_witness:
  "\<exists>j'. record_entry demo_codec 0 IoOk demo_empty demo_record = (j', None) \<and> durable demo_codec j'"
  using record_durable [OF demo_codec_facts(1,2)] by blast

theorem torn_write_recovers_witness:
  "\<exists>j' bs'. record_entry demo_codec 0 (ShortWrite 1) demo_empty demo_record = (j', Some WriteError) \<and>
     fj_file j' = Some bs' \<and> load demo_codec bs' = Inr demo_empty"
  using torn_write_recovers [OF demo_codec_facts, of 1] by simp

theorem failed_sync_corrupts_witness:
  "\<exists>j1 j2 bs. record_entry demo_codec 0 SyncFailed demo_empty demo_record = (j1, Some SyncError) \<and>
     record_entry demo_codec 0 IoOk j1 demo_record = (j2, None) \<and> fj_file j2 = Some bs \<and>
     load demo_codec bs = Inl (CorruptIntegrity 1)"
  using failed_sync_corrupts [OF demo_codec_facts(1,2,2)] by (simp add: demo_empty_def)

theorem load_integrity_witness: "chained demo_codec 0 [] [demo_entry 1, demo_entry 2]"
  using load_integrity [OF demo_load] by simp

theorem chain_tamper_evident_witness:
  "chained demo_codec 0 [] [demo_entry 1, demo_entry 2] \<and> collision_free demo_codec [demo_entry 1] [demo_entry 1] \<and>
   [demo_entry 1] = [demo_entry 1]"
proof -
  have c: "chained demo_codec 0 [] [demo_entry 1]" by code_simp
  have f: "collision_free demo_codec [demo_entry 1] [demo_entry 1]" by (simp add: collision_free_def)
  have "chained demo_codec 0 [] [demo_entry 1, demo_entry 2]" by code_simp
  then show ?thesis using chain_tamper_evident [OF c c _ _ _ f] f by simp
qed

theorem recovery_state_spec_witness:
  "distinct (map tx_of (incomplete (recovery_state (demo_empty\<lparr>fj_entries := [demo_entry 1, demo_entry 2]\<rparr>)))) \<and>
   tx_of ` set (incomplete (recovery_state (demo_empty\<lparr>fj_entries := [demo_entry 1, demo_entry 2]\<rparr>))) =
     tx_of ` set [demo_entry 2, demo_entry 1] - tx_of ` {e \<in> set [demo_entry 2, demo_entry 1]. is_terminal e}"
  using recovery_state_spec [of "demo_empty\<lparr>fj_entries := [demo_entry 1, demo_entry 2]\<rparr>"] by simp

end
