(* ===== verification/Live_Runtime.thy ===== *)
theory Live_Runtime
  imports Admission Journal
begin

text \<open>
  Live replacement of a running application: \<^verbatim>\<open>ApplicationRuntimeLiveLifecycle\<close> of \<^verbatim>\<open>src/run/live_application_runtime.go\<close>, which carries
  out the phases of a reconciliation on the router of the application, the controller of \<^verbatim>\<open>live_reconciliation.go\<close>, the snapshots of
  \<^verbatim>\<open>application_snapshot.go\<close> and the recovery report of \<^verbatim>\<open>deployment_history.go\<close>. Requests are admitted and end at any time while the phases
  run: a step relation interleaves them with the lifecycle calls that the reconciler of \<^theory_text>\<open>Reconcile\<close> makes. The shutdown of a runtime is
  recorded with the number of leases it had then. Whether a factory, a start, a snapshot or a shutdown fails is input.
\<close>

subsection \<open>The live lifecycle\<close>

record 'r live =
  lv_router :: "'r router"
  lv_leases :: "'r list"
  lv_candidate :: "'r option"
  lv_shut :: "('r \<times> nat) list"
  lv_operator :: "'r option"
  lv_wait :: "nat option"
  lv_todo :: "call list"

definition shutdown_runtime :: "'r \<Rightarrow> 'r live \<Rightarrow> 'r live" where
  "shutdown_runtime r v = v\<lparr>lv_shut := lv_shut v @ [(r, count_list (lv_leases v) r)]\<rparr>"

text \<open>\<^verbatim>\<open>Prepare\<close>: the factory makes a runtime that is started, and shut down when that fails.\<close>

definition live_prepare :: "'r option \<Rightarrow> bool \<Rightarrow> 'r live \<Rightarrow> 'r live \<times> bool" where
  "live_prepare made started v =
     (case made of
        None \<Rightarrow> (v, False)
      | Some c \<Rightarrow> if started then (v\<lparr>lv_candidate := Some c\<rparr>, True) else (shutdown_runtime c v, False))"

text \<open>Operator commands follow the activated runtime when it gives access to its providers.\<close>

definition activate_operator :: "('r \<Rightarrow> bool) \<Rightarrow> 'r \<Rightarrow> 'r live \<Rightarrow> 'r live" where
  "activate_operator access r v = (if access r then v\<lparr>lv_operator := Some r\<rparr> else v)"

definition live_activate :: "('r \<Rightarrow> bool) \<Rightarrow> 'r \<Rightarrow> 'r live \<Rightarrow> 'r live" where
  "live_activate access r v = (activate_operator access r v)\<lparr>lv_router := router_activate r (lv_router v)\<rparr>"

definition live_retire :: "'r \<Rightarrow> 'r live \<Rightarrow> 'r live" where
  "live_retire old v = shutdown_runtime old v"

definition live_rollback :: "('r \<Rightarrow> bool) \<Rightarrow> 'r \<Rightarrow> stage \<Rightarrow> 'r live \<Rightarrow> 'r live" where
  "live_rollback access old st v =
     (let w = (if st \<in> {StageSwap, StageHealth, StageCommit} then live_activate access old v
               else v\<lparr>lv_router := router_activate old (lv_router v)\<rparr>)
      in case lv_candidate v of None \<Rightarrow> w | Some c \<Rightarrow> shutdown_runtime c w)"

definition live_begin :: "'r \<Rightarrow> call list \<Rightarrow> 'r live" where
  "live_begin old todo =
     \<lparr>lv_router = new_router (Some old), lv_leases = [], lv_candidate = None, lv_shut = [], lv_operator = None, lv_wait = None, lv_todo = todo\<rparr>"

text \<open>One step of the host. A phase that fails is followed by its rollback; one that succeeds may be, when its record fails.\<close>

inductive live_step :: "('r \<Rightarrow> bool) \<Rightarrow> 'r \<Rightarrow> 'r option \<Rightarrow> 'r live \<Rightarrow> 'r live \<Rightarrow> bool" for access old new where
  admit: "router_acquire (lv_router v) = Some (t, r) \<Longrightarrow> live_step access old new v (v\<lparr>lv_router := r, lv_leases := t # lv_leases v\<rparr>)"
| finish: "t \<in> set (lv_leases v) \<Longrightarrow>
    live_step access old new v (v\<lparr>lv_router := router_release (lv_router v), lv_leases := remove1 t (lv_leases v)\<rparr>)"
| prepare: "lv_todo v = CallPhase StagePrepare # cs \<Longrightarrow> live_prepare made started v = (w, ok) \<Longrightarrow> made \<noteq> Some old \<Longrightarrow>
    (ok \<longrightarrow> made = new) \<Longrightarrow> (\<not> ok \<longrightarrow> cs = [CallRollback StagePrepare]) \<Longrightarrow> live_step access old new v (w\<lparr>lv_todo := cs\<rparr>)"
| quiesce: "lv_todo v = CallPhase StageQuiesce # cs \<Longrightarrow> lv_wait v = None \<Longrightarrow> router_quiesce (lv_router v) = (r, ch) \<Longrightarrow>
    live_step access old new v (if ch = None then v\<lparr>lv_router := r, lv_todo := cs\<rparr> else v\<lparr>lv_router := r, lv_wait := ch\<rparr>)"
| quiesced: "lv_todo v = CallPhase StageQuiesce # cs \<Longrightarrow> lv_wait v = Some ch \<Longrightarrow> ch \<in> set (ro_closed (lv_router v)) \<Longrightarrow>
    live_step access old new v (v\<lparr>lv_wait := None, lv_todo := cs\<rparr>)"
| timeout: "lv_todo v = [CallPhase StageQuiesce, CallRollback StageQuiesce] \<Longrightarrow> lv_wait v = Some ch \<Longrightarrow>
    live_step access old new v (v\<lparr>lv_wait := None, lv_todo := [CallRollback StageQuiesce]\<rparr>)"
| inner: "lv_todo v = CallPhase st # cs \<Longrightarrow> st \<in> {StageSnapshot, StageMigrate, StageHealth} \<Longrightarrow> live_step access old new v (v\<lparr>lv_todo := cs\<rparr>)"
| swap: "lv_todo v = CallPhase StageSwap # cs \<Longrightarrow> lv_candidate v = Some c \<Longrightarrow>
    live_step access old new v ((live_activate access c v)\<lparr>lv_todo := cs\<rparr>)"
| commit: "lv_todo v = CallPhase StageCommit # cs \<Longrightarrow> live_step access old new v ((live_retire old v)\<lparr>lv_todo := cs\<rparr>)"
| undo: "lv_todo v = CallRollback st # cs \<Longrightarrow> live_step access old new v ((live_rollback access old st v)\<lparr>lv_todo := cs\<rparr>)"

inductive live_run :: "('r \<Rightarrow> bool) \<Rightarrow> 'r \<Rightarrow> 'r option \<Rightarrow> 'r live \<Rightarrow> 'r live \<Rightarrow> bool" for access old new where
  refl: "live_run access old new v v"
| step: "live_run access old new v w \<Longrightarrow> live_step access old new w x \<Longrightarrow> live_run access old new v x"

subsection \<open>The calls of a transaction, as the live lifecycle sees them\<close>

fun next_stage :: "stage \<Rightarrow> stage option" where
  "next_stage StagePrepare = Some StageQuiesce"
| "next_stage StageQuiesce = Some StageSnapshot"
| "next_stage StageSnapshot = Some StageMigrate"
| "next_stage StageMigrate = Some StageSwap"
| "next_stage StageSwap = Some StageHealth"
| "next_stage StageHealth = Some StageCommit"
| "next_stage _ = None"

fun rest_ok :: "call list \<Rightarrow> bool" where
  "rest_ok (CallPhase st # cs) \<longleftrightarrow> cs = [CallRollback st] \<or>
     (case cs of CallPhase st' # _ \<Rightarrow> next_stage st = Some st' \<and> rest_ok cs | [] \<Rightarrow> st = StageCommit | _ \<Rightarrow> False)"
| "rest_ok (CallRollback st # cs) \<longleftrightarrow> cs = []"
| "rest_ok (CallRecord r # cs) \<longleftrightarrow> False"
| "rest_ok [] \<longleftrightarrow> True"

definition ends_back :: "call list \<Rightarrow> bool" where
  "ends_back cs \<longleftrightarrow> (\<exists>st. last cs = CallRollback st) \<or> cs = []"

lemma rest_ok_commit: "rest_ok (map CallPhase stages)" and back_commit: "\<not> ends_back (map CallPhase stages)"
  by (simp_all add: stages_def ends_back_def)

lemma rest_ok_rollback:
  assumes "k < length stages"
  shows "rest_ok (map CallPhase (take (Suc k) stages) @ [CallRollback (stages ! k)])"
    and "hd (map CallPhase (take (Suc k) stages) @ [CallRollback (stages ! k)]) = CallPhase StagePrepare"
proof -
  have "k \<in> {0, 1, 2, 3, 4, 5, 6}" using assms by (auto simp: stages_def)
  then show "rest_ok (map CallPhase (take (Suc k) stages) @ [CallRollback (stages ! k)])"
    and "hd (map CallPhase (take (Suc k) stages) @ [CallRollback (stages ! k)]) = CallPhase StagePrepare"
    by (auto simp: stages_def numeral_eq_Suc)
qed

text \<open>The host before a transaction: the router admits calls to the old runtime, which has not been shut down.\<close>

definition live_ready :: "'r \<Rightarrow> 'r live \<Rightarrow> bool" where
  "live_ready old v \<longleftrightarrow> router_ok (lv_router v) \<and> ro_target (lv_router v) = Some old \<and> ro_accepting (lv_router v) \<and>
     ro_inflight (lv_router v) = int (length (lv_leases v)) \<and> lv_candidate v = None \<and> lv_wait v = None \<and> old \<notin> fst ` set (lv_shut v)"

fun stage_ok :: "'r \<Rightarrow> 'r option \<Rightarrow> bool \<Rightarrow> call list \<Rightarrow> 'r live \<Rightarrow> bool" where
  "stage_ok old new rolled [] v \<longleftrightarrow> ro_accepting (lv_router v) \<and> lv_wait v = None \<and>
     (if rolled then ro_target (lv_router v) = Some old
      else new \<noteq> None \<and> lv_candidate v = new \<and> ro_target (lv_router v) = new \<and> (old, 0) \<in> set (lv_shut v))"
| "stage_ok old new rolled (CallRecord r # cs) v \<longleftrightarrow> False"
| "stage_ok old new rolled (CallRollback st # cs) v \<longleftrightarrow> lv_wait v = None"
| "stage_ok old new rolled (CallPhase st # cs) v \<longleftrightarrow>
     (if st = StagePrepare then ro_target (lv_router v) = Some old \<and> ro_accepting (lv_router v) \<and> lv_candidate v = None \<and> lv_wait v = None
      else new \<noteq> None \<and> lv_candidate v = new \<and>
        (if st = StageQuiesce then ro_target (lv_router v) = Some old \<and> (lv_wait v = None \<longleftrightarrow> ro_accepting (lv_router v)) \<and>
           (\<forall>ch. lv_wait v = Some ch \<longrightarrow> ro_drained (lv_router v) = Some ch \<or> lv_leases v = [])
         else lv_wait v = None \<and>
           (if st \<in> {StageSnapshot, StageMigrate, StageSwap} then \<not> ro_accepting (lv_router v) \<and> lv_leases v = []
            else ro_accepting (lv_router v) \<and> ro_target (lv_router v) = new \<and> old \<notin> set (lv_leases v))))"

definition live_inv :: "'r \<Rightarrow> 'r option \<Rightarrow> bool \<Rightarrow> 'r live \<Rightarrow> bool" where
  "live_inv old new rolled v \<longleftrightarrow> router_ok (lv_router v) \<and> ro_inflight (lv_router v) = int (length (lv_leases v)) \<and> new \<noteq> Some old \<and>
     rest_ok (lv_todo v) \<and> (lv_todo v \<noteq> [] \<longrightarrow> ends_back (lv_todo v) = rolled) \<and> (lv_candidate v = None \<or> lv_candidate v = new) \<and>
     (\<forall>m. (old, m) \<in> set (lv_shut v) \<longrightarrow> m = 0) \<and> stage_ok old new rolled (lv_todo v) v"

lemma router_acquire_Some:
  "router_acquire r = Some (t, s) \<longleftrightarrow> ro_accepting r \<and> ro_target r = Some t \<and> s = r\<lparr>ro_inflight := ro_inflight r + 1\<rparr>"
  by (auto simp: router_acquire_def split: option.splits)

lemma router_ok_acquire: "router_ok r \<Longrightarrow> ro_inflight r = n \<Longrightarrow> router_ok (r\<lparr>ro_inflight := n + 1\<rparr>)"
  by (auto simp: router_ok_def)

lemma router_ok_release: "router_ok r \<Longrightarrow> 0 < ro_inflight r \<Longrightarrow> router_ok (router_release r)"
  by (auto simp: router_ok_def router_release_def Let_def split: option.splits)

lemma router_release_fields [simp]:
  "ro_inflight (router_release r) = ro_inflight r - 1" "ro_accepting (router_release r) = ro_accepting r" "ro_target (router_release r) = ro_target r"
  by (auto simp: router_release_def Let_def split: option.splits)

lemma router_release_drained:
  "ro_drained r = Some ch \<Longrightarrow> ro_drained (router_release r) = Some ch \<or> ro_inflight (router_release r) = 0"
  by (auto simp: router_release_def Let_def)

lemma router_activate_ok [simp]: "router_ok (router_activate t r) = router_ok r"
  by (simp add: router_ok_def router_activate_def)

lemma live_inv_admit:
  assumes "live_inv old new rolled v" and "router_acquire (lv_router v) = Some (t, r)"
  shows "live_inv old new rolled (v\<lparr>lv_router := r, lv_leases := t # lv_leases v\<rparr>)"
proof (cases "lv_todo v")
  case Nil
  with assms show ?thesis by (auto simp: live_inv_def router_acquire_Some router_ok_acquire)
next
  case (Cons c cs)
  with assms show ?thesis
    by (cases c) (auto simp: live_inv_def router_acquire_Some router_ok_acquire split: if_splits)
qed

lemma live_inv_finish:
  assumes "live_inv old new rolled v" and t: "t \<in> set (lv_leases v)"
  shows "live_inv old new rolled (v\<lparr>lv_router := router_release (lv_router v), lv_leases := remove1 t (lv_leases v)\<rparr>)" (is "live_inv old new rolled ?w")
proof -
  have l: "0 < length (lv_leases v)" using t by (cases "lv_leases v") auto
  then have n: "int (length (remove1 t (lv_leases v))) = int (length (lv_leases v)) - 1" using t by (simp add: length_remove1 of_nat_diff Suc_leI)
  have r: "router_ok (router_release (lv_router v))" using assms(1) l by (intro router_ok_release) (auto simp: live_inv_def)
  have d: "ro_drained (router_release (lv_router v)) = Some ch \<or> remove1 t (lv_leases v) = []" if "ro_drained (lv_router v) = Some ch" for ch
    using router_release_drained [OF that] assms(1) n by (auto simp: live_inv_def)
  have "stage_ok old new rolled (lv_todo v) ?w"
  proof (cases "lv_todo v")
    case (Cons c cs)
    with assms d l show ?thesis
      by (cases c) (auto simp: live_inv_def dest: notin_set_remove1 split: if_splits)
  qed (use assms in \<open>auto simp: live_inv_def\<close>)
  with assms r n show ?thesis by (simp add: live_inv_def)
qed

lemma rest_ok_tail:
  assumes "rest_ok (c # cs)" and "ends_back (c # cs) = rolled" and "cs \<noteq> []"
  shows "rest_ok cs" and "ends_back cs = rolled"
  using assms by (cases c; cases cs; auto simp: ends_back_def split: call.splits)+

lemma rest_ok_last: "rest_ok [c] \<Longrightarrow> c = CallPhase StageCommit \<or> (\<exists>st. c = CallRollback st)"
  by (cases c) auto

text \<open>A phase that leaves the router alone hands over to what comes next.\<close>

lemma stage_ok_next:
  assumes "rest_ok (CallPhase st # cs)" and "ends_back (CallPhase st # cs) = rolled" and "lv_wait v = None"
    and "\<And>st' ds. next_stage st = Some st' \<Longrightarrow> stage_ok old new rolled (CallPhase st' # ds) v"
    and "st = StageCommit \<Longrightarrow> \<not> rolled \<Longrightarrow> stage_ok old new rolled [] v"
  shows "stage_ok old new rolled cs v"
proof (cases cs)
  case Nil
  with assms show ?thesis by (auto simp: ends_back_def)
next
  case (Cons c ds)
  with assms show ?thesis by (cases c) (auto split: call.splits)
qed

lemma shutdown_fields [simp]:
  "lv_router (shutdown_runtime r v) = lv_router v" "lv_leases (shutdown_runtime r v) = lv_leases v" "lv_candidate (shutdown_runtime r v) = lv_candidate v"
  "lv_wait (shutdown_runtime r v) = lv_wait v" "lv_todo (shutdown_runtime r v) = lv_todo v"
  "lv_shut (shutdown_runtime r v) = lv_shut v @ [(r, count_list (lv_leases v) r)]"
  by (simp_all add: shutdown_runtime_def)

lemma activate_fields [simp]:
  "lv_router (live_activate access r v) = router_activate r (lv_router v)" "lv_leases (live_activate access r v) = lv_leases v"
  "lv_candidate (live_activate access r v) = lv_candidate v" "lv_wait (live_activate access r v) = lv_wait v"
  "lv_shut (live_activate access r v) = lv_shut v"
  by (simp_all add: live_activate_def activate_operator_def)

lemma router_activate_fields [simp]:
  "ro_target (router_activate t r) = Some t" "ro_accepting (router_activate t r)" "ro_inflight (router_activate t r) = ro_inflight r"
  by (simp_all add: router_activate_def)

lemma rollback_fields [simp]:
  "lv_router (live_rollback access old st v) = router_activate old (lv_router v)" "lv_leases (live_rollback access old st v) = lv_leases v"
  "lv_candidate (live_rollback access old st v) = lv_candidate v" "lv_wait (live_rollback access old st v) = lv_wait v"
  "lv_shut (live_rollback access old st v) = lv_shut v @ (case lv_candidate v of None \<Rightarrow> [] | Some c \<Rightarrow> [(c, count_list (lv_leases v) c)])"
  by (auto simp: live_rollback_def Let_def split: option.splits)

lemma router_quiesce_ok:
  assumes "router_quiesce r = (s, ch)" and "router_ok r"
  shows "router_ok s" and "\<not> ro_accepting s" and "ro_target s = ro_target r" and "ro_inflight s = ro_inflight r"
    and "ch = None \<longrightarrow> ro_inflight r = 0" and "ch \<noteq> None \<longrightarrow> ro_drained s = ch"
  using assms by (auto simp: router_quiesce_def router_ok_def Let_def less_Suc_eq dest: sym [of "Some _"] split: if_splits option.splits)

lemma live_inv_advance:
  assumes "live_inv old new rolled v" and "lv_todo v = c # cs" and "stage_ok old new rolled cs (w\<lparr>lv_todo := cs\<rparr>)"
    and "router_ok (lv_router w)" and "ro_inflight (lv_router w) = int (length (lv_leases w))"
    and "lv_candidate w = None \<or> lv_candidate w = new" and "\<forall>m. (old, m) \<in> set (lv_shut w) \<longrightarrow> m = 0"
  shows "live_inv old new rolled (w\<lparr>lv_todo := cs\<rparr>)"
proof -
  have "rest_ok (c # cs)" "ends_back (c # cs) = rolled" "new \<noteq> Some old" using assms(1,2) by (simp_all add: live_inv_def)
  then have "rest_ok cs" "cs \<noteq> [] \<longrightarrow> ends_back cs = rolled" using rest_ok_tail [of c cs rolled] by (cases "cs = []"; simp)+
  with assms(3-) \<open>new \<noteq> Some old\<close> show ?thesis by (simp add: live_inv_def)
qed

lemma live_inv_step:
  assumes "live_step access old new v w" and inv: "live_inv old new rolled v"
  shows "live_inv old new rolled w"
proof -
  have base: "router_ok (lv_router v)" "ro_inflight (lv_router v) = int (length (lv_leases v))" "lv_candidate v = None \<or> lv_candidate v = new"
    "\<forall>m. (old, m) \<in> set (lv_shut v) \<longrightarrow> m = 0" "new \<noteq> Some old" "rest_ok (lv_todo v)" "lv_todo v \<noteq> [] \<longrightarrow> ends_back (lv_todo v) = rolled"
    and st: "stage_ok old new rolled (lv_todo v) v" using inv by (simp_all add: live_inv_def)
  show ?thesis using assms(1)
  proof cases
    case admit
    then show ?thesis using live_inv_admit [OF inv] by simp
  next
    case finish
    then show ?thesis using live_inv_finish [OF inv] by simp
  next
    case (prepare cs made started u ok)
    have "stage_ok old new rolled cs (u\<lparr>lv_todo := cs\<rparr>) \<and> lv_router u = lv_router v \<and> lv_leases u = lv_leases v \<and>
      (lv_candidate u = None \<or> lv_candidate u = new) \<and> (\<forall>m. (old, m) \<in> set (lv_shut u) \<longrightarrow> m = 0)"
    proof (cases ok)
      case True
      then obtain c where u: "u = v\<lparr>lv_candidate := Some c\<rparr>" "new = Some c"
        using prepare by (auto simp: live_prepare_def split: option.splits if_splits)
      have "stage_ok old new rolled cs (u\<lparr>lv_todo := cs\<rparr>)"
        by (rule stage_ok_next [of StagePrepare]) (use base st prepare u in auto)
      with u base show ?thesis by simp
    next
      case False
      then show ?thesis using base st prepare by (auto simp: live_prepare_def split: option.splits if_splits)
    qed
    with live_inv_advance [OF inv prepare(2), of u] base prepare(1) show ?thesis by simp
  next
    case (quiesce cs r ch)
    note q = router_quiesce_ok [OF quiesce(4) base(1)]
    show ?thesis
    proof (cases ch)
      case None
      have "stage_ok old new rolled cs (v\<lparr>lv_router := r, lv_todo := cs\<rparr>)"
        by (rule stage_ok_next [of StageQuiesce]) (use base st quiesce None q in auto)
      then show ?thesis using live_inv_advance [OF inv quiesce(2), of "v\<lparr>lv_router := r\<rparr>"] base quiesce None q by simp
    next
      case (Some n)
      have "stage_ok old new rolled (lv_todo v) (v\<lparr>lv_router := r, lv_wait := ch\<rparr>)" using st q(2,3,6) Some by (simp add: quiesce(2))
      then show ?thesis using base q Some by (simp add: live_inv_def quiesce(1))
    qed
  next
    case (quiesced cs ch)
    have "ro_drained (lv_router v) \<noteq> Some ch" using base(1) quiesced by (auto simp: router_ok_def)
    then have l: "lv_leases v = []" "\<not> ro_accepting (lv_router v)" "lv_candidate v = new" "new \<noteq> None" using st quiesced by auto
    have "stage_ok old new rolled cs (v\<lparr>lv_wait := None, lv_todo := cs\<rparr>)"
      by (rule stage_ok_next [of StageQuiesce]) (use base l quiesced(2) in auto)
    then show ?thesis using live_inv_advance [OF inv quiesced(2), of "v\<lparr>lv_wait := None\<rparr>"] base quiesced by simp
  next
    case timeout
    then show ?thesis using live_inv_advance [OF inv timeout(2), of "v\<lparr>lv_wait := None\<rparr>"] base by simp
  next
    case (inner s cs)
    have "stage_ok old new rolled cs (v\<lparr>lv_todo := cs\<rparr>)"
    proof (rule stage_ok_next [of s])
      show "stage_ok old new rolled (CallPhase s' # ds) (v\<lparr>lv_todo := cs\<rparr>)" if "next_stage s = Some s'" for s' ds
        using inner(3) st that unfolding inner(2) by auto
      show "rest_ok (CallPhase s # cs)" "ends_back (CallPhase s # cs) = rolled" using base(6,7) unfolding inner(2) by simp_all
      show "lv_wait (v\<lparr>lv_todo := cs\<rparr>) = None" using inner(3) st unfolding inner(2) by auto
    qed (use inner(3) in auto)
    then show ?thesis using live_inv_advance [OF inv inner(2), of v] base inner by simp
  next
    case (swap cs c)
    have "stage_ok old new rolled cs ((live_activate access c v)\<lparr>lv_todo := cs\<rparr>)"
      by (rule stage_ok_next [of StageSwap]) (use base st swap in auto)
    then show ?thesis using live_inv_advance [OF inv swap(2), of "live_activate access c v"] base swap by simp
  next
    case (commit cs)
    have z: "count_list (lv_leases v) old = 0" using st commit by (auto simp: count_list_0_iff)
    have "stage_ok old new rolled cs ((live_retire old v)\<lparr>lv_todo := cs\<rparr>)"
      by (rule stage_ok_next [of StageCommit]) (use base st commit z in \<open>auto simp: live_retire_def\<close>)
    then show ?thesis using live_inv_advance [OF inv commit(2), of "live_retire old v"] base commit z by (auto simp: live_retire_def)
  next
    case (undo s cs)
    have "cs = []" rolled using base undo by (auto simp: ends_back_def)
    then have "stage_ok old new rolled cs ((live_rollback access old s v)\<lparr>lv_todo := cs\<rparr>)" using st undo by simp
    then show ?thesis using live_inv_advance [OF inv undo(2), of "live_rollback access old s v"] base undo by (auto split: option.splits)
  qed
qed

lemma live_inv_run: "live_run access old new v w \<Longrightarrow> live_inv old new rolled v \<Longrightarrow> live_inv old new rolled w"
  by (induction rule: live_run.induct) (blast intro: live_inv_step)+

text \<open>What a reconciliation calls, and which deployment it then reports as the current one.\<close>

lemma reconcile_calls:
  assumes "reconcile env prev nodes ev = (cur, ch, err, tr)"
  shows "(lifecycle tr = [] \<and> cur = prev) \<or>
    (\<exists>k < length stages. lifecycle tr = map CallPhase (take (Suc k) stages) @ [CallRollback (stages ! k)] \<and> cur = prev) \<or>
    (lifecycle tr = map CallPhase stages \<and> (\<exists>p. build (items_of nodes) = Inr p \<and> dep_value cur = fst (env_prepare env p ch)))"
proof (cases "build (items_of nodes)")
  case (Inr p)
  define revs where "revs = revisions_of nodes (\<lambda>_. [])"
  define c where "c = diff (dep_plan prev) p (dep_revisions prev) revs"
  obtain cur' err' tr' where t: "transact env (make_record env prev p revs c ev) prev p revs c = (cur', err', tr')"
    by (metis prod_cases3)
  show ?thesis
  proof (cases "no_changes c")
    case False
    have eq: "cur = cur'" "err = err'" "tr = tr'" "ch = c"
      using assms Inr t False by (simp_all add: reconcile_def Let_def revs_def [symmetric] c_def [symmetric])
    have o: "outcome (env_recorder env \<noteq> None) prev \<lparr>dep_plan = p, dep_value = fst (env_prepare env p ch), dep_revisions = revs\<rparr> err cur tr"
      using transact_outcome [OF t labelled_make_record] eq by simp
    show ?thesis
    proof (cases err)
      case None
      with o Inr show ?thesis by auto
    next
      case (Some e)
      with o Inr show ?thesis by (cases e) auto
    qed
  qed (use assms Inr t in \<open>simp add: reconcile_def Let_def revs_def [symmetric] c_def [symmetric]\<close>)
qed (use assms in \<open>simp add: reconcile_def\<close>)

lemma live_ready_inv:
  assumes "live_ready old v" and "new \<noteq> Some old" and "rest_ok (lv_todo v)" and "lv_todo v = [] \<or> hd (lv_todo v) = CallPhase StagePrepare"
  shows "live_inv old new (ends_back (lv_todo v)) v"
proof -
  have "stage_ok old new (ends_back (lv_todo v)) (lv_todo v) v"
    using assms(1,4) by (cases "lv_todo v") (auto simp: live_ready_def ends_back_def)
  with assms show ?thesis by (force simp: live_inv_def live_ready_def)
qed

text \<open>C4: A live replacement never pulls a runtime away from a request. Whatever requests are admitted and finish while the reconciler
  carries out its transaction, the old runtime is shut down only when no lease is on it, and the number in flight is
  the number of leases. When the transaction is over the router admits calls again, and it directs them to the runtime of the
  deployment that the reconciler reports as current: the candidate after a commit, the old runtime otherwise.\<close>

theorem live_swap_safe:
  assumes "reconcile env prev nodes ev = (cur, ch, err, tr)" and "dep_value prev = Some old" and "build (items_of nodes) = Inr p"
    and "fst (env_prepare env p ch) \<noteq> Some old" and "live_ready old v0" and "lv_todo v0 = lifecycle tr"
    and "live_run access old (fst (env_prepare env p ch)) v0 v"
  shows "(\<forall>m. (old, m) \<in> set (lv_shut v) \<longrightarrow> m = 0) \<and> ro_inflight (lv_router v) = int (length (lv_leases v)) \<and>
    (lv_todo v = [] \<longrightarrow> ro_accepting (lv_router v) \<and> ro_target (lv_router v) = dep_value cur)"
proof -
  let ?new = "fst (env_prepare env p ch)"
  have calls: "rest_ok (lifecycle tr) \<and> (lifecycle tr = [] \<or> hd (lifecycle tr) = CallPhase StagePrepare) \<and>
      dep_value cur = (if ends_back (lifecycle tr) then Some old else ?new)"
    using reconcile_calls [OF assms(1)]
  proof (elim disjE exE conjE)
    assume "lifecycle tr = []" "cur = prev"
    then show ?thesis using assms(2) by (simp add: ends_back_def)
  next
    fix k assume k: "k < length stages" and l: "lifecycle tr = map CallPhase (take (Suc k) stages) @ [CallRollback (stages ! k)]" and "cur = prev"
    then have "ends_back (lifecycle tr)" by (simp add: ends_back_def)
    then show ?thesis using assms(2) rest_ok_rollback [OF k] l \<open>cur = prev\<close> by simp
  next
    fix q assume l: "lifecycle tr = map CallPhase stages" and "build (items_of nodes) = Inr q" "dep_value cur = fst (env_prepare env q ch)"
    then have "dep_value cur = ?new" using assms(3) by simp
    then show ?thesis using rest_ok_commit back_commit l by (simp add: stages_def)
  qed
  then have "live_inv old ?new (ends_back (lifecycle tr)) v0" using live_ready_inv [OF assms(5,4)] assms(6) by simp
  then have "live_inv old ?new (ends_back (lifecycle tr)) v" by (rule live_inv_run [OF assms(7)])
  with calls show ?thesis by (auto simp: live_inv_def)
qed

subsection \<open>Runs of the live lifecycle\<close>

text \<open>The next lifecycle call when nothing fails and nobody is in the way, and the admission of one request.\<close>

definition advance :: "'r \<Rightarrow> 'r option \<Rightarrow> 'r live \<Rightarrow> 'r live" where
  "advance old new v =
     (case lv_todo v of
        CallPhase st # cs \<Rightarrow>
          (if st = StagePrepare then fst (live_prepare new True v)
           else if st = StageQuiesce then v\<lparr>lv_router := fst (router_quiesce (lv_router v))\<rparr>
           else if st = StageSwap then live_activate (\<lambda>_. False) (the (lv_candidate v)) v
           else if st = StageCommit then live_retire old v else v)\<lparr>lv_todo := cs\<rparr>
      | CallRollback st # cs \<Rightarrow> (live_rollback (\<lambda>_. False) old st v)\<lparr>lv_todo := cs\<rparr>
      | _ \<Rightarrow> v)"

definition can_advance :: "'r \<Rightarrow> 'r option \<Rightarrow> 'r live \<Rightarrow> bool" where
  "can_advance old new v \<longleftrightarrow> new \<noteq> None \<and> new \<noteq> Some old \<and>
     (case lv_todo v of
        CallPhase st # cs \<Rightarrow> st \<in> set stages \<and> (st = StageQuiesce \<longrightarrow> lv_wait v = None \<and> snd (router_quiesce (lv_router v)) = None) \<and>
          (st = StageSwap \<longrightarrow> lv_candidate v \<noteq> None)
      | CallRollback st # cs \<Rightarrow> True
      | _ \<Rightarrow> False)"

definition serve :: "'r live \<Rightarrow> 'r live" where
  "serve v = (case router_acquire (lv_router v) of None \<Rightarrow> v | Some (t, r) \<Rightarrow> v\<lparr>lv_router := r, lv_leases := t # lv_leases v\<rparr>)"

lemma serve_run: "live_run access old new v (serve v)"
  by (auto simp: serve_def split: option.splits intro: live_run.step [OF live_run.refl live_step.admit] live_run.refl)

lemma advance_step:
  assumes "can_advance old new v"
  shows "live_step (\<lambda>_. False) old new v (advance old new v)"
proof (cases "lv_todo v")
  case (Cons c cs)
  show ?thesis
  proof (cases c)
    case (CallPhase st)
    obtain n where n: "new = Some n" "n \<noteq> old" using assms by (auto simp: can_advance_def)
    have "st \<in> set stages" using assms Cons CallPhase by (simp add: can_advance_def)
    then consider "st = StagePrepare" | "st = StageQuiesce" | "st = StageSwap" | "st = StageCommit" | "st \<in> {StageSnapshot, StageMigrate, StageHealth}"
      by (auto simp: stages_def)
    then show ?thesis
    proof cases
      case 1
      have "live_step (\<lambda>_. False) old new v ((fst (live_prepare new True v))\<lparr>lv_todo := cs\<rparr>)"
        by (rule live_step.prepare [of v cs new True _ True]) (use Cons CallPhase 1 n in \<open>simp_all add: live_prepare_def\<close>)
      then show ?thesis using Cons CallPhase 1 by (simp add: advance_def)
    next
      case 2
      then show ?thesis
        using live_step.quiesce [of v cs "fst (router_quiesce (lv_router v))" None "\<lambda>_. False" old new] assms Cons CallPhase
        by (simp add: advance_def can_advance_def prod_eq_iff)
    next
      case 3
      then show ?thesis
        using live_step.swap [of v cs "the (lv_candidate v)" "\<lambda>_. False" old new] assms Cons CallPhase by (auto simp: advance_def can_advance_def)
    next
      case 4
      then show ?thesis using live_step.commit [of v cs "\<lambda>_. False" old new] Cons CallPhase by (simp add: advance_def)
    next
      case 5
      then show ?thesis using live_step.inner [of v st cs "\<lambda>_. False" old new] Cons CallPhase by (auto simp: advance_def)
    qed
  next
    case (CallRollback st)
    then show ?thesis using live_step.undo [of v st cs "\<lambda>_. False" old new] Cons by (simp add: advance_def)
  qed (use assms Cons in \<open>simp add: can_advance_def\<close>)
qed (use assms in \<open>simp add: can_advance_def\<close>)

lemma live_run_trans: "live_run access old new v w \<Longrightarrow> live_run access old new u v \<Longrightarrow> live_run access old new u w"
  by (induction rule: live_run.induct) (blast intro: live_run.step)+

fun advances :: "nat \<Rightarrow> 'r \<Rightarrow> 'r option \<Rightarrow> 'r live \<Rightarrow> 'r live option" where
  "advances 0 old new v = Some v"
| "advances (Suc n) old new v = (if can_advance old new v then advances n old new (advance old new v) else None)"

lemma advances_run: "advances n old new v = Some w \<Longrightarrow> live_run (\<lambda>_. False) old new v w"
proof (induction n arbitrary: v)
  case (Suc n)
  then have "live_run (\<lambda>_. False) old new (advance old new v) w" "live_step (\<lambda>_. False) old new v (advance old new v)"
    by (simp_all add: advance_step split: if_splits)
  then show ?case using live_run_trans live_run.step [OF live_run.refl] by metis
qed (simp add: live_run.refl)

text \<open>A candidate that fails its health check is shut down while requests that were admitted to it are still in flight, and a
  runtime whose shutdown failed in the last phase serves again after the rollback.\<close>

definition demo_sick_todo :: "call list" where
  "demo_sick_todo = map CallPhase (take 6 stages) @ [CallRollback StageHealth]"

definition demo_swapped :: "nat live" where
  "demo_swapped = the (advances 5 0 (Some 1) (live_begin 0 demo_sick_todo))"

definition demo_undone :: "nat live" where
  "demo_undone = the (advances 2 0 (Some 1) (serve demo_swapped))"

lemma candidate_shut_in_use:
  "live_run (\<lambda>_. False) 0 (Some 1) (live_begin (0 :: nat) demo_sick_todo) demo_undone \<and> lv_shut demo_undone = [(1, 1)]"
proof
  have a: "advances 5 0 (Some 1) (live_begin 0 demo_sick_todo) = Some demo_swapped" "advances 2 0 (Some 1) (serve demo_swapped) = Some demo_undone"
    by code_simp+
  show "live_run (\<lambda>_. False) 0 (Some 1) (live_begin 0 demo_sick_todo) demo_undone"
    by (rule live_run_trans [OF advances_run [OF a(2)] live_run_trans [OF serve_run advances_run [OF a(1)]]])
qed code_simp

definition demo_retired :: "nat live" where
  "demo_retired = the (advances 8 0 (Some 1) (live_begin 0 (map CallPhase stages @ [CallRollback StageCommit])))"

lemma failed_retire_serves_old:
  "live_run (\<lambda>_. False) 0 (Some 1) (live_begin (0 :: nat) (map CallPhase stages @ [CallRollback StageCommit])) demo_retired \<and>
   router_acquire (lv_router demo_retired) \<noteq> None \<and> ro_target (lv_router demo_retired) = Some 0 \<and> (0, 0) \<in> set (lv_shut demo_retired)"
proof (intro conjI)
  have "advances 8 0 (Some 1) (live_begin 0 (map CallPhase stages @ [CallRollback StageCommit])) = Some demo_retired" by code_simp
  then show "live_run (\<lambda>_. False) 0 (Some 1) (live_begin 0 (map CallPhase stages @ [CallRollback StageCommit])) demo_retired"
    by (rule advances_run)
qed code_simp+

subsection \<open>The controller\<close>

record live_module =
  lm_id :: string
  lm_depends_on :: "string list"
  lm_revision :: string

text \<open>The lifecycle of a host, and the adapter that makes it one of the reconciler: the plan is dropped, \<^verbatim>\<open>Prepare\<close> gets the desired
  modules, the other phases get the values and the affected modules.\<close>

record ('c, 's, 'e) live_lifecycle =
  ll_prepare :: "live_module list \<Rightarrow> 'c option \<times> 'e option"
  ll_quiesce :: "'c option \<Rightarrow> string list \<Rightarrow> 'e option"
  ll_snapshot :: "'c option \<Rightarrow> string list \<Rightarrow> 's option \<times> 'e option"
  ll_migrate :: "'c option \<Rightarrow> 's option \<Rightarrow> string list \<Rightarrow> 'e option"
  ll_activate :: "'c option \<Rightarrow> 'c option \<Rightarrow> 'e option"
  ll_health :: "'c option \<Rightarrow> 'e option"
  ll_retire :: "'c option \<Rightarrow> 'e option"
  ll_rollback :: "'c option \<Rightarrow> 'c option \<Rightarrow> 's option \<Rightarrow> stage \<Rightarrow> 'e option"

definition live_adapter :: "('c, 's, 'e) live_lifecycle \<Rightarrow> live_module list \<Rightarrow> ('c, 's, 'e) environment \<Rightarrow> ('c, 's, 'e) environment" where
  "live_adapter h desired env = env\<lparr>
     env_prepare := (\<lambda>_ _. ll_prepare h desired),
     env_quiesce := (\<lambda>d x. ll_quiesce h (dep_value d) (affected x)),
     env_snapshot := (\<lambda>d x. ll_snapshot h (dep_value d) (affected x)),
     env_migrate := (\<lambda>n s x. ll_migrate h n s (affected x)),
     env_swap := (\<lambda>d n _. ll_activate h (dep_value d) n),
     env_health := (\<lambda>n _. ll_health h n),
     env_commit := (\<lambda>d _ _. ll_retire h (dep_value d)),
     env_rollback := (\<lambda>d n s _ p. ll_rollback h (dep_value d) n s p)\<rparr>"

definition live_plan :: "live_module list \<Rightarrow> (plan_error, plan \<times> (string \<Rightarrow> string)) result" where
  "live_plan ms =
     bindE (build (map (\<lambda>m. \<lparr>item_id = lm_id m, depends_on = lm_depends_on m\<rparr>) ms)) (\<lambda>p.
     Inr (p, fold (\<lambda>m r. r(lm_id m := lm_revision m)) ms (\<lambda>_. [])))"

definition new_live_controller :: "live_module list \<Rightarrow> 'c option \<Rightarrow> (plan_error, 'c deployment) result" where
  "new_live_controller ms value =
     bindE (live_plan ms) (\<lambda>(p, revs). Inr \<lparr>dep_plan = p, dep_value = value, dep_revisions = revs\<rparr>)"

definition live_reconcile :: "('c, 's, 'e) live_lifecycle \<Rightarrow> ('c, 's, 'e) environment \<Rightarrow> 'c deployment \<Rightarrow> live_module list \<Rightarrow> evidence
    \<Rightarrow> 'c deployment \<times> changeset \<times> 'e reconcile_error option \<times> call list" where
  "live_reconcile h env cur desired ev =
     reconcile (live_adapter h desired env) cur (map (\<lambda>m. \<lparr>rn_id = lm_id m, rn_depends_on = lm_depends_on m, rn_revision = lm_revision m\<rparr>) desired) ev"

definition live_current :: "'c deployment \<Rightarrow> 'c option" where
  "live_current d = dep_value d"

text \<open>What a host finds in its journal after a restart.\<close>

record deployment_recovery =
  dy_incomplete :: "string list"
  dy_last_committed :: string
  dy_rollback :: string

definition deployment_recovery_of :: "recovery \<Rightarrow> deployment_recovery" where
  "deployment_recovery_of r =
     \<lparr>dy_incomplete = map (\<lambda>e. dr_transaction (je_record e)) (incomplete r),
      dy_last_committed = (case last_committed r of None \<Rightarrow> [] | Some e \<Rightarrow> gd_revision (dr_desired (je_record e))),
      dy_rollback = (case last_committed r of None \<Rightarrow> [] | Some e \<Rightarrow> gd_revision (dr_previous (je_record e)))\<rparr>"

lemma live_reconcile_calls:
  assumes "live_reconcile h env prev desired ev = (cur, ch, err, tr)" and "lifecycle tr = map CallPhase stages"
  shows "live_current cur = fst (ll_prepare h desired)"
  using reconcile_calls [OF assms(1) [unfolded live_reconcile_def]] assms(2)
  by (auto simp: stages_def live_adapter_def live_current_def)

subsection \<open>Witness\<close>

definition demo_live :: "string live" where
  "demo_live = the (advances 7 ''live'' (Some ''next'') (live_begin ''live'' (map CallPhase stages)))"

theorem live_swap_safe_witness:
  "lv_todo demo_live = [] \<and> ro_target (lv_router demo_live) = Some ''next'' \<and> lv_shut demo_live = [(''live'', 0)]"
proof -
  obtain cur ch err tr where r: "reconcile demo_env demo_current demo_nodes demo_evidence = (cur, ch, err, tr)" by (metis prod_cases4)
  obtain p where p: "build (items_of demo_nodes) = Inr p" by (cases "build (items_of demo_nodes)") code_simp
  have new: "fst (env_prepare demo_env p ch) = Some ''next''" by (simp add: demo_env_def)
  from demo_committed_run [unfolded r] have c: "dep_value cur = Some ''next''" and l: "lifecycle tr = map CallPhase stages"
    by (simp_all only: map_prod_simp prod.inject snd_conv)
  have a: "advances 7 ''live'' (Some ''next'') (live_begin ''live'' (map CallPhase stages)) = Some demo_live" by code_simp
  have v: "lv_todo demo_live = []" "lv_shut demo_live = [(''live'', 0)]" by code_simp+
  have ready: "live_ready ''live'' (live_begin ''live'' (lifecycle tr))" by (simp add: live_ready_def live_begin_def new_router_def router_ok_def)
  have "live_run (\<lambda>_. False) ''live'' (fst (env_prepare demo_env p ch)) (live_begin ''live'' (lifecycle tr)) demo_live"
    using advances_run [OF a] by (simp only: new l)
  then have "ro_target (lv_router demo_live) = dep_value cur"
    using live_swap_safe [OF r _ p _ ready, of "\<lambda>_. False" demo_live] v new by (simp add: demo_current_def live_begin_def)
  then show ?thesis using v c by (intro conjI) simp_all
qed

end
