(* ===== verification/Live_Snapshot.thy ===== *)
theory Live_Snapshot
  imports Pulp_Prelude
begin

text \<open>
  State transfer of a live replacement, \<^verbatim>\<open>src/run/application_snapshot.go\<close> and the health check of \<^verbatim>\<open>live_application_runtime.go\<close>. A runtime is
  its started flag and its cells by address. Taking and restoring the state of one cell are calls into the guest: \<open>snap\<close> and
  \<open>rest\<close> give their outcome. What a guest makes of the bytes is its own affair: two guests may hold one state in different bytes (the guest
  generated for a fused unit writes its partitions anew), so nothing is assumed of \<open>snap\<close> and \<open>rest\<close>. A Go map is visited in an order of its own; the list of cells is that order, and the code
  sorts the addresses before it calls a guest.
\<close>

record 'w runtime_cell =
  rc_snapshotable :: bool
  rc_failed :: bool
  rc_cell :: "'w option"

record 'w app_runtime =
  ar_started :: bool
  ar_cells :: "(string \<times> 'w runtime_cell) list"

datatype snapshot_value = NoSnapshot | AppSnapshot "(string \<times> string) list" | OtherSnapshot

datatype snapshot_error = RuntimeNotStarted | CellUnavailable string | SnapshotFailed string string | UnsupportedSnapshot
  | UnknownStateful string | MissingStateful string | RestoreFailed string string

definition live_stateful :: "'w app_runtime \<Rightarrow> bool" where
  "live_stateful r \<longleftrightarrow> list_ex (\<lambda>(a, c). rc_snapshotable c) (ar_cells r)"

definition stateful_addresses :: "'w app_runtime \<Rightarrow> string list" where
  "stateful_addresses r = sort (map fst (filter (\<lambda>(a, c). rc_snapshotable c) (ar_cells r)))"

definition available :: "(string \<times> 'w runtime_cell) list \<Rightarrow> string \<Rightarrow> 'w option" where
  "available cells a = (case map_of cells a of None \<Rightarrow> None | Some c \<Rightarrow> if rc_failed c then None else rc_cell c)"

fun snapshot_cells :: "('w \<Rightarrow> (string, string) result) \<Rightarrow> (string \<times> 'w runtime_cell) list \<Rightarrow> string list
    \<Rightarrow> (snapshot_error, (string \<times> string) list) result" where
  "snapshot_cells snap cells [] = Inr []"
| "snapshot_cells snap cells (a # as) =
     (case available cells a of
        None \<Rightarrow> Inl (CellUnavailable a)
      | Some w \<Rightarrow> bindE (map_err (SnapshotFailed a) (snap w)) (\<lambda>b. bindE (snapshot_cells snap cells as) (\<lambda>r. Inr ((a, b) # r))))"

definition snapshot_live :: "('w \<Rightarrow> (string, string) result) \<Rightarrow> 'w app_runtime \<Rightarrow> (snapshot_error, (string \<times> string) list) result" where
  "snapshot_live snap r =
     (if \<not> ar_started r then Inl RuntimeNotStarted else snapshot_cells snap (ar_cells r) (stateful_addresses r))"

definition put_cell :: "string \<Rightarrow> 'w \<Rightarrow> (string \<times> 'w runtime_cell) list \<Rightarrow> (string \<times> 'w runtime_cell) list" where
  "put_cell a w cells = map (\<lambda>(x, c). (x, if x = a then c\<lparr>rc_cell := Some w\<rparr> else c)) cells"

text \<open>A failure leaves the cells restored before it as they are.\<close>

fun restore_cells :: "('w \<Rightarrow> string \<Rightarrow> (string, 'w) result) \<Rightarrow> (string \<times> string) list \<Rightarrow> (string \<times> 'w runtime_cell) list \<Rightarrow> string list
    \<Rightarrow> (string \<times> 'w runtime_cell) list \<times> snapshot_error option" where
  "restore_cells rest s cells [] = (cells, None)"
| "restore_cells rest s cells (a # as) =
     (case available cells a of
        None \<Rightarrow> (cells, Some (CellUnavailable a))
      | Some w \<Rightarrow>
          (case rest w (case_option [] id (map_of s a)) of
             Inl m \<Rightarrow> (cells, Some (RestoreFailed a m))
           | Inr w' \<Rightarrow> restore_cells rest s (put_cell a w' cells) as))"

definition restore_live :: "('w \<Rightarrow> string \<Rightarrow> (string, 'w) result) \<Rightarrow> 'w app_runtime \<Rightarrow> snapshot_value \<Rightarrow> 'w app_runtime \<times> snapshot_error option" where
  "restore_live rest r value =
     (if \<not> ar_started r then (r, Some RuntimeNotStarted)
      else case value of
             AppSnapshot s \<Rightarrow>
               (case List.find (\<lambda>a. a \<notin> set (stateful_addresses r)) (map fst s) of
                  Some a \<Rightarrow> (r, Some (UnknownStateful a))
                | None \<Rightarrow>
                    (case List.find (\<lambda>a. a \<notin> fst ` set s) (stateful_addresses r) of
                       Some a \<Rightarrow> (r, Some (MissingStateful a))
                     | None \<Rightarrow> (let (cells, err) = restore_cells rest s (ar_cells r) (stateful_addresses r) in (r\<lparr>ar_cells := cells\<rparr>, err))))
           | NoSnapshot \<Rightarrow> if live_stateful r then (r, Some UnsupportedSnapshot) else (r, None)
           | OtherSnapshot \<Rightarrow> (r, Some UnsupportedSnapshot))"

text \<open>The phases of the live lifecycle: a runtime that cannot take or restore snapshots is refused when it has state.\<close>

definition lifecycle_snapshot :: "bool \<Rightarrow> ('w \<Rightarrow> (string, string) result) \<Rightarrow> 'w app_runtime \<Rightarrow> (snapshot_error, snapshot_value) result" where
  "lifecycle_snapshot capable snap r =
     (if capable then bindE (snapshot_live snap r) (\<lambda>s. Inr (AppSnapshot s))
      else if live_stateful r then Inl UnsupportedSnapshot else Inr NoSnapshot)"

definition lifecycle_migrate :: "bool \<Rightarrow> ('w \<Rightarrow> string \<Rightarrow> (string, 'w) result) \<Rightarrow> 'w app_runtime \<Rightarrow> snapshot_value \<Rightarrow> 'w app_runtime \<times> snapshot_error option" where
  "lifecycle_migrate capable rest r value =
     (if capable then restore_live rest r value
      else if value \<noteq> NoSnapshot \<or> live_stateful r then (r, Some UnsupportedSnapshot) else (r, None))"

definition live_health :: "'w app_runtime \<Rightarrow> snapshot_error option" where
  "live_health r =
     (if \<not> ar_started r then Some RuntimeNotStarted
      else map_option (\<lambda>(a, c). CellUnavailable a) (List.find (\<lambda>(a, c). rc_failed c \<or> rc_cell c = None) (ar_cells r)))"

subsection \<open>State transfer\<close>

lemma put_cell_fst [simp]: "map fst (put_cell a w cells) = map fst cells"
  by (induction cells) (auto simp: put_cell_def)

lemma map_of_put_cell: "map_of (put_cell a w cells) x = (if x = a then map_option (\<lambda>c. c\<lparr>rc_cell := Some w\<rparr>) (map_of cells x) else map_of cells x)"
  by (induction cells) (auto simp: put_cell_def)

lemma put_cell_stateful: "map fst (filter (\<lambda>(a, c). rc_snapshotable c) (put_cell a w cells)) = map fst (filter (\<lambda>(a, c). rc_snapshotable c) cells)"
  by (induction cells) (auto simp: put_cell_def split: if_splits)

lemma available_put: "available (put_cell a w cells) x = (if x = a \<and> available cells a \<noteq> None then Some w else available cells x)"
  if "available cells a \<noteq> None"
  using that by (auto simp: available_def map_of_put_cell split: option.splits if_splits)

lemma snapshot_cells_Inr:
  "snapshot_cells snap cells as = Inr s \<longleftrightarrow> map fst s = as \<and> (\<forall>(a, b) \<in> set s. \<exists>w. available cells a = Some w \<and> snap w = Inr b)"
proof (induction as arbitrary: s)
  case (Cons a as)
  then show ?case by (cases s) (auto split: option.splits)
qed auto

lemma restore_cells_None:
  assumes "restore_cells rest s cells as = (cells', None)" and "distinct as"
  shows "map fst (filter (\<lambda>(a, c). rc_snapshotable c) cells') = map fst (filter (\<lambda>(a, c). rc_snapshotable c) cells) \<and>
    (\<forall>x. x \<notin> set as \<longrightarrow> map_of cells' x = map_of cells x) \<and>
    (\<forall>x \<in> set as. \<exists>w w'. available cells x = Some w \<and> rest w (case_option [] id (map_of s x)) = Inr w' \<and> available cells' x = Some w')"
  using assms
proof (induction as arbitrary: cells)
  case (Cons a as)
  obtain w w' where w: "available cells a = Some w" "rest w (case_option [] id (map_of s a)) = Inr w'"
    and r: "restore_cells rest s (put_cell a w' cells) as = (cells', None)" and d: "distinct as" "a \<notin> set as"
    using Cons.prems by (auto split: option.splits sum.splits)
  note IH = Cons.IH [OF r d(1)]
  have av: "available (put_cell a w' cells) x = (if x = a then Some w' else available cells x)" for x
    using w by (simp add: available_put)
  have "available cells' a = available (put_cell a w' cells) a" using IH d(2) by (simp add: available_def)
  then have "available cells' a = Some w'" by (simp add: av)
  moreover have "\<forall>x \<in> set as. \<exists>u u'. available cells x = Some u \<and> rest u (case_option [] id (map_of s x)) = Inr u' \<and> available cells' x = Some u'"
  proof
    fix x assume x: "x \<in> set as"
    then have "x \<noteq> a" using d(2) by auto
    moreover have "\<exists>u u'. available (put_cell a w' cells) x = Some u \<and> rest u (case_option [] id (map_of s x)) = Inr u' \<and> available cells' x = Some u'"
      using IH x by blast
    ultimately show "\<exists>u u'. available cells x = Some u \<and> rest u (case_option [] id (map_of s x)) = Inr u' \<and> available cells' x = Some u'"
      by (simp add: av)
  qed
  ultimately show ?case using IH w by (auto simp: put_cell_stateful map_of_put_cell)
qed auto

text \<open>A cell of the candidate that was restored with the bytes its namesake in the old runtime gave.\<close>

definition restored :: "('w \<Rightarrow> (string, string) result) \<Rightarrow> ('w \<Rightarrow> string \<Rightarrow> (string, 'w) result) \<Rightarrow> 'w app_runtime \<Rightarrow> 'w app_runtime
    \<Rightarrow> 'w app_runtime \<Rightarrow> string \<Rightarrow> bool" where
  "restored snap rest old new new' a \<longleftrightarrow>
     (\<exists>u b v v'. available (ar_cells old) a = Some u \<and> snap u = Inr b \<and> available (ar_cells new) a = Some v \<and> rest v b = Inr v' \<and>
        available (ar_cells new') a = Some v')"

lemma restore_cells_any:
  assumes "restore_cells rest s cells as = (cells', err)" and "distinct as"
  shows "(\<forall>x. map_of cells' x = map_of cells x \<or>
      x \<in> set as \<and> (\<exists>w w'. available cells x = Some w \<and> rest w (case_option [] id (map_of s x)) = Inr w' \<and> available cells' x = Some w')) \<and>
    (err = None \<longleftrightarrow> (\<forall>x \<in> set as. \<exists>w w'. available cells x = Some w \<and> rest w (case_option [] id (map_of s x)) = Inr w'))"
  using assms
proof (induction as arbitrary: cells)
  case (Cons a as)
  show ?case
  proof (cases "\<exists>w w'. available cells a = Some w \<and> rest w (case_option [] id (map_of s a)) = Inr w'")
    case False
    then have "cells' = cells \<and> err \<noteq> None" using Cons.prems(1) by (auto split: option.splits sum.splits)
    then show ?thesis using False by auto
  next
    case True
    then obtain w w' where w: "available cells a = Some w" "rest w (case_option [] id (map_of s a)) = Inr w'" by blast
    then have r: "restore_cells rest s (put_cell a w' cells) as = (cells', err)" using Cons.prems(1) by simp
    have d: "distinct as" "a \<notin> set as" using Cons.prems(2) by auto
    note IH = Cons.IH [OF r d(1)]
    have av: "available (put_cell a w' cells) x = (if x = a then Some w' else available cells x)" for x
      using w by (simp add: available_put)
    have "map_of cells' a = map_of (put_cell a w' cells) a" using IH d(2) by blast
    then have a': "available cells' a = Some w'" using av [of a] by (simp add: available_def)
    have "map_of cells' x = map_of cells x \<or>
        x \<in> set (a # as) \<and> (\<exists>w w'. available cells x = Some w \<and> rest w (case_option [] id (map_of s x)) = Inr w' \<and> available cells' x = Some w')" for x
    proof (cases "x = a")
      case False
      have "map_of cells' x = map_of (put_cell a w' cells) x \<or>
        x \<in> set as \<and> (\<exists>w w''. available (put_cell a w' cells) x = Some w \<and> rest w (case_option [] id (map_of s x)) = Inr w'' \<and> available cells' x = Some w'')"
        using IH by blast
      then show ?thesis using False by (simp add: av map_of_put_cell)
    qed (use w a' in auto)
    moreover have "(\<forall>x \<in> set as. \<exists>v v'. available (put_cell a w' cells) x = Some v \<and> rest v (case_option [] id (map_of s x)) = Inr v') \<longleftrightarrow>
        (\<forall>x \<in> set as. \<exists>v v'. available cells x = Some v \<and> rest v (case_option [] id (map_of s x)) = Inr v')"
      using d(2) by (intro ball_cong refl) (auto simp: av)
    ultimately show ?thesis using IH w by simp
  qed
qed auto


subsection \<open>Witness\<close>

definition demo_runtime :: "string \<Rightarrow> string app_runtime" where
  "demo_runtime state = \<lparr>ar_started = True, ar_cells = [(''b'', \<lparr>rc_snapshotable = True, rc_failed = False, rc_cell = Some state\<rparr>),
     (''a'', \<lparr>rc_snapshotable = False, rc_failed = False, rc_cell = Some ''x''\<rparr>)]\<rparr>"

text \<open>A guest that drops a leading blank when it restores.\<close>

definition demo_restore :: "string \<Rightarrow> string \<Rightarrow> (string, string) result" where
  "demo_restore w b = (if b = [] then Inl ''empty'' else Inr (trim_prefix '' '' b))"


end
