(* ===== verification/Ai_Control.thy ===== *)
theory Ai_Control
  imports Registry_Version "HOL-Library.Multiset"
begin

text \<open>
  The control plane for automation, \<^verbatim>\<open>src/aicontrol/model.go\<close> and \<^verbatim>\<open>controller.go\<close>: sealed proposals, evidence and the controller that
  assesses, deploys and rolls back. JSON and SHA-256 are fields of \<open>seals\<close>. Builder, tester, policy, approval verifier, deployer,
  clock and audit sink are interfaces: what they answer is given by an \<open>ai_env\<close>, and the calls the controller makes are
  recorded in order. Deployments are serialised by a mutex, so a call is one function. Slices of the caller that
  \<^verbatim>\<open>NewProposal\<close> sorts in place are not observed again. Go's sort leaves the order of entries with equal keys open; here they keep it.
  The texts of errors and the detail of an audit event, which is such a text, are not modelled.
\<close>

subsection \<open>Proposals\<close>

record file_diff =
  fd_path :: string
  fd_before :: string
  fd_after :: string

record contract_diff =
  cd_name :: string
  cd_before :: string
  cd_after :: string

record capability_diff =
  pd_module :: string
  pd_capability :: string
  pd_change :: string

record graph_node =
  gn_id :: string
  gn_revision :: string
  gn_depends_on :: "string list"

record draft =
  dr_base_revision :: string
  dr_intent :: string
  dr_graph :: "graph_node list"
  dr_lua :: "file_diff list"
  dr_contracts :: "contract_diff list"
  dr_capabilities :: "capability_diff list"

record proposal =
  pr_digest :: string
  pr_content :: draft

record evidence_item =
  ei_kind :: string
  ei_name :: string
  ei_digest :: string
  ei_passed :: bool

record evidence_content =
  ec_proposal :: string
  ec_items :: "evidence_item list"
  ec_artifact_digest :: string

record ai_evidence =
  ae_content :: evidence_content
  ae_digest :: string

record approval =
  ap_proposal :: string
  ap_evidence :: string
  ap_policy :: string
  ap_approver :: string
  ap_nonce :: string
  ap_expires_at :: int
  ap_signature :: string

record seals =
  sl_proposal :: "draft \<Rightarrow> string"
  sl_evidence :: "evidence_content \<Rightarrow> string"
  sl_sha256 :: "string \<Rightarrow> 8 word list"

datatype proposal_error = MissingIntent | BadGraphNode string | RepeatedDependency string | UnknownNode string string

datatype evidence_error = UnsealedProposal | IncompleteItem

definition seal_proposal :: "seals \<Rightarrow> draft \<Rightarrow> string" where
  "seal_proposal sl d = hex_encode (sl_sha256 sl (sl_proposal sl d))"

definition seal_evidence :: "seals \<Rightarrow> evidence_content \<Rightarrow> string" where
  "seal_evidence sl e = hex_encode (sl_sha256 sl (sl_evidence sl e))"

fun adjacent_repeat :: "string list \<Rightarrow> string option" where
  "adjacent_repeat (x # y # xs) = (if y = x then Some y else adjacent_repeat (y # xs))"
| "adjacent_repeat _ = None"

text \<open>The first loop: every node is trimmed and its dependencies are sorted.\<close>

fun normalize_graph :: "string list \<Rightarrow> graph_node list \<Rightarrow> (proposal_error, graph_node list) result" where
  "normalize_graph seen [] = Inr []"
| "normalize_graph seen (n # ns) =
     (let i = trim_space (gn_id n); r = trim_space (gn_revision n); ds = sort (gn_depends_on n)
      in if i = [] \<or> r = [] \<or> i \<in> set seen then Inl (BadGraphNode i)
         else case adjacent_repeat ds of
                Some d \<Rightarrow> Inl (RepeatedDependency d)
              | None \<Rightarrow> bindE (normalize_graph (i # seen) ns) (\<lambda>rest. Inr (\<lparr>gn_id = i, gn_revision = r, gn_depends_on = ds\<rparr> # rest)))"

fun unknown_dependency :: "string list \<Rightarrow> graph_node list \<Rightarrow> (proposal_error, unit) result" where
  "unknown_dependency seen [] = Inr ()"
| "unknown_dependency seen (n # ns) =
     (case List.find (\<lambda>d. d \<notin> set seen) (gn_depends_on n) of
        Some d \<Rightarrow> Inl (UnknownNode (gn_id n) d)
      | None \<Rightarrow> unknown_dependency seen ns)"

definition new_proposal :: "seals \<Rightarrow> draft \<Rightarrow> (proposal_error, proposal) result" where
  "new_proposal sl d =
     (let base = trim_space (dr_base_revision d); intent = trim_space (dr_intent d)
      in if base = [] \<or> intent = [] then Inl MissingIntent
         else bindE (normalize_graph [] (dr_graph d)) (\<lambda>g.
              bindE (unknown_dependency (map gn_id g) g) (\<lambda>_.
              let c = \<lparr>dr_base_revision = base, dr_intent = intent, dr_graph = sort_key gn_id g, dr_lua = sort_key fd_path (dr_lua d),
                       dr_contracts = sort_key cd_name (dr_contracts d),
                       dr_capabilities = sort_key (\<lambda>x. (pd_module x, pd_capability x)) (dr_capabilities d)\<rparr>
              in Inr \<lparr>pr_digest = seal_proposal sl c, pr_content = c\<rparr>)))"

definition new_evidence :: "seals \<Rightarrow> proposal \<Rightarrow> evidence_item list \<Rightarrow> string \<Rightarrow> (evidence_error, ai_evidence) result" where
  "new_evidence sl p items artifact =
     (if pr_digest p = [] then Inl UnsealedProposal
      else let sorted_items = sort_key (\<lambda>x. (ei_kind x, ei_name x)) items
           in if list_ex (\<lambda>x. ei_kind x = [] \<or> ei_name x = [] \<or> ei_digest x = []) sorted_items then Inl IncompleteItem
              else let c = \<lparr>ec_proposal = pr_digest p, ec_items = sorted_items, ec_artifact_digest = artifact\<rparr>
                   in Inr \<lparr>ae_content = c, ae_digest = seal_evidence sl c\<rparr>)"

definition computed_digest :: "seals \<Rightarrow> ai_evidence \<Rightarrow> string" where
  "computed_digest sl e = seal_evidence sl (ae_content e)"

subsection \<open>The controller\<close>

record policy_decision =
  po_digest :: string
  po_allowed :: bool
  po_reasons :: "string list"
  po_requires_approval :: bool

record audit_event =
  ev_at :: int
  ev_operation :: string
  ev_proposal :: string
  ev_actor :: string
  ev_result :: string

datatype ai_call = BuildCalled proposal | TestCalled proposal string | EvaluateCalled proposal ai_evidence | VerifyCalled approval
  | RevisionRead | DeployCalled proposal ai_evidence | RollbackCalled string | EventRecorded audit_event

record ai_env =
  en_build :: "proposal \<Rightarrow> (string, string) result"
  en_test :: "proposal \<Rightarrow> string \<Rightarrow> (string, evidence_item list) result"
  en_evaluate :: "proposal \<Rightarrow> ai_evidence \<Rightarrow> (string, policy_decision) result"
  en_verify :: "approval \<Rightarrow> string option"
  en_revision :: "(string, string) result"
  en_deploy :: "proposal \<Rightarrow> ai_evidence \<Rightarrow> (string, string) result"
  en_rollback :: "string \<Rightarrow> string option"
  en_now :: int
  en_event_time :: int

datatype control_error = Unsealed | BuildFailed string | TestFailed string | BadEvidence evidence_error | PolicyFailed string | NoPolicyDigest
  | EvidenceUnbound | EvidenceModified | PolicyReevaluation string | DecisionStale | PolicyDenied "string list" | EvidenceFailed string string
  | ApprovalRequired | ApprovalMismatch | ApprovalExpired | ApprovalRejected string | RevisionFailed string | StaleProposal string string
  | DeployFailed string | NoDeploymentID | RollbackFailed string

definition audit :: "ai_env \<Rightarrow> string \<Rightarrow> string \<Rightarrow> string \<Rightarrow> string \<Rightarrow> ai_call" where
  "audit env op p actor result =
     EventRecorded \<lparr>ev_at = en_event_time env, ev_operation = op, ev_proposal = p, ev_actor = actor, ev_result = result\<rparr>"

definition assess :: "seals \<Rightarrow> ai_env \<Rightarrow> proposal \<Rightarrow> string \<Rightarrow> ai_call list \<times> (control_error, ai_evidence \<times> policy_decision) result" where
  "assess sl env p actor =
     (if pr_digest p = [] then ([], Inl Unsealed)
      else case en_build env p of
             Inl m \<Rightarrow> ([BuildCalled p, audit env ''assess'' (pr_digest p) actor ''failed''], Inl (BuildFailed m))
           | Inr artifact \<Rightarrow>
               (case en_test env p artifact of
                  Inl m \<Rightarrow> ([BuildCalled p, TestCalled p artifact, audit env ''assess'' (pr_digest p) actor ''failed''], Inl (TestFailed m))
                | Inr items \<Rightarrow>
                    (case new_evidence sl p items artifact of
                       Inl err \<Rightarrow> ([BuildCalled p, TestCalled p artifact], Inl (BadEvidence err))
                     | Inr e \<Rightarrow>
                         (let calls = [BuildCalled p, TestCalled p artifact, EvaluateCalled p e]
                          in case en_evaluate env p e of
                               Inl m \<Rightarrow> (calls, Inl (PolicyFailed m))
                             | Inr d \<Rightarrow>
                                 if po_digest d = [] then (calls, Inl NoPolicyDigest)
                                 else (calls @ [audit env ''assess'' (pr_digest p) actor ''complete''], Inr (e, d))))))"

text \<open>The approval that a decision asks for: bound to proposal, evidence and policy, complete, not expired and verified.\<close>

definition check_approval :: "ai_env \<Rightarrow> proposal \<Rightarrow> ai_evidence \<Rightarrow> policy_decision \<Rightarrow> approval option \<Rightarrow> ai_call list \<times> control_error option" where
  "check_approval env p e d a =
     (if \<not> po_requires_approval d then ([], None)
      else case a of
             None \<Rightarrow> ([], Some ApprovalRequired)
           | Some x \<Rightarrow>
               if ap_proposal x \<noteq> pr_digest p \<or> ap_evidence x \<noteq> ae_digest e \<or> ap_policy x \<noteq> po_digest d then ([], Some ApprovalMismatch)
               else if ap_approver x = [] \<or> ap_nonce x = [] \<or> \<not> en_now env < ap_expires_at x then ([], Some ApprovalExpired)
               else ([VerifyCalled x], map_option ApprovalRejected (en_verify env x)))"

definition deploy_current :: "ai_env \<Rightarrow> proposal \<Rightarrow> ai_evidence \<Rightarrow> ai_call list \<times> (control_error, string) result" where
  "deploy_current env p e =
     (case en_revision env of
        Inl m \<Rightarrow> ([RevisionRead], Inl (RevisionFailed m))
      | Inr current \<Rightarrow>
          if current \<noteq> dr_base_revision (pr_content p) then ([RevisionRead], Inl (StaleProposal (dr_base_revision (pr_content p)) current))
          else ([RevisionRead, DeployCalled p e], map_err DeployFailed (en_deploy env p e)))"

definition deploy_checked :: "seals \<Rightarrow> ai_env \<Rightarrow> proposal \<Rightarrow> ai_evidence \<Rightarrow> policy_decision \<Rightarrow> approval option
    \<Rightarrow> ai_call list \<times> (control_error, string) result" where
  "deploy_checked sl env p e d a =
     (if pr_digest p = [] \<or> ec_proposal (ae_content e) \<noteq> pr_digest p \<or> ae_digest e = [] then ([], Inl EvidenceUnbound)
      else if computed_digest sl e \<noteq> ae_digest e then ([], Inl EvidenceModified)
      else case en_evaluate env p e of
             Inl m \<Rightarrow> ([EvaluateCalled p e], Inl (PolicyReevaluation m))
           | Inr v \<Rightarrow>
               if v \<noteq> d then ([EvaluateCalled p e], Inl DecisionStale)
               else if \<not> po_allowed d then ([EvaluateCalled p e], Inl (PolicyDenied (po_reasons d)))
               else case List.find (\<lambda>x. \<not> ei_passed x) (ec_items (ae_content e)) of
                      Some x \<Rightarrow> ([EvaluateCalled p e], Inl (EvidenceFailed (ei_kind x) (ei_name x)))
                    | None \<Rightarrow>
                        (case check_approval env p e d a of
                           (calls, Some err) \<Rightarrow> (EvaluateCalled p e # calls, Inl err)
                         | (calls, None) \<Rightarrow>
                             (let (more, r) = deploy_current env p e in (EvaluateCalled p e # calls @ more, r))))"

definition control_deploy :: "seals \<Rightarrow> ai_env \<Rightarrow> proposal \<Rightarrow> ai_evidence \<Rightarrow> policy_decision \<Rightarrow> approval option \<Rightarrow> string
    \<Rightarrow> ai_call list \<times> (control_error, string) result" where
  "control_deploy sl env p e d a actor =
     (let (calls, r) = deploy_checked sl env p e d a
      in (calls @ [audit env ''deploy'' (pr_digest p) actor (if isl r then ''denied'' else ''complete'')], r))"

definition control_rollback :: "ai_env \<Rightarrow> string \<Rightarrow> string \<Rightarrow> ai_call list \<times> control_error option" where
  "control_rollback env i actor =
     (if i = [] then ([], Some NoDeploymentID)
      else case en_rollback env i of
             None \<Rightarrow> ([RollbackCalled i, audit env ''rollback'' [] actor ''complete''], None)
           | Some m \<Rightarrow> ([RollbackCalled i, audit env ''rollback'' [] actor ''failed''], Some (RollbackFailed m)))"

subsection \<open>The static policy\<close>

record static_policy =
  sp_digest :: string
  sp_allowed :: "string list"
  sp_require_approval :: bool

definition static_evaluate :: "static_policy \<Rightarrow> proposal \<Rightarrow> ai_evidence \<Rightarrow> (string, policy_decision) result" where
  "static_evaluate sp p e =
     (let reasons = map (\<lambda>c. ''capability not allowed: '' @ pd_module c @ ''/'' @ pd_capability c)
            (filter (\<lambda>c. pd_change c = ''add'' \<and> pd_capability c \<notin> set (sp_allowed sp)) (dr_capabilities (pr_content p)))
      in Inr \<lparr>po_digest = sp_digest sp, po_allowed = (reasons = []), po_reasons = reasons, po_requires_approval = sp_require_approval sp\<rparr>)"

subsection \<open>Sealed proposals\<close>

lemma adjacent_repeat_sorted: "sorted xs \<Longrightarrow> adjacent_repeat xs = None \<longleftrightarrow> distinct xs"
  by (induction xs rule: adjacent_repeat.induct) auto

lemma normalize_graph_Inr:
  "normalize_graph seen ns = Inr g \<longleftrightarrow>
     g = map (\<lambda>n. \<lparr>gn_id = trim_space (gn_id n), gn_revision = trim_space (gn_revision n), gn_depends_on = sort (gn_depends_on n)\<rparr>) ns \<and>
     distinct (map (\<lambda>n. trim_space (gn_id n)) ns) \<and> (\<forall>n \<in> set ns. trim_space (gn_id n) \<notin> set seen \<and> trim_space (gn_id n) \<noteq> [] \<and>
       trim_space (gn_revision n) \<noteq> [] \<and> distinct (gn_depends_on n))"
proof (induction seen ns arbitrary: g rule: normalize_graph.induct)
  case (2 seen n ns)
  have "adjacent_repeat (sort (gn_depends_on n)) = None \<longleftrightarrow> distinct (gn_depends_on n)"
    by (simp add: adjacent_repeat_sorted)
  then show ?case using 2 by (auto simp: Let_def split: option.split) (metis image_eqI)+
qed auto

lemma unknown_dependency_Inr: "unknown_dependency seen g = Inr u \<longleftrightarrow> (\<forall>n \<in> set g. set (gn_depends_on n) \<subseteq> set seen)"
  by (induction g) (auto split: option.split simp: find_None_iff find_Some_iff dest: nth_mem)

text \<open>What a sealed proposal promises: its graph is closed, sorted and without repetitions, and the digest is the one of its content.\<close>

definition proposal_ok :: "seals \<Rightarrow> proposal \<Rightarrow> bool" where
  "proposal_ok sl p \<longleftrightarrow>
     pr_digest p = seal_proposal sl (pr_content p) \<and> dr_base_revision (pr_content p) \<noteq> [] \<and> dr_intent (pr_content p) \<noteq> [] \<and>
     sorted (map gn_id (dr_graph (pr_content p))) \<and> distinct (map gn_id (dr_graph (pr_content p))) \<and>
     (\<forall>n \<in> set (dr_graph (pr_content p)). gn_id n \<noteq> [] \<and> gn_revision n \<noteq> [] \<and> sorted (gn_depends_on n) \<and> distinct (gn_depends_on n) \<and>
        set (gn_depends_on n) \<subseteq> gn_id ` set (dr_graph (pr_content p)))"

lemma new_proposal_ok:
  assumes "new_proposal sl d = Inr p"
  shows "proposal_ok sl p"
proof -
  obtain g where g: "normalize_graph [] (dr_graph d) = Inr g" "unknown_dependency (map gn_id g) g = Inr ()"
    and p: "pr_digest p = seal_proposal sl (pr_content p)" "dr_graph (pr_content p) = sort_key gn_id g"
      "dr_base_revision (pr_content p) \<noteq> []" "dr_intent (pr_content p) \<noteq> []"
    using assms by (auto simp: new_proposal_def Let_def split: if_splits)
  have "distinct (map gn_id g)" "\<forall>n \<in> set g. gn_id n \<noteq> [] \<and> gn_revision n \<noteq> [] \<and> sorted (gn_depends_on n) \<and> distinct (gn_depends_on n)"
    using g(1) by (auto simp: normalize_graph_Inr comp_def)
  moreover have "\<forall>n \<in> set g. set (gn_depends_on n) \<subseteq> gn_id ` set g" using g(2) by (simp add: unknown_dependency_Inr)
  moreover have "distinct (map gn_id (sort_key gn_id g)) = distinct (map gn_id g)"
    by (metis mset_map mset_sort mset_eq_imp_distinct_iff)
  ultimately show ?thesis using p by (auto simp: proposal_ok_def)
qed

subsection \<open>Authority to deploy\<close>

definition approved :: "ai_env \<Rightarrow> proposal \<Rightarrow> ai_evidence \<Rightarrow> policy_decision \<Rightarrow> approval \<Rightarrow> bool" where
  "approved env p e d x \<longleftrightarrow> ap_proposal x = pr_digest p \<and> ap_evidence x = ae_digest e \<and> ap_policy x = po_digest d \<and>
     ap_approver x \<noteq> [] \<and> ap_nonce x \<noteq> [] \<and> en_now env < ap_expires_at x \<and> en_verify env x = None"

definition deployable :: "seals \<Rightarrow> ai_env \<Rightarrow> proposal \<Rightarrow> ai_evidence \<Rightarrow> policy_decision \<Rightarrow> approval option \<Rightarrow> bool" where
  "deployable sl env p e d a \<longleftrightarrow>
     pr_digest p \<noteq> [] \<and> ec_proposal (ae_content e) = pr_digest p \<and> ae_digest e \<noteq> [] \<and> ae_digest e = seal_evidence sl (ae_content e) \<and>
     en_evaluate env p e = Inr d \<and> po_allowed d \<and> list_all ei_passed (ec_items (ae_content e)) \<and>
     (po_requires_approval d \<longrightarrow> (\<exists>x. a = Some x \<and> approved env p e d x)) \<and>
     en_revision env = Inr (dr_base_revision (pr_content p))"

lemma check_approval_None:
  "check_approval env p e d a = (calls, None) \<longleftrightarrow> (po_requires_approval d \<longrightarrow> (\<exists>x. a = Some x \<and> approved env p e d x)) \<and>
     calls = (if po_requires_approval d then [VerifyCalled (the a)] else [])"
  by (auto simp: check_approval_def approved_def split: option.splits if_splits)

lemma check_approval_Some:
  "check_approval env p e d a = (calls, Some err) \<Longrightarrow> po_requires_approval d \<and> \<not> (\<exists>x. a = Some x \<and> approved env p e d x)"
  by (auto simp: check_approval_def approved_def split: option.splits if_splits)

lemma check_approval_calls: "check_approval env p e d a = (calls, r) \<Longrightarrow> set calls \<subseteq> range VerifyCalled"
  by (auto simp: check_approval_def split: option.splits if_splits)

lemma deploy_checked_calls:
  assumes "deploy_checked sl env p e d a = (calls, r)"
  shows "DeployCalled p' e' \<in> set calls \<longleftrightarrow> p' = p \<and> e' = e \<and> deployable sl env p e d a"
    and "r = Inr i \<longleftrightarrow> deployable sl env p e d a \<and> en_deploy env p e = Inr i"
    and "EventRecorded ev \<notin> set calls" and "RollbackCalled j \<notin> set calls"
  using assms check_approval_calls [of env p e d a]
  by (auto simp: deploy_checked_def deployable_def computed_digest_def deploy_current_def check_approval_None find_None_iff find_Some_iff list_all_iff
      map_err_Inl_conv dest!: check_approval_Some split: if_splits sum.splits option.splits prod.splits)

text \<open>C17: The deployer is called exactly for a deployable proposal: the evidence is bound to the sealed proposal and was not modified
  after it was sealed, the policy evaluated again gives the very decision the caller presents and allows it, all evidence passed,
  an approval that the decision asks for is bound to proposal, evidence and policy, complete, not expired and verified, and the
  current revision is the one the proposal is based on. It is called with this proposal and evidence, the result is the deployer's,
  nothing is rolled back, and exactly one audit event is recorded, last, which says whether the deployment went through.\<close>

theorem deploy_authorized:
  assumes "control_deploy sl env p e d a actor = (calls, r)"
  shows "(\<forall>p' e'. DeployCalled p' e' \<in> set calls \<longleftrightarrow> p' = p \<and> e' = e \<and> deployable sl env p e d a) \<and>
    (\<forall>i. r = Inr i \<longleftrightarrow> deployable sl env p e d a \<and> en_deploy env p e = Inr i) \<and>
    (\<forall>i. RollbackCalled i \<notin> set calls) \<and>
    (\<exists>ev. last calls = EventRecorded ev \<and> (\<forall>x. EventRecorded x \<notin> set (butlast calls)) \<and> ev_actor ev = actor \<and> ev_proposal ev = pr_digest p \<and>
       (ev_result ev = ''complete'' \<longleftrightarrow> (\<exists>i. r = Inr i)))"
proof -
  obtain cs where c: "deploy_checked sl env p e d a = (cs, r)"
    and calls: "calls = cs @ [audit env ''deploy'' (pr_digest p) actor (if isl r then ''denied'' else ''complete'')]"
    using assms by (auto simp: control_deploy_def split: prod.splits)
  note deploy_checked_calls [OF c]
  then show ?thesis unfolding calls by (cases r) (auto simp: audit_def)
qed

text \<open>An approval deploys only what was assessed. When a proposal was assessed with some evidence and decision, and an approval
  for them is used in a deployment whose policy asks for one, then the deployed proposal, evidence and policy digest are the assessed
  ones, unless two different contents have the same digest.\<close>

theorem approval_pins:
  assumes "new_proposal sl d0 = Inr p0" and "snd (assess sl env0 p0 actor0) = Inr (e0, dec0)"
    and "ap_proposal x = pr_digest p0" and "ap_evidence x = ae_digest e0" and "ap_policy x = po_digest dec0"
    and "new_proposal sl d1 = Inr p" and "control_deploy sl env p e dec (Some x) actor = (calls, r)"
    and "DeployCalled p e \<in> set calls" and "po_requires_approval dec"
    and "seal_proposal sl (pr_content p) = seal_proposal sl (pr_content p0) \<longrightarrow> pr_content p = pr_content p0"
    and "seal_evidence sl (ae_content e) = seal_evidence sl (ae_content e0) \<longrightarrow> ae_content e = ae_content e0"
  shows "p = p0 \<and> e = e0 \<and> po_digest dec = po_digest dec0 \<and> list_all ei_passed (ec_items (ae_content e0))"
proof -
  have dep: "deployable sl env p e dec (Some x)"
  proof -
    obtain cs where c: "deploy_checked sl env p e dec (Some x) = (cs, r)"
      and calls: "calls = cs @ [audit env ''deploy'' (pr_digest p) actor (if isl r then ''denied'' else ''complete'')]"
      using assms(7) by (auto simp: control_deploy_def split: prod.splits)
    show ?thesis using deploy_checked_calls(1) [OF c, of p e] assms(8) unfolding calls by (simp add: audit_def)
  qed
  then have x: "ap_proposal x = pr_digest p" "ap_evidence x = ae_digest e" "ap_policy x = po_digest dec"
    and e: "ae_digest e = seal_evidence sl (ae_content e)" and passed: "list_all ei_passed (ec_items (ae_content e))"
    using assms(9) by (auto simp: deployable_def approved_def)
  have e0: "ae_digest e0 = seal_evidence sl (ae_content e0)"
    using assms(2) by (auto simp: assess_def new_evidence_def Let_def split: if_splits sum.splits)
  have "pr_digest p = seal_proposal sl (pr_content p)" "pr_digest p0 = seal_proposal sl (pr_content p0)"
    using new_proposal_ok assms(1,6) by (auto simp: proposal_ok_def)
  with assms(3-5,10,11) x e e0 passed show ?thesis by simp
qed

text \<open>Under the static policy a deployment adds only capabilities that the policy allows.\<close>

lemma static_policy_bounds:
  assumes "control_deploy sl (env\<lparr>en_evaluate := static_evaluate sp\<rparr>) p e d a actor = (calls, r)" and "r = Inr i"
  shows "\<forall>c \<in> set (dr_capabilities (pr_content p)). pd_change c = ''add'' \<longrightarrow> pd_capability c \<in> set (sp_allowed sp)"
proof -
  obtain cs where c: "deploy_checked sl (env\<lparr>en_evaluate := static_evaluate sp\<rparr>) p e d a = (cs, r)"
    using assms(1) by (auto simp: control_deploy_def split: prod.splits)
  have "deployable sl (env\<lparr>en_evaluate := static_evaluate sp\<rparr>) p e d a" using deploy_checked_calls(2) [OF c, of i] assms(2) by simp
  then show ?thesis by (auto simp: deployable_def static_evaluate_def Let_def filter_empty_conv)
qed

subsection \<open>Witnesses\<close>

definition demo_seals :: seals where
  "demo_seals = \<lparr>sl_proposal = (\<lambda>d. dr_intent d), sl_evidence = (\<lambda>e. ec_artifact_digest e), sl_sha256 = (\<lambda>s. map (\<lambda>c. of_char c) s)\<rparr>"

definition demo_draft :: draft where
  "demo_draft = \<lparr>dr_base_revision = ''r1'', dr_intent = '' add cache '', dr_graph = [\<lparr>gn_id = ''web'', gn_revision = ''2'', gn_depends_on = [''core'']\<rparr>,
     \<lparr>gn_id = ''core'', gn_revision = ''1'', gn_depends_on = []\<rparr>], dr_lua = [], dr_contracts = [], dr_capabilities = []\<rparr>"

definition demo_proposal :: proposal where
  "demo_proposal = projr (new_proposal demo_seals demo_draft)"

definition demo_static :: static_policy where
  "demo_static = \<lparr>sp_digest = ''p1'', sp_allowed = [], sp_require_approval = True\<rparr>"

definition demo_ai_env :: ai_env where
  "demo_ai_env = \<lparr>en_build = (\<lambda>p. Inr ''a1''), en_test = (\<lambda>p a. Inr [\<lparr>ei_kind = ''test'', ei_name = ''unit'', ei_digest = ''t1'', ei_passed = True\<rparr>]),
     en_evaluate = static_evaluate demo_static, en_verify = (\<lambda>x. None), en_revision = Inr ''r1'', en_deploy = (\<lambda>p e. Inr ''d1''),
     en_rollback = (\<lambda>i. None), en_now = 5, en_event_time = 6\<rparr>"

definition demo_assessed :: "ai_evidence \<times> policy_decision" where
  "demo_assessed = projr (snd (assess demo_seals demo_ai_env demo_proposal ''bot''))"

definition demo_approval :: approval where
  "demo_approval = \<lparr>ap_proposal = pr_digest demo_proposal, ap_evidence = ae_digest (fst demo_assessed), ap_policy = ''p1'', ap_approver = ''ann'',
     ap_nonce = ''n'', ap_expires_at = 9, ap_signature = []\<rparr>"

definition demo_deployed :: "ai_call list \<times> (control_error, string) result" where
  "demo_deployed = control_deploy demo_seals demo_ai_env demo_proposal (fst demo_assessed) (snd demo_assessed) (Some demo_approval) ''bot''"

theorem deploy_authorized_witness:
  "snd demo_deployed = Inr ''d1'' \<and> deployable demo_seals demo_ai_env demo_proposal (fst demo_assessed) (snd demo_assessed) (Some demo_approval)"
proof -
  have "snd demo_deployed = Inr ''d1''" by code_simp
  with deploy_authorized [of demo_seals demo_ai_env demo_proposal "fst demo_assessed" "snd demo_assessed" "Some demo_approval" "''bot''" "fst demo_deployed" "snd demo_deployed"]
  show ?thesis by (simp add: demo_deployed_def)
qed

theorem approval_pins_witness: "list_all ei_passed (ec_items (ae_content (fst demo_assessed))) \<and> snd demo_deployed = Inr ''d1''"
proof -
  have n: "new_proposal demo_seals demo_draft = Inr demo_proposal"
    unfolding demo_proposal_def by (rule Inr_projr) code_simp
  have s: "snd (assess demo_seals demo_ai_env demo_proposal ''bot'') = Inr (fst demo_assessed, snd demo_assessed)"
    unfolding demo_assessed_def prod.collapse by (rule Inr_projr) code_simp
  have "ap_proposal demo_approval = pr_digest demo_proposal" "ap_evidence demo_approval = ae_digest (fst demo_assessed)"
    "ap_policy demo_approval = po_digest (snd demo_assessed)" "DeployCalled demo_proposal (fst demo_assessed) \<in> set (fst demo_deployed)"
    "po_requires_approval (snd demo_assessed)" "snd demo_deployed = Inr ''d1''"
    by code_simp+
  with approval_pins [OF n s _ _ _ n, of demo_approval demo_ai_env "fst demo_assessed" "snd demo_assessed" "''bot''" "fst demo_deployed" "snd demo_deployed"]
  show ?thesis by (simp add: demo_deployed_def)
qed

end
