(* ===== verification/Module_Cache.thy ===== *)
theory Module_Cache
  imports Pulp_Prelude "HOL-Library.AList"
begin

text \<open>
  The cache of compiled WebAssembly modules, \<^verbatim>\<open>src/internal/host/modulecache.go\<close>. Entries are shared objects: they live in a
  list and are named by their index, and the map of the cache holds indexes. An operation that leaves the lock and takes it
  again is split into its critical sections; the goroutines between two sections are the lists of compilations, waiters,
  instantiations and releases in flight; \<open>mc_dropping\<close> are the calls of \<^verbatim>\<open>CachedModule.release\<close> that have not taken the lock of their lease,
  \<open>mc_releasing\<close> those that have not taken the lock of the cache, and \<open>mc_early\<close>, which no operation reads, remembers the leases that
  \<^verbatim>\<open>Close\<close> found neither instantiated nor released. What the compiler and the instantiation return is input. A call of \<^verbatim>\<open>Close\<close> on a compiled module is
  recorded where the code decides on it, under the lock. A step relation interleaves all sections.
\<close>

subsection \<open>State\<close>

record cache_key =
  ck_scope :: "64 word"
  ck_digest :: string
  ck_fingerprint :: string

record cache_scope =
  csc_id :: "64 word"
  csc_fingerprint :: string

text \<open>A compiled module is represented by the bytes it was compiled from.\<close>

record cache_entry =
  ce_ready :: bool
  ce_compiled :: "string option"
  ce_err :: "string option"
  ce_refs :: "64 word"
  ce_evicted :: bool

record cached_module =
  cm_key :: cache_key
  cm_entry :: nat
  cm_instantiated :: bool
  cm_released :: bool

record module_instance =
  mi_lease :: nat
  mi_closed :: bool

record module_cache =
  mc_objects :: "cache_entry list"
  mc_entries :: "(cache_key \<times> nat) list"
  mc_closed :: bool
  mc_next_id :: "64 word"
  mc_compilations :: "64 word"
  mc_leases :: "cached_module list"
  mc_instances :: "module_instance list"
  mc_compiling :: "(cache_key \<times> nat \<times> string) list"
  mc_waiting :: "(cache_key \<times> nat \<times> bool) list"
  mc_instantiating :: "nat list"
  mc_dropping :: "nat list"
  mc_releasing :: "nat list"
  mc_early :: "nat list"
  mc_freed :: "nat list"

record module_cache_stats =
  st_entries :: nat
  st_compilations :: "64 word"
  st_closed :: bool

datatype module_cache_error = NilRuntime | EmptyFingerprint | EmptyModule | ModuleCacheClosed | CompileFailed string
  | ModuleCacheEvicted | AcquireCancelled | LeaseReleased | LeaseInstantiated | InstantiateFailed string | CloseItsInstance
  | ReleasedTwice

datatype acquire_phase = Compiling nat | Waiting nat

subsection \<open>Operations\<close>

definition new_module_cache :: module_cache where
  "new_module_cache =
     \<lparr>mc_objects = [], mc_entries = [], mc_closed = False, mc_next_id = 0, mc_compilations = 0, mc_leases = [], mc_instances = [],
      mc_compiling = [], mc_waiting = [], mc_instantiating = [], mc_dropping = [], mc_releasing = [], mc_early = [], mc_freed = []\<rparr>"

definition new_cache_scope :: "module_cache \<Rightarrow> bool \<Rightarrow> string \<Rightarrow> module_cache \<times> (module_cache_error, cache_scope) result" where
  "new_cache_scope c runtime fingerprint =
     (if \<not> runtime then (c, Inl NilRuntime)
      else if fingerprint = [] then (c, Inl EmptyFingerprint)
      else if mc_closed c then (c, Inl ModuleCacheClosed)
      else (c\<lparr>mc_next_id := mc_next_id c + 1\<rparr>, Inr \<lparr>csc_id = mc_next_id c + 1, csc_fingerprint = fingerprint\<rparr>))"

definition module_key :: "(string \<Rightarrow> string) \<Rightarrow> cache_scope \<Rightarrow> string \<Rightarrow> cache_key" where
  "module_key sha s wasm = \<lparr>ck_scope = csc_id s, ck_digest = sha wasm, ck_fingerprint = csc_fingerprint s\<rparr>"

definition new_entry :: cache_entry where
  "new_entry = \<lparr>ce_ready = False, ce_compiled = None, ce_err = None, ce_refs = 0, ce_evicted = False\<rparr>"

text \<open>The first section of \<^verbatim>\<open>acquire\<close>: the caller compiles a new entry or waits for the one it found.\<close>

definition acquire_begin :: "(string \<Rightarrow> string) \<Rightarrow> module_cache \<Rightarrow> cache_scope \<Rightarrow> string
    \<Rightarrow> module_cache \<times> (module_cache_error, acquire_phase) result" where
  "acquire_begin sha c s wasm =
     (let k = module_key sha s wasm
      in if wasm = [] then (c, Inl EmptyModule)
         else if mc_closed c then (c, Inl ModuleCacheClosed)
         else case map_of (mc_entries c) k of
                None \<Rightarrow> (let e = length (mc_objects c)
                         in (c\<lparr>mc_objects := mc_objects c @ [new_entry], mc_entries := (k, e) # mc_entries c,
                              mc_compiling := (k, e, wasm) # mc_compiling c\<rparr>, Inr (Compiling e)))
              | Some e \<Rightarrow> (c\<lparr>mc_waiting := (k, e, True) # mc_waiting c\<rparr>, Inr (Waiting e)))"

text \<open>The second section: the compilation has ended. Its entry leaves the map when it failed, or when it was evicted or the
  cache was closed meanwhile; then the module is closed at once. The atomic counter of compilations, which only \<^verbatim>\<open>Stats\<close> reads, is advanced in the same step.\<close>

definition compile_end :: "module_cache \<Rightarrow> cache_key \<times> nat \<times> string \<Rightarrow> string option \<Rightarrow> module_cache" where
  "compile_end c job err =
     (let (k, e, wasm) = job;
          x = (mc_objects c ! e)\<lparr>ce_compiled := (if err = None then Some wasm else None), ce_err := err, ce_ready := True\<rparr>;
          retired = (err = None \<and> (mc_closed c \<or> ce_evicted x))
      in c\<lparr>mc_objects := (mc_objects c)[e := x],
           mc_compilations := mc_compilations c + 1,
           mc_entries := (if err \<noteq> None \<or> retired then AList.delete k (mc_entries c) else mc_entries c),
           mc_freed := (if retired then e # mc_freed c else mc_freed c),
           mc_compiling := remove1 job (mc_compiling c),
           mc_waiting := (k, e, False) # mc_waiting c\<rparr>)"

text \<open>The last section: a waiter whose entry is ready takes a lease. A waiter may also be cancelled.\<close>

definition acquire_end :: "module_cache \<Rightarrow> cache_key \<times> nat \<times> bool \<Rightarrow> module_cache \<times> (module_cache_error, nat) result" where
  "acquire_end c job =
     (let (k, e, _) = job; x = mc_objects c ! e; c' = c\<lparr>mc_waiting := remove1 job (mc_waiting c)\<rparr>
      in if mc_closed c then (c', Inl ModuleCacheClosed)
         else case ce_err x of
                Some m \<Rightarrow> (c', Inl (CompileFailed m))
              | None \<Rightarrow>
                  if ce_evicted x then (c', Inl ModuleCacheEvicted)
                  else (c'\<lparr>mc_objects := (mc_objects c)[e := x\<lparr>ce_refs := ce_refs x + 1\<rparr>],
                           mc_leases := mc_leases c @ [\<lparr>cm_key = k, cm_entry = e, cm_instantiated = False, cm_released = False\<rparr>]\<rparr>,
                        Inr (length (mc_leases c))))"

definition acquire_cancel :: "module_cache \<Rightarrow> cache_key \<times> nat \<times> bool \<Rightarrow> module_cache \<times> module_cache_error" where
  "acquire_cancel c job = (c\<lparr>mc_waiting := remove1 job (mc_waiting c)\<rparr>, AcquireCancelled)"

definition set_lease :: "nat \<Rightarrow> (cached_module \<Rightarrow> cached_module) \<Rightarrow> module_cache \<Rightarrow> module_cache" where
  "set_lease i f c = c\<lparr>mc_leases := (mc_leases c)[i := f (mc_leases c ! i)]\<rparr>"

text \<open>\<^verbatim>\<open>CachedModule.release\<close>, called in some other section, marks the lease under its own lock and then calls \<^verbatim>\<open>ModuleCache.release\<close>.\<close>

definition lease_release :: "module_cache \<Rightarrow> nat \<Rightarrow> module_cache" where
  "lease_release c i =
     (let c' = c\<lparr>mc_dropping := remove1 i (mc_dropping c)\<rparr>
      in if cm_released (mc_leases c ! i) then c'
         else set_lease i (\<lambda>l. l\<lparr>cm_released := True\<rparr>) (c'\<lparr>mc_releasing := i # mc_releasing c\<rparr>))"

definition cache_release :: "module_cache \<Rightarrow> nat \<Rightarrow> module_cache \<times> module_cache_error option" where
  "cache_release c i =
     (let e = cm_entry (mc_leases c ! i); x = mc_objects c ! e; c' = c\<lparr>mc_releasing := remove1 i (mc_releasing c)\<rparr>
      in if ce_refs x = 0 then (c', Some ReleasedTwice)
         else let y = x\<lparr>ce_refs := ce_refs x - 1\<rparr>
              in (c'\<lparr>mc_objects := (mc_objects c)[e := y],
                     mc_freed := (if ce_refs y = 0 \<and> (ce_evicted y \<or> mc_closed c) \<and> ce_compiled y \<noteq> None then e # mc_freed c
                                  else mc_freed c)\<rparr>, None))"

definition instantiate_begin :: "module_cache \<Rightarrow> nat \<Rightarrow> module_cache \<times> module_cache_error option" where
  "instantiate_begin c i =
     (if cm_released (mc_leases c ! i) then (c, Some LeaseReleased)
      else if cm_instantiated (mc_leases c ! i) then (c, Some LeaseInstantiated)
      else (set_lease i (\<lambda>l. l\<lparr>cm_instantiated := True\<rparr>) (c\<lparr>mc_instantiating := i # mc_instantiating c\<rparr>), None))"

definition instantiate_end :: "module_cache \<Rightarrow> nat \<Rightarrow> string option \<Rightarrow> module_cache \<times> (module_cache_error, nat) result" where
  "instantiate_end c i err =
     (let c' = c\<lparr>mc_instantiating := remove1 i (mc_instantiating c)\<rparr>
      in case err of
           Some m \<Rightarrow> (c'\<lparr>mc_dropping := i # mc_dropping c\<rparr>, Inl (InstantiateFailed m))
         | None \<Rightarrow> (c'\<lparr>mc_instances := mc_instances c @ [\<lparr>mi_lease = i, mi_closed = False\<rparr>]\<rparr>, Inr (length (mc_instances c))))"

text \<open>\<^verbatim>\<open>Close\<close> of a lease checks under the lock, leaves it, and calls \<^verbatim>\<open>release\<close>. \<^verbatim>\<open>Close\<close> of an instance closes the module first.\<close>

definition lease_close :: "module_cache \<Rightarrow> nat \<Rightarrow> module_cache \<times> module_cache_error option" where
  "lease_close c i =
     (if cm_instantiated (mc_leases c ! i) \<and> \<not> cm_released (mc_leases c ! i) then (c, Some CloseItsInstance)
      else (c\<lparr>mc_dropping := i # mc_dropping c, mc_early := (if cm_released (mc_leases c ! i) then mc_early c else i # mc_early c)\<rparr>, None))"

definition instance_close :: "module_cache \<Rightarrow> nat \<Rightarrow> module_cache" where
  "instance_close c n =
     (let x = mc_instances c ! n
      in if mi_closed x then c
         else c\<lparr>mc_instances := (mc_instances c)[n := x\<lparr>mi_closed := True\<rparr>], mc_dropping := mi_lease x # mc_dropping c\<rparr>)"

text \<open>What \<^verbatim>\<open>evict\<close> and \<^verbatim>\<open>Close\<close> do to an entry: an idle compiled module is closed at once.\<close>

definition retire :: "nat \<Rightarrow> module_cache \<Rightarrow> module_cache" where
  "retire e c =
     (let x = mc_objects c ! e
      in c\<lparr>mc_objects := (mc_objects c)[e := x\<lparr>ce_evicted := True\<rparr>],
           mc_freed := (if ce_refs x = 0 \<and> ce_compiled x \<noteq> None then e # mc_freed c else mc_freed c)\<rparr>)"

definition evict :: "module_cache \<Rightarrow> cache_key \<Rightarrow> module_cache" where
  "evict c k =
     (case map_of (mc_entries c) k of
        None \<Rightarrow> c
      | Some e \<Rightarrow> retire e (c\<lparr>mc_entries := AList.delete k (mc_entries c)\<rparr>))"

definition evict_module :: "(string \<Rightarrow> string) \<Rightarrow> module_cache \<Rightarrow> cache_scope \<Rightarrow> string \<Rightarrow> module_cache" where
  "evict_module sha c s wasm = evict c (module_key sha s wasm)"

definition close_cache :: "module_cache \<Rightarrow> module_cache" where
  "close_cache c =
     (if mc_closed c then c
      else fold retire (map snd (mc_entries c)) (c\<lparr>mc_entries := [], mc_closed := True\<rparr>))"

definition cache_stats :: "module_cache \<Rightarrow> module_cache_stats" where
  "cache_stats c = \<lparr>st_entries = length (mc_entries c), st_compilations = mc_compilations c, st_closed = mc_closed c\<rparr>"

subsection \<open>Interleavings\<close>

inductive cache_step :: "(string \<Rightarrow> string) \<Rightarrow> module_cache \<Rightarrow> module_cache \<Rightarrow> bool" for sha where
  scope: "cache_step sha c (fst (new_cache_scope c runtime fingerprint))"
| acquire: "cache_step sha c (fst (acquire_begin sha c s wasm))"
| compiled: "job \<in> set (mc_compiling c) \<Longrightarrow> cache_step sha c (compile_end c job err)"
| admitted: "job \<in> set (mc_waiting c) \<Longrightarrow> ce_ready (mc_objects c ! fst (snd job)) \<Longrightarrow> cache_step sha c (fst (acquire_end c job))"
| cancelled: "job \<in> set (mc_waiting c) \<Longrightarrow> snd (snd job) \<Longrightarrow> cache_step sha c (fst (acquire_cancel c job))"
| instantiate: "i < length (mc_leases c) \<Longrightarrow> cache_step sha c (fst (instantiate_begin c i))"
| instantiated: "i \<in> set (mc_instantiating c) \<Longrightarrow> cache_step sha c (fst (instantiate_end c i err))"
| close_lease: "i < length (mc_leases c) \<Longrightarrow> cache_step sha c (fst (lease_close c i))"
| close_instance: "n < length (mc_instances c) \<Longrightarrow> cache_step sha c (instance_close c n)"
| dropped: "i \<in> set (mc_dropping c) \<Longrightarrow> cache_step sha c (lease_release c i)"
| released: "i \<in> set (mc_releasing c) \<Longrightarrow> cache_step sha c (fst (cache_release c i))"
| evicted: "cache_step sha c (evict_module sha c s wasm)"
| closed: "cache_step sha c (close_cache c)"

inductive cache_reach :: "(string \<Rightarrow> string) \<Rightarrow> module_cache \<Rightarrow> bool" for sha where
  start: "cache_reach sha new_module_cache"
| step: "cache_reach sha c \<Longrightarrow> cache_step sha c c' \<Longrightarrow> cache_reach sha c'"

inductive_cases cache_step_cases: "cache_step sha c c'"

subsection \<open>Invariant\<close>

text \<open>The leases that count for an entry: those not released, and those whose release has not reached the cache yet.\<close>

definition holders :: "module_cache \<Rightarrow> nat \<Rightarrow> nat set" where
  "holders c e = {i. i < length (mc_leases c) \<and> cm_entry (mc_leases c ! i) = e \<and>
     (\<not> cm_released (mc_leases c ! i) \<or> i \<in> set (mc_releasing c))}"

definition table_ok :: "(string \<Rightarrow> string) \<Rightarrow> (nat \<Rightarrow> cache_key) \<Rightarrow> module_cache \<Rightarrow> bool" where
  "table_ok sha kf c \<longleftrightarrow>
     distinct (map snd (mc_entries c)) \<and> (mc_closed c \<longrightarrow> mc_entries c = []) \<and>
     (\<forall>j \<in> set (mc_entries c). snd j < length (mc_objects c) \<and> \<not> ce_evicted (mc_objects c ! snd j) \<and> kf (snd j) = fst j) \<and>
     distinct (map (\<lambda>j. fst (snd j)) (mc_compiling c)) \<and>
     (\<forall>j \<in> set (mc_compiling c). fst (snd j) < length (mc_objects c) \<and> \<not> ce_ready (mc_objects c ! fst (snd j)) \<and>
        kf (fst (snd j)) = fst j \<and> sha (snd (snd j)) = ck_digest (fst j)) \<and>
     (\<forall>j \<in> set (mc_waiting c). fst (snd j) < length (mc_objects c) \<and> kf (fst (snd j)) = fst j) \<and>
     (\<forall>e < length (mc_objects c). (ce_compiled (mc_objects c ! e) \<noteq> None \<longleftrightarrow> ce_ready (mc_objects c ! e) \<and> ce_err (mc_objects c ! e) = None) \<and>
        (\<forall>w. ce_compiled (mc_objects c ! e) = Some w \<longrightarrow> sha w = ck_digest (kf e)))"

definition leases_ok :: "(nat \<Rightarrow> cache_key) \<Rightarrow> module_cache \<Rightarrow> bool" where
  "leases_ok kf c \<longleftrightarrow>
     (\<forall>l \<in> set (mc_leases c). cm_entry l < length (mc_objects c) \<and> cm_key l = kf (cm_entry l) \<and> ce_compiled (mc_objects c ! cm_entry l) \<noteq> None)"

definition handles_ok :: "module_cache \<Rightarrow> bool" where
  "handles_ok c \<longleftrightarrow>
     distinct (mc_releasing c) \<and> (\<forall>i \<in> set (mc_releasing c). i < length (mc_leases c) \<and> cm_released (mc_leases c ! i)) \<and>
     distinct (mc_instantiating c @ map mi_lease (mc_instances c)) \<and>
     (\<forall>i \<in> set (mc_instantiating c). i < length (mc_leases c) \<and> cm_instantiated (mc_leases c ! i) \<and>
        (i \<in> set (mc_early c) \<or> \<not> cm_released (mc_leases c ! i))) \<and>
     (\<forall>x \<in> set (mc_instances c). mi_lease x < length (mc_leases c) \<and> cm_instantiated (mc_leases c ! mi_lease x) \<and>
        (mi_closed x \<or> mi_lease x \<in> set (mc_early c) \<or> \<not> cm_released (mc_leases c ! mi_lease x))) \<and>
     (\<forall>i \<in> set (mc_dropping c). i < length (mc_leases c) \<and> (i \<in> set (mc_early c) \<or> cm_released (mc_leases c ! i) \<or>
        cm_instantiated (mc_leases c ! i) \<and> i \<notin> set (mc_instantiating c) \<and> (\<forall>x \<in> set (mc_instances c). mi_lease x = i \<longrightarrow> mi_closed x))) \<and>
     (\<forall>i \<in> set (mc_early c). i < length (mc_leases c))"

definition refs_ok :: "module_cache \<Rightarrow> bool" where
  "refs_ok c \<longleftrightarrow> (\<forall>e < length (mc_objects c). ce_refs (mc_objects c ! e) = of_nat (card (holders c e)))"

definition freed_sound :: "module_cache \<Rightarrow> bool" where
  "freed_sound c \<longleftrightarrow> distinct (mc_freed c) \<and>
     (\<forall>e \<in> set (mc_freed c). e < length (mc_objects c) \<and> ce_compiled (mc_objects c ! e) \<noteq> None \<and>
        (ce_evicted (mc_objects c ! e) \<or> mc_closed c) \<and> holders c e = {})"

definition freed_complete :: "module_cache \<Rightarrow> bool" where
  "freed_complete c \<longleftrightarrow>
     (\<forall>e < length (mc_objects c). ce_evicted (mc_objects c ! e) \<and> ce_compiled (mc_objects c ! e) \<noteq> None \<and> holders c e = {} \<longrightarrow> e \<in> set (mc_freed c))"

definition cache_inv :: "(string \<Rightarrow> string) \<Rightarrow> (nat \<Rightarrow> cache_key) \<Rightarrow> module_cache \<Rightarrow> bool" where
  "cache_inv sha kf c \<longleftrightarrow> table_ok sha kf c \<and> leases_ok kf c \<and> handles_ok c \<and> refs_ok c \<and> freed_sound c \<and> freed_complete c"

lemmas cache_inv_defs = cache_inv_def table_ok_def leases_ok_def handles_ok_def refs_ok_def freed_sound_def freed_complete_def

lemma finite_holders [simp]: "finite (holders c e)"
  by (rule finite_subset [of _ "{..<length (mc_leases c)}"]) (auto simp: holders_def)

lemma card_holders: "card (holders c e) \<le> length (mc_leases c)"
  using card_mono [of "{..<length (mc_leases c)}" "holders c e"] by (auto simp: holders_def)

lemma refs_zero:
  assumes "refs_ok c" and "e < length (mc_objects c)" and "length (mc_leases c) < 2 ^ 64"
  shows "ce_refs (mc_objects c ! e) = 0 \<longleftrightarrow> holders c e = {}"
proof -
  have "card (holders c e) < 2 ^ 64" using card_holders [of c e] assms(3) by simp
  then have "(of_nat (card (holders c e)) :: 64 word) = 0 \<longleftrightarrow> card (holders c e) = 0"
    by (simp add: word_of_nat_eq_0_iff nat_dvd_not_less dvd_eq_mod_eq_0)
  then show ?thesis using assms(1,2) by (simp add: refs_ok_def)
qed

lemma holders_cong:
  "mc_leases c' = mc_leases c \<Longrightarrow> mc_releasing c' = mc_releasing c \<Longrightarrow> holders c' = holders c"
  by (simp add: holders_def fun_eq_iff)

lemma cache_inv_start: "cache_inv sha kf new_module_cache"
  by (simp add: cache_inv_defs new_module_cache_def)

lemma table_entry:
  assumes "table_ok sha kf c" and "(k, e) \<in> set (mc_entries c)"
  shows "e < length (mc_objects c)" and "\<not> ce_evicted (mc_objects c ! e)" and "kf e = k" and "\<not> mc_closed c"
  using assms unfolding table_ok_def by fastforce+

lemma holder_entry:
  assumes "leases_ok kf c" and "i \<in> holders c e"
  shows "e < length (mc_objects c)" and "ce_compiled (mc_objects c ! e) \<noteq> None"
proof -
  have "mc_leases c ! i \<in> set (mc_leases c)" "cm_entry (mc_leases c ! i) = e" using assms(2) by (simp_all add: holders_def)
  then show "e < length (mc_objects c)" and "ce_compiled (mc_objects c ! e) \<noteq> None" using assms(1) by (auto simp: leases_ok_def)
qed

lemma cache_inv_retire:
  assumes inv: "cache_inv sha kf c" and small: "length (mc_leases c) < 2 ^ 64"
    and e: "(k, e) \<in> set (mc_entries c)" "e \<notin> snd ` set es" and es: "set es \<subseteq> set (mc_entries c)" "distinct (map snd es)"
  shows "cache_inv sha kf (retire e (c\<lparr>mc_entries := es\<rparr>))"
proof -
  define x where "x = mc_objects c ! e"
  define c' where "c' = retire e (c\<lparr>mc_entries := es\<rparr>)"
  have h: "holders c' = holders c" by (rule holders_cong) (simp_all add: c'_def retire_def Let_def)
  have z: "ce_refs x = 0 \<longleftrightarrow> holders c e = {}" and l: "e < length (mc_objects c)" and ne: "\<not> ce_evicted x" and nc: "\<not> mc_closed c"
    using inv table_entry [OF _ e(1)] refs_zero [OF _ _ small] by (auto simp: x_def cache_inv_def)
  have o: "mc_objects c' = (mc_objects c)[e := x\<lparr>ce_evicted := True\<rparr>]" "mc_closed c' = mc_closed c" "mc_leases c' = mc_leases c"
    "mc_releasing c' = mc_releasing c" "mc_instances c' = mc_instances c" "mc_instantiating c' = mc_instantiating c"
    "mc_compiling c' = mc_compiling c" "mc_waiting c' = mc_waiting c" "mc_entries c' = es"
    "mc_freed c' = (if ce_refs x = 0 \<and> ce_compiled x \<noteq> None then e # mc_freed c else mc_freed c)"
    "mc_dropping c' = mc_dropping c" "mc_early c' = mc_early c"
    by (simp_all add: c'_def retire_def Let_def x_def)
  have "table_ok sha kf c'"
    using inv e es l unfolding cache_inv_def table_ok_def o
    by (auto simp: nth_list_update x_def image_iff)
  moreover have "leases_ok kf c'"
    using inv l unfolding cache_inv_def leases_ok_def o by (auto simp: nth_list_update x_def)
  moreover have "handles_ok c'" using inv unfolding cache_inv_def handles_ok_def o by blast
  moreover have "refs_ok c'"
    using inv l unfolding cache_inv_def refs_ok_def o h by (auto simp: nth_list_update x_def)
  moreover have "freed_sound c'"
  proof -
    have f: "freed_sound c" using inv by (simp add: cache_inv_def)
    then have "e \<notin> set (mc_freed c)" using ne nc by (auto simp: freed_sound_def x_def)
    with f z l show ?thesis unfolding freed_sound_def o h by (auto simp: nth_list_update x_def)
  qed
  moreover have "freed_complete c'"
    using inv z l unfolding cache_inv_def freed_complete_def o h by (auto simp: nth_list_update x_def)
  ultimately show ?thesis by (simp add: cache_inv_def c'_def)
qed

lemma retire_fields [simp]:
  "mc_leases (retire e c) = mc_leases c" "mc_entries (retire e c) = mc_entries c" "mc_closed (retire e c) = mc_closed c"
  by (simp_all add: retire_def Let_def)

lemma retire_closed: "retire e (c\<lparr>mc_closed := b\<rparr>) = (retire e c)\<lparr>mc_closed := b\<rparr>" "retire e (c\<lparr>mc_entries := es\<rparr>) = (retire e c)\<lparr>mc_entries := es\<rparr>"
  by (simp_all add: retire_def Let_def)

text \<open>A change that leaves entries, leases and closed modules alone only has to keep the table.\<close>

lemma cache_inv_frame:
  assumes inv: "cache_inv sha kf c" and "table_ok sha kf c'"
    and same: "mc_objects c' = mc_objects c" "mc_leases c' = mc_leases c" "mc_releasing c' = mc_releasing c"
      "mc_instances c' = mc_instances c" "mc_instantiating c' = mc_instantiating c" "mc_freed c' = mc_freed c" "mc_dropping c' = mc_dropping c" "mc_early c' = mc_early c"
    and closed: "mc_closed c \<longrightarrow> mc_closed c'"
  shows "cache_inv sha kf c'"
proof -
  have h: "holders c' = holders c" using same by (intro holders_cong)
  have "leases_ok kf c'" "handles_ok c'" "refs_ok c'" "freed_complete c'"
    using inv unfolding cache_inv_def leases_ok_def handles_ok_def refs_ok_def freed_complete_def same h by blast+
  moreover have "freed_sound c'" using inv closed unfolding cache_inv_def freed_sound_def same h by blast
  ultimately show ?thesis using assms(2) by (simp add: cache_inv_def)
qed

lemma cache_inv_closed:
  assumes "cache_inv sha kf c" and "mc_entries c = []"
  shows "cache_inv sha kf (c\<lparr>mc_closed := True\<rparr>)"
proof (rule cache_inv_frame [OF assms(1)])
  show "table_ok sha kf (c\<lparr>mc_closed := True\<rparr>)" using assms by (simp add: cache_inv_def table_ok_def)
qed simp_all

lemma cache_inv_retire_all:
  assumes "cache_inv sha kf c" and "length (mc_leases c) < 2 ^ 64"
  shows "cache_inv sha kf (fold retire (map snd (mc_entries c)) (c\<lparr>mc_entries := []\<rparr>))"
  using assms
proof (induction "mc_entries c" arbitrary: c)
  case Nil
  have "cache_inv sha kf (c\<lparr>mc_entries := []\<rparr>)"
    by (rule cache_inv_frame [OF Nil.prems(1)]) (use Nil.prems(1) in \<open>simp_all add: cache_inv_def table_ok_def\<close>)
  then show ?case by (simp flip: Nil.hyps)
next
  case (Cons ke es)
  let ?c = "retire (snd ke) (c\<lparr>mc_entries := es\<rparr>)"
  have d: "distinct (map snd (ke # es))" using Cons by (simp add: cache_inv_def table_ok_def)
  have "cache_inv sha kf ?c"
    by (rule cache_inv_retire [where k = "fst ke", OF Cons.prems]) (use d in \<open>auto simp flip: Cons.hyps(2)\<close>)
  from Cons.hyps(1) [of ?c, OF _ this] show ?case
    using Cons.prems(2) by (simp add: retire_closed(2) flip: Cons.hyps(2))
qed

lemma fold_retire_closed: "fold retire es (c\<lparr>mc_closed := b\<rparr>) = (fold retire es c)\<lparr>mc_closed := b\<rparr>"
  by (induction es arbitrary: c) (simp_all add: retire_closed)

lemma fold_retire_entries [simp]: "mc_entries (fold retire es c) = mc_entries c" "mc_leases (fold retire es c) = mc_leases c"
  by (induction es arbitrary: c) simp_all

lemma cache_inv_close:
  assumes "cache_inv sha kf c" and "length (mc_leases c) < 2 ^ 64"
  shows "cache_inv sha kf (close_cache c)"
proof -
  have "fold retire es (c\<lparr>mc_entries := [], mc_closed := True\<rparr>) = (fold retire es (c\<lparr>mc_entries := []\<rparr>))\<lparr>mc_closed := True\<rparr>" for es
    using fold_retire_closed [where c = "c\<lparr>mc_entries := []\<rparr>" and es = es and b = True] by simp
  with cache_inv_closed [OF cache_inv_retire_all [OF assms]] assms(1) show ?thesis by (simp add: close_cache_def)
qed

lemma cache_inv_evict:
  assumes "cache_inv sha kf c" and "length (mc_leases c) < 2 ^ 64"
  shows "cache_inv sha kf (evict c k)"
proof (cases "map_of (mc_entries c) k")
  case (Some e)
  let ?es = "AList.delete k (mc_entries c)"
  have d: "distinct (map snd (mc_entries c))" using assms by (simp add: cache_inv_def table_ok_def)
  then have "inj_on snd (set (mc_entries c))" "distinct (mc_entries c)" by (auto simp: distinct_map)
  then have "e \<notin> snd ` set ?es" "distinct (map snd ?es)"
    using map_of_SomeD [OF Some] by (fastforce simp: AList.delete_eq distinct_map inj_on_def)+
  moreover have "set ?es \<subseteq> set (mc_entries c)" by (auto simp: AList.delete_eq)
  ultimately show ?thesis
    using cache_inv_retire [OF assms map_of_SomeD [OF Some]] Some by (simp add: evict_def)
qed (simp add: evict_def assms)

lemma cache_inv_scope:
  assumes "cache_inv sha kf c"
  shows "cache_inv sha kf (fst (new_cache_scope c r f))"
proof -
  have "cache_inv sha kf (c\<lparr>mc_next_id := n\<rparr>)" for n
    by (rule cache_inv_frame [OF assms]) (use assms in \<open>simp_all add: cache_inv_def table_ok_def\<close>)
  with assms show ?thesis by (simp add: new_cache_scope_def)
qed

lemma cache_inv_wait:
  assumes "cache_inv sha kf c" and "\<forall>j \<in> set ws. fst (snd j) < length (mc_objects c) \<and> kf (fst (snd j)) = fst j"
  shows "cache_inv sha kf (c\<lparr>mc_waiting := ws\<rparr>)"
proof (rule cache_inv_frame [OF assms(1)])
  show "table_ok sha kf (c\<lparr>mc_waiting := ws\<rparr>)" using assms by (simp add: cache_inv_def table_ok_def)
qed simp_all

lemma waiting_known: "cache_inv sha kf c \<Longrightarrow> \<forall>j \<in> set (mc_waiting c). fst (snd j) < length (mc_objects c) \<and> kf (fst (snd j)) = fst j"
  unfolding cache_inv_def table_ok_def by blast

lemma cache_inv_unwait: "cache_inv sha kf c \<Longrightarrow> cache_inv sha kf (c\<lparr>mc_waiting := remove1 j (mc_waiting c)\<rparr>)"
  using waiting_known [of sha kf c] set_remove1_subset [of j "mc_waiting c"] by (intro cache_inv_wait) auto

lemma cache_inv_new:
  assumes inv: "cache_inv sha kf c" and "sha w = ck_digest k" and "\<not> mc_closed c"
  shows "cache_inv sha (kf(length (mc_objects c) := k)) (c\<lparr>mc_objects := mc_objects c @ [new_entry], mc_entries := (k, length (mc_objects c)) # mc_entries c,
           mc_compiling := (k, length (mc_objects c), w) # mc_compiling c\<rparr>)" (is "cache_inv sha ?kf ?c")
proof -
  let ?n = "length (mc_objects c)"
  have t: "table_ok sha kf c" and l: "leases_ok kf c" and r: "refs_ok c" and f: "freed_sound c" and g: "freed_complete c"
    using inv by (simp_all add: cache_inv_def)
  have h: "holders ?c = holders c" by (rule holders_cong) simp_all
  have hn: "holders c ?n = {}" using holder_entry(1) [OF l] by blast
  have "table_ok sha ?kf ?c"
    using t assms(2,3) unfolding table_ok_def by (fastforce simp: nth_append new_entry_def less_Suc_eq)
  moreover have "leases_ok ?kf ?c" using l unfolding leases_ok_def by (fastforce simp: nth_append)
  moreover have "handles_ok ?c" using inv unfolding cache_inv_def handles_ok_def by simp
  moreover have "refs_ok ?c" using r hn unfolding refs_ok_def h by (auto simp: nth_append new_entry_def less_Suc_eq)
  moreover have "freed_sound ?c" using f unfolding freed_sound_def h by (auto simp: nth_append)
  moreover have "freed_complete ?c" using g unfolding freed_complete_def h by (auto simp: nth_append new_entry_def less_Suc_eq)
  ultimately show ?thesis by (simp add: cache_inv_def)
qed

lemma cache_inv_acquire:
  assumes "cache_inv sha kf c"
  shows "\<exists>kf'. cache_inv sha kf' (fst (acquire_begin sha c s wasm))"
proof (cases "map_of (mc_entries c) (module_key sha s wasm)")
  case None
  have "sha wasm = ck_digest (module_key sha s wasm)" by (simp add: module_key_def)
  from cache_inv_new [OF assms this] None assms show ?thesis
    by (auto simp: acquire_begin_def Let_def)
next
  case (Some e)
  have "cache_inv sha kf (c\<lparr>mc_waiting := (module_key sha s wasm, e, True) # mc_waiting c\<rparr>)"
    using assms table_entry(1,3) [OF _ map_of_SomeD [OF Some]] waiting_known [OF assms]
    by (intro cache_inv_wait) (auto simp: cache_inv_def)
  with Some assms show ?thesis by (auto simp: acquire_begin_def Let_def)
qed

lemma cache_inv_compiled:
  assumes inv: "cache_inv sha kf c" and job: "(k, e, w) \<in> set (mc_compiling c)"
  shows "cache_inv sha kf (compile_end c (k, e, w) err)"
proof -
  define x where "x = (mc_objects c ! e)\<lparr>ce_compiled := (if err = None then Some w else None), ce_err := err, ce_ready := True\<rparr>"
  define c' where "c' = compile_end c (k, e, w) err"
  have t: "table_ok sha kf c" and l: "leases_ok kf c" and r: "refs_ok c" and f: "freed_sound c" and g: "freed_complete c"
    using inv by (simp_all add: cache_inv_def)
  have e: "e < length (mc_objects c)" "\<not> ce_ready (mc_objects c ! e)" "kf e = k" "sha w = ck_digest k"
    using t job unfolding table_ok_def by force+
  then have none: "ce_compiled (mc_objects c ! e) = None" using t unfolding table_ok_def by blast
  have o: "mc_objects c' = (mc_objects c)[e := x]" "mc_closed c' = mc_closed c" "mc_leases c' = mc_leases c"
    "mc_releasing c' = mc_releasing c" "mc_instances c' = mc_instances c" "mc_instantiating c' = mc_instantiating c"
    "mc_compiling c' = remove1 (k, e, w) (mc_compiling c)" "mc_waiting c' = (k, e, False) # mc_waiting c"
    "mc_freed c' = (if err = None \<and> (mc_closed c \<or> ce_evicted x) then e # mc_freed c else mc_freed c)" "mc_dropping c' = mc_dropping c" "mc_early c' = mc_early c"
    by (simp_all add: c'_def compile_end_def Let_def x_def)
  have es: "set (mc_entries c') \<subseteq> set (mc_entries c)" "distinct (map snd (mc_entries c'))" "mc_closed c \<longrightarrow> mc_entries c' = []"
    using t by (auto simp: c'_def compile_end_def Let_def AList.delete_eq table_ok_def distinct_map_filter split: if_splits)
  have h: "holders c' = holders c" by (rule holders_cong) (simp_all add: o)
  have he: "holders c e = {}" using holder_entry(2) [OF l] none by blast
  have dj: "distinct (mc_compiling c)" and inj: "inj_on (\<lambda>j. fst (snd j)) (set (mc_compiling c))"
    using t by (auto simp: table_ok_def distinct_map)
  then have rest: "j \<in> set (mc_compiling c') \<Longrightarrow> j \<in> set (mc_compiling c) \<and> fst (snd j) \<noteq> e" for j
    using job inj_onD [OF inj, of j "(k, e, w)"] by (auto simp: o)
  have len: "length (mc_objects c') = length (mc_objects c)" by (simp add: o)
  have ev: "y < length (mc_objects c) \<Longrightarrow> ce_evicted (mc_objects c' ! y) = ce_evicted (mc_objects c ! y)" for y
    by (cases "y = e") (simp_all add: o x_def)
  have "table_ok sha kf c'" unfolding table_ok_def
  proof (intro conjI)
    show "distinct (map (\<lambda>j. fst (snd j)) (mc_compiling c'))"
      using dj inj by (auto simp: o distinct_map intro: inj_on_subset dest: notin_set_remove1)
    show "\<forall>j \<in> set (mc_compiling c'). fst (snd j) < length (mc_objects c') \<and> \<not> ce_ready (mc_objects c' ! fst (snd j)) \<and>
        kf (fst (snd j)) = fst j \<and> sha (snd (snd j)) = ck_digest (fst j)"
      using t rest unfolding table_ok_def o by (metis length_list_update nth_list_update_neq o(7))
    show "\<forall>j \<in> set (mc_entries c'). snd j < length (mc_objects c') \<and> \<not> ce_evicted (mc_objects c' ! snd j) \<and> kf (snd j) = fst j"
      using t es(1) ev unfolding table_ok_def len by blast
    show "\<forall>j \<in> set (mc_waiting c'). fst (snd j) < length (mc_objects c') \<and> kf (fst (snd j)) = fst j"
      using waiting_known [OF inv] e by (auto simp: o)
    show "\<forall>y<length (mc_objects c'). (ce_compiled (mc_objects c' ! y) \<noteq> None \<longleftrightarrow> ce_ready (mc_objects c' ! y) \<and> ce_err (mc_objects c' ! y) = None) \<and>
        (\<forall>v. ce_compiled (mc_objects c' ! y) = Some v \<longrightarrow> sha v = ck_digest (kf y))"
      using t e by (simp add: o nth_list_update x_def table_ok_def)
  qed (use es o(2) in simp_all)
  moreover have "leases_ok kf c'"
  proof -
    have "\<forall>y \<in> set (mc_leases c). cm_entry y \<noteq> e" using l none by (auto simp: leases_ok_def)
    with l show ?thesis unfolding leases_ok_def o by (metis length_list_update nth_list_update_neq)
  qed
  moreover have "handles_ok c'" using inv unfolding cache_inv_def handles_ok_def o by blast
  moreover have "refs_ok c'" using r e(1) unfolding refs_ok_def o h by (simp add: nth_list_update x_def)
  moreover have "freed_sound c'"
  proof -
    have "e \<notin> set (mc_freed c)" using f none by (auto simp: freed_sound_def)
    with f he e(1) show ?thesis unfolding freed_sound_def o h by (auto simp: nth_list_update x_def)
  qed
  moreover have "freed_complete c'"
    using g e(1) unfolding freed_complete_def o h by (auto simp: nth_list_update x_def)
  ultimately show ?thesis by (simp add: cache_inv_def c'_def)
qed

lemma cache_inv_admit:
  assumes inv: "cache_inv sha kf c" and job: "(k, e, b) \<in> set (mc_waiting c)" and ready: "ce_ready (mc_objects c ! e)"
  shows "cache_inv sha kf (fst (acquire_end c (k, e, b)))"
proof -
  define x where "x = mc_objects c ! e"
  define c1 where "c1 = c\<lparr>mc_waiting := remove1 (k, e, b) (mc_waiting c)\<rparr>"
  define c' where "c' = c1\<lparr>mc_objects := (mc_objects c)[e := x\<lparr>ce_refs := ce_refs x + 1\<rparr>],
      mc_leases := mc_leases c @ [\<lparr>cm_key = k, cm_entry = e, cm_instantiated = False, cm_released = False\<rparr>]\<rparr>"
  have inv1: "cache_inv sha kf c1" unfolding c1_def using inv by (rule cache_inv_unwait)
  then have t: "table_ok sha kf c1" and l: "leases_ok kf c" and hd: "handles_ok c" and r: "refs_ok c" and f: "freed_sound c" and g: "freed_complete c"
    using inv by (simp_all add: cache_inv_def)
  have e: "e < length (mc_objects c)" "kf e = k" using waiting_known [OF inv] job by force+
  have o: "mc_objects c' = (mc_objects c)[e := x\<lparr>ce_refs := ce_refs x + 1\<rparr>]" "mc_closed c' = mc_closed c" "mc_entries c' = mc_entries c"
    "mc_leases c' = mc_leases c @ [\<lparr>cm_key = k, cm_entry = e, cm_instantiated = False, cm_released = False\<rparr>]"
    "mc_releasing c' = mc_releasing c" "mc_instances c' = mc_instances c" "mc_instantiating c' = mc_instantiating c"
    "mc_compiling c' = mc_compiling c" "mc_waiting c' = mc_waiting c1" "mc_freed c' = mc_freed c" "mc_dropping c' = mc_dropping c" "mc_early c' = mc_early c"
    by (simp_all add: c'_def c1_def)
  have obj: "y < length (mc_objects c) \<Longrightarrow> ce_ready (mc_objects c' ! y) = ce_ready (mc_objects c ! y) \<and>
      ce_compiled (mc_objects c' ! y) = ce_compiled (mc_objects c ! y) \<and> ce_err (mc_objects c' ! y) = ce_err (mc_objects c ! y) \<and>
      ce_evicted (mc_objects c' ! y) = ce_evicted (mc_objects c ! y)" for y
    by (cases "y = e") (simp_all add: o x_def)
  have len: "length (mc_objects c') = length (mc_objects c)" by (simp add: o)
  have rel: "\<forall>i \<in> set (mc_releasing c). i < length (mc_leases c)" using hd by (simp add: handles_ok_def)
  have h: "holders c' y = (if y = e then insert (length (mc_leases c)) (holders c y) else holders c y)" for y
    using rel by (auto simp: holders_def o nth_append less_Suc_eq)
  have fresh: "length (mc_leases c) \<notin> holders c e" by (simp add: holders_def)
  have "cache_inv sha kf c'" if nc: "\<not> mc_closed c" "ce_err x = None" "\<not> ce_evicted x"
  proof -
    have c: "ce_compiled x \<noteq> None" using t nc ready e(1) by (simp add: table_ok_def c1_def x_def)
    have "table_ok sha kf c'"
      using t obj unfolding table_ok_def len o by (simp add: c1_def)
    moreover have "leases_ok kf c'"
      using l e c obj by (auto simp: leases_ok_def len o(4)) (auto simp: x_def)
    moreover have "handles_ok c'"
    proof -
      have nth: "i < length (mc_leases c) \<Longrightarrow> mc_leases c' ! i = mc_leases c ! i" for i by (simp add: o nth_append)
      have more: "i < length (mc_leases c) \<Longrightarrow> i < length (mc_leases c')" for i by (simp add: o)
      show ?thesis using hd nth more unfolding handles_ok_def o(5-7,11,12) by simp
    qed
    moreover have "refs_ok c'"
      using r fresh e(1) unfolding refs_ok_def len h by (simp add: o nth_list_update x_def)
    moreover have "e \<notin> set (mc_freed c)" using f nc by (auto simp: freed_sound_def x_def)
    then have "freed_sound c'" using f obj unfolding freed_sound_def len h o(2,10) by auto
    moreover have "freed_complete c'" using g obj unfolding freed_complete_def len h o(10) by auto
    ultimately show ?thesis by (simp add: cache_inv_def)
  qed
  with inv1 show ?thesis by (simp add: acquire_end_def Let_def c1_def c'_def x_def split: option.split)
qed

lemma cache_inv_release_lease:
  assumes inv: "cache_inv sha kf c" and i: "i \<in> set (mc_dropping c)"
  shows "cache_inv sha kf (lease_release c i)"
proof -
  define r where "r = cm_released (mc_leases c ! i)"
  define c' where "c' = lease_release c i"
  have o: "mc_leases c' = (if r then mc_leases c else (mc_leases c)[i := (mc_leases c ! i)\<lparr>cm_released := True\<rparr>])"
    "mc_releasing c' = (if r then mc_releasing c else i # mc_releasing c)"
    "mc_objects c' = mc_objects c" "mc_closed c' = mc_closed c" "mc_entries c' = mc_entries c" "mc_instances c' = mc_instances c"
    "mc_instantiating c' = mc_instantiating c" "mc_compiling c' = mc_compiling c" "mc_waiting c' = mc_waiting c" "mc_freed c' = mc_freed c"
    "mc_dropping c' = remove1 i (mc_dropping c)" "mc_early c' = mc_early c"
    by (simp_all add: c'_def lease_release_def set_lease_def Let_def r_def)
  have hd: "handles_ok c" and l: "leases_ok kf c" using inv by (simp_all add: cache_inv_def)
  have il: "i < length (mc_leases c)" using hd i by (auto simp: handles_ok_def)
  have h: "holders c' = holders c" using il by (auto simp: fun_eq_iff holders_def o nth_list_update r_def)
  have "table_ok sha kf c' = table_ok sha kf c" "refs_ok c' = refs_ok c" "freed_sound c' = freed_sound c" "freed_complete c' = freed_complete c"
    by (simp_all only: table_ok_def refs_ok_def freed_sound_def freed_complete_def h o)
  then have "table_ok sha kf c'" "refs_ok c'" "freed_sound c'" "freed_complete c'" using inv by (simp_all add: cache_inv_def)
  moreover have "leases_ok kf c'"
    using l il by (auto simp: leases_ok_def o split: if_splits dest!: set_update_subset_insert [THEN subsetD])
  moreover have "handles_ok c'"
  proof -
    have "j \<in> set (mc_dropping c)" if "j \<in> set (remove1 i (mc_dropping c))" for j using that set_remove1_subset by fastforce
    then show ?thesis using hd i il unfolding handles_ok_def o by (auto simp: nth_list_update r_def)
  qed
  ultimately show ?thesis by (simp add: cache_inv_def c'_def)
qed

lemma cache_inv_instantiate:
  assumes inv: "cache_inv sha kf c" and i: "i < length (mc_leases c)"
  shows "cache_inv sha kf (fst (instantiate_begin c i))"
proof (cases "cm_released (mc_leases c ! i) \<or> cm_instantiated (mc_leases c ! i)")
  case False
  define c' where "c' = fst (instantiate_begin c i)"
  have o: "mc_leases c' = (mc_leases c)[i := (mc_leases c ! i)\<lparr>cm_instantiated := True\<rparr>]" "mc_releasing c' = mc_releasing c"
    "mc_objects c' = mc_objects c" "mc_closed c' = mc_closed c" "mc_entries c' = mc_entries c" "mc_instances c' = mc_instances c"
    "mc_instantiating c' = i # mc_instantiating c" "mc_compiling c' = mc_compiling c" "mc_waiting c' = mc_waiting c" "mc_freed c' = mc_freed c" "mc_dropping c' = mc_dropping c" "mc_early c' = mc_early c"
    using False by (simp_all add: c'_def instantiate_begin_def set_lease_def)
  have h: "holders c' = holders c" using i False by (auto simp: fun_eq_iff holders_def o nth_list_update)
  have hd: "handles_ok c" and l: "leases_ok kf c" using inv by (simp_all add: cache_inv_def)
  have "table_ok sha kf c' = table_ok sha kf c" "refs_ok c' = refs_ok c" "freed_sound c' = freed_sound c" "freed_complete c' = freed_complete c"
    by (simp_all only: table_ok_def refs_ok_def freed_sound_def freed_complete_def h o)
  then have "table_ok sha kf c'" "refs_ok c'" "freed_sound c'" "freed_complete c'" using inv by (simp_all add: cache_inv_def)
  moreover have "leases_ok kf c'"
    using l i by (auto simp: leases_ok_def o dest!: set_update_subset_insert [THEN subsetD])
  moreover have "handles_ok c'"
    using hd i False unfolding handles_ok_def o by (auto simp: nth_list_update)
  ultimately show ?thesis by (simp add: cache_inv_def c'_def)
qed (auto simp: instantiate_begin_def inv)

lemma cache_inv_handles:
  assumes inv: "cache_inv sha kf c" and "handles_ok (c\<lparr>mc_instantiating := is, mc_instances := xs, mc_dropping := ds, mc_early := es\<rparr>)"
  shows "cache_inv sha kf (c\<lparr>mc_instantiating := is, mc_instances := xs, mc_dropping := ds, mc_early := es\<rparr>)"
proof -
  define c' where "c' = c\<lparr>mc_instantiating := is, mc_instances := xs, mc_dropping := ds, mc_early := es\<rparr>"
  have o: "mc_leases c' = mc_leases c" "mc_releasing c' = mc_releasing c" "mc_objects c' = mc_objects c" "mc_closed c' = mc_closed c"
    "mc_entries c' = mc_entries c" "mc_compiling c' = mc_compiling c" "mc_waiting c' = mc_waiting c" "mc_freed c' = mc_freed c"
    by (simp_all add: c'_def)
  have h: "holders c' = holders c" by (rule holders_cong) (simp_all add: o)
  have "table_ok sha kf c' = table_ok sha kf c" by (simp only: table_ok_def o)
  moreover have "leases_ok kf c' = leases_ok kf c" "refs_ok c' = refs_ok c" "freed_sound c' = freed_sound c" "freed_complete c' = freed_complete c"
    by (simp_all only: leases_ok_def refs_ok_def freed_sound_def freed_complete_def o h)
  ultimately show ?thesis using inv assms(2) by (simp add: cache_inv_def c'_def)
qed

lemma handles_drop:
  "handles_ok c \<Longrightarrow> j \<in> set (mc_dropping c) \<Longrightarrow> j < length (mc_leases c) \<and> (j \<in> set (mc_early c) \<or> cm_released (mc_leases c ! j) \<or>
     cm_instantiated (mc_leases c ! j) \<and> j \<notin> set (mc_instantiating c) \<and> (\<forall>x \<in> set (mc_instances c). mi_lease x = j \<longrightarrow> mi_closed x))"
  by (simp add: handles_ok_def)

lemma cache_inv_instantiated:
  assumes inv: "cache_inv sha kf c" and i: "i \<in> set (mc_instantiating c)"
  shows "cache_inv sha kf (fst (instantiate_end c i err))"
proof -
  let ?is = "remove1 i (mc_instantiating c)"
  have hd: "handles_ok c" using inv by (simp add: cache_inv_def)
  have il: "i < length (mc_leases c)" "cm_instantiated (mc_leases c ! i)" "\<forall>x \<in> set (mc_instances c). mi_lease x \<noteq> i" "i \<notin> set ?is"
      "\<forall>j \<in> set ?is. j \<in> set (mc_instantiating c)"
    using hd i set_remove1_subset [of i "mc_instantiating c"] by (auto simp: handles_ok_def)
  note ok = hd [unfolded handles_ok_def]
  define c1 where "c1 = c\<lparr>mc_instantiating := ?is, mc_instances := mc_instances c, mc_dropping := i # mc_dropping c, mc_early := mc_early c\<rparr>"
  have o: "mc_leases c1 = mc_leases c" "mc_releasing c1 = mc_releasing c" "mc_instances c1 = mc_instances c" "mc_instantiating c1 = ?is"
    "mc_dropping c1 = i # mc_dropping c" "mc_early c1 = mc_early c" by (simp_all add: c1_def)
  have d: "distinct (?is @ map mi_lease (mc_instances c))" using ok il(5) by auto
  have "\<forall>j \<in> set (i # mc_dropping c). j < length (mc_leases c) \<and> (j \<in> set (mc_early c) \<or> cm_released (mc_leases c ! j) \<or>
      cm_instantiated (mc_leases c ! j) \<and> j \<notin> set ?is \<and> (\<forall>x \<in> set (mc_instances c). mi_lease x = j \<longrightarrow> mi_closed x))"
    using ok il by (metis set_ConsD)
  then have "handles_ok c1" unfolding handles_ok_def o using ok il(5) d by blast
  note failed = cache_inv_handles [OF inv this [unfolded c1_def]]
  define c2 where "c2 = c\<lparr>mc_instantiating := ?is, mc_instances := mc_instances c @ [\<lparr>mi_lease = i, mi_closed = False\<rparr>],
      mc_dropping := mc_dropping c, mc_early := mc_early c\<rparr>"
  have o: "mc_leases c2 = mc_leases c" "mc_releasing c2 = mc_releasing c" "mc_instances c2 = mc_instances c @ [\<lparr>mi_lease = i, mi_closed = False\<rparr>]"
    "mc_instantiating c2 = ?is" "mc_dropping c2 = mc_dropping c" "mc_early c2 = mc_early c" by (simp_all add: c2_def)
  have d2: "distinct (?is @ map mi_lease (mc_instances c @ [\<lparr>mi_lease = i, mi_closed = False\<rparr>]))" using d il(3,4) by auto
  have free: "j \<noteq> i \<or> j \<in> set (mc_early c) \<or> cm_released (mc_leases c ! j)" if "j \<in> set (mc_dropping c)" for j using ok i that by blast
  have "\<forall>j \<in> set (mc_dropping c). j < length (mc_leases c) \<and> (j \<in> set (mc_early c) \<or> cm_released (mc_leases c ! j) \<or>
      cm_instantiated (mc_leases c ! j) \<and> j \<notin> set ?is \<and>
      (\<forall>x \<in> set (mc_instances c @ [\<lparr>mi_lease = i, mi_closed = False\<rparr>]). mi_lease x = j \<longrightarrow> mi_closed x))"
  proof
    fix j assume j: "j \<in> set (mc_dropping c)"
    then show "j < length (mc_leases c) \<and> (j \<in> set (mc_early c) \<or> cm_released (mc_leases c ! j) \<or>
      cm_instantiated (mc_leases c ! j) \<and> j \<notin> set ?is \<and>
      (\<forall>x \<in> set (mc_instances c @ [\<lparr>mi_lease = i, mi_closed = False\<rparr>]). mi_lease x = j \<longrightarrow> mi_closed x))"
    proof (cases "j \<in> set (mc_early c) \<or> cm_released (mc_leases c ! j)")
      case False
      then have "j \<noteq> i" using free [OF j] by blast
      moreover have "cm_instantiated (mc_leases c ! j) \<and> j \<notin> set (mc_instantiating c) \<and> (\<forall>x \<in> set (mc_instances c). mi_lease x = j \<longrightarrow> mi_closed x)"
        using handles_drop [OF hd j] False by blast
      ultimately show ?thesis using handles_drop [OF hd j] il(5) by auto
    qed (use handles_drop [OF hd j] in blast)
  qed
  moreover have "\<forall>x \<in> set (mc_instances c @ [\<lparr>mi_lease = i, mi_closed = False\<rparr>]). mi_lease x < length (mc_leases c) \<and>
      cm_instantiated (mc_leases c ! mi_lease x) \<and> (mi_closed x \<or> mi_lease x \<in> set (mc_early c) \<or> \<not> cm_released (mc_leases c ! mi_lease x))"
    using ok i by (simp add: ball_Un)
  ultimately have "handles_ok c2" unfolding handles_ok_def o using ok il(5) d2 by blast
  note made = cache_inv_handles [OF inv this [unfolded c2_def]]
  show ?thesis using failed made by (simp add: instantiate_end_def Let_def split: option.split)
qed

lemma cache_inv_close_lease:
  assumes inv: "cache_inv sha kf c" and i: "i < length (mc_leases c)"
  shows "cache_inv sha kf (fst (lease_close c i))"
proof -
  let ?es = "if cm_released (mc_leases c ! i) then mc_early c else i # mc_early c"
  have "handles_ok c" using inv by (simp add: cache_inv_def)
  then have "handles_ok (c\<lparr>mc_instantiating := mc_instantiating c, mc_instances := mc_instances c, mc_dropping := i # mc_dropping c, mc_early := ?es\<rparr>)"
    using i by (auto simp: handles_ok_def)
  from cache_inv_handles [OF inv this] show ?thesis using inv by (simp add: lease_close_def)
qed

lemma cache_inv_close_instance:
  assumes inv: "cache_inv sha kf c" and n: "n < length (mc_instances c)"
  shows "cache_inv sha kf (instance_close c n)"
proof -
  define xs where "xs = (mc_instances c)[n := (mc_instances c ! n)\<lparr>mi_closed := True\<rparr>]"
  let ?i = "mi_lease (mc_instances c ! n)"
  have hd: "handles_ok c" using inv by (simp add: cache_inv_def)
  have m: "map mi_lease xs = map mi_lease (mc_instances c)" using n by (simp add: xs_def map_update list_update_same_conv)
  have d: "distinct (map mi_lease (mc_instances c))" "?i \<in> set (map mi_lease (mc_instances c))" using hd n by (simp_all add: handles_ok_def)
  have xs: "\<forall>y \<in> set xs. mi_closed y \<or> y \<in> set (mc_instances c)"
    using n by (auto simp: xs_def dest!: set_update_subset_insert [THEN subsetD])
  have lx: "\<forall>y \<in> set xs. mi_lease y \<in> mi_lease ` set (mc_instances c)" using m by (metis image_eqI image_set)
  have only: "\<forall>y \<in> set xs. mi_lease y = ?i \<longrightarrow> mi_closed y"
  proof (intro ballI impI)
    fix y assume "y \<in> set xs" "mi_lease y = ?i"
    then obtain j where j: "j < length xs" "y = xs ! j" "map mi_lease (mc_instances c) ! j = map mi_lease (mc_instances c) ! n"
      using n by (metis in_set_conv_nth length_map m nth_map)
    then have "j = n" using d(1) n m by (metis length_map nth_eq_iff_index_eq)
    then show "mi_closed y" using j(2) n by (simp add: xs_def)
  qed
  have i: "?i < length (mc_leases c) \<and> cm_instantiated (mc_leases c ! ?i) \<and> ?i \<notin> set (mc_instantiating c)"
    using hd n d(2) nth_mem [OF n] unfolding handles_ok_def by auto
  have "handles_ok (c\<lparr>mc_instantiating := mc_instantiating c, mc_instances := xs, mc_dropping := ?i # mc_dropping c, mc_early := mc_early c\<rparr>)"
    using hd xs lx only i unfolding handles_ok_def by (fastforce simp: m)
  from cache_inv_handles [OF inv this] show ?thesis using inv by (simp add: instance_close_def Let_def xs_def)
qed

lemma cache_inv_release:
  assumes inv: "cache_inv sha kf c" and small: "length (mc_leases c) < 2 ^ 64" and i: "i \<in> set (mc_releasing c)"
  shows "cache_inv sha kf (fst (cache_release c i))"
proof -
  define e where "e = cm_entry (mc_leases c ! i)"
  define x where "x = mc_objects c ! e"
  define c' where "c' = fst (cache_release c i)"
  have t: "table_ok sha kf c" and l: "leases_ok kf c" and hd: "handles_ok c" and r: "refs_ok c" and f: "freed_sound c" and g: "freed_complete c"
    using inv by (simp_all add: cache_inv_def)
  have i': "i < length (mc_leases c)" "cm_released (mc_leases c ! i)" "distinct (mc_releasing c)" using hd i by (auto simp: handles_ok_def)
  then have ih: "i \<in> holders c e" using i by (simp add: holders_def e_def)
  then have e: "e < length (mc_objects c)" "ce_compiled x \<noteq> None" "ce_refs x \<noteq> 0"
    using holder_entry [OF l ih] refs_zero [OF r _ small] by (auto simp: x_def)
  have o: "mc_leases c' = mc_leases c" "mc_releasing c' = remove1 i (mc_releasing c)"
    "mc_objects c' = (mc_objects c)[e := x\<lparr>ce_refs := ce_refs x - 1\<rparr>]" "mc_closed c' = mc_closed c" "mc_entries c' = mc_entries c"
    "mc_instances c' = mc_instances c" "mc_instantiating c' = mc_instantiating c" "mc_compiling c' = mc_compiling c" "mc_waiting c' = mc_waiting c"
    "mc_freed c' = (if ce_refs x - 1 = 0 \<and> (ce_evicted x \<or> mc_closed c) then e # mc_freed c else mc_freed c)"
    "mc_dropping c' = mc_dropping c" "mc_early c' = mc_early c"
    using e by (simp_all add: c'_def cache_release_def Let_def e_def x_def)
  have h: "holders c' y = holders c y - {i}" if "y = e" for y using i' that by (auto simp: holders_def o e_def)
  have h': "holders c' y = holders c y" if "y \<noteq> e" for y
    using i' that by (auto simp: holders_def o e_def)
  have obj: "y < length (mc_objects c) \<Longrightarrow> ce_ready (mc_objects c' ! y) = ce_ready (mc_objects c ! y) \<and>
      ce_compiled (mc_objects c' ! y) = ce_compiled (mc_objects c ! y) \<and> ce_err (mc_objects c' ! y) = ce_err (mc_objects c ! y) \<and>
      ce_evicted (mc_objects c' ! y) = ce_evicted (mc_objects c ! y)" for y
    by (cases "y = e") (simp_all add: o x_def)
  have len: "length (mc_objects c') = length (mc_objects c)" by (simp add: o)
  have refs: "refs_ok c'" unfolding refs_ok_def len
  proof (intro allI impI)
    fix y assume y: "y < length (mc_objects c)"
    show "ce_refs (mc_objects c' ! y) = of_nat (card (holders c' y))"
    proof (cases "y = e")
      case True
      have "card (holders c e) = Suc (card (holders c e - {i}))" using card_Suc_Diff1 [OF finite_holders ih] by simp
      then have "ce_refs x = of_nat (Suc (card (holders c e - {i})))" using r e(1) by (simp add: refs_ok_def x_def)
      then show ?thesis using True e(1) h by (simp add: o)
    next
      case False
      then have "mc_objects c' ! y = mc_objects c ! y" by (simp add: o)
      with r y h' [OF False] show ?thesis by (simp add: refs_ok_def)
    qed
  qed
  have z: "ce_refs x - 1 = 0 \<longleftrightarrow> holders c' e = {}"
  proof -
    have "mc_objects c' ! e = x\<lparr>ce_refs := ce_refs x - 1\<rparr>" using e(1) by (simp add: o)
    then show ?thesis using refs_zero [OF refs, of e] small e(1) by (simp add: len o(1))
  qed
  have ne: "e \<notin> set (mc_freed c)" using f ih by (auto simp: freed_sound_def)
  have "table_ok sha kf c'"
    using t obj unfolding table_ok_def len o(4-9) by simp
  moreover have "leases_ok kf c'" using l obj unfolding leases_ok_def len o(1) by simp
  moreover have "handles_ok c'" using hd unfolding handles_ok_def o(1,2,6,7,11,12) by (auto dest: notin_set_remove1)
  moreover have "freed_sound c'" unfolding freed_sound_def
  proof (intro conjI ballI)
    show "distinct (mc_freed c')" using f ne by (simp add: freed_sound_def o(10))
    fix y assume "y \<in> set (mc_freed c')"
    then consider "y = e" "holders c' e = {}" "ce_evicted x \<or> mc_closed c" | "y \<noteq> e" "y \<in> set (mc_freed c)"
      using z ne by (auto simp: o(10) split: if_splits)
    then show "y < length (mc_objects c')" "ce_compiled (mc_objects c' ! y) \<noteq> None" "ce_evicted (mc_objects c' ! y) \<or> mc_closed c'" "holders c' y = {}"
      by (cases; use f e obj h' len o(4) in \<open>simp add: freed_sound_def x_def\<close>)+
  qed
  moreover have "freed_complete c'" unfolding freed_complete_def len
  proof (intro allI impI)
    fix y assume y: "y < length (mc_objects c)" "ce_evicted (mc_objects c' ! y) \<and> ce_compiled (mc_objects c' ! y) \<noteq> None \<and> holders c' y = {}"
    show "y \<in> set (mc_freed c')"
    proof (cases "y = e")
      case True
      then show ?thesis using y z obj [OF y(1)] by (simp add: o(10) x_def)
    next
      case False
      then show ?thesis using y g obj [OF y(1)] h' by (simp add: freed_complete_def o(10))
    qed
  qed
  ultimately show ?thesis using refs by (simp add: cache_inv_def c'_def)
qed

lemma cache_step_leases: "cache_step sha c c' \<Longrightarrow> length (mc_leases c) \<le> length (mc_leases c')"
  by (induction rule: cache_step.induct)
    (auto simp: new_cache_scope_def acquire_begin_def compile_end_def acquire_end_def acquire_cancel_def instantiate_begin_def
      instantiate_end_def lease_close_def lease_release_def set_lease_def instance_close_def cache_release_def evict_module_def
      evict_def close_cache_def Let_def split: option.split)

lemma cache_inv_step:
  assumes "cache_step sha c c'" and "cache_inv sha kf c" and "length (mc_leases c) < 2 ^ 64"
  shows "\<exists>kf'. cache_inv sha kf' c'"
  using assms(1)
proof cases
  case (compiled job err)
  obtain k e w where "job = (k, e, w)" by (cases job)
  with compiled cache_inv_compiled [OF assms(2), of k e w err] show ?thesis by blast
next
  case (admitted job)
  obtain k e b where "job = (k, e, b)" by (cases job)
  with admitted cache_inv_admit [OF assms(2), of k e b] show ?thesis by auto
next
  case (cancelled job)
  then show ?thesis using cache_inv_unwait [OF assms(2), of job] by (auto simp: acquire_cancel_def)
next
  case acquire
  then show ?thesis using cache_inv_acquire [OF assms(2)] by simp
next
  case released
  then show ?thesis using cache_inv_release [OF assms(2,3)] by blast
next
  case evicted
  then show ?thesis unfolding evict_module_def using cache_inv_evict [OF assms(2,3)] by blast
next
  case closed
  then show ?thesis using cache_inv_close [OF assms(2,3)] by blast
qed (rule exI [of _ kf]; simp add: assms(2) cache_inv_scope cache_inv_instantiate cache_inv_instantiated
  cache_inv_close_lease cache_inv_close_instance cache_inv_release_lease)+

lemma cache_reach_inv: "cache_reach sha c \<Longrightarrow> length (mc_leases c) < 2 ^ 64 \<Longrightarrow> \<exists>kf. cache_inv sha kf c"
proof (induction rule: cache_reach.induct)
  case start
  show ?case using cache_inv_start by blast
next
  case (step c c')
  then have "length (mc_leases c) < 2 ^ 64" using cache_step_leases [OF step.hyps(2)] by simp
  with step cache_inv_step show ?case by blast
qed

subsection \<open>Safety\<close>

text \<open>C18: Under every interleaving of acquisitions, compilations, cancellations, instantiations, releases, evictions and the end
  of the cache, with fewer than \<open>2 ^ 64\<close> leases ever handed out: no compiled module is closed twice; the code of a lease that has not
  been released is there, was compiled from bytes with the digest of its key and has not been closed; the lease of an instantiation in flight
  or of an open instance has not been released, so that its code is covered, unless \<^verbatim>\<open>Close\<close> was called on that lease before
  it was instantiated; and the code of an evicted entry without leases has been closed.\<close>

theorem module_cache_safe:
  assumes "cache_reach sha c" and "length (mc_leases c) < 2 ^ 64"
  shows "distinct (mc_freed c) \<and>
    (\<forall>l \<in> set (mc_leases c). \<not> cm_released l \<longrightarrow> cm_entry l \<notin> set (mc_freed c) \<and>
       (\<exists>w. ce_compiled (mc_objects c ! cm_entry l) = Some w \<and> sha w = ck_digest (cm_key l))) \<and>
    (\<forall>i \<in> set (mc_instantiating c). i \<notin> set (mc_early c) \<longrightarrow> i < length (mc_leases c) \<and> \<not> cm_released (mc_leases c ! i)) \<and>
    (\<forall>x \<in> set (mc_instances c). \<not> mi_closed x \<and> mi_lease x \<notin> set (mc_early c) \<longrightarrow>
       mi_lease x < length (mc_leases c) \<and> \<not> cm_released (mc_leases c ! mi_lease x)) \<and>
    (\<forall>e < length (mc_objects c). ce_evicted (mc_objects c ! e) \<and> ce_compiled (mc_objects c ! e) \<noteq> None \<and>
       (\<forall>l \<in> set (mc_leases c). cm_entry l = e \<longrightarrow> cm_released l) \<and> mc_releasing c = [] \<longrightarrow> e \<in> set (mc_freed c))"
proof -
  obtain kf where inv: "cache_inv sha kf c" using cache_reach_inv [OF assms] by blast
  have live: "cm_entry l \<notin> set (mc_freed c)" if "l \<in> set (mc_leases c)" "\<not> cm_released l" for l
  proof -
    obtain i where "i < length (mc_leases c)" "l = mc_leases c ! i" using \<open>l \<in> set (mc_leases c)\<close> by (auto simp: in_set_conv_nth)
    then have "i \<in> holders c (cm_entry l)" using that by (simp add: holders_def)
    then show ?thesis using inv by (auto simp: cache_inv_def freed_sound_def)
  qed
  have code: "\<exists>w. ce_compiled (mc_objects c ! cm_entry l) = Some w \<and> sha w = ck_digest (cm_key l)" if "l \<in> set (mc_leases c)" for l
    using inv that by (force simp: cache_inv_def leases_ok_def table_ok_def)
  have "holders c e = {}" if "\<forall>l \<in> set (mc_leases c). cm_entry l = e \<longrightarrow> cm_released l" "mc_releasing c = []" for e
    using that by (auto simp: holders_def)
  then have "\<forall>e < length (mc_objects c). ce_evicted (mc_objects c ! e) \<and> ce_compiled (mc_objects c ! e) \<noteq> None \<and>
       (\<forall>l \<in> set (mc_leases c). cm_entry l = e \<longrightarrow> cm_released l) \<and> mc_releasing c = [] \<longrightarrow> e \<in> set (mc_freed c)"
    using inv unfolding cache_inv_def freed_complete_def by blast
  moreover have "distinct (mc_freed c)" using inv by (simp add: cache_inv_def freed_sound_def)
  moreover have "\<forall>i \<in> set (mc_instantiating c). i \<notin> set (mc_early c) \<longrightarrow> i < length (mc_leases c) \<and> \<not> cm_released (mc_leases c ! i)"
    "\<forall>x \<in> set (mc_instances c). \<not> mi_closed x \<and> mi_lease x \<notin> set (mc_early c) \<longrightarrow>
       mi_lease x < length (mc_leases c) \<and> \<not> cm_released (mc_leases c ! mi_lease x)"
    using inv unfolding cache_inv_def handles_ok_def by blast+
  ultimately show ?thesis using live code by blast
qed

text \<open>An eviction during a compilation lets a second entry take the key. When the first compilation ends, it removes whatever entry
  the map has for its key, which is the second one: that module is never closed, not even when the cache is.\<close>

definition demo_scope_one :: cache_scope where
  "demo_scope_one = \<lparr>csc_id = 1, csc_fingerprint = ''f''\<rparr>"

definition demo_job :: "nat \<Rightarrow> cache_key \<times> nat \<times> string" where
  "demo_job e = (module_key id demo_scope_one ''w'', e, ''w'')"

definition demo_wait :: "nat \<Rightarrow> cache_key \<times> nat \<times> bool" where
  "demo_wait e = (module_key id demo_scope_one ''w'', e, False)"

definition demo_acquired :: module_cache where
  "demo_acquired = fst (acquire_begin id new_module_cache demo_scope_one ''w'')"

definition demo_again :: module_cache where
  "demo_again = fst (acquire_begin id (evict_module id demo_acquired demo_scope_one ''w'') demo_scope_one ''w'')"

definition demo_compiled :: module_cache where
  "demo_compiled = compile_end (compile_end demo_again (demo_job 0) None) (demo_job 1) None"

definition demo_leaked :: module_cache where
  "demo_leaked = fst (acquire_end (fst (acquire_end (close_cache demo_compiled) (demo_wait 0))) (demo_wait 1))"

lemma demo_acquired_reach: "cache_reach id demo_acquired"
  unfolding demo_acquired_def by (rule cache_reach.step [OF cache_reach.start cache_step.acquire])

lemma evicted_compilation_leaks:
  "cache_reach id demo_leaked \<and> mc_closed demo_leaked \<and> mc_leases demo_leaked = [] \<and> mc_compiling demo_leaked = [] \<and>
   mc_waiting demo_leaked = [] \<and> ce_compiled (mc_objects demo_leaked ! 1) \<noteq> None \<and> 1 \<notin> set (mc_freed demo_leaked)"
proof (intro conjI)
  show "mc_closed demo_leaked" "mc_leases demo_leaked = []" "mc_compiling demo_leaked = []" "mc_waiting demo_leaked = []"
    "ce_compiled (mc_objects demo_leaked ! 1) \<noteq> None" "1 \<notin> set (mc_freed demo_leaked)"
    by code_simp+
  have m: "demo_job 0 \<in> set (mc_compiling demo_again)" "demo_job 1 \<in> set (mc_compiling (compile_end demo_again (demo_job 0) None))"
    "demo_wait 0 \<in> set (mc_waiting (close_cache demo_compiled))" "ce_ready (mc_objects (close_cache demo_compiled) ! fst (snd (demo_wait 0)))"
    "demo_wait 1 \<in> set (mc_waiting (fst (acquire_end (close_cache demo_compiled) (demo_wait 0))))"
    "ce_ready (mc_objects (fst (acquire_end (close_cache demo_compiled) (demo_wait 0))) ! fst (snd (demo_wait 1)))"
    by code_simp+
  have "cache_reach id demo_again" unfolding demo_again_def
    by (intro cache_reach.step [OF _ cache_step.acquire] cache_reach.step [OF demo_acquired_reach cache_step.evicted])
  then have "cache_reach id demo_compiled" unfolding demo_compiled_def
    by (intro cache_reach.step [OF _ cache_step.compiled [OF m(2)]] cache_reach.step [OF _ cache_step.compiled [OF m(1)]])
  from cache_reach.step [OF this cache_step.closed] show "cache_reach id demo_leaked" unfolding demo_leaked_def
    by (intro cache_reach.step [OF _ cache_step.admitted [OF m(5,6)]] cache_reach.step [OF _ cache_step.admitted [OF m(3,4)]])
qed

text \<open>\<^verbatim>\<open>Close\<close> of a lease leaves the lock between its check and its release. When another goroutine instantiates the lease in between,
  the lease is released under the instantiation, and if the entry was evicted its compiled module is closed while it is being
  instantiated.\<close>

definition demo_one_lease :: module_cache where
  "demo_one_lease = evict_module id (fst (acquire_end (compile_end demo_acquired (demo_job 0) None) (demo_wait 0))) demo_scope_one ''w''"

lemma demo_one_lease_reach: "cache_reach id demo_one_lease"
proof -
  have m: "demo_job 0 \<in> set (mc_compiling demo_acquired)" "demo_wait 0 \<in> set (mc_waiting (compile_end demo_acquired (demo_job 0) None))"
    "ce_ready (mc_objects (compile_end demo_acquired (demo_job 0) None) ! fst (snd (demo_wait 0)))"
    by code_simp+
  show ?thesis unfolding demo_one_lease_def
    by (intro cache_reach.step [OF _ cache_step.evicted] cache_reach.step [OF _ cache_step.admitted [OF m(2,3)]]
        cache_reach.step [OF _ cache_step.compiled [OF m(1)]] demo_acquired_reach)
qed

definition demo_close_checked :: module_cache where
  "demo_close_checked = fst (lease_close demo_one_lease 0)"

definition demo_raced :: module_cache where
  "demo_raced = lease_release (fst (instantiate_begin demo_close_checked 0)) 0"

lemma close_instantiate_race:
  "\<exists>c. cache_reach id c \<and> 0 \<in> set (mc_instantiating c) \<and> cm_released (mc_leases c ! 0) \<and> cm_entry (mc_leases c ! 0) \<in> set (mc_freed c)"
proof -
  have m: "0 < length (mc_leases demo_one_lease)" "0 < length (mc_leases demo_close_checked)"
    "0 \<in> set (mc_dropping (fst (instantiate_begin demo_close_checked 0)))" "0 \<in> set (mc_releasing demo_raced)"
    by code_simp+
  have "cache_reach id demo_close_checked"
    unfolding demo_close_checked_def by (rule cache_reach.step [OF demo_one_lease_reach cache_step.close_lease [OF m(1)]])
  then have "cache_reach id demo_raced" unfolding demo_raced_def
    by (intro cache_reach.step [OF _ cache_step.dropped [OF m(3)]] cache_reach.step [OF _ cache_step.instantiate [OF m(2)]])
  from cache_reach.step [OF this cache_step.released [OF m(4)]] show ?thesis
    by (intro exI conjI) (assumption, code_simp+)
qed

subsection \<open>Witness\<close>

theorem module_cache_safe_witness:
  "length (mc_leases demo_one_lease) = 1 \<and> \<not> cm_released (mc_leases demo_one_lease ! 0) \<and> ce_evicted (mc_objects demo_one_lease ! 0) \<and>
   cm_entry (mc_leases demo_one_lease ! 0) \<notin> set (mc_freed demo_one_lease)"
proof -
  have l: "length (mc_leases demo_one_lease) = 1" "\<not> cm_released (mc_leases demo_one_lease ! 0)" "ce_evicted (mc_objects demo_one_lease ! 0)"
    by code_simp+
  then have "mc_leases demo_one_lease ! 0 \<in> set (mc_leases demo_one_lease)" by simp
  with module_cache_safe [OF demo_one_lease_reach] l show ?thesis by simp
qed

end
