(* ===== verification/Dependency_Exec.thy ===== *)
theory Dependency_Exec
  imports Dependency_Plan
begin

text \<open>
  The two clients of a plan in \<^verbatim>\<open>src/internal/dependency\<close>: \<^verbatim>\<open>Execute\<close> (scheduler.go), which runs the
  nodes of a plan on at most \<^verbatim>\<open>maxParallel\<close> goroutines, and \<^verbatim>\<open>Collapse\<close> (collapse.go), which maps a
  logical plan onto physical nodes. The order in which goroutines finish is not determined, so
  \<^verbatim>\<open>Execute\<close> is a step relation: one rule launches the head of the queue, the other receives one
  completion of a running node.
\<close>

subsection \<open>The scheduler\<close>

record 'e exec_state =
  ex_queue :: "string list"
  ex_running :: "string list"
  ex_remaining :: "string \<Rightarrow> int"
  ex_completed :: "string set"
  ex_failures :: "string \<rightharpoonup> 'e"
  ex_failed :: bool
  ex_started :: "string list"

text \<open>
  \<^const>\<open>ex_running\<close> are the goroutines in flight (the Go code counts them), \<^const>\<open>ex_started\<close> is the
  history of launches, which the Go code does not keep.
\<close>

definition exec_limit :: "plan \<Rightarrow> int \<Rightarrow> nat" where
  "exec_limit p maxParallel =
     (if maxParallel \<le> 0 \<or> maxParallel > int (length (plan_start_order p))
      then length (plan_start_order p) else nat maxParallel)"

definition exec_init :: "plan \<Rightarrow> 'e exec_state" where
  "exec_init p =
     \<lparr>ex_queue = filter (\<lambda>x. dependencies p x = []) (plan_start_order p), ex_running = [],
      ex_remaining = (\<lambda>x. int (length (dependencies p x))), ex_completed = {},
      ex_failures = Map.empty, ex_failed = False, ex_started = []\<rparr>"

definition can_launch :: "nat \<Rightarrow> 'e exec_state \<Rightarrow> bool" where
  "can_launch lim s \<longleftrightarrow> \<not> ex_failed s \<and> length (ex_running s) < lim \<and> ex_queue s \<noteq> []"

definition launch :: "'e exec_state \<Rightarrow> 'e exec_state" where
  "launch s = s\<lparr>ex_queue := tl (ex_queue s), ex_running := ex_running s @ [hd (ex_queue s)],
                ex_started := ex_started s @ [hd (ex_queue s)]\<rparr>"

definition plan_ordinal :: "plan \<Rightarrow> string \<Rightarrow> nat" where
  "plan_ordinal p x = (case plan_node p x of None \<Rightarrow> 0 | Some n \<Rightarrow> node_ordinal n)"

definition receive :: "plan \<Rightarrow> 'e exec_state \<Rightarrow> string \<Rightarrow> 'e option \<Rightarrow> 'e exec_state" where
  "receive p s x res =
     (let s1 = s\<lparr>ex_running := remove1 x (ex_running s)\<rparr>
      in case res of
           Some e \<Rightarrow> s1\<lparr>ex_failures := (ex_failures s)(x \<mapsto> e), ex_failed := True\<rparr>
         | None \<Rightarrow>
             (let s2 = s1\<lparr>ex_completed := insert x (ex_completed s)\<rparr>
              in if ex_failed s then s2
                 else let (rem', queue') = release (dependents p x) (ex_remaining s) (ex_queue s)
                      in s2\<lparr>ex_remaining := rem', ex_queue := sort_key (plan_ordinal p) queue'\<rparr>))"

definition loop_guard :: "'e exec_state \<Rightarrow> bool" where
  "loop_guard s \<longleftrightarrow> ex_running s \<noteq> [] \<or> (\<not> ex_failed s \<and> ex_queue s \<noteq> [])"

inductive exec_step :: "plan \<Rightarrow> nat \<Rightarrow> 'e exec_state \<Rightarrow> 'e exec_state \<Rightarrow> bool" for p lim where
  launch_step: "can_launch lim s \<Longrightarrow> exec_step p lim s (launch s)"
| receive_step: "\<not> can_launch lim s \<Longrightarrow> x \<in> set (ex_running s) \<Longrightarrow>
     exec_step p lim s (receive p s x res)"

inductive_cases exec_stepE: "exec_step p lim s t"

inductive exec_reach :: "plan \<Rightarrow> nat \<Rightarrow> 'e exec_state \<Rightarrow> bool" for p lim where
  reach_init: "exec_reach p lim (exec_init p)"
| reach_step: "exec_reach p lim s \<Longrightarrow> exec_step p lim s t \<Longrightarrow> exec_reach p lim t"

text \<open>What \<^verbatim>\<open>Execute\<close> returns when its loop ends: the completed nodes and the joined errors, both in
  plan order, or the error of the caller's context.\<close>

definition exec_ready :: "plan \<Rightarrow> 'e exec_state \<Rightarrow> string list" where
  "exec_ready p s = filter (\<lambda>x. x \<in> ex_completed s) (plan_start_order p)"

datatype 'e exec_error = NodeFailures "(string \<times> 'e) list" | ContextError 'e | NilPlan | NilRunner

definition exec_error_of :: "plan \<Rightarrow> 'e exec_state \<Rightarrow> 'e option \<Rightarrow> 'e exec_error option" where
  "exec_error_of p s ctx =
     (if ex_failures s \<noteq> Map.empty
      then Some (NodeFailures (map (\<lambda>x. (x, the (ex_failures s x)))
             (filter (\<lambda>x. ex_failures s x \<noteq> None) (plan_start_order p))))
      else map_option ContextError ctx)"

text \<open>
  One run, with the completions in the order of a script: launch while the inner loop does, then
  receive the next completion. The whole of \<^verbatim>\<open>Execute\<close> around it checks its arguments first.
\<close>

function fill :: "nat \<Rightarrow> 'e exec_state \<Rightarrow> 'e exec_state" where
  "fill lim s = (if can_launch lim s then fill lim (launch s) else s)"
  by pat_completeness auto
termination
  by (relation "measure (\<lambda>(lim, s). length (ex_queue s))") (auto simp: can_launch_def launch_def)

declare fill.simps [simp del]

fun exec_run :: "plan \<Rightarrow> nat \<Rightarrow> 'e exec_state \<Rightarrow> (string \<times> 'e option) list \<Rightarrow> 'e exec_state option" where
  "exec_run p lim s script =
     (if \<not> loop_guard s then Some s
      else case script of
             [] \<Rightarrow> None
           | (x, res) # rest \<Rightarrow>
               (let s1 = fill lim s
                in if x \<in> set (ex_running s1) then exec_run p lim (receive p s1 x res) rest else None))"

declare exec_run.simps [simp del]

definition execute :: "plan option \<Rightarrow> int \<Rightarrow> bool \<Rightarrow> 'e option \<Rightarrow> (string \<times> 'e option) list \<Rightarrow> 'e option
    \<Rightarrow> (string list \<times> 'e exec_error option) option" where
  "execute plan maxParallel hasRunner ctx0 script ctx1 =
     (case plan of
        None \<Rightarrow> Some ([], Some NilPlan)
      | Some p \<Rightarrow>
          if \<not> hasRunner then Some ([], Some NilRunner)
          else case ctx0 of
            Some e \<Rightarrow> Some ([], Some (ContextError e))
          | None \<Rightarrow>
              map_option (\<lambda>s. (exec_ready p s, exec_error_of p s ctx1))
                (exec_run p (exec_limit p maxParallel) (exec_init p) script))"

subsection \<open>Its invariant\<close>

text \<open>
  Nodes are launched once, when their dependencies have completed, and at most \<open>lim\<close> run at a time;
  while nothing has failed, the queue holds exactly the nodes that may be launched.
\<close>

definition started_inv :: "plan \<Rightarrow> nat \<Rightarrow> 'e exec_state \<Rightarrow> bool" where
  "started_inv p lim s \<longleftrightarrow>
     distinct (ex_started s) \<and> distinct (ex_running s) \<and> length (ex_running s) \<le> lim \<and>
     set (ex_started s) \<subseteq> set (plan_start_order p) \<and>
     (\<forall>x. x \<in> set (ex_started s) \<longleftrightarrow>
        x \<in> set (ex_running s) \<or> x \<in> ex_completed s \<or> ex_failures s x \<noteq> None) \<and>
     (\<forall>x \<in> set (ex_running s). x \<notin> ex_completed s \<and> ex_failures s x = None) \<and>
     (\<forall>x \<in> ex_completed s. ex_failures s x = None) \<and>
     (\<forall>x \<in> set (ex_started s). set (dependencies p x) \<subseteq> ex_completed s) \<and>
     (ex_failed s \<longleftrightarrow> ex_failures s \<noteq> Map.empty)"

definition queue_inv :: "plan \<Rightarrow> 'e exec_state \<Rightarrow> bool" where
  "queue_inv p s \<longleftrightarrow> distinct (ex_queue s) \<and> set (ex_queue s) \<subseteq> set (plan_start_order p) \<and>
     (\<forall>x. ex_remaining s x = int (card (set (dependencies p x) - ex_completed s))) \<and>
     (\<forall>x \<in> set (plan_start_order p). x \<in> set (ex_queue s) \<longleftrightarrow>
        x \<notin> set (ex_started s) \<and> set (dependencies p x) \<subseteq> ex_completed s)"

definition exec_inv :: "plan \<Rightarrow> nat \<Rightarrow> 'e exec_state \<Rightarrow> bool" where
  "exec_inv p lim s \<longleftrightarrow> started_inv p lim s \<and> (\<not> ex_failed s \<longrightarrow> queue_inv p s)"

lemma exec_inv_init: "plan_wf p \<Longrightarrow> exec_inv p lim (exec_init p)"
  by (auto simp: exec_inv_def started_inv_def queue_inv_def exec_init_def plan_wf_def distinct_card)

lemma exec_inv_launch:
  assumes "exec_inv p lim s" and "can_launch lim s"
  shows "exec_inv p lim (launch s)"
proof -
  obtain q qs where q: "ex_queue s = q # qs"
    using assms(2) by (cases "ex_queue s") (auto simp: can_launch_def)
  have nf: "\<not> ex_failed s" and len: "length (ex_running s) < lim"
    using assms(2) by (auto simp: can_launch_def)
  have st: "started_inv p lim s" and qu: "queue_inv p s"
    using assms(1) nf by (auto simp: exec_inv_def)
  have "q \<in> set (plan_start_order p)"
    using qu q by (simp add: queue_inv_def)
  with qu q have fresh: "q \<notin> set (ex_started s)" and deps: "set (dependencies p q) \<subseteq> ex_completed s"
    and qs: "q \<notin> set qs"
    by (auto simp: queue_inv_def)
  have "started_inv p lim (launch s)"
    using st q len fresh deps \<open>q \<in> set (plan_start_order p)\<close>
    unfolding started_inv_def launch_def by auto
  moreover have "queue_inv p (launch s)"
    using qu q qs unfolding queue_inv_def launch_def by auto
  ultimately show ?thesis by (simp add: exec_inv_def)
qed

lemma dependencies_in_plan:
  "plan_wf p \<Longrightarrow> d \<in> set (dependencies p x) \<Longrightarrow> x \<in> set (plan_start_order p)"
  by (cases "plan_node p x") (simp_all add: plan_wf_def dependencies_def)

text \<open>One completion that is processed while nothing has failed: the counters of its dependants.\<close>

lemma release_completed:
  assumes wf: "plan_wf p" and x: "x \<notin> C"
    and rem: "\<And>y. rem y = int (card (set (dependencies p y) - C))"
  obtains new where "release (dependents p x) rem q =
      (\<lambda>y. int (card (set (dependencies p y) - insert x C)), q @ new)"
    and "distinct new"
    and "\<And>y. y \<in> set new \<longleftrightarrow> x \<in> set (dependencies p y) \<and> set (dependencies p y) \<subseteq> insert x C"
proof -
  have edge: "y \<in> set (dependents p x) \<longleftrightarrow> x \<in> set (dependencies p y)" for y
    using wf by (simp add: plan_wf_def)
  have cnt: "count_list (dependents p x) y = (if x \<in> set (dependencies p y) then 1 else 0)" for y
    using wf count_list_distinct [of "dependents p x" y] edge by (simp add: plan_wf_def)
  have split: "set (dependencies p y) - C =
      (if x \<in> set (dependencies p y) then insert x (set (dependencies p y) - insert x C)
       else set (dependencies p y) - insert x C)" for y
    using x by auto
  have step: "rem y - int (count_list (dependents p x) y) = int (card (set (dependencies p y) - insert x C))" for y
    unfolding rem cnt split [of y] by (simp add: card_insert_if)
  obtain new where new: "release (dependents p x) rem q =
      (\<lambda>y. rem y - int (count_list (dependents p x) y), q @ new)" "distinct new"
    and set: "set new = {y. 0 < rem y \<and> rem y \<le> int (count_list (dependents p x) y)}"
    using release_spec by blast
  have "y \<in> set new \<longleftrightarrow> x \<in> set (dependencies p y) \<and> set (dependencies p y) \<subseteq> insert x C" for y
  proof (cases "x \<in> set (dependencies p y)")
    case True
    then have "rem y = 1 + int (card (set (dependencies p y) - insert x C))"
      using step [of y] by (simp add: cnt)
    then have "y \<in> set new \<longleftrightarrow> card (set (dependencies p y) - insert x C) = 0"
      using True by (auto simp: set cnt)
    then show ?thesis using True by simp
  qed (simp add: set cnt)
  with new that show thesis by (simp add: step)
qed

lemma exec_inv_receive:
  assumes wf: "plan_wf p" and "exec_inv p lim s" and x: "x \<in> set (ex_running s)"
  shows "exec_inv p lim (receive p s x res)"
proof -
  have st: "started_inv p lim s" using assms(2) by (simp add: exec_inv_def)
  have rm: "set (remove1 x (ex_running s)) = set (ex_running s) - {x}"
    "distinct (remove1 x (ex_running s))" "length (remove1 x (ex_running s)) \<le> lim"
    using st by (auto simp: started_inv_def set_remove1_eq length_remove1)
  have started: "started_inv p lim (receive p s x res)"
    using st x rm
    by (cases res) (auto simp: started_inv_def receive_def Let_def split: prod.splits)
  show ?thesis
  proof (cases "res = None \<and> \<not> ex_failed s")
    case False
    then have "ex_failed (receive p s x res)"
      by (cases res) (auto simp: receive_def Let_def)
    with started show ?thesis by (simp add: exec_inv_def)
  next
    case True
    let ?C = "insert x (ex_completed s)"
    have qu: "queue_inv p s" using assms(2) True by (simp add: exec_inv_def)
    have xC: "x \<notin> ex_completed s" using st x by (auto simp: started_inv_def)
    obtain new where rel: "release (dependents p x) (ex_remaining s) (ex_queue s) =
        (\<lambda>y. int (card (set (dependencies p y) - ?C)), ex_queue s @ new)"
      and dist: "distinct new"
      and new: "\<And>y. y \<in> set new \<longleftrightarrow> x \<in> set (dependencies p y) \<and> set (dependencies p y) \<subseteq> ?C"
      using release_completed [OF wf xC, of "ex_remaining s"] qu unfolding queue_inv_def by blast
    have t: "receive p s x res = s\<lparr>ex_running := remove1 x (ex_running s), ex_completed := ?C,
        ex_remaining := (\<lambda>y. int (card (set (dependencies p y) - ?C))),
        ex_queue := sort_key (plan_ordinal p) (ex_queue s @ new)\<rparr>"
      using True rel by (simp add: receive_def Let_def)
    have new_plan: "y \<in> set (plan_start_order p)" if "y \<in> set new" for y
      using that new dependencies_in_plan [OF wf] by blast
    have fresh: "y \<notin> set (ex_started s)" "y \<notin> set (ex_queue s)" if "y \<in> set new" for y
    proof -
      have no: "\<not> set (dependencies p y) \<subseteq> ex_completed s" using that new xC by blast
      then show "y \<notin> set (ex_started s)" using st by (auto simp: started_inv_def)
      show "y \<notin> set (ex_queue s)" using no qu new_plan [OF that] by (simp add: queue_inv_def)
    qed
    have "y \<in> set (ex_queue s) \<union> set new \<longleftrightarrow> y \<notin> set (ex_started s) \<and> set (dependencies p y) \<subseteq> ?C"
      if "y \<in> set (plan_start_order p)" for y
    proof -
      have "y \<in> set (ex_queue s) \<longleftrightarrow> y \<notin> set (ex_started s) \<and> set (dependencies p y) \<subseteq> ex_completed s"
        using qu that by (simp add: queue_inv_def)
      then show ?thesis using new [of y] fresh [of y] by auto
    qed
    then have "queue_inv p (receive p s x res)"
      unfolding t using qu dist fresh(2) new_plan by (simp add: queue_inv_def) blast
    with started show ?thesis by (simp add: exec_inv_def)
  qed
qed

lemma exec_step_inv: "plan_wf p \<Longrightarrow> exec_step p lim s t \<Longrightarrow> exec_inv p lim s \<Longrightarrow> exec_inv p lim t"
  by (auto elim!: exec_stepE intro: exec_inv_launch exec_inv_receive)

lemma exec_reach_inv: "exec_reach p lim s \<Longrightarrow> plan_wf p \<Longrightarrow> exec_inv p lim s"
  by (induction rule: exec_reach.induct) (auto intro: exec_inv_init exec_step_inv)

subsection \<open>The scheduler: termination and results\<close>

definition exec_measure :: "plan \<Rightarrow> 'e exec_state \<Rightarrow> nat" where
  "exec_measure p s = 2 * (length (plan_start_order p) - length (ex_started s)) + length (ex_running s)"

lemma started_bound:
  assumes "plan_wf p" and "exec_inv p lim s"
  shows "length (ex_started s) \<le> length (plan_start_order p)"
proof -
  have "card (set (ex_started s)) \<le> card (set (plan_start_order p))"
    using assms(2) by (intro card_mono) (auto simp: exec_inv_def started_inv_def)
  then show ?thesis
    using assms by (simp add: exec_inv_def started_inv_def plan_wf_def distinct_card)
qed

lemma exec_step_measure:
  assumes wf: "plan_wf p" and inv: "exec_inv p lim s" and step: "exec_step p lim s t"
  shows "exec_measure p t < exec_measure p s"
  using step
proof (cases rule: exec_step.cases)
  case launch_step
  have "length (ex_started t) \<le> length (plan_start_order p)"
    using started_bound [OF wf] exec_step_inv [OF wf step inv] by blast
  then show ?thesis using launch_step by (auto simp: exec_measure_def launch_def)
next
  case (receive_step x res)
  have "ex_running t = remove1 x (ex_running s)" and "ex_started t = ex_started s"
    unfolding receive_step by (auto simp: receive_def Let_def split: option.splits prod.splits)
  moreover have "length (remove1 x (ex_running s)) < length (ex_running s)"
    using receive_step by (auto simp: length_remove1 dest: length_pos_if_in_set)
  ultimately show ?thesis by (simp add: exec_measure_def)
qed

lemma exec_steps_bound:
  assumes wf: "plan_wf p" and run: "(exec_step p lim ^^ n) (exec_init p) s"
  shows "exec_reach p lim s \<and> n + exec_measure p s \<le> 2 * length (plan_start_order p)"
  using run
proof (induction n arbitrary: s)
  case 0
  then have "s = exec_init p" by simp
  then show ?case by (simp add: reach_init) (simp add: exec_measure_def exec_init_def)
next
  case (Suc n)
  then obtain r where r: "(exec_step p lim ^^ n) (exec_init p) r" "exec_step p lim r s"
    by auto
  then have "exec_reach p lim r" and "n + exec_measure p r \<le> 2 * length (plan_start_order p)"
    using Suc.IH by auto
  moreover from this have "exec_measure p s < exec_measure p r"
    using exec_step_measure [OF wf exec_reach_inv r(2)] wf by blast
  ultimately show ?case using r(2) by (auto intro: exec_reach.intros)
qed

lemma exec_progress:
  assumes "1 \<le> lim" and "loop_guard s"
  shows "\<exists>t. exec_step p lim s t"
proof (cases "can_launch lim s")
  case True
  then show ?thesis by (blast intro: launch_step)
next
  case False
  with assms have "ex_running s \<noteq> []" by (auto simp: loop_guard_def can_launch_def)
  then have "hd (ex_running s) \<in> set (ex_running s)" by simp
  with False show ?thesis by (blast intro: receive_step)
qed

lemma all_completed:
  assumes wf: "plan_wf p" and inv: "exec_inv p lim s"
    and final: "\<not> loop_guard s" and ok: "\<not> ex_failed s"
  shows "ex_completed s = set (plan_start_order p)"
proof -
  have st: "started_inv p lim s" and qu: "queue_inv p s"
    using inv ok by (auto simp: exec_inv_def)
  have "ex_running s = []" "ex_queue s = []" "ex_failures s = Map.empty"
    using final ok st by (auto simp: loop_guard_def started_inv_def)
  then have started: "set (ex_started s) = ex_completed s"
    and wait: "\<And>x. x \<in> set (plan_start_order p) \<Longrightarrow> x \<notin> ex_completed s \<Longrightarrow>
      \<not> set (dependencies p x) \<subseteq> ex_completed s"
    using st qu by (auto simp: started_inv_def queue_inv_def)
  have "plan_start_order p ! i \<in> ex_completed s" if "i < length (plan_start_order p)" for i
    using that
  proof (induction i rule: less_induct)
    case (less i)
    have "set (dependencies p (plan_start_order p ! i)) \<subseteq> set (take i (plan_start_order p))"
      using wf less.prems by (simp add: plan_wf_def topo_def)
    moreover have "set (take i (plan_start_order p)) \<subseteq> ex_completed s"
      using less by (auto simp: in_set_conv_nth)
    ultimately show ?case using wait [OF nth_mem [OF less.prems]] by blast
  qed
  then have "set (plan_start_order p) \<subseteq> ex_completed s"
    by (auto simp: in_set_conv_nth)
  with started st show ?thesis by (auto simp: started_inv_def)
qed

lemma limit_pos: "plan_wf p \<Longrightarrow> 1 \<le> exec_limit p m"
  by (cases "plan_start_order p") (auto simp: exec_limit_def plan_wf_def)

text \<open>A scripted run of the executable loop is a run of the step relation.\<close>

lemma fill_reach: "exec_reach p lim s \<Longrightarrow> exec_reach p lim (fill lim s) \<and> \<not> can_launch lim (fill lim s)"
proof (induction lim s rule: fill.induct)
  case (1 lim s)
  then show ?case
    by (cases "can_launch lim s")
       (auto simp: fill.simps [of lim s] intro: reach_step [OF _ launch_step])
qed

lemma exec_run_reach:
  "exec_run p lim s script = Some t \<Longrightarrow> exec_reach p lim s \<Longrightarrow> exec_reach p lim t \<and> \<not> loop_guard t"
proof (induction script arbitrary: s)
  case Nil
  then show ?case by (auto simp: exec_run.simps split: if_splits)
next
  case (Cons c script)
  obtain x res where c: "c = (x, res)" by (cases c)
  show ?case
  proof (cases "loop_guard s")
    case True
    have f: "exec_reach p lim (fill lim s)" "\<not> can_launch lim (fill lim s)"
      using fill_reach [OF Cons.prems(2)] by auto
    have "x \<in> set (ex_running (fill lim s))"
      and "exec_run p lim (receive p (fill lim s) x res) script = Some t"
      using Cons.prems(1) True c
      by (auto simp: exec_run.simps [of p lim s] Let_def split: if_splits)
    moreover from this f have "exec_reach p lim (receive p (fill lim s) x res)"
      by (blast intro: reach_step receive_step)
    ultimately show ?thesis using Cons.IH by blast
  next
    case False
    with Cons.prems show ?thesis by (simp add: exec_run.simps)
  qed
qed

subsection \<open>Properties of the scheduler\<close>


text \<open>C30: The scheduler on a plan made by \<^verbatim>\<open>Build\<close> always comes to an end: no run takes more than
  two steps per node, whichever order the goroutines finish in, and as long as the loop condition
  holds there is a next step, so it never blocks on a channel nobody will write to.\<close>

theorem execute_terminates:
  assumes "build items = Inr p"
  shows "((exec_step p (exec_limit p m) ^^ n) (exec_init p) s \<longrightarrow> n \<le> 2 * length (plan_start_order p)) \<and>
    (loop_guard s \<longrightarrow> (\<exists>t. exec_step p (exec_limit p m) s t))"
  using exec_steps_bound [OF dp.mk_wf [OF assms]] exec_progress [OF limit_pos [OF dp.mk_wf [OF assms]]]
  by fastforce

text \<open>When the scheduler's loop ends and no node failed, every node of the plan has completed:
  \<^verbatim>\<open>Execute\<close> returns the whole start order and, without a context error, no error. When a node
  failed, the error it returns is never nil and names exactly the failed nodes.\<close>

theorem execute_result:
  assumes "build items = Inr p" and "exec_reach p lim s" and "\<not> loop_guard s"
  shows "(ex_failures s = Map.empty \<longrightarrow>
      exec_ready p s = plan_start_order p \<and> exec_error_of p s None = None) \<and>
    (ex_failures s \<noteq> Map.empty \<longrightarrow> (\<exists>fs. exec_error_of p s ctx = Some (NodeFailures fs) \<and>
      set (map fst fs) = dom (ex_failures s) \<and> (\<forall>(x, e) \<in> set fs. ex_failures s x = Some e)))"
proof -
  have wf: "plan_wf p" by (rule dp.mk_wf [OF assms(1)])
  have inv: "exec_inv p lim s" by (rule exec_reach_inv [OF assms(2) wf])
  have "exec_ready p s = plan_start_order p" if "ex_failures s = Map.empty"
    using all_completed [OF wf inv assms(3)] that inv
    by (simp add: exec_ready_def exec_inv_def started_inv_def)
  moreover have "dom (ex_failures s) \<subseteq> set (plan_start_order p)"
    using inv by (auto simp: exec_inv_def started_inv_def)
  ultimately show ?thesis
    by (auto simp: exec_error_of_def image_image subset_iff dom_def)
qed

text \<open>After the first failure the scheduler launches nothing more: from a state in which a node
  has failed, every step only receives the completion of a node that is already running.\<close>

theorem execute_stops_launching:
  assumes "exec_step p lim s t" and "ex_failed s"
  shows "ex_started t = ex_started s \<and> ex_failed t \<and> length (ex_running t) < length (ex_running s)"
  using assms
proof (cases rule: exec_step.cases)
  case launch_step
  with assms(2) show ?thesis by (simp add: can_launch_def)
next
  case (receive_step x res)
  then have "ex_running t = remove1 x (ex_running s)" and "ex_started t = ex_started s" and "ex_failed t"
    using assms(2) by (auto simp: receive_def Let_def split: option.splits)
  moreover have "length (remove1 x (ex_running s)) < length (ex_running s)"
    using receive_step by (auto simp: length_remove1 dest: length_pos_if_in_set)
  ultimately show ?thesis by simp
qed

subsection \<open>Collapse\<close>

record collapse_state =
  physical_order :: "string list"
  seen_physical :: "string set"
  physical_dependencies :: "string \<Rightarrow> string list"
  seen_edges :: "(string \<times> string) set"

datatype collapse_error = NoLogicalPlan | NoPhysicalTarget string | CollapsedPlan plan_error

fun collapse_deps :: "(string \<Rightarrow> string) \<Rightarrow> string \<Rightarrow> string list \<Rightarrow> collapse_state
    \<Rightarrow> (collapse_error, collapse_state) result" where
  "collapse_deps phys me [] st = Inr st"
| "collapse_deps phys me (d # ds) st =
     (if phys d = [] then Inl (NoPhysicalTarget d)
      else if phys d = me then collapse_deps phys me ds st
      else if (me, phys d) \<in> seen_edges st then collapse_deps phys me ds st
      else collapse_deps phys me ds
        (st\<lparr>seen_edges := insert (me, phys d) (seen_edges st),
            physical_dependencies :=
              (physical_dependencies st)(me := physical_dependencies st me @ [phys d])\<rparr>))"

fun collapse_nodes :: "plan \<Rightarrow> (string \<Rightarrow> string) \<Rightarrow> string list \<Rightarrow> collapse_state
    \<Rightarrow> (collapse_error, collapse_state) result" where
  "collapse_nodes p phys [] st = Inr st"
| "collapse_nodes p phys (x # xs) st =
     (if phys x = [] then Inl (NoPhysicalTarget x)
      else let st1 = (if phys x \<in> seen_physical st then st
                      else st\<lparr>seen_physical := insert (phys x) (seen_physical st),
                               physical_order := physical_order st @ [phys x]\<rparr>)
           in bindE (collapse_deps phys (phys x) (dependencies p x) st1) (collapse_nodes p phys xs))"

definition collapse :: "plan option \<Rightarrow> (string \<Rightarrow> string) \<Rightarrow> (collapse_error, plan) result" where
  "collapse logical phys =
     (case logical of
        None \<Rightarrow> Inl NoLogicalPlan
      | Some p \<Rightarrow>
          bindE (collapse_nodes p phys (plan_start_order p)
                  \<lparr>physical_order = [], seen_physical = {}, physical_dependencies = (\<lambda>_. []), seen_edges = {}\<rparr>)
            (\<lambda>st. map_err CollapsedPlan
               (build (map (\<lambda>x. \<lparr>item_id = x, depends_on = physical_dependencies st x\<rparr>)
                  (physical_order st)))))"

definition phys_edges :: "(string \<Rightarrow> string) \<Rightarrow> (string \<times> string) set \<Rightarrow> (string \<times> string) set" where
  "phys_edges phys E = {(y, z). y \<noteq> z \<and> (\<exists>x d. (x, d) \<in> E \<and> phys x = y \<and> phys d = z)}"

lemma phys_edges_insert:
  "phys_edges phys (insert (x, d) E) =
     (if phys d = phys x then phys_edges phys E else insert (phys x, phys d) (phys_edges phys E))"
  by (auto simp: phys_edges_def)

text \<open>The state of the loop after the logical nodes in \<open>X\<close>, with \<open>E\<close> the edges it has read.\<close>

definition collapse_inv :: "(string \<Rightarrow> string) \<Rightarrow> string set \<Rightarrow> (string \<times> string) set \<Rightarrow> collapse_state \<Rightarrow> bool" where
  "collapse_inv phys X E st \<longleftrightarrow>
     distinct (physical_order st) \<and> set (physical_order st) = phys ` X \<and> seen_physical st = phys ` X \<and>
     seen_edges st = phys_edges phys E \<and>
     (\<forall>y. distinct (physical_dependencies st y) \<and>
        set (physical_dependencies st y) = {z. (y, z) \<in> seen_edges st})"

lemma collapse_deps_inv:
  assumes "collapse_deps phys (phys x) ds st = Inr st'" and "collapse_inv phys X E st"
  shows "collapse_inv phys X (E \<union> {x} \<times> set ds) st' \<and> (\<forall>d \<in> set ds. phys d \<noteq> [])"
  using assms
proof (induction ds arbitrary: st E)
  case Nil
  then show ?case by simp
next
  case (Cons d ds)
  have ne: "phys d \<noteq> []" using Cons.prems(1) by (auto split: if_splits)
  have E: "E \<union> {x} \<times> set (d # ds) = (E \<union> {(x, d)}) \<union> {x} \<times> set ds" by auto
  show ?case
  proof (cases "phys d = phys x \<or> (phys x, phys d) \<in> seen_edges st")
    case True
    then have "collapse_inv phys X (E \<union> {(x, d)}) st"
      using Cons.prems(2) by (auto simp: collapse_inv_def phys_edges_insert)
    moreover have "collapse_deps phys (phys x) ds st = Inr st'"
      using Cons.prems(1) True ne by (auto split: if_splits)
    ultimately show ?thesis using Cons.IH [of st "E \<union> {(x, d)}"] ne unfolding E by simp
  next
    case False
    let ?st = "st\<lparr>seen_edges := insert (phys x, phys d) (seen_edges st),
        physical_dependencies :=
          (physical_dependencies st)(phys x := physical_dependencies st (phys x) @ [phys d])\<rparr>"
    have "collapse_inv phys X (E \<union> {(x, d)}) ?st"
      using Cons.prems(2) False
      by (auto simp: collapse_inv_def phys_edges_insert)
    moreover have "collapse_deps phys (phys x) ds ?st = Inr st'"
      using Cons.prems(1) False ne by simp
    ultimately show ?thesis using Cons.IH [of ?st "E \<union> {(x, d)}"] ne unfolding E by simp
  qed
qed

lemma collapse_nodes_inv:
  assumes "collapse_nodes p phys xs st = Inr st'" and "collapse_inv phys X E st"
  shows "collapse_inv phys (X \<union> set xs) (E \<union> {(x, d). x \<in> set xs \<and> d \<in> set (dependencies p x)}) st' \<and>
    (\<forall>x \<in> set xs. phys x \<noteq> [])"
  using assms
proof (induction xs arbitrary: st X E)
  case Nil
  then show ?case by simp
next
  case (Cons x xs)
  let ?st = "if phys x \<in> seen_physical st then st
      else st\<lparr>seen_physical := insert (phys x) (seen_physical st), physical_order := physical_order st @ [phys x]\<rparr>"
  have ne: "phys x \<noteq> []" using Cons.prems(1) by (auto split: if_splits)
  have inv: "collapse_inv phys (X \<union> {x}) E ?st"
    using Cons.prems(2) unfolding collapse_inv_def by auto
  obtain st1 where st1: "collapse_deps phys (phys x) (dependencies p x) ?st = Inr st1"
    and rest: "collapse_nodes p phys xs st1 = Inr st'"
    using Cons.prems(1) ne by (auto simp: Let_def)
  have eq: "E \<union> {x} \<times> set (dependencies p x) \<union> {(x, d). x \<in> set xs \<and> d \<in> set (dependencies p x)} =
      E \<union> {(y, d). y \<in> set (x # xs) \<and> d \<in> set (dependencies p y)}" and
    eqX: "X \<union> {x} \<union> set xs = X \<union> set (x # xs)"
    by auto
  from collapse_deps_inv [OF st1 inv] have "collapse_inv phys (X \<union> {x}) (E \<union> {x} \<times> set (dependencies p x)) st1"
    by blast
  from Cons.IH [OF rest this] show ?case
    unfolding eq eqX using ne by simp
qed

lemma collapse_Inr:
  assumes "collapse (Some p) phys = Inr q"
  obtains st where "collapse_inv phys (set (plan_start_order p))
      {(x, d). x \<in> set (plan_start_order p) \<and> d \<in> set (dependencies p x)} st"
    and "build (map (\<lambda>x. \<lparr>item_id = x, depends_on = physical_dependencies st x\<rparr>) (physical_order st)) = Inr q"
    and "\<forall>x \<in> set (plan_start_order p). phys x \<noteq> []"
proof -
  let ?st0 = "\<lparr>physical_order = [], seen_physical = {}, physical_dependencies = (\<lambda>_. []), seen_edges = {}\<rparr>"
  obtain st where st: "collapse_nodes p phys (plan_start_order p) ?st0 = Inr st"
    and b: "build (map (\<lambda>x. \<lparr>item_id = x, depends_on = physical_dependencies st x\<rparr>) (physical_order st)) = Inr q"
    using assms by (auto simp: collapse_def)
  have "collapse_inv phys {} {} ?st0" by (simp add: collapse_inv_def phys_edges_def)
  from collapse_nodes_inv [OF st this] b that show thesis by auto
qed

text \<open>A successful \<^verbatim>\<open>Collapse\<close> of a plan has exactly the physical targets of the logical nodes
  as its nodes, and one physical node depends on another exactly when they differ and some logical
  node mapped to the first depends on a logical node mapped to the second: edges inside one
  physical node disappear, no other edge is lost and none is invented.\<close>

theorem collapse_edges:
  assumes "collapse (Some p) phys = Inr q"
  shows "set (plan_start_order q) = phys ` set (plan_start_order p) \<and>
    (\<forall>y z. z \<in> set (dependencies q y) \<longleftrightarrow> y \<noteq> z \<and>
       (\<exists>x d. x \<in> set (plan_start_order p) \<and> d \<in> set (dependencies p x) \<and> phys x = y \<and> phys d = z))"
proof -
  obtain st where inv: "collapse_inv phys (set (plan_start_order p))
      {(x, d). x \<in> set (plan_start_order p) \<and> d \<in> set (dependencies p x)} st"
    and b: "build (map (\<lambda>x. \<lparr>item_id = x, depends_on = physical_dependencies st x\<rparr>) (physical_order st)) = Inr q"
    (is "build ?items = _")
    by (rule collapse_Inr [OF assms])
  have ids: "ids ?items = physical_order st" by (simp add: ids_def comp_def)
  have "set (plan_start_order q) = phys ` set (plan_start_order p)"
    using dp.mk_nodes [OF b] inv ids by (simp add: collapse_inv_def)
  moreover have "set (dependencies q y) = {z. (y, z) \<in> seen_edges st}" for y
  proof (cases "y \<in> set (physical_order st)")
    case True
    then have "dependencies q y = physical_dependencies st y"
      using dp.mk_deps [OF b, of "\<lparr>item_id = y, depends_on = physical_dependencies st y\<rparr>"] by auto
    then show ?thesis using inv by (simp add: collapse_inv_def)
  next
    case False
    then have "dependencies q y = []"
      by (simp add: build_dependencies [OF b] deps_of_outside ids)
    moreover have "(y, z) \<notin> seen_edges st" for z
      using False inv by (auto simp: collapse_inv_def phys_edges_def)
    ultimately show ?thesis by simp
  qed
  ultimately show ?thesis using inv by (auto simp: collapse_inv_def phys_edges_def)
qed

subsection \<open>Concrete runs\<close>

definition demo_script :: "(string \<times> string option) list" where
  "demo_script = [(''db'', None), (''auth'', None), (''web'', None)]"

definition demo_end :: "string exec_state" where
  "demo_end = the (exec_run demo_plan (exec_limit demo_plan 2) (exec_init demo_plan) demo_script)"

definition demo_fail :: "string exec_state" where
  "demo_fail = the (exec_run demo_plan (exec_limit demo_plan 2) (exec_init demo_plan)
     [(''db'', None), (''auth'', Some ''boom'')])"

lemma demo_end_run:
  "exec_run demo_plan (exec_limit demo_plan 2) (exec_init demo_plan) demo_script = Some demo_end"
proof -
  have "\<not> Option.is_none (exec_run demo_plan (exec_limit demo_plan 2) (exec_init demo_plan) demo_script)"
    by code_simp
  then show ?thesis by (simp add: demo_end_def Option.is_none_def)
qed

lemma demo_end_reach: "exec_reach demo_plan (exec_limit demo_plan 2) demo_end" "\<not> loop_guard demo_end"
  using exec_run_reach [OF demo_end_run reach_init] by auto


theorem execute_terminates_witness:
  "build demo_items = Inr demo_plan \<and>
   (\<exists>t. exec_step demo_plan (exec_limit demo_plan 2) (exec_init demo_plan :: string exec_state) t)"
proof -
  have "loop_guard (exec_init demo_plan :: string exec_state)" by code_simp
  with execute_terminates [OF demo_build] demo_build show ?thesis by blast
qed

theorem execute_result_witness:
  "exec_ready demo_plan demo_end = [''db'', ''auth'', ''web''] \<and>
   exec_error_of demo_plan demo_end (None :: string option) = None"
proof -
  have "\<not> ex_failed demo_end" by code_simp
  then have "ex_failures demo_end = Map.empty"
    using exec_reach_inv [OF demo_end_reach(1) dp.mk_wf [OF demo_build]]
    by (simp add: exec_inv_def started_inv_def)
  moreover have "plan_start_order demo_plan = [''db'', ''auth'', ''web'']" by code_simp
  ultimately show ?thesis
    using execute_result [OF demo_build demo_end_reach] by simp
qed

theorem execute_stops_launching_witness:
  "\<exists>s t :: string exec_state. exec_step demo_plan 2 s t \<and> ex_failed s \<and> ex_started t = ex_started s"
proof -
  let ?s = "(exec_init demo_plan :: string exec_state)\<lparr>ex_failed := True, ex_running := [''db'']\<rparr>"
  have "exec_step demo_plan 2 ?s (receive demo_plan ?s ''db'' None)"
    by (rule receive_step) (simp_all add: can_launch_def)
  with execute_stops_launching [OF this] show ?thesis by (auto intro!: exI)
qed

definition demo_phys :: "string \<Rightarrow> string" where
  "demo_phys x = (if x = ''web'' then ''edge'' else ''core'')"

theorem collapse_edges_witness:
  "\<exists>q. collapse (Some demo_plan) demo_phys = Inr q \<and> set (plan_start_order q) = {''edge'', ''core''}"
proof -
  have c: "collapse (Some demo_plan) demo_phys = Inr (projr (collapse (Some demo_plan) demo_phys))"
    by (rule Inr_projr) code_simp
  moreover have "demo_phys ` set (plan_start_order demo_plan) = {''edge'', ''core''}" by code_simp
  ultimately show ?thesis using collapse_edges [OF c] by metis
qed

end
