(* ===== verification/Registry_Manifest.thy ===== *)
theory Registry_Manifest
  imports Registry_Version "HOL-Library.Multiset"
begin

text \<open>
  Module manifests, \<^verbatim>\<open>src/registry/manifest.go\<close>, \<^verbatim>\<open>canonical.go\<close> and \<^verbatim>\<open>refresh.go\<close>, and the project file of
  \<^verbatim>\<open>project.go\<close>. TOML, JSON, the quoting of strings and SHA-256 are library code: they are parameters,
  gathered in the record \<open>formats\<close>. A decoder returns the decoded fields and the fields it did not know.
  An absent and an empty list are the same value here.
\<close>

subsection \<open>Data\<close>

record dependency =
  d_id :: string
  d_requirement :: string

record source_artifact =
  s_language :: string
  s_module_path :: string
  s_import_path :: string
  s_entrypoint :: string
  s_toolchain :: string

record artifact =
  a_target :: string
  a_digest :: digest
  a_digest_text :: string
  a_size :: int
  a_cell_manifest_digest :: string
  a_source :: "source_artifact option"

record manifest =
  m_schema :: int
  m_id :: string
  m_version :: version
  m_dependencies :: "dependency list"
  m_artifacts :: "artifact list"
  m_provides :: "string list"
  m_consumes :: "string list"
  m_capabilities :: "string list"
  m_fusion_abi :: string

record raw_artifact =
  ra_target :: string
  ra_digest :: string
  ra_cell_manifest_digest :: string
  ra_size :: int
  ra_source :: "source_artifact option"

record raw_manifest =
  r_schema :: int
  r_id :: string
  r_version :: string
  r_dependencies :: "dependency list"
  r_artifacts :: "raw_artifact list"
  r_provides :: "string list"
  r_consumes :: "string list"
  r_capabilities :: "string list"
  r_abi :: string

record canonical_artifact =
  ca_target :: string
  ca_digest :: string
  ca_size :: int
  ca_cell_manifest_digest :: string
  ca_source :: "source_artifact option"

record canonical =
  c_schema :: int
  c_id :: string
  c_version :: string
  c_dependencies :: "dependency list"
  c_artifacts :: "canonical_artifact list"
  c_provides :: "string list"
  c_consumes :: "string list"
  c_capabilities :: "string list"
  c_fusion_abi :: string

record raw_project =
  rp_schema :: int
  rp_target :: string
  rp_remotes :: "string list"
  rp_modules :: "dependency list"

record project =
  p_target :: string
  p_modules :: "dependency list"
  p_remotes :: "string list"

record formats =
  toml_manifest :: "string \<Rightarrow> (raw_manifest \<times> string list) option"
  toml_project :: "string \<Rightarrow> (raw_project \<times> string list) option"
  json_encode :: "canonical \<Rightarrow> string option"
  json_decode :: "string \<Rightarrow> canonical option"
  sha256 :: "string \<Rightarrow> digest"
  quote :: "string \<Rightarrow> string"

datatype manifest_error =
    BadToml | UnknownField string | BadSchema | BadModuleId string | BadVersion version_error
  | BadRequirement string | BadArtifact | BadDigest string | BadSource string | NoArtifacts
  | DuplicateDependency string | DuplicateTarget string | BadJson | NotCanonical | EncodeFailed
  | MissingBytes string | UndeclaredBytes | TargetRequired | DuplicateModule string | NoModules

subsection \<open>Parsing a manifest\<close>

definition valid_requirement :: "string \<Rightarrow> bool" where
  "valid_requirement s =
     (if s = ''*'' \<or> s = [] then True
      else \<not> isl (parse_version (if hd s = CHR ''^'' \<or> hd s = CHR ''~'' then tl s else s)))"

fun normalize_loop :: "string list \<Rightarrow> string list \<Rightarrow> string list" where
  "normalize_loop [] out = out"
| "normalize_loop (s # ss) out =
     (let t = trim_space s in normalize_loop ss (if t \<noteq> [] \<and> t \<notin> set out then out @ [t] else out))"

definition normalized :: "string list \<Rightarrow> string list" where
  "normalized ss = sort (normalize_loop ss [])"

definition module_id_of :: "string \<Rightarrow> (manifest_error, string) result" where
  "module_id_of s = (case parse_module_id s of None \<Rightarrow> Inl (BadModuleId s) | Some i \<Rightarrow> Inr i)"

definition parse_dependency :: "dependency \<Rightarrow> (manifest_error, dependency) result" where
  "parse_dependency d =
     bindE (module_id_of (d_id d)) (\<lambda>i.
       let r = trim_space (d_requirement d)
       in if \<not> valid_requirement r then Inl (BadRequirement r) else Inr \<lparr>d_id = i, d_requirement = r\<rparr>)"

definition trim_source :: "source_artifact \<Rightarrow> source_artifact" where
  "trim_source s = \<lparr>s_language = trim_space (s_language s), s_module_path = trim_space (s_module_path s),
     s_import_path = trim_space (s_import_path s), s_entrypoint = trim_space (s_entrypoint s),
     s_toolchain = trim_space (s_toolchain s)\<rparr>"

definition source_complete :: "source_artifact \<Rightarrow> bool" where
  "source_complete s \<longleftrightarrow> s_language s \<noteq> [] \<and> s_module_path s \<noteq> [] \<and> s_import_path s \<noteq> [] \<and> s_entrypoint s \<noteq> []"

definition parse_artifact :: "raw_artifact \<Rightarrow> (manifest_error, artifact) result" where
  "parse_artifact a =
     (if trim_space (ra_target a) = [] \<or> ra_size a < 0 then Inl BadArtifact
      else case parse_digest (ra_digest a) of
             None \<Rightarrow> Inl (BadDigest (ra_digest a))
           | Some dg \<Rightarrow>
               (let src = map_option trim_source (ra_source a)
                in if (case src of None \<Rightarrow> False | Some s \<Rightarrow> \<not> source_complete s)
                   then Inl (BadSource (trim_space (ra_target a)))
                   else Inr \<lparr>a_target = trim_space (ra_target a), a_digest = dg, a_digest_text = digest_string dg,
                             a_size = ra_size a, a_cell_manifest_digest = trim_space (ra_cell_manifest_digest a),
                             a_source = src\<rparr>))"

text \<open>The first entry equal to its predecessor in a sorted list.\<close>

fun first_repeat :: "string list \<Rightarrow> string option" where
  "first_repeat (x # y # xs) = (if x = y then Some y else first_repeat (y # xs))"
| "first_repeat _ = None"

definition parse_manifest :: "formats \<Rightarrow> string \<Rightarrow> (manifest_error, manifest) result" where
  "parse_manifest fm data =
     (case toml_manifest fm data of
        None \<Rightarrow> Inl BadToml
      | Some (raw, f # _) \<Rightarrow> Inl (UnknownField f)
      | Some (raw, []) \<Rightarrow>
          if r_schema raw \<noteq> 1 then Inl BadSchema
          else bindE (module_id_of (r_id raw)) (\<lambda>i.
            bindE (map_err BadVersion (parse_version (r_version raw))) (\<lambda>v.
            bindE (mapM parse_dependency (r_dependencies raw)) (\<lambda>deps.
            bindE (mapM parse_artifact (r_artifacts raw)) (\<lambda>arts.
              if arts = [] then Inl NoArtifacts
              else (let ds = sort_key d_id deps; as = sort_key a_target arts
                    in case first_repeat (map d_id ds) of
                         Some x \<Rightarrow> Inl (DuplicateDependency x)
                       | None \<Rightarrow>
                           (case first_repeat (map a_target as) of
                              Some x \<Rightarrow> Inl (DuplicateTarget x)
                            | None \<Rightarrow> Inr \<lparr>m_schema = 1, m_id = i, m_version = v, m_dependencies = ds, m_artifacts = as,
                                m_provides = normalized (r_provides raw), m_consumes = normalized (r_consumes raw),
                                m_capabilities = normalized (r_capabilities raw), m_fusion_abi = trim_space (r_abi raw)\<rparr>)))))))"

subsection \<open>Canonical form\<close>

definition canonical_of :: "manifest \<Rightarrow> canonical" where
  "canonical_of m = \<lparr>c_schema = 1, c_id = m_id m, c_version = version_string (m_version m),
     c_dependencies = m_dependencies m,
     c_artifacts = map (\<lambda>a. \<lparr>ca_target = a_target a, ca_digest = digest_string (a_digest a), ca_size = a_size a,
       ca_cell_manifest_digest = a_cell_manifest_digest a, ca_source = a_source a\<rparr>) (m_artifacts m),
     c_provides = m_provides m, c_consumes = m_consumes m, c_capabilities = m_capabilities m,
     c_fusion_abi = m_fusion_abi m\<rparr>"

definition canonical_manifest :: "formats \<Rightarrow> manifest \<Rightarrow> string option" where
  "canonical_manifest fm m = json_encode fm (canonical_of m)"

definition read_artifact :: "canonical_artifact \<Rightarrow> (manifest_error, artifact) result" where
  "read_artifact a =
     (case parse_digest (ca_digest a) of
        None \<Rightarrow> Inl (BadDigest (ca_digest a))
      | Some d \<Rightarrow> Inr \<lparr>a_target = ca_target a, a_digest = d, a_digest_text = digest_string d, a_size = ca_size a,
          a_cell_manifest_digest = ca_cell_manifest_digest a, a_source = ca_source a\<rparr>)"

definition confirm_canonical :: "formats \<Rightarrow> string \<Rightarrow> manifest \<Rightarrow> (manifest_error, manifest) result" where
  "confirm_canonical fm b m =
     (case canonical_manifest fm m of
        None \<Rightarrow> Inl EncodeFailed
      | Some canonical \<Rightarrow> if canonical \<noteq> b then Inl NotCanonical else Inr m)"

definition parse_canonical :: "formats \<Rightarrow> string \<Rightarrow> (manifest_error, manifest) result" where
  "parse_canonical fm b =
     (case json_decode fm b of
        None \<Rightarrow> Inl BadJson
      | Some c \<Rightarrow>
          if c_schema c \<noteq> 1 then Inl BadSchema
          else bindE (module_id_of (c_id c)) (\<lambda>i.
            bindE (map_err BadVersion (parse_version (c_version c))) (\<lambda>v.
            bindE (mapM read_artifact (c_artifacts c)) (\<lambda>arts.
              confirm_canonical fm b \<lparr>m_schema = c_schema c, m_id = i, m_version = v, m_dependencies = c_dependencies c,
                       m_artifacts = arts, m_provides = c_provides c, m_consumes = c_consumes c,
                       m_capabilities = c_capabilities c, m_fusion_abi = c_fusion_abi c\<rparr>))))"

subsection \<open>Publishing form\<close>

definition nl :: string where
  "nl = [CHR 0x0A]"

definition quoted :: "formats \<Rightarrow> string list \<Rightarrow> string" where
  "quoted fm values = ''['' @ join '', '' (map (quote fm) (normalized values)) @ '']''"

definition toml_dependency :: "formats \<Rightarrow> dependency \<Rightarrow> string" where
  "toml_dependency fm d = nl @ ''[[dependencies]]'' @ nl @ ''id = '' @ quote fm (d_id d) @ nl @
     ''requirement = '' @ quote fm (d_requirement d) @ nl"

definition show_int :: "int \<Rightarrow> string" where
  "show_int i = (if i < 0 then ''-'' @ show_nat (nat (- i)) else show_nat (nat i))"

definition toml_artifact :: "formats \<Rightarrow> artifact \<Rightarrow> string" where
  "toml_artifact fm a = nl @ ''[[artifacts]]'' @ nl @ ''target = '' @ quote fm (a_target a) @ nl @
     ''digest = '' @ quote fm (digest_string (a_digest a)) @ nl @ ''size = '' @ show_int (a_size a) @ nl @
     (if a_cell_manifest_digest a = [] then []
      else ''cell_manifest_digest = '' @ quote fm (a_cell_manifest_digest a) @ nl) @
     (case a_source a of None \<Rightarrow> []
      | Some s \<Rightarrow> nl @ ''[artifacts.source]'' @ nl @ ''language = '' @ quote fm (s_language s) @ nl @
          ''module_path = '' @ quote fm (s_module_path s) @ nl @ ''import_path = '' @ quote fm (s_import_path s) @ nl @
          ''entrypoint = '' @ quote fm (s_entrypoint s) @ nl @
          (if s_toolchain s = [] then [] else ''toolchain = '' @ quote fm (s_toolchain s) @ nl))"

definition manifest_toml :: "formats \<Rightarrow> manifest \<Rightarrow> (manifest_error, string) result" where
  "manifest_toml fm m =
     (case canonical_manifest fm m of
        None \<Rightarrow> Inl EncodeFailed
      | Some canonical \<Rightarrow>
          bindE (parse_canonical fm canonical) (\<lambda>_.
            Inr (''schema_version = 1'' @ nl @ ''provides = '' @ quoted fm (m_provides m) @ nl @
                 ''consumes = '' @ quoted fm (m_consumes m) @ nl @ ''capabilities = '' @ quoted fm (m_capabilities m) @ nl @ nl @
                 ''[module]'' @ nl @ ''id = '' @ quote fm (m_id m) @ nl @
                 ''version = '' @ quote fm (version_string (m_version m)) @ nl @
                 (if m_fusion_abi m = [] then [] else nl @ ''[execution]'' @ nl @ ''abi = '' @ quote fm (m_fusion_abi m) @ nl) @
                 concat (map (toml_dependency fm) (m_dependencies m)) @ concat (map (toml_artifact fm) (m_artifacts m)))))"

text \<open>The loop of \<^verbatim>\<open>RefreshArtifacts\<close>: the artifacts with the digests and sizes of the given bytes, and
  the bytes by digest.\<close>

fun refresh_loop :: "formats \<Rightarrow> (string \<rightharpoonup> string) \<Rightarrow> artifact list \<Rightarrow> (digest \<rightharpoonup> string)
    \<Rightarrow> (manifest_error, artifact list \<times> (digest \<rightharpoonup> string)) result" where
  "refresh_loop fm blobs [] content = Inr ([], content)"
| "refresh_loop fm blobs (a # as) content =
     (case blobs (a_target a) of
        None \<Rightarrow> Inl (MissingBytes (a_target a))
      | Some b \<Rightarrow>
          (let d = sha256 fm b
           in bindE (refresh_loop fm blobs as (content(d \<mapsto> b))) (\<lambda>(as', content').
                Inr (a\<lparr>a_digest := d, a_digest_text := digest_string d, a_size := int (length b)\<rparr> # as', content'))))"

definition refresh_artifacts :: "formats \<Rightarrow> manifest \<Rightarrow> (string \<times> string) list
    \<Rightarrow> (manifest_error, string \<times> manifest \<times> (digest \<rightharpoonup> string)) result" where
  "refresh_artifacts fm m blobs =
     bindE (refresh_loop fm (map_of blobs) (m_artifacts m) Map.empty) (\<lambda>(arts, content).
       if length blobs \<noteq> length arts then Inl UndeclaredBytes
       else (let m' = m\<lparr>m_artifacts := arts\<rparr>
             in bindE (manifest_toml fm m') (\<lambda>wire. Inr (wire, m', content))))"

subsection \<open>The project file\<close>

fun project_modules :: "dependency list \<Rightarrow> dependency list \<Rightarrow> (manifest_error, dependency list) result" where
  "project_modules [] acc = Inr acc"
| "project_modules (d # ds) acc =
     bindE (parse_dependency d) (\<lambda>m.
       if d_id m \<in> d_id ` set acc then Inl (DuplicateModule (d_id m)) else project_modules ds (acc @ [m]))"

definition parse_project :: "formats \<Rightarrow> string \<Rightarrow> (manifest_error, project) result" where
  "parse_project fm data =
     (case toml_project fm data of
        None \<Rightarrow> Inl BadToml
      | Some (raw, f # _) \<Rightarrow> Inl (UnknownField f)
      | Some (raw, []) \<Rightarrow>
          if rp_schema raw \<noteq> 1 then Inl BadSchema
          else if trim_space (rp_target raw) = [] then Inl TargetRequired
          else bindE (project_modules (rp_modules raw) []) (\<lambda>ms.
            if ms = [] then Inl NoModules
            else Inr \<lparr>p_target = trim_space (rp_target raw), p_modules = sort_key d_id ms,
                      p_remotes = normalized (rp_remotes raw)\<rparr>))"

subsection \<open>Well-formed manifests\<close>

definition dependency_wf :: "dependency \<Rightarrow> bool" where
  "dependency_wf d \<longleftrightarrow> parse_module_id (d_id d) = Some (d_id d) \<and> valid_requirement (d_requirement d)
     \<and> trim_space (d_requirement d) = d_requirement d"

definition artifact_wf :: "artifact \<Rightarrow> bool" where
  "artifact_wf a \<longleftrightarrow> a_target a \<noteq> [] \<and> trim_space (a_target a) = a_target a \<and> a_size a \<ge> 0 \<and> length (a_digest a) = 32 \<and>
     a_digest_text a = digest_string (a_digest a) \<and> (case a_source a of None \<Rightarrow> True | Some s \<Rightarrow> source_complete s)"

definition names_wf :: "string list \<Rightarrow> bool" where
  "names_wf xs \<longleftrightarrow> sorted xs \<and> distinct xs \<and> (\<forall>x \<in> set xs. x \<noteq> [] \<and> trim_space x = x)"

definition manifest_wf :: "manifest \<Rightarrow> bool" where
  "manifest_wf m \<longleftrightarrow> m_schema m = 1 \<and> parse_module_id (m_id m) = Some (m_id m) \<and> valid_version (m_version m) \<and>
     sorted (map d_id (m_dependencies m)) \<and> distinct (map d_id (m_dependencies m)) \<and> list_all dependency_wf (m_dependencies m) \<and>
     m_artifacts m \<noteq> [] \<and> sorted (map a_target (m_artifacts m)) \<and> distinct (map a_target (m_artifacts m)) \<and>
     list_all artifact_wf (m_artifacts m) \<and>
     names_wf (m_provides m) \<and> names_wf (m_consumes m) \<and> names_wf (m_capabilities m)"

lemma parse_module_id_trim: "parse_module_id t = Some s \<Longrightarrow> parse_module_id s = Some s"
  by (auto simp: parse_module_id_def Let_def split: if_splits)

lemma normalize_loop_distinct: "distinct out \<Longrightarrow> distinct (normalize_loop ss out)"
  by (induction ss arbitrary: out) (simp_all add: Let_def)

lemma normalize_loop_set: "set (normalize_loop ss out) = set out \<union> (trim_space ` set ss - {[]})"
  by (induction ss arbitrary: out) (auto simp: Let_def)

lemma normalized_wf: "names_wf (normalized ss)"
  unfolding names_wf_def normalized_def using normalize_loop_distinct [of "[]" ss]
  by (auto simp: normalize_loop_set)

lemma first_repeat_None: "sorted xs \<Longrightarrow> first_repeat xs = None \<longleftrightarrow> distinct xs"
  by (induction xs rule: first_repeat.induct) (auto simp: order.antisym)

lemma parse_dependency_wf: "parse_dependency d = Inr e \<Longrightarrow> dependency_wf e"
  unfolding parse_dependency_def module_id_of_def dependency_wf_def Let_def
  by (auto dest: parse_module_id_trim split: if_splits option.splits)

lemma parse_artifact_wf: "parse_artifact a = Inr b \<Longrightarrow> artifact_wf b"
  by (auto simp: parse_artifact_def artifact_wf_def Let_def parse_digest_def split: if_splits option.splits)

lemma sort_key_map: "map f (sort_key f xs) = sort (map f xs)"
  by (rule sym, rule properties_for_sort) simp_all

lemma parsed_wf:
  assumes "parse_manifest fm data = Inr m"
  shows "manifest_wf m"
proof -
  obtain raw i v deps arts where r: "toml_manifest fm data = Some (raw, [])" "module_id_of (r_id raw) = Inr i"
      "parse_version (r_version raw) = Inr v" "mapM parse_dependency (r_dependencies raw) = Inr deps"
      "mapM parse_artifact (r_artifacts raw) = Inr arts" "arts \<noteq> []"
      "first_repeat (map d_id (sort_key d_id deps)) = None" "first_repeat (map a_target (sort_key a_target arts)) = None"
    and m: "m = \<lparr>m_schema = 1, m_id = i, m_version = v, m_dependencies = sort_key d_id deps,
        m_artifacts = sort_key a_target arts, m_provides = normalized (r_provides raw),
        m_consumes = normalized (r_consumes raw), m_capabilities = normalized (r_capabilities raw),
        m_fusion_abi = trim_space (r_abi raw)\<rparr>"
    using assms by (auto simp: parse_manifest_def Let_def split: option.splits list.splits if_splits)
  have "parse_module_id i = Some i"
    using r(2) parse_module_id_trim by (auto simp: module_id_of_def split: option.splits)
  moreover have "valid_version v" using r(3) by (simp add: parse_version_iff)
  moreover have "list_all dependency_wf deps"
    using r(4) parse_dependency_wf by (auto simp: mapM_Inr_conv list_all2_conv_all_nth list_all_length)
  moreover have "list_all artifact_wf arts"
    using r(5) parse_artifact_wf by (auto simp: mapM_Inr_conv list_all2_conv_all_nth list_all_length)
  moreover have "distinct (map d_id (sort_key d_id deps))" "distinct (map a_target (sort_key a_target arts))"
    using r(7,8) first_repeat_None by (metis sorted_sort_key)+
  ultimately show ?thesis
    using r(6) by (simp add: m manifest_wf_def normalized_wf sort_key_map list_all_iff)
      (metis length_0_conv length_sort)
qed

text \<open>C36: Whatever a manifest file contains, the parsed manifest is well formed: valid module name and
  version, dependencies with valid names and requirements in order without duplicates, at least one
  artifact, artifacts in order of distinct targets with 32-byte digests and sizes that are not negative,
  complete source descriptions and normalised name lists.\<close>

theorem parse_manifest_wf:
  assumes "parse_manifest fm data = Inr m"
  shows "manifest_wf m"
  using assms by (rule parsed_wf)

lemma read_artifact_canonical:
  "list_all artifact_wf as \<Longrightarrow>
     mapM read_artifact (map (\<lambda>a. \<lparr>ca_target = a_target a, ca_digest = digest_string (a_digest a), ca_size = a_size a,
       ca_cell_manifest_digest = a_cell_manifest_digest a, ca_source = a_source a\<rparr>) as) = Inr as"
  by (induction as) (auto simp: read_artifact_def artifact_wf_def parse_digest_string)

lemma parse_canonical_wf:
  assumes wf: "manifest_wf m" and b: "canonical_manifest fm m = Some b" "json_decode fm b = Some (canonical_of m)"
  shows "parse_canonical fm b = Inr m"
proof -
  have "module_id_of (m_id m) = Inr (m_id m)" "parse_version (version_string (m_version m)) = Inr (m_version m)"
    "mapM read_artifact (c_artifacts (canonical_of m)) = Inr (m_artifacts m)"
    using wf parse_version_string read_artifact_canonical
    by (auto simp: manifest_wf_def module_id_of_def canonical_of_def)
  moreover have "m\<lparr>m_schema := 1\<rparr> = m" using wf by (cases m) (simp add: manifest_wf_def)
  ultimately show ?thesis
    using b by (cases m) (simp add: parse_canonical_def confirm_canonical_def canonical_of_def)
qed

lemma parse_canonical_Inr:
  assumes p: "parse_canonical fm b = Inr m"
  shows "canonical_manifest fm m = Some b"
proof -
  obtain m' where "confirm_canonical fm b m' = Inr m"
    using p by (auto simp: parse_canonical_def split: option.splits if_splits)
  then show ?thesis by (auto simp: confirm_canonical_def split: option.splits if_splits)
qed

text \<open>C37: The canonical bytes of a manifest determine it. Reading the canonical bytes of a well-formed
  manifest gives the manifest back, provided JSON decodes what it encoded; and any bytes that are accepted
  are exactly the canonical bytes of the manifest they give.\<close>

theorem canonical_roundtrip:
  "(manifest_wf m \<and> canonical_manifest fm m = Some b \<and> json_decode fm b = Some (canonical_of m) \<longrightarrow>
      parse_canonical fm b = Inr m) \<and>
   (parse_canonical fm b = Inr m' \<longrightarrow> canonical_manifest fm m' = Some b)"
  using parse_canonical_wf parse_canonical_Inr by blast

lemma refresh_loop_content:
  assumes "refresh_loop fm blobs as content = Inr (as', content')" and "content d = Some b" and "sha256 fm b = d"
  shows "\<exists>b'. content' d = Some b' \<and> sha256 fm b' = d"
  using assms
proof (induction as arbitrary: content as' b)
  case (Cons a as)
  obtain x as'' where x: "blobs (a_target a) = Some x"
      "refresh_loop fm blobs as (content(sha256 fm x \<mapsto> x)) = Inr (as'', content')"
    using Cons.prems(1) by (auto simp: Let_def split: option.splits)
  show ?case
  proof (cases "d = sha256 fm x")
    case True
    then have "(content(sha256 fm x \<mapsto> x)) d = Some x" by simp
    then show ?thesis using True [symmetric] by (rule Cons.IH [OF x(2)])
  next
    case False
    then have "(content(sha256 fm x \<mapsto> x)) d = Some b" using Cons.prems(2) by simp
    then show ?thesis using Cons.prems(3) by (rule Cons.IH [OF x(2)])
  qed
qed auto

definition describes :: "formats \<Rightarrow> (string \<rightharpoonup> string) \<Rightarrow> (digest \<rightharpoonup> string) \<Rightarrow> artifact \<Rightarrow> artifact \<Rightarrow> bool" where
  "describes fm blobs content a a' \<longleftrightarrow> (\<exists>b c. blobs (a_target a) = Some b \<and>
     a' = a\<lparr>a_digest := sha256 fm b, a_digest_text := digest_string (sha256 fm b), a_size := int (length b)\<rparr> \<and>
     content (a_digest a') = Some c \<and> sha256 fm c = a_digest a')"

lemma refresh_loop_spec:
  "refresh_loop fm blobs as content = Inr (as', content') \<Longrightarrow> list_all2 (describes fm blobs content') as as'"
proof (induction as arbitrary: content as')
  case (Cons a as)
  then obtain x as'' where x: "blobs (a_target a) = Some x"
      "refresh_loop fm blobs as (content(sha256 fm x \<mapsto> x)) = Inr (as'', content')"
      "as' = a\<lparr>a_digest := sha256 fm x, a_digest_text := digest_string (sha256 fm x), a_size := int (length x)\<rparr> # as''"
    by (auto simp: Let_def split: option.splits)
  then show ?case
    using Cons.IH [OF x(2)] refresh_loop_content [OF x(2), of "sha256 fm x" x] by (auto simp: describes_def)
qed auto

lemma refresh_targets: "list_all2 (describes fm blobs content) as as' \<Longrightarrow>
    map a_target as' = map a_target as \<and> set (map a_target as) \<subseteq> dom blobs"
  by (induction rule: list_all2_induct) (auto simp: describes_def)

text \<open>Refreshing a manifest makes every artifact describe the bytes supplied for its target: its digest
  and size are those of the bytes, the bytes are returned under that digest, and nothing else of the
  manifest changes. For a well-formed manifest the supplied targets are exactly the declared ones.\<close>

theorem refresh_describes_bytes:
  assumes r: "refresh_artifacts fm m blobs = Inr (wire, m', content)"
  shows "m' = m\<lparr>m_artifacts := m_artifacts m'\<rparr> \<and>
    list_all2 (describes fm (map_of blobs) content) (m_artifacts m) (m_artifacts m') \<and>
    (manifest_wf m \<and> distinct (map fst blobs) \<longrightarrow> fst ` set blobs = a_target ` set (m_artifacts m))"
proof -
  obtain arts where a: "refresh_loop fm (map_of blobs) (m_artifacts m) Map.empty = Inr (arts, content)"
      "length blobs = length arts" "m' = m\<lparr>m_artifacts := arts\<rparr>"
    using r by (auto simp: refresh_artifacts_def Let_def split: if_splits)
  note d = refresh_loop_spec [OF a(1)]
  have "fst ` set blobs = a_target ` set (m_artifacts m)" if "manifest_wf m" "distinct (map fst blobs)"
  proof (rule card_subset_eq [symmetric])
    show "a_target ` set (m_artifacts m) \<subseteq> fst ` set blobs"
      using refresh_targets [OF d] by (auto simp: dom_map_of_conv_image_fst)
    have "distinct (map a_target (m_artifacts m))" using that by (simp add: manifest_wf_def)
    then show "card (a_target ` set (m_artifacts m)) = card (fst ` set blobs)"
      using that(2) a(2) d by (metis distinct_card length_map list.set_map list_all2_lengthD)
  qed simp
  then show ?thesis using a d by simp
qed

lemma project_modules_wf:
  assumes "project_modules ds acc = Inr ms" and "distinct (map d_id acc)" and "list_all dependency_wf acc"
  shows "distinct (map d_id ms) \<and> list_all dependency_wf ms"
  using assms by (induction ds arbitrary: acc) (auto simp: parse_dependency_wf split: if_splits)

lemma parse_project_wf:
  assumes "parse_project fm data = Inr p"
  shows "p_target p \<noteq> [] \<and> p_modules p \<noteq> [] \<and> sorted (map d_id (p_modules p)) \<and> distinct (map d_id (p_modules p)) \<and>
    list_all dependency_wf (p_modules p) \<and> names_wf (p_remotes p)"
proof -
  obtain raw where raw: "toml_project fm data = Some (raw, [])" "trim_space (rp_target raw) \<noteq> []"
    using assms by (auto simp: parse_project_def split: option.splits list.splits if_splits)
  then obtain ms where r: "project_modules (rp_modules raw) [] = Inr ms" "ms \<noteq> []"
      "p = \<lparr>p_target = trim_space (rp_target raw), p_modules = sort_key d_id ms, p_remotes = normalized (rp_remotes raw)\<rparr>"
    using assms by (auto simp: parse_project_def split: if_splits)
  have "sort_key d_id ms \<noteq> []" using r(2) by (metis length_0_conv length_sort)
  then show ?thesis
    using project_modules_wf [OF r(1)] r raw by (simp add: sort_key_map normalized_wf list_all_iff)
qed

subsection \<open>Witnesses\<close>

definition demo_raw :: raw_manifest where
  "demo_raw = \<lparr>r_schema = 1, r_id = ''acme/web'', r_version = ''1.2.3'',
     r_dependencies = [\<lparr>d_id = ''acme/db'', d_requirement = ''^1.0.0''\<rparr>],
     r_artifacts = [\<lparr>ra_target = ''wasm'', ra_digest = digest_string (replicate 32 7), ra_cell_manifest_digest = [],
       ra_size = 3, ra_source = None\<rparr>],
     r_provides = [''http''], r_consumes = [], r_capabilities = [], r_abi = []\<rparr>"

definition demo_formats :: formats where
  "demo_formats = \<lparr>toml_manifest = (\<lambda>s. if s = ''web'' then Some (demo_raw, []) else None), toml_project = (\<lambda>_. None),
     json_encode = (\<lambda>_. Some ''json''),
     json_decode = (\<lambda>s. if s = ''json'' then Some \<lparr>c_schema = 1, c_id = ''acme/web'', c_version = ''1.2.3'',
       c_dependencies = [\<lparr>d_id = ''acme/db'', d_requirement = ''^1.0.0''\<rparr>],
       c_artifacts = [\<lparr>ca_target = ''wasm'', ca_digest = digest_string (replicate 32 7), ca_size = 3,
         ca_cell_manifest_digest = [], ca_source = None\<rparr>],
       c_provides = [''http''], c_consumes = [], c_capabilities = [], c_fusion_abi = []\<rparr> else None),
     sha256 = (\<lambda>_. replicate 32 7), quote = id\<rparr>"

definition demo_manifest :: manifest where
  "demo_manifest = \<lparr>m_schema = 1, m_id = ''acme/web'', m_version = plain_version 1 2 3,
     m_dependencies = [\<lparr>d_id = ''acme/db'', d_requirement = ''^1.0.0''\<rparr>],
     m_artifacts = [\<lparr>a_target = ''wasm'', a_digest = replicate 32 7, a_digest_text = digest_string (replicate 32 7),
       a_size = 3, a_cell_manifest_digest = [], a_source = None\<rparr>],
     m_provides = [''http''], m_consumes = [], m_capabilities = [], m_fusion_abi = []\<rparr>"

lemma demo_manifest_parsed: "parse_manifest demo_formats ''web'' = Inr demo_manifest"
  by code_simp

theorem parse_manifest_wf_witness: "manifest_wf demo_manifest"
  by (rule parse_manifest_wf [OF demo_manifest_parsed])

theorem canonical_roundtrip_witness: "parse_canonical demo_formats ''json'' = Inr demo_manifest"
proof -
  have "manifest_wf demo_manifest" "canonical_manifest demo_formats demo_manifest = Some ''json''"
    "json_decode demo_formats ''json'' = Some (canonical_of demo_manifest)"
    by code_simp+
  then show ?thesis using canonical_roundtrip by blast
qed

theorem refresh_describes_bytes_witness:
  "m_id (fst (snd (projr (refresh_artifacts demo_formats demo_manifest [(''wasm'', ''abc'')])))) = ''acme/web''"
proof -
  let ?r = "refresh_artifacts demo_formats demo_manifest [(''wasm'', ''abc'')]"
  have "\<not> isl ?r" by code_simp
  then obtain w m' c where r: "?r = Inr (w, m', c)" by (metis Inr_projr prod_cases3)
  obtain as where "m' = demo_manifest\<lparr>m_artifacts := as\<rparr>" using refresh_describes_bytes [OF r] by blast
  moreover have "m_id demo_manifest = ''acme/web''" by code_simp
  ultimately show ?thesis by (simp add: r)
qed

end
