(* ===== verification/Registry_Resolve.thy ===== *)
theory Registry_Resolve
  imports Registry_Manifest
begin

text \<open>
  Dependency resolution, \<^verbatim>\<open>src/registry/resolve.go\<close>: the backtracking solver, the cycle check, the lock file
  and its verification. A store is the Go interface of three operations; in one resolution its answers
  do not change, so it is a record of functions. Go maps are association lists with distinct keys. The
  solver recurses once per module it chooses; \<open>solve\<close> takes that depth as fuel, \<open>None\<close> means the fuel ran
  out, and \<open>solve_total\<close> shows how much is enough. Cancellation of the context is not modelled.
\<close>

subsection \<open>Data\<close>

datatype store_error = NotFound | Conflict string | StoreFailure string | StoreManifest manifest_error

record store =
  st_versions :: "string \<Rightarrow> (store_error, version list) result"
  st_manifest :: "release_id \<Rightarrow> (store_error, manifest) result"
  st_blob :: "digest \<Rightarrow> (store_error, string) result"

type_synonym constraints = "(string \<times> string list) list"
type_synonym chosen = "(string \<times> manifest) list"

record request =
  q_target :: string
  q_roots :: "dependency list"

record locked_dependency =
  ld_id :: string
  ld_version :: string

record locked_module =
  lm_id :: string
  lm_version :: string
  lm_manifest_digest :: string
  lm_artifact_digest :: string
  lm_dependencies :: "locked_dependency list"

record lock =
  l_schema :: int
  l_target :: string
  l_roots :: "dependency list"
  l_modules :: "locked_module list"

datatype resolve_error =
    NoTarget | BadRoot string | BadRootRequirement string | StoreFailed string store_error | NoVersion string
  | CycleError "string list" | NoArtifact string
  | InvalidLock | BadLockedId string | NotOrdered | DuplicateLocked string | RootMissing string
  | RootUnsatisfied string | LockedVersion version_error | ManifestMismatch string | DependencyMismatch string
  | ConstraintMismatch string | LockedDigest string | ArtifactMismatch string | BlobMismatch string

subsection \<open>The solver\<close>

definition reqs :: "constraints \<Rightarrow> string \<Rightarrow> string list" where
  "reqs c i = (case map_of c i of None \<Rightarrow> [] | Some rs \<Rightarrow> rs)"

fun add_req :: "constraints \<Rightarrow> string \<Rightarrow> string \<Rightarrow> constraints" where
  "add_req [] i r = [(i, [r])]"
| "add_req ((k, rs) # c) i r = (if k = i then (k, rs @ [r]) # c else (k, rs) # add_req c i r)"

text \<open>The constraints with those of the dependencies, or nothing when a chosen module contradicts one.\<close>

fun add_deps :: "constraints \<Rightarrow> chosen \<Rightarrow> dependency list \<Rightarrow> constraints option" where
  "add_deps c ch [] = Some c"
| "add_deps c ch (d # ds) =
     (let c' = add_req c (d_id d) (d_requirement d)
      in if (case map_of ch (d_id d) of None \<Rightarrow> False | Some m \<Rightarrow> \<not> requirement_matches (d_requirement d) (m_version m))
         then None else add_deps c' ch ds)"

fun try_versions :: "(constraints \<Rightarrow> chosen \<Rightarrow> (resolve_error, chosen) result option) \<Rightarrow> store \<Rightarrow> constraints \<Rightarrow> chosen
    \<Rightarrow> string \<Rightarrow> version list \<Rightarrow> (resolve_error, chosen) result option" where
  "try_versions rec s c ch i [] = Some (Inl (NoVersion i))"
| "try_versions rec s c ch i (v # vs) =
     (if \<not> list_all (\<lambda>r. requirement_matches r v) (reqs c i) then try_versions rec s c ch i vs
      else case st_manifest s \<lparr>rel_id = i, rel_version = v\<rparr> of
             Inl _ \<Rightarrow> try_versions rec s c ch i vs
           | Inr m \<Rightarrow>
               (case add_deps c ch (m_dependencies m) of
                  None \<Rightarrow> try_versions rec s c ch i vs
                | Some nc \<Rightarrow>
                    (case rec nc ((i, m) # ch) of
                       None \<Rightarrow> None
                     | Some (Inr r) \<Rightarrow> Some (Inr r)
                     | Some (Inl _) \<Rightarrow> try_versions rec s c ch i vs)))"

definition unresolved :: "constraints \<Rightarrow> chosen \<Rightarrow> string list" where
  "unresolved c ch = sort (filter (\<lambda>k. map_of ch k = None) (map fst c))"

fun solve :: "nat \<Rightarrow> store \<Rightarrow> constraints \<Rightarrow> chosen \<Rightarrow> (resolve_error, chosen) result option" where
  "solve 0 s c ch = None"
| "solve (Suc n) s c ch =
     (case unresolved c ch of
        [] \<Rightarrow> Some (Inr ch)
      | i # _ \<Rightarrow>
          (case st_versions s i of
             Inl e \<Rightarrow> Some (Inl (StoreFailed i e))
           | Inr vs \<Rightarrow> try_versions (solve n s) s c ch i vs))"

subsection \<open>The cycle check\<close>

definition deps_in :: "chosen \<Rightarrow> string \<Rightarrow> string list" where
  "deps_in ms i = (case map_of ms i of None \<Rightarrow> [] | Some m \<Rightarrow> map d_id (m_dependencies m))"

lemma deps_in_shorter: "i \<notin> fst ` set ms \<Longrightarrow> deps_in ms i = []"
  by (simp add: deps_in_def map_of_eq_None_iff [THEN iffD2])

text \<open>The closure \<^verbatim>\<open>visit\<close> over a list of modules: \<open>stack\<close> holds the modules in state 1, \<open>fin\<close> those in state 2.\<close>

function visit_all :: "chosen \<Rightarrow> string list \<Rightarrow> string list \<Rightarrow> string list \<Rightarrow> (resolve_error, string list) result" where
  "visit_all ms stack fin [] = Inr fin"
| "visit_all ms stack fin (i # is) =
     (if i \<in> set stack then Inl (CycleError (stack @ [i]))
      else if i \<in> set fin then visit_all ms stack fin is
      else bindE (visit_all ms (stack @ [i]) fin (deps_in ms i))
             (\<lambda>fin'. visit_all ms stack (i # fin') is))"
  by pat_completeness auto
termination
proof (relation "inv_image (finite_psubset <*lex*> less_than)
    (\<lambda>(ms, stack, fin, is). (fst ` set ms - set stack, length is))")
  fix ms :: chosen and stack fin :: "string list" and i "is"
  assume "i \<notin> set stack"
  then show "((ms, stack @ [i], fin, deps_in ms i), ms, stack, fin, i # is) \<in> inv_image (finite_psubset <*lex*> less_than)
      (\<lambda>(ms, stack, fin, is). (fst ` set ms - set stack, length is))"
    by (cases "i \<in> fst ` set ms") (auto simp: finite_psubset_def deps_in_shorter)
qed auto

definition check_cycles :: "chosen \<Rightarrow> (resolve_error, unit) result" where
  "check_cycles ms = bindE (visit_all ms [] [] (sort (map fst ms))) (\<lambda>_. Inr ())"

subsection \<open>Resolving and verifying a lock\<close>

fun root_constraints :: "dependency list \<Rightarrow> constraints \<Rightarrow> (resolve_error, constraints) result" where
  "root_constraints [] c = Inr c"
| "root_constraints (d # ds) c =
     (if parse_module_id (d_id d) = None then Inl (BadRoot (d_id d))
      else if \<not> valid_requirement (d_requirement d) then Inl (BadRootRequirement (d_requirement d))
      else root_constraints ds (add_req c (d_id d) (d_requirement d)))"

definition zero_version :: version where
  "zero_version = plain_version 0 0 0"

definition manifest_digest :: "formats \<Rightarrow> manifest \<Rightarrow> string" where
  "manifest_digest fm m = digest_string (sha256 fm (case canonical_manifest fm m of Some b \<Rightarrow> b | None \<Rightarrow> []))"

definition version_in :: "chosen \<Rightarrow> string \<Rightarrow> version" where
  "version_in ch i = (case map_of ch i of Some m \<Rightarrow> m_version m | None \<Rightarrow> zero_version)"

definition lock_module :: "formats \<Rightarrow> string \<Rightarrow> chosen \<Rightarrow> string \<Rightarrow> manifest \<Rightarrow> (resolve_error, locked_module) result" where
  "lock_module fm target ch i m =
     (case List.find (\<lambda>a. a_target a = target) (m_artifacts m) of
        None \<Rightarrow> Inl (NoArtifact i)
      | Some a \<Rightarrow> Inr \<lparr>lm_id = m_id m, lm_version = version_string (m_version m), lm_manifest_digest = manifest_digest fm m,
          lm_artifact_digest = digest_string (a_digest a),
          lm_dependencies = map (\<lambda>d. \<lparr>ld_id = d_id d, ld_version = version_string (version_in ch (d_id d))\<rparr>) (m_dependencies m)\<rparr>)"

definition build_lock :: "formats \<Rightarrow> request \<Rightarrow> chosen \<Rightarrow> (resolve_error, lock) result" where
  "build_lock fm q ch =
     bindE (check_cycles ch) (\<lambda>_.
     bindE (mapM (\<lambda>i. lock_module fm (q_target q) ch i (the (map_of ch i))) (sort (map fst ch))) (\<lambda>ms.
       Inr \<lparr>l_schema = 1, l_target = q_target q, l_roots = sort_key d_id (q_roots q), l_modules = ms\<rparr>))"

definition resolve :: "nat \<Rightarrow> formats \<Rightarrow> store \<Rightarrow> request \<Rightarrow> (resolve_error, lock) result option" where
  "resolve fuel fm s q =
     (if q_target q = [] then Some (Inl NoTarget)
      else case root_constraints (q_roots q) [] of
             Inl e \<Rightarrow> Some (Inl e)
           | Inr c \<Rightarrow> map_option (\<lambda>r. bindE r (build_lock fm q)) (solve fuel s c []))"

fun check_order :: "locked_module list \<Rightarrow> string option \<Rightarrow> (string \<rightharpoonup> locked_module) \<Rightarrow> (resolve_error, string \<rightharpoonup> locked_module) result" where
  "check_order [] prev locked = Inr locked"
| "check_order (lm # lms) prev locked =
     (if parse_module_id (lm_id lm) = None then Inl (BadLockedId (lm_id lm))
      else if (case prev of None \<Rightarrow> False | Some p \<Rightarrow> p \<ge> lm_id lm) then Inl NotOrdered
      else if locked (lm_id lm) \<noteq> None then Inl (DuplicateLocked (lm_id lm))
      else check_order lms (Some (lm_id lm)) (locked(lm_id lm \<mapsto> lm)))"

definition check_root :: "(string \<rightharpoonup> locked_module) \<Rightarrow> dependency \<Rightarrow> (resolve_error, unit) result" where
  "check_root locked d =
     (case locked (d_id d) of
        None \<Rightarrow> Inl (RootMissing (d_id d))
      | Some lm \<Rightarrow>
          (case parse_version (lm_version lm) of
             Inl _ \<Rightarrow> Inl (RootUnsatisfied (d_id d))
           | Inr v \<Rightarrow> guardE (valid_requirement (d_requirement d) \<and> requirement_matches (d_requirement d) v)
               (RootUnsatisfied (d_id d))))"

definition check_locked_dep :: "(string \<rightharpoonup> locked_module) \<Rightarrow> string \<Rightarrow> dependency \<times> locked_dependency \<Rightarrow> (resolve_error, unit) result" where
  "check_locked_dep locked i = (\<lambda>(dep, got).
     case locked (d_id dep) of
       None \<Rightarrow> Inl (DependencyMismatch i)
     | Some child \<Rightarrow>
         if ld_id got \<noteq> d_id dep \<or> ld_version got \<noteq> lm_version child then Inl (DependencyMismatch i)
         else (case parse_version (lm_version child) of
                 Inl _ \<Rightarrow> Inl (ConstraintMismatch i)
               | Inr v \<Rightarrow> guardE (requirement_matches (d_requirement dep) v) (ConstraintMismatch i)))"

definition check_module :: "formats \<Rightarrow> store \<Rightarrow> string \<Rightarrow> (string \<rightharpoonup> locked_module) \<Rightarrow> locked_module \<Rightarrow> (resolve_error, unit) result" where
  "check_module fm s target locked lm =
     bindE (map_err LockedVersion (parse_version (lm_version lm))) (\<lambda>v.
     bindE (map_err (StoreFailed (lm_id lm)) (st_manifest s \<lparr>rel_id = lm_id lm, rel_version = v\<rparr>)) (\<lambda>m.
     bindE (guardE (manifest_digest fm m = lm_manifest_digest lm) (ManifestMismatch (lm_id lm))) (\<lambda>_.
     bindE (guardE (length (lm_dependencies lm) = length (m_dependencies m)) (DependencyMismatch (lm_id lm))) (\<lambda>_.
     bindE (mapM (check_locked_dep locked (lm_id lm)) (zip (m_dependencies m) (lm_dependencies lm))) (\<lambda>_.
     case parse_digest (lm_artifact_digest lm) of
       None \<Rightarrow> Inl (LockedDigest (lm_artifact_digest lm))
     | Some d \<Rightarrow>
         bindE (guardE (\<exists>a \<in> set (m_artifacts m). a_target a = target \<and> a_digest a = d) (ArtifactMismatch (lm_id lm))) (\<lambda>_.
         bindE (map_err (StoreFailed (lm_id lm)) (st_blob s d)) (\<lambda>b.
         guardE (sha256 fm b = d) (BlobMismatch (lm_id lm)))))))))"

definition verify :: "formats \<Rightarrow> store \<Rightarrow> lock \<Rightarrow> (resolve_error, unit) result" where
  "verify fm s l =
     bindE (guardE (l_schema l = 1) InvalidLock) (\<lambda>_.
     bindE (check_order (l_modules l) None Map.empty) (\<lambda>locked.
     bindE (mapM (check_root locked) (l_roots l)) (\<lambda>_.
     bindE (mapM (check_module fm s (l_target l) locked) (l_modules l)) (\<lambda>_. Inr ()))))"

subsection \<open>Constraints\<close>

lemma reqs_add_req: "reqs (add_req c i r) j = (if j = i then reqs c i @ [r] else reqs c j)"
  by (induction c i r rule: add_req.induct) (auto simp: reqs_def split: option.splits)

lemma keys_add_req: "fst ` set (add_req c i r) = insert i (fst ` set c)"
  by (induction c i r rule: add_req.induct) auto

lemma reqs_outside: "i \<notin> fst ` set c \<Longrightarrow> reqs c i = []"
  by (simp add: reqs_def map_of_eq_None_iff [THEN iffD2])

text \<open>What \<^const>\<open>add_deps\<close> does in one step: it fails exactly when a chosen module contradicts a dependency.\<close>

definition dep_ok :: "chosen \<Rightarrow> dependency \<Rightarrow> bool" where
  "dep_ok ch d \<longleftrightarrow> (case map_of ch (d_id d) of None \<Rightarrow> True | Some m \<Rightarrow> requirement_matches (d_requirement d) (m_version m))"

lemma add_deps_None: "add_deps c ch ds = None \<longleftrightarrow> \<not> list_all (dep_ok ch) ds"
  by (induction c ch ds rule: add_deps.induct) (auto simp: Let_def dep_ok_def split: option.splits)

lemma add_deps_Some:
  assumes "add_deps c ch ds = Some nc"
  shows "set (reqs nc i) = set (reqs c i) \<union> d_requirement ` {d \<in> set ds. d_id d = i}"
    and "fst ` set nc = fst ` set c \<union> d_id ` set ds" and "list_all (dep_ok ch) ds"
proof -
  show "set (reqs nc i) = set (reqs c i) \<union> d_requirement ` {d \<in> set ds. d_id d = i}"
    using assms by (induction c ch ds rule: add_deps.induct) (auto simp: Let_def reqs_add_req split: if_splits)
  show "fst ` set nc = fst ` set c \<union> d_id ` set ds"
    using assms by (induction c ch ds rule: add_deps.induct) (auto simp: Let_def keys_add_req split: if_splits)
  show "list_all (dep_ok ch) ds"
    using assms add_deps_None by (metis option.distinct(1))
qed

subsection \<open>Soundness of the solver\<close>

text \<open>A chosen module comes from the store, its dependencies are among the constraints, and it meets its
  own constraints unless it depends on itself.\<close>

definition from_store :: "store \<Rightarrow> string \<Rightarrow> manifest \<Rightarrow> bool" where
  "from_store s i m \<longleftrightarrow> (\<exists>v vs. st_versions s i = Inr vs \<and> v \<in> set vs \<and> st_manifest s \<lparr>rel_id = i, rel_version = v\<rparr> = Inr m)"

definition choice_ok :: "store \<Rightarrow> constraints \<Rightarrow> string \<times> manifest \<Rightarrow> bool" where
  "choice_ok s c = (\<lambda>(i, m). from_store s i m \<and>
     (\<forall>d \<in> set (m_dependencies m). d_requirement d \<in> set (reqs c (d_id d)) \<and> d_id d \<in> fst ` set c) \<and>
     (i \<in> d_id ` set (m_dependencies m) \<or> (\<forall>r \<in> set (reqs c i). requirement_matches r (m_version m))))"

definition solver_inv :: "store \<Rightarrow> constraints \<Rightarrow> chosen \<Rightarrow> bool" where
  "solver_inv s c ch \<longleftrightarrow> distinct (map fst ch) \<and> fst ` set ch \<subseteq> fst ` set c \<and> (\<forall>x \<in> set ch. choice_ok s c x)"

text \<open>What the solver relies on: a manifest is well formed and has the version asked for.\<close>

definition honest :: "store \<Rightarrow> bool" where
  "honest s \<longleftrightarrow> (\<forall>r m. st_manifest s r = Inr m \<longrightarrow> m_version m = rel_version r \<and> manifest_wf m)"

text \<open>One constraint set is at least as strong as another.\<close>

definition stronger :: "constraints \<Rightarrow> constraints \<Rightarrow> bool" where
  "stronger c c' \<longleftrightarrow> fst ` set c \<subseteq> fst ` set c' \<and> (\<forall>i. set (reqs c i) \<subseteq> set (reqs c' i))"

lemma stronger_refl: "stronger c c" by (simp add: stronger_def)

lemma stronger_trans: "stronger a b \<Longrightarrow> stronger b c \<Longrightarrow> stronger a c"
  unfolding stronger_def by (meson subset_trans)

lemma unresolved_set: "set (unresolved c ch) = fst ` set c - fst ` set ch"
  by (auto simp: unresolved_def map_of_eq_None_iff)

lemma solver_inv_step:
  assumes inv: "solver_inv s c ch" and h: "honest s" and i: "i \<in> fst ` set c" "i \<notin> fst ` set ch"
    and vs: "st_versions s i = Inr vs" "v \<in> set vs" and m: "st_manifest s \<lparr>rel_id = i, rel_version = v\<rparr> = Inr m"
    and ok: "list_all (\<lambda>r. requirement_matches r v) (reqs c i)" and nc: "add_deps c ch (m_dependencies m) = Some nc"
  shows "solver_inv s nc ((i, m) # ch)" and "stronger c nc"
proof -
  note add = add_deps_Some [OF nc]
  show st: "stronger c nc" using add(1,2) by (auto simp: stronger_def)
  have v: "m_version m = v" using h m by (force simp: honest_def)
  have new: "choice_ok s nc (i, m)"
    using vs m ok v add(1,2) by (auto simp: choice_ok_def from_store_def list_all_iff)
  have old: "choice_ok s nc (j, k)" if jk: "(j, k) \<in> set ch" for j k
  proof -
    have c: "choice_ok s c (j, k)" using inv jk by (auto simp: solver_inv_def)
    have "map_of ch j = Some k" using inv jk by (simp add: solver_inv_def)
    then have "requirement_matches (d_requirement d) (m_version k)" if "d \<in> set (m_dependencies m)" "d_id d = j" for d
      using that add(3) by (auto simp: list_all_iff dep_ok_def)
    then have own: "\<forall>r \<in> set (reqs nc j). requirement_matches r (m_version k)"
      if "\<forall>r \<in> set (reqs c j). requirement_matches r (m_version k)"
      using that unfolding add(1) by auto
    have "\<forall>d \<in> set (m_dependencies k). d_requirement d \<in> set (reqs nc (d_id d)) \<and> d_id d \<in> fst ` set nc"
      using c add(1,2) by (simp add: choice_ok_def)
    then show ?thesis using c own by (simp add: choice_ok_def) blast
  qed
  have "distinct (map fst ((i, m) # ch))" using inv i(2) by (simp add: solver_inv_def)
  moreover have "fst ` set ((i, m) # ch) \<subseteq> fst ` set nc" using inv i(1) add(2) by (auto simp: solver_inv_def)
  moreover have "\<forall>x \<in> set ((i, m) # ch). choice_ok s nc x" using new old by auto
  ultimately show "solver_inv s nc ((i, m) # ch)" unfolding solver_inv_def by blast
qed

definition solved :: "store \<Rightarrow> constraints \<Rightarrow> chosen \<Rightarrow> bool" where
  "solved s c res \<longleftrightarrow> (\<exists>c'. stronger c c' \<and> solver_inv s c' res \<and> fst ` set c' = fst ` set res)"

lemma try_versions_sound:
  assumes r: "try_versions rec s c ch i us = Some (Inr res)" and sub: "set us \<subseteq> set vs"
    and inv: "solver_inv s c ch" and h: "honest s" and i: "i \<in> fst ` set c" "i \<notin> fst ` set ch"
    and vs: "st_versions s i = Inr vs"
    and rec: "\<And>c ch res. rec c ch = Some (Inr res) \<Longrightarrow> solver_inv s c ch \<Longrightarrow> solved s c res"
  shows "solved s c res"
  using r sub
proof (induction us)
  case (Cons v us)
  show ?case
  proof (cases "try_versions rec s c ch i us = Some (Inr res)")
    case True
    then show ?thesis using Cons by simp
  next
    case False
    then obtain m nc where m: "list_all (\<lambda>r. requirement_matches r v) (reqs c i)"
        "st_manifest s \<lparr>rel_id = i, rel_version = v\<rparr> = Inr m" "add_deps c ch (m_dependencies m) = Some nc"
        "rec nc ((i, m) # ch) = Some (Inr res)"
      using Cons.prems(1) by (auto split: if_splits sum.splits option.splits)
    have v: "v \<in> set vs" using Cons.prems(2) by simp
    note step = solver_inv_step [OF inv h i vs v m(2,1,3)]
    then have "solved s nc res" using rec [OF m(4)] by blast
    then show ?thesis using step(2) stronger_trans unfolding solved_def by blast
  qed
qed simp

lemma solve_sound:
  assumes "solve n s c ch = Some (Inr res)" and "solver_inv s c ch" and h: "honest s"
  shows "solved s c res"
  using assms(1,2)
proof (induction n arbitrary: c ch res)
  case (Suc n)
  show ?case
  proof (cases "unresolved c ch")
    case Nil
    then have "fst ` set c \<subseteq> fst ` set ch" using unresolved_set [of c ch] by auto
    then show ?thesis
      using Suc.prems Nil stronger_refl by (auto simp: solved_def solver_inv_def)
  next
    case (Cons i rest)
    then have i: "i \<in> fst ` set c" "i \<notin> fst ` set ch" using unresolved_set [of c ch] by auto
    obtain vs where vs: "st_versions s i = Inr vs" "try_versions (solve n s) s c ch i vs = Some (Inr res)"
      using Suc.prems(1) Cons by (auto split: sum.splits)
    show ?thesis
      by (rule try_versions_sound [OF vs(2) order_refl Suc.prems(2) h i vs(1)]) (rule Suc.IH)
  qed
qed simp

subsection \<open>Completeness and termination of the solver\<close>

text \<open>An assignment of manifests that meets the constraints and its own dependencies.\<close>

definition solution :: "store \<Rightarrow> (string \<rightharpoonup> manifest) \<Rightarrow> constraints \<Rightarrow> bool" where
  "solution s \<sigma> c \<longleftrightarrow> fst ` set c \<subseteq> dom \<sigma> \<and>
     (\<forall>i m. \<sigma> i = Some m \<longrightarrow> from_store s i m \<and> (\<forall>r \<in> set (reqs c i). requirement_matches r (m_version m)) \<and>
        (\<forall>d \<in> set (m_dependencies m). \<exists>k. \<sigma> (d_id d) = Some k \<and> requirement_matches (d_requirement d) (m_version k)))"

lemma solution_add_deps:
  assumes sol: "solution s \<sigma> c" and m: "\<sigma> i = Some m" and nc: "add_deps c ch (m_dependencies m) = Some nc"
  shows "solution s \<sigma> nc"
proof -
  note add = add_deps_Some [OF nc]
  have deps: "\<exists>k. \<sigma> (d_id d) = Some k \<and> requirement_matches (d_requirement d) (m_version k)"
    if "d \<in> set (m_dependencies m)" for d
    using sol m that unfolding solution_def by blast
  have "d_id ` set (m_dependencies m) \<subseteq> dom \<sigma>" using deps by (metis domI image_subsetI)
  then have keys: "fst ` set nc \<subseteq> dom \<sigma>" using sol unfolding add(2) solution_def by simp
  have own: "\<forall>r \<in> set (reqs nc j). requirement_matches r (m_version k)" if k: "\<sigma> j = Some k" for j k
  proof
    fix r assume "r \<in> set (reqs nc j)"
    then consider "r \<in> set (reqs c j)" | d where "d \<in> set (m_dependencies m)" "d_id d = j" "r = d_requirement d"
      unfolding add(1) by blast
    then show "requirement_matches r (m_version k)"
    proof cases
      case 1
      then show ?thesis using sol k unfolding solution_def by blast
    next
      case 2
      then show ?thesis using deps [of d] k by auto
    qed
  qed
  show ?thesis
    unfolding solution_def
  proof (intro conjI allI impI keys)
    fix j k assume k: "\<sigma> j = Some k"
    then show "\<forall>r \<in> set (reqs nc j). requirement_matches r (m_version k)" by (rule own)
    show "from_store s j k" "\<forall>d \<in> set (m_dependencies k). \<exists>k. \<sigma> (d_id d) = Some k \<and> requirement_matches (d_requirement d) (m_version k)"
      using sol k unfolding solution_def by simp_all
  qed
qed

lemma solution_dep_ok:
  assumes sol: "solution s \<sigma> c" and ch: "map_of ch \<subseteq>\<^sub>m \<sigma>" and m: "\<sigma> i = Some m"
  shows "list_all (dep_ok ch) (m_dependencies m)"
  unfolding list_all_iff
proof
  fix d assume "d \<in> set (m_dependencies m)"
  then obtain k where k: "\<sigma> (d_id d) = Some k" "requirement_matches (d_requirement d) (m_version k)"
    using sol m unfolding solution_def by blast
  show "dep_ok ch d"
  proof (cases "map_of ch (d_id d)")
    case (Some k')
    then have "k' = k" using ch k(1) by (metis map_le_def domI option.inject)
    then show ?thesis using Some k(2) by (simp add: dep_ok_def)
  qed (simp add: dep_ok_def)
qed

lemma solution_manifest:
  assumes "solution s \<sigma> c" and "honest s" and "\<sigma> i = Some m"
  shows "st_manifest s \<lparr>rel_id = i, rel_version = m_version m\<rparr> = Inr m"
    and "\<exists>vs. st_versions s i = Inr vs \<and> m_version m \<in> set vs"
    and "list_all (\<lambda>r. requirement_matches r (m_version m)) (reqs c i)"
proof -
  obtain v vs where v: "st_versions s i = Inr vs" "v \<in> set vs" "st_manifest s \<lparr>rel_id = i, rel_version = v\<rparr> = Inr m"
    using assms(1,3) unfolding solution_def from_store_def by blast
  then have "m_version m = v" using assms(2) unfolding honest_def by fastforce
  then show "st_manifest s \<lparr>rel_id = i, rel_version = m_version m\<rparr> = Inr m"
    "\<exists>vs. st_versions s i = Inr vs \<and> m_version m \<in> set vs" using v by auto
  show "list_all (\<lambda>r. requirement_matches r (m_version m)) (reqs c i)"
    using assms(1,3) unfolding solution_def list_all_iff by blast
qed

lemma try_versions_complete:
  assumes sol: "solution s \<sigma> c" and h: "honest s" and ch: "map_of ch \<subseteq>\<^sub>m \<sigma>" and m: "\<sigma> i = Some m"
    and rec: "\<And>c ch e. solution s \<sigma> c \<Longrightarrow> map_of ch \<subseteq>\<^sub>m \<sigma> \<Longrightarrow> rec c ch \<noteq> Some (Inl e)"
    and v: "m_version m \<in> set us"
  shows "try_versions rec s c ch i us \<noteq> Some (Inl e)"
  using v
proof (induction us)
  case (Cons v us)
  show ?case
  proof (cases "v = m_version m")
    case True
    obtain nc where nc: "add_deps c ch (m_dependencies m) = Some nc"
      using solution_dep_ok [OF sol ch m] add_deps_None by (metis not_None_eq)
    have "map_of ((i, m) # ch) \<subseteq>\<^sub>m \<sigma>" using ch m by (auto simp: map_le_def)
    then have "rec nc ((i, m) # ch) \<noteq> Some (Inl e')" for e'
      using rec solution_add_deps [OF sol m nc] by blast
    then show ?thesis
      using True nc solution_manifest [OF sol h m] by (auto split: option.splits sum.splits)
  next
    case False
    then show ?thesis using Cons by (auto split: option.splits sum.splits if_splits)
  qed
qed simp

lemma solve_complete:
  assumes "solution s \<sigma> c" and h: "honest s" and "map_of ch \<subseteq>\<^sub>m \<sigma>"
  shows "solve n s c ch \<noteq> Some (Inl e)"
  using assms(1,3)
proof (induction n arbitrary: c ch e)
  case (Suc n)
  show ?case
  proof (cases "unresolved c ch")
    case (Cons i rest)
    then have "i \<in> fst ` set c" using unresolved_set [of c ch] by auto
    then obtain m where m: "\<sigma> i = Some m" using Suc.prems(1) unfolding solution_def by blast
    then obtain vs where vs: "st_versions s i = Inr vs" "m_version m \<in> set vs"
      using solution_manifest(2) [OF Suc.prems(1) h] by blast
    have "try_versions (solve n s) s c ch i vs \<noteq> Some (Inl e)"
      by (rule try_versions_complete [OF Suc.prems(1) h Suc.prems(2) m _ vs(2)]) (rule Suc.IH)
    then show ?thesis using Cons vs by simp
  qed simp
qed simp

lemma try_versions_total:
  assumes "\<And>v m nc. v \<in> set us \<Longrightarrow> st_manifest s \<lparr>rel_id = i, rel_version = v\<rparr> = Inr m \<Longrightarrow>
      add_deps c ch (m_dependencies m) = Some nc \<Longrightarrow> rec nc ((i, m) # ch) \<noteq> None"
  shows "try_versions rec s c ch i us \<noteq> None"
  using assms
proof (induction us)
  case (Cons v us)
  have "try_versions rec s c ch i us \<noteq> None" using Cons.IH Cons.prems by (metis list.set_intros(2))
  then show ?case
    using Cons.prems [OF list.set_intros(1)] by (fastforce split: option.splits sum.splits)
qed simp

text \<open>A finite set of modules that the dependencies of its releases do not leave.\<close>

definition universe :: "store \<Rightarrow> string set \<Rightarrow> bool" where
  "universe s U \<longleftrightarrow> finite U \<and> (\<forall>i \<in> U. \<forall>m. from_store s i m \<longrightarrow> d_id ` set (m_dependencies m) \<subseteq> U)"

lemma solve_total:
  assumes U: "universe s U" and "fst ` set c \<subseteq> U" and "card (U - fst ` set ch) < n"
  shows "solve n s c ch \<noteq> None"
  using assms(2,3)
proof (induction n arbitrary: c ch)
  case (Suc n)
  show ?case
  proof (cases "unresolved c ch")
    case (Cons i rest)
    then have i: "i \<in> fst ` set c" "i \<notin> fst ` set ch" using unresolved_set [of c ch] by auto
    have fin: "finite (U - fst ` set ch)" "i \<in> U - fst ` set ch"
      using U i Suc.prems(1) by (auto simp: universe_def)
    show ?thesis
    proof (cases "st_versions s i")
      case (Inr vs)
      have "try_versions (solve n s) s c ch i vs \<noteq> None"
      proof (rule try_versions_total)
        fix v m nc assume v: "v \<in> set vs" "st_manifest s \<lparr>rel_id = i, rel_version = v\<rparr> = Inr m"
          and nc: "add_deps c ch (m_dependencies m) = Some nc"
        have "from_store s i m" using v Inr by (auto simp: from_store_def)
        then have "d_id ` set (m_dependencies m) \<subseteq> U"
          using U fin(2) unfolding universe_def by (meson DiffD1)
        then have "fst ` set nc \<subseteq> U" using Suc.prems(1) unfolding add_deps_Some(2) [OF nc] by simp
        moreover have "U - fst ` set ((i, m) # ch) = (U - fst ` set ch) - {i}" by auto
        then have "card (U - fst ` set ((i, m) # ch)) < n"
          using Suc.prems(2) card_Diff1_less [OF fin] by simp
        ultimately show "solve n s nc ((i, m) # ch) \<noteq> None" by (rule Suc.IH)
      qed
      then show ?thesis using Cons Inr by simp
    qed (use Cons in simp)
  qed simp
qed simp

subsection \<open>Correctness of the cycle check\<close>

definition dep_edges :: "chosen \<Rightarrow> (string \<times> string) set" where
  "dep_edges ms = {(i, d). d \<in> set (deps_in ms i)}"

text \<open>The finished modules are in reverse topological order: each was finished after its dependencies.\<close>

fun finished :: "chosen \<Rightarrow> string list \<Rightarrow> bool" where
  "finished ms [] \<longleftrightarrow> True"
| "finished ms (i # fin) \<longleftrightarrow> i \<notin> set fin \<and> set (deps_in ms i) \<subseteq> set fin \<and> finished ms fin"

fun rank :: "string list \<Rightarrow> string \<Rightarrow> nat" where
  "rank [] x = 0"
| "rank (i # fin) x = (if x = i then Suc (length fin) else rank fin x)"

lemma rank_le: "rank fin x \<le> length fin"
  by (induction fin) (auto intro: le_SucI)

lemma finished_rank:
  "finished ms fin \<Longrightarrow> x \<in> set fin \<Longrightarrow> y \<in> set (deps_in ms x) \<Longrightarrow> y \<in> set fin \<and> rank fin y < rank fin x"
proof (induction fin)
  case (Cons i fin)
  show ?case
  proof (cases "x = i")
    case True
    then have "y \<in> set fin" "y \<noteq> i" using Cons.prems by auto
    then show ?thesis using True rank_le [of fin y] by simp
  next
    case False
    then have "y \<in> set fin \<and> rank fin y < rank fin x" using Cons by simp
    then show ?thesis using False Cons.prems(1) by auto
  qed
qed simp

lemma finished_acyclic:
  assumes "finished ms fin" and "fst ` set ms \<subseteq> set fin"
  shows "acyclic (dep_edges ms)"
proof (rule acyclic_subset)
  show "acyclic ((measure (rank fin))\<inverse>)" by (simp add: wf_acyclic)
  show "dep_edges ms \<subseteq> (measure (rank fin))\<inverse>"
  proof
    fix e assume "e \<in> dep_edges ms"
    then obtain x y where e: "e = (x, y)" "y \<in> set (deps_in ms x)" by (auto simp: dep_edges_def)
    then have "x \<in> set fin" using assms(2) deps_in_shorter by force
    then show "e \<in> (measure (rank fin))\<inverse>" using finished_rank [OF assms(1)] e by simp
  qed
qed

lemma visit_all_Inr:
  "visit_all ms stack fin is = Inr fin' \<Longrightarrow> finished ms fin \<Longrightarrow> set fin \<inter> set stack = {} \<Longrightarrow>
     finished ms fin' \<and> set fin' \<inter> set stack = {} \<and> set fin \<subseteq> set fin' \<and> set is \<subseteq> set fin'"
proof (induction ms stack fin "is" arbitrary: fin' rule: visit_all.induct)
  case (2 ms stack fin i "is")
  have i: "i \<notin> set stack" using "2.prems"(1) by (auto split: if_splits)
  show ?case
  proof (cases "i \<in> set fin")
    case True
    have r: "visit_all ms stack fin is = Inr fin'" using "2.prems"(1) i True by simp
    show ?thesis using "2.IH"(1) [OF i True r "2.prems"(2,3)] True by auto
  next
    case False
    then obtain f1 where f1: "visit_all ms (stack @ [i]) fin (deps_in ms i) = Inr f1"
        "visit_all ms stack (i # f1) is = Inr fin'"
      using "2.prems"(1) i by auto
    have "set fin \<inter> set (stack @ [i]) = {}" using "2.prems"(3) False by auto
    note a = "2.IH"(2) [OF i False f1(1) "2.prems"(2) this]
    then have "finished ms (i # f1)" "set (i # f1) \<inter> set stack = {}" using i by auto
    note b = "2.IH"(3) [OF i False f1(2) this]
    show ?thesis using a b by auto
  qed
qed auto

definition path_ok :: "chosen \<Rightarrow> string list \<Rightarrow> bool" where
  "path_ok ms p \<longleftrightarrow> successively (\<lambda>x y. y \<in> set (deps_in ms x)) p"

lemma path_ok_snoc: "path_ok ms (p @ [x]) \<longleftrightarrow> path_ok ms p \<and> (p = [] \<or> x \<in> set (deps_in ms (last p)))"
  by (auto simp: path_ok_def successively_append_iff)

lemma visit_all_Inl:
  "visit_all ms stack fin is = Inl e \<Longrightarrow> path_ok ms stack \<Longrightarrow> (stack \<noteq> [] \<longrightarrow> set is \<subseteq> set (deps_in ms (last stack))) \<Longrightarrow>
     \<exists>p x. e = CycleError (p @ [x]) \<and> path_ok ms (p @ [x]) \<and> x \<in> set p"
proof (induction ms stack fin "is" arbitrary: e rule: visit_all.induct)
  case (2 ms stack fin i "is")
  have p: "path_ok ms (stack @ [i])" using "2.prems"(2,3) by (auto simp: path_ok_snoc)
  show ?case
  proof (cases "i \<in> set stack")
    case True
    then show ?thesis using p "2.prems"(1) by auto
  next
    case i: False
    show ?thesis
    proof (cases "i \<in> set fin")
      case True
      have r: "visit_all ms stack fin is = Inl e" using "2.prems"(1) i True by simp
      show ?thesis using "2.IH"(1) [OF i True r "2.prems"(2)] "2.prems"(3) by simp
    next
      case False
      show ?thesis
      proof (cases "visit_all ms (stack @ [i]) fin (deps_in ms i)")
        case (Inl e')
        then have "e' = e" using "2.prems"(1) i False by simp
        then show ?thesis using "2.IH"(2) [OF i False Inl p] by simp
      next
        case (Inr f1)
        then have r: "visit_all ms stack (i # f1) is = Inl e" using "2.prems"(1) i False by simp
        show ?thesis using "2.IH"(3) [OF i False r "2.prems"(2)] "2.prems"(3) by simp
      qed
    qed
  qed
qed simp

lemma path_reach: "path_ok ms (p @ [x]) \<Longrightarrow> y \<in> set p \<Longrightarrow> (y, x) \<in> (dep_edges ms)\<^sup>+"
proof (induction p arbitrary: x rule: rev_induct)
  case (snoc z p)
  have px: "path_ok ms (p @ [z])" and e: "(z, x) \<in> dep_edges ms"
    using snoc.prems(1) path_ok_snoc [of ms "p @ [z]" x] by (auto simp: dep_edges_def)
  show ?case
  proof (cases "y = z")
    case False
    then have "(y, z) \<in> (dep_edges ms)\<^sup>+" using snoc.IH [OF px] snoc.prems(2) by simp
    then show ?thesis using e by (rule trancl.trancl_into_trancl)
  qed (use e in auto)
qed simp

lemma check_cycles_Inl:
  assumes "check_cycles ms = Inl e"
  shows "\<exists>p x. e = CycleError (p @ [x]) \<and> path_ok ms (p @ [x]) \<and> x \<in> set p"
proof -
  have "visit_all ms [] [] (sort (map fst ms)) = Inl e"
    using assms by (simp add: check_cycles_def bindE_Inl_conv)
  then show ?thesis using visit_all_Inl by (force simp: path_ok_def)
qed

lemma check_cycles_Inr: "check_cycles ms = Inr () \<longleftrightarrow> acyclic (dep_edges ms)"
proof
  assume "check_cycles ms = Inr ()"
  then obtain fin where fin: "visit_all ms [] [] (sort (map fst ms)) = Inr fin"
    by (auto simp: check_cycles_def)
  then have "finished ms fin" "fst ` set ms \<subseteq> set fin" using visit_all_Inr [OF fin] by auto
  then show "acyclic (dep_edges ms)" by (rule finished_acyclic)
next
  assume a: "acyclic (dep_edges ms)"
  show "check_cycles ms = Inr ()"
  proof (cases "check_cycles ms")
    case (Inl e)
    then obtain p x where "path_ok ms (p @ [x])" "x \<in> set p" using check_cycles_Inl by blast
    then have "(x, x) \<in> (dep_edges ms)\<^sup>+" by (rule path_reach)
    then show ?thesis using a by (simp add: acyclic_def)
  qed simp
qed

text \<open>The cycle check is exact: it accepts the chosen modules exactly when their dependencies have no
  cycle, and the path it reports otherwise follows dependencies and returns to a module it has passed.\<close>

theorem check_cycles_exact:
  "(check_cycles ms = Inr () \<longleftrightarrow> acyclic (dep_edges ms)) \<and>
   (\<forall>e. check_cycles ms = Inl e \<longrightarrow> (\<exists>p x. e = CycleError (p @ [x]) \<and> path_ok ms (p @ [x]) \<and> x \<in> set p))"
  using check_cycles_Inr check_cycles_Inl by blast

subsection \<open>What resolution finds\<close>

lemma no_self_dependency:
  assumes "acyclic (dep_edges res)" and "map_of res i = Some m"
  shows "i \<notin> d_id ` set (m_dependencies m)"
proof
  assume "i \<in> d_id ` set (m_dependencies m)"
  then have "(i, i) \<in> dep_edges res" using assms(2) by (simp add: dep_edges_def deps_in_def)
  then show False using assms(1) by (meson acyclic_def trancl.r_into_trancl)
qed

lemma solved_solution:
  assumes sol: "solved s c res" and ac: "acyclic (dep_edges res)"
  shows "solution s (map_of res) c"
proof -
  obtain c' where c': "stronger c c'" "solver_inv s c' res" "fst ` set c' = fst ` set res"
    using sol unfolding solved_def by blast
  have ok: "choice_ok s c' (i, m)" if "map_of res i = Some m" for i m
    using c'(2) map_of_SomeD [OF that] unfolding solver_inv_def by blast
  have match: "\<forall>r \<in> set (reqs c' i). requirement_matches r (m_version m)" if "map_of res i = Some m" for i m
    using ok [OF that] no_self_dependency [OF ac that] unfolding choice_ok_def by blast
  have dom: "dom (map_of res) = fst ` set res" by (rule dom_map_of_conv_image_fst)
  show ?thesis
    unfolding solution_def
  proof (intro conjI allI impI)
    show "fst ` set c \<subseteq> dom (map_of res)" using c'(1,3) unfolding stronger_def dom by simp
  next
    fix i m assume m: "map_of res i = Some m"
    show "from_store s i m" using ok [OF m] unfolding choice_ok_def by blast
    show "\<forall>r \<in> set (reqs c i). requirement_matches r (m_version m)"
      using match [OF m] c'(1) unfolding stronger_def by blast
    show "\<forall>d \<in> set (m_dependencies m). \<exists>k. map_of res (d_id d) = Some k \<and> requirement_matches (d_requirement d) (m_version k)"
    proof
      fix d assume "d \<in> set (m_dependencies m)"
      then have d: "d_requirement d \<in> set (reqs c' (d_id d))" "d_id d \<in> fst ` set c'"
        using ok [OF m] unfolding choice_ok_def by blast+
      then obtain k where k: "map_of res (d_id d) = Some k" using c'(3) dom by (metis domD)
      then show "\<exists>k. map_of res (d_id d) = Some k \<and> requirement_matches (d_requirement d) (m_version k)"
        using match [OF k] d(1) by blast
    qed
  qed
qed

lemma solver_inv_start: "solver_inv s c []"
  by (simp add: solver_inv_def)

text \<open>C2: The solver is sound, complete and always ends. On a store that answers with the releases asked
  for, and with fuel above the number of modules that can be reached, it returns; if any selection of
  releases meets the constraints and its own dependencies, it returns one; and what it returns, if free of
  cycles, is such a selection.\<close>

theorem solver_exact:
  assumes h: "honest s" and U: "universe s U" "fst ` set c \<subseteq> U" "card U < n"
  shows "solve n s c [] \<noteq> None \<and>
    ((\<exists>\<sigma>. solution s \<sigma> c) \<longrightarrow> (\<exists>res. solve n s c [] = Some (Inr res))) \<and>
    (\<forall>res. solve n s c [] = Some (Inr res) \<longrightarrow> acyclic (dep_edges res) \<longrightarrow> solution s (map_of res) c)"
proof -
  have some: "solve n s c [] \<noteq> None" using solve_total [OF U(1,2), of "[]" n] U(3) by simp
  moreover have "\<exists>res. solve n s c [] = Some (Inr res)" if "solution s \<sigma> c" for \<sigma>
  proof -
    have "solve n s c [] \<noteq> Some (Inl e)" for e by (rule solve_complete [OF that h]) simp
    then show ?thesis using some by (metis option.exhaust sum.exhaust)
  qed
  moreover have "solution s (map_of res) c" if "solve n s c [] = Some (Inr res)" "acyclic (dep_edges res)" for res
    using solved_solution [OF solve_sound [OF that(1) solver_inv_start h] that(2)] .
  ultimately show ?thesis by blast
qed

subsection \<open>Locks\<close>

lemma root_constraints_Inr:
  "root_constraints ds c0 = Inr c \<Longrightarrow>
     fst ` set c = fst ` set c0 \<union> d_id ` set ds \<and>
     (\<forall>i. set (reqs c i) = set (reqs c0 i) \<union> d_requirement ` {d \<in> set ds. d_id d = i}) \<and>
     (\<forall>d \<in> set ds. parse_module_id (d_id d) \<noteq> None \<and> valid_requirement (d_requirement d))"
  by (induction ds arbitrary: c0) (auto simp: keys_add_req reqs_add_req split: if_splits)

lemma check_order_sorted:
  assumes "sorted (map lm_id lms)" "distinct (map lm_id lms)" "\<forall>lm \<in> set lms. parse_module_id (lm_id lm) \<noteq> None"
    and "\<forall>lm \<in> set lms. (\<forall>p. prev = Some p \<longrightarrow> p < lm_id lm) \<and> locked (lm_id lm) = None"
  shows "check_order lms prev locked = Inr (locked ++ map_of (map (\<lambda>lm. (lm_id lm, lm)) lms))"
  using assms
proof (induction lms arbitrary: prev locked)
  case (Cons lm lms)
  have "check_order lms (Some (lm_id lm)) (locked(lm_id lm \<mapsto> lm)) =
      Inr (locked(lm_id lm \<mapsto> lm) ++ map_of (map (\<lambda>lm. (lm_id lm, lm)) lms))"
  proof (rule Cons.IH)
    show "\<forall>k \<in> set lms. (\<forall>p. Some (lm_id lm) = Some p \<longrightarrow> p < lm_id k) \<and> (locked(lm_id lm \<mapsto> lm)) (lm_id k) = None"
    proof (intro ballI conjI allI impI)
      fix k p assume k: "k \<in> set lms"
      have "lm_id lm \<le> lm_id k" "lm_id lm \<noteq> lm_id k" using Cons.prems(1,2) k by auto
      then show "p < lm_id k" if "Some (lm_id lm) = Some p" using that by simp
      show "(locked(lm_id lm \<mapsto> lm)) (lm_id k) = None" using Cons.prems(4) k \<open>lm_id lm \<noteq> lm_id k\<close> by simp
    qed
    show "sorted (map lm_id lms)" "distinct (map lm_id lms)" using Cons.prems(1,2) by simp_all
    show "\<forall>lm \<in> set lms. parse_module_id (lm_id lm) \<noteq> None" using Cons.prems(3) by simp
  qed
  moreover have eq: "locked(lm_id lm \<mapsto> lm) ++ map_of (map (\<lambda>lm. (lm_id lm, lm)) lms) =
      locked ++ map_of (map (\<lambda>lm. (lm_id lm, lm)) (lm # lms))"
  proof -
    have "lm_id lm \<notin> dom (map_of (map (\<lambda>lm. (lm_id lm, lm)) lms))"
      using Cons.prems(2) by (auto simp: dom_map_of_conv_image_fst)
    then show ?thesis by (simp add: map_add_upd_left)
  qed
  moreover have "\<not> (case prev of None \<Rightarrow> False | Some p \<Rightarrow> p \<ge> lm_id lm)"
    using Cons.prems(4) by (auto split: option.splits)
  ultimately have "check_order (lm # lms) prev locked =
      Inr (locked(lm_id lm \<mapsto> lm) ++ map_of (map (\<lambda>lm. (lm_id lm, lm)) lms))"
    using Cons.prems(3,4) by simp
  then show ?case by (simp only: eq)
qed simp

lemma mapM_member: "mapM f xs = Inr ys \<Longrightarrow> y \<in> set ys \<longleftrightarrow> (\<exists>x \<in> set xs. f x = Inr y)"
  by (induction xs arbitrary: ys) auto

lemma mapM_unitsD: "mapM f xs = Inr us \<Longrightarrow> x \<in> set xs \<Longrightarrow> f x = Inr ()"
  by (induction xs arbitrary: us) auto

lemma mapM_units: "(\<And>x. x \<in> set xs \<Longrightarrow> f x = Inr ()) \<Longrightarrow> \<exists>us. mapM f xs = Inr us"
  by (induction xs) auto

text \<open>What the store must keep: the bytes of every artifact of its releases.\<close>

definition serves :: "formats \<Rightarrow> store \<Rightarrow> bool" where
  "serves fm s \<longleftrightarrow> (\<forall>i m. from_store s i m \<longrightarrow>
     (\<forall>a \<in> set (m_artifacts m). \<exists>b. st_blob s (a_digest a) = Inr b \<and> sha256 fm b = a_digest a))"

lemma lock_module_Inr:
  assumes "lock_module fm T ch i m = Inr lm"
  shows "\<exists>a \<in> set (m_artifacts m). a_target a = T \<and> lm_artifact_digest lm = digest_string (a_digest a)"
    and "lm_id lm = m_id m" "lm_version lm = version_string (m_version m)" "lm_manifest_digest lm = manifest_digest fm m"
    "lm_dependencies lm = map (\<lambda>d. \<lparr>ld_id = d_id d, ld_version = version_string (version_in ch (d_id d))\<rparr>) (m_dependencies m)"
  using assms by (auto simp: lock_module_def find_Some_iff split: option.splits)

text \<open>The modules of a lock, by name: each is the lock of the chosen manifest.\<close>

lemma build_lock_modules:
  assumes l: "build_lock fm q ch = Inr l" and d: "distinct (map fst ch)"
    and ids: "\<And>i m. map_of ch i = Some m \<Longrightarrow> m_id m = i"
  shows "map lm_id (l_modules l) = sort (map fst ch)"
    and "lm \<in> set (l_modules l) \<longleftrightarrow> (\<exists>i m. map_of ch i = Some m \<and> lock_module fm (q_target q) ch i m = Inr lm)"
    and "acyclic (dep_edges ch)" and "l_target l = q_target q" "l_schema l = 1" "l_roots l = sort_key d_id (q_roots q)"
proof -
  obtain ms where ms: "mapM (\<lambda>i. lock_module fm (q_target q) ch i (the (map_of ch i))) (sort (map fst ch)) = Inr ms"
    and l': "l = \<lparr>l_schema = 1, l_target = q_target q, l_roots = sort_key d_id (q_roots q), l_modules = ms\<rparr>"
    and c: "check_cycles ch = Inr ()"
    using l by (auto simp: build_lock_def)
  then show "acyclic (dep_edges ch)" "l_target l = q_target q" "l_schema l = 1" "l_roots l = sort_key d_id (q_roots q)"
    using check_cycles_Inr by simp_all
  have all: "list_all2 (\<lambda>i lm. lock_module fm (q_target q) ch i (the (map_of ch i)) = Inr lm) (sort (map fst ch)) ms"
    using ms by (simp add: mapM_Inr_conv)
  have the: "map_of ch i = Some (the (map_of ch i))" if "i \<in> set (sort (map fst ch))" for i
    using that by (metis domIff dom_map_of_conv_image_fst list.set_map option.collapse set_sort)
  have "lm_id lm = i" if "i \<in> set (sort (map fst ch))" "lock_module fm (q_target q) ch i (the (map_of ch i)) = Inr lm" for i lm
    using lock_module_Inr(2) [OF that(2)] ids [OF the [OF that(1)]] by simp
  then have "list_all2 (\<lambda>i lm. lm_id lm = i) (sort (map fst ch)) ms"
    by (intro list.rel_mono_strong [OF all])
  then have "map lm_id ms = sort (map fst ch)" by (induction rule: list_all2_induct) auto
  then show "map lm_id (l_modules l) = sort (map fst ch)" by (simp add: l')
  have "lm \<in> set ms \<longleftrightarrow> (\<exists>i \<in> set (sort (map fst ch)). lock_module fm (q_target q) ch i (the (map_of ch i)) = Inr lm)"
    using ms by (rule mapM_member)
  also have "\<dots> \<longleftrightarrow> (\<exists>i m. map_of ch i = Some m \<and> lock_module fm (q_target q) ch i m = Inr lm)"
    using the by (metis domI dom_map_of_conv_image_fst list.set_map option.sel set_sort)
  finally show "lm \<in> set (l_modules l) \<longleftrightarrow> (\<exists>i m. map_of ch i = Some m \<and> lock_module fm (q_target q) ch i m = Inr lm)"
    by (simp add: l')
qed

text \<open>A lock, the selection it was built from and the constraints of its roots.\<close>

definition resolved :: "formats \<Rightarrow> store \<Rightarrow> request \<Rightarrow> constraints \<Rightarrow> chosen \<Rightarrow> lock \<Rightarrow> bool" where
  "resolved fm s q c ch l \<longleftrightarrow> honest s \<and> (\<forall>i m. map_of ch i = Some m \<longrightarrow> m_id m = i) \<and> root_constraints (q_roots q) [] = Inr c \<and> build_lock fm q ch = Inr l \<and>
     solution s (map_of ch) c \<and> distinct (map fst ch)"

text \<open>The solver stays in the universe, and there the store answers with the modules asked for.\<close>

definition named :: "store \<Rightarrow> string set \<Rightarrow> bool" where
  "named s U \<longleftrightarrow> (\<forall>i \<in> U. \<forall>m. from_store s i m \<longrightarrow> m_id m = i)"

lemma try_versions_keys:
  assumes "try_versions rec s c ch i us = Some (Inr res)"
  shows "\<exists>v \<in> set us. \<exists>m nc. st_manifest s \<lparr>rel_id = i, rel_version = v\<rparr> = Inr m \<and>
    add_deps c ch (m_dependencies m) = Some nc \<and> rec nc ((i, m) # ch) = Some (Inr res)"
  using assms by (induction us) (auto split: if_splits sum.splits option.splits)

lemma solve_keys:
  assumes U: "universe s U" and "solve n s c ch = Some (Inr res)" and "fst ` set c \<subseteq> U" and "fst ` set ch \<subseteq> U"
  shows "fst ` set res \<subseteq> U"
  using assms(2-)
proof (induction n arbitrary: c ch)
  case (Suc n)
  show ?case
  proof (cases "unresolved c ch")
    case (Cons i rest)
    then have "i \<in> fst ` set c" using unresolved_set [of c ch] by (metis DiffD1 list.set_intros(1))
    then have i: "i \<in> U" using Suc.prems(2) by blast
    obtain vs where vs: "st_versions s i = Inr vs" "try_versions (solve n s) s c ch i vs = Some (Inr res)"
      using Suc.prems(1) Cons by (auto split: sum.splits)
    obtain v m nc where v: "v \<in> set vs" "st_manifest s \<lparr>rel_id = i, rel_version = v\<rparr> = Inr m"
        "add_deps c ch (m_dependencies m) = Some nc" "solve n s nc ((i, m) # ch) = Some (Inr res)"
      using try_versions_keys [OF vs(2)] by blast
    have "from_store s i m" using v vs(1) by (auto simp: from_store_def)
    then have "d_id ` set (m_dependencies m) \<subseteq> U" using U i unfolding universe_def by simp
    then have "fst ` set nc \<subseteq> U" using Suc.prems(2) unfolding add_deps_Some(2) [OF v(3)] by simp
    then show ?thesis using Suc.IH [OF v(4)] Suc.prems(3) i by simp
  qed (use Suc.prems in simp)
qed simp

lemma resolve_resolved:
  assumes r: "resolve n fm s q = Some (Inr l)" and h: "honest s"
    and U: "universe s U" "d_id ` set (q_roots q) \<subseteq> U" "named s U"
  shows "\<exists>c ch. resolved fm s q c ch l"
proof -
  obtain c ch where c: "root_constraints (q_roots q) [] = Inr c" "solve n s c [] = Some (Inr ch)" "build_lock fm q ch = Inr l"
    using r by (auto simp: resolve_def split: if_splits sum.splits)
  have s: "solved s c ch" by (rule solve_sound [OF c(2) solver_inv_start h])
  moreover have "acyclic (dep_edges ch)"
    using c(3) check_cycles_Inr by (auto simp: build_lock_def)
  moreover have "distinct (map fst ch)" using s by (auto simp: solved_def solver_inv_def)
  moreover have sol: "solution s (map_of ch) c" using solved_solution calculation(1,2) by blast
  moreover have "fst ` set ch \<subseteq> U"
    using solve_keys [OF U(1) c(2)] root_constraints_Inr [OF c(1)] U(2) by simp
  then have "\<forall>i m. map_of ch i = Some m \<longrightarrow> m_id m = i"
    using U(3) sol unfolding named_def solution_def by (metis fst_conv image_eqI map_of_SomeD subsetD)
  ultimately show ?thesis using c h unfolding resolved_def by blast
qed

lemma resolved_manifest:
  assumes "resolved fm s q c ch l" and "map_of ch i = Some m"
  shows "from_store s i m" "m_id m = i" "manifest_wf m" "valid_version (m_version m)"
proof -
  show st: "from_store s i m" using assms unfolding resolved_def solution_def by simp
  then obtain v where v: "st_manifest s \<lparr>rel_id = i, rel_version = v\<rparr> = Inr m" unfolding from_store_def by blast
  show "m_id m = i" using assms unfolding resolved_def by simp
  have "honest s" using assms(1) by (simp add: resolved_def)
  then show "manifest_wf m" using v unfolding honest_def by simp
  then show "valid_version (m_version m)" by (simp add: manifest_wf_def)
qed

lemma resolved_modules:
  assumes "resolved fm s q c ch l"
  shows "map lm_id (l_modules l) = sort (map fst ch)" "distinct (map lm_id (l_modules l))"
    and "lm \<in> set (l_modules l) \<longleftrightarrow> (\<exists>i m. map_of ch i = Some m \<and> lock_module fm (q_target q) ch i m = Inr lm)"
    and "acyclic (dep_edges ch)" "l_target l = q_target q" "l_schema l = 1" "l_roots l = sort_key d_id (q_roots q)"
proof -
  have r: "build_lock fm q ch = Inr l" "distinct (map fst ch)" using assms by (simp_all add: resolved_def)
  note bl = build_lock_modules [OF r resolved_manifest(2) [OF assms]]
  then show "map lm_id (l_modules l) = sort (map fst ch)" "acyclic (dep_edges ch)" "l_target l = q_target q" "l_schema l = 1"
    "l_roots l = sort_key d_id (q_roots q)" by simp_all
  then show "distinct (map lm_id (l_modules l))" using r(2) by simp
  show "lm \<in> set (l_modules l) \<longleftrightarrow> (\<exists>i m. map_of ch i = Some m \<and> lock_module fm (q_target q) ch i m = Inr lm)"
    by (rule bl(2))
qed

lemma locked_lookup: "distinct (map lm_id ms) \<Longrightarrow> lm \<in> set ms \<Longrightarrow> map_of (map (\<lambda>lm. (lm_id lm, lm)) ms) (lm_id lm) = Some lm"
  by (rule map_of_is_SomeI) (auto simp: comp_def)

definition by_name :: "lock \<Rightarrow> string \<rightharpoonup> locked_module" where
  "by_name l = map_of (map (\<lambda>lm. (lm_id lm, lm)) (l_modules l))"

lemma resolved_order:
  assumes r: "resolved fm s q c ch l"
  shows "check_order (l_modules l) None Map.empty = Inr (by_name l)"
proof -
  have "parse_module_id (lm_id k) \<noteq> None" if k: "k \<in> set (l_modules l)" for k
  proof -
    obtain i m where m: "map_of ch i = Some m" "lock_module fm (q_target q) ch i m = Inr k"
      using k unfolding resolved_modules(3) [OF r] by blast
    then show ?thesis using lock_module_Inr(2) [OF m(2)] resolved_manifest(3) [OF r m(1)] by (simp add: manifest_wf_def)
  qed
  then show ?thesis
    using check_order_sorted [of "l_modules l" None Map.empty] resolved_modules(1,2) [OF r] by (simp add: by_name_def)
qed

lemma resolved_by_name:
  assumes r: "resolved fm s q c ch l" and m: "map_of ch i = Some m"
  shows "\<exists>k. by_name l i = Some k \<and> lm_version k = version_string (m_version m)"
proof -
  have "i \<in> set (map lm_id (l_modules l))" unfolding resolved_modules(1) [OF r] using map_of_SomeD [OF m] by force
  then obtain k where k: "k \<in> set (l_modules l)" "lm_id k = i" by auto
  then obtain j m' where j: "map_of ch j = Some m'" "lock_module fm (q_target q) ch j m' = Inr k"
    unfolding resolved_modules(3) [OF r] by blast
  have "j = i" using k(2) lock_module_Inr(2) [OF j(2)] resolved_manifest(2) [OF r j(1)] by simp
  then have "lm_version k = version_string (m_version m)" using j m lock_module_Inr(3) [OF j(2)] by simp
  then show ?thesis using locked_lookup [OF resolved_modules(2) [OF r] k(1)] k(2) by (simp add: by_name_def)
qed

lemma check_locked_dep_ok:
  assumes "locked (d_id d) = Some child" and "lm_version child = version_string (m_version k)" and "valid_version (m_version k)"
    and "requirement_matches (d_requirement d) (m_version k)"
  shows "check_locked_dep locked i (d, \<lparr>ld_id = d_id d, ld_version = version_string (m_version k)\<rparr>) = Inr ()"
  using assms by (simp add: check_locked_dep_def parse_version_string)

lemma check_module_ok:
  assumes h: "honest s" and sv: "serves fm s" and m: "from_store s i m" "m_id m = i"
    and lm: "lock_module fm T ch i m = Inr lm"
    and deps: "\<And>d. d \<in> set (m_dependencies m) \<Longrightarrow> check_locked_dep locked i
      (d, \<lparr>ld_id = d_id d, ld_version = version_string (version_in ch (d_id d))\<rparr>) = Inr ()"
  shows "check_module fm s T locked lm = Inr ()"
proof -
  note f = lock_module_Inr [OF lm]
  obtain v where v: "st_manifest s \<lparr>rel_id = i, rel_version = v\<rparr> = Inr m" using m(1) unfolding from_store_def by blast
  then have hm: "m_id m = i" "m_version m = v" "manifest_wf m" using h m(2) unfolding honest_def by simp_all
  obtain a where a: "a \<in> set (m_artifacts m)" "a_target a = T" "lm_artifact_digest lm = digest_string (a_digest a)"
    using f(1) by blast
  then have "length (a_digest a) = 32" using hm(3) by (auto simp: manifest_wf_def list_all_iff artifact_wf_def)
  then have dg: "parse_digest (lm_artifact_digest lm) = Some (a_digest a)" using a(3) by (simp add: parse_digest_string)
  obtain b where b: "st_blob s (a_digest a) = Inr b" "sha256 fm b = a_digest a" using sv m(1) a(1) unfolding serves_def by blast
  have "\<exists>us. mapM (check_locked_dep locked i) (zip (m_dependencies m) (lm_dependencies lm)) = Inr us"
    unfolding mapM_unit f(5) using deps by (auto simp: set_zip)
  then obtain us where us: "mapM (check_locked_dep locked (lm_id lm)) (zip (m_dependencies m) (lm_dependencies lm)) = Inr us"
    using f(2) hm(1) by auto
  have "valid_version (m_version m)" using hm(3) by (simp add: manifest_wf_def)
  then have pv: "parse_version (lm_version lm) = Inr v" using f(3) hm(2) by (simp add: parse_version_string)
  have st: "st_manifest s \<lparr>rel_id = lm_id lm, rel_version = v\<rparr> = Inr m" using v f(2) hm(1) by simp
  have ex: "\<exists>x \<in> set (m_artifacts m). a_target x = T \<and> a_digest x = a_digest a" using a(1,2) by blast
  show ?thesis
    by (simp add: check_module_def pv st us dg b ex f(4)) (simp add: f(5))
qed

lemma resolved_roots:
  assumes r: "resolved fm s q c ch l" and d: "d \<in> set (l_roots l)"
  shows "check_root (by_name l) d = Inr ()"
proof -
  have rc: "root_constraints (q_roots q) [] = Inr c" and sol: "solution s (map_of ch) c" using r by (simp_all add: resolved_def)
  have "d \<in> set (q_roots q)" using d resolved_modules(7) [OF r] by simp
  then have dc: "d_id d \<in> fst ` set c" "d_requirement d \<in> set (reqs c (d_id d))" "valid_requirement (d_requirement d)"
    using root_constraints_Inr [OF rc] by auto
  then obtain m where m: "map_of ch (d_id d) = Some m" using sol unfolding solution_def by blast
  then have "requirement_matches (d_requirement d) (m_version m)" using sol dc(2) unfolding solution_def by blast
  then show ?thesis
    using resolved_by_name [OF r m] resolved_manifest(4) [OF r m] dc(3) by (auto simp: check_root_def parse_version_string)
qed

lemma resolved_module_ok:
  assumes r: "resolved fm s q c ch l" and sv: "serves fm s" and k: "k \<in> set (l_modules l)"
  shows "check_module fm s (l_target l) (by_name l) k = Inr ()"
proof -
  have h: "honest s" and sol: "solution s (map_of ch) c" using r by (simp_all add: resolved_def)
  obtain i m where m: "map_of ch i = Some m" "lock_module fm (l_target l) ch i m = Inr k"
    using k unfolding resolved_modules(3,5) [OF r] by blast
  show ?thesis
  proof (rule check_module_ok [OF h sv resolved_manifest(1,2) [OF r m(1)] m(2)])
    fix d assume "d \<in> set (m_dependencies m)"
    then obtain k where k: "map_of ch (d_id d) = Some k" "requirement_matches (d_requirement d) (m_version k)"
      using sol m(1) unfolding solution_def by blast
    obtain child where "by_name l (d_id d) = Some child" "lm_version child = version_string (m_version k)"
      using resolved_by_name [OF r k(1)] by blast
    then show "check_locked_dep (by_name l) i (d, \<lparr>ld_id = d_id d, ld_version = version_string (version_in ch (d_id d))\<rparr>) = Inr ()"
      using check_locked_dep_ok [of "by_name l" d child k i] k resolved_manifest(4) [OF r k(1)] by (simp add: version_in_def)
  qed
qed

lemma resolve_lock_ok:
  assumes "resolve n fm s q = Some (Inr l)" and "honest s" and "universe s U" and "d_id ` set (q_roots q) \<subseteq> U"
    and "named s U" and "serves fm s"
  shows "verify fm s l = Inr ()"
proof -
  obtain c ch where r: "resolved fm s q c ch l" using resolve_resolved [OF assms(1-5)] by blast
  obtain us where roots: "mapM (check_root (by_name l)) (l_roots l) = Inr us"
    using mapM_units [of "l_roots l" "check_root (by_name l)", OF resolved_roots [OF r]] by blast
  obtain vs where mods: "mapM (check_module fm s (l_target l) (by_name l)) (l_modules l) = Inr vs"
    using mapM_units [of "l_modules l" "check_module fm s (l_target l) (by_name l)", OF resolved_module_ok [OF r assms(6)]] by blast
  show ?thesis using resolved_modules(6) [OF r] by (simp add: verify_def resolved_order [OF r] roots mods)
qed

text \<open>C13: A lock that resolution produces passes verification: on a store that answers with the releases
  asked for and keeps the bytes of their artifacts, \<^verbatim>\<open>Verify\<close> accepts what \<^verbatim>\<open>Resolve\<close> returned.\<close>

theorem resolve_verifies:
  assumes "resolve n fm s q = Some (Inr l)" and "honest s" and "universe s U" and "d_id ` set (q_roots q) \<subseteq> U"
    and "named s U" and "serves fm s"
  shows "verify fm s l = Inr ()"
  by (rule resolve_lock_ok [OF assms])

subsection \<open>What verification guarantees\<close>

lemma check_order_Inr:
  "check_order lms prev locked = Inr locked' \<Longrightarrow>
     sorted (map lm_id lms) \<and> distinct (map lm_id lms) \<and> (\<forall>lm \<in> set lms. (\<forall>p. prev = Some p \<longrightarrow> p < lm_id lm) \<and> locked (lm_id lm) = None) \<and>
     locked' = locked ++ map_of (map (\<lambda>lm. (lm_id lm, lm)) lms)"
proof (induction lms arbitrary: prev locked)
  case (Cons lm lms)
  have c: "\<not> (case prev of None \<Rightarrow> False | Some p \<Rightarrow> p \<ge> lm_id lm)" "locked (lm_id lm) = None"
    and r: "check_order lms (Some (lm_id lm)) (locked(lm_id lm \<mapsto> lm)) = Inr locked'"
    using Cons.prems by (auto split: if_splits)
  note ih = Cons.IH [OF r]
  have lt: "lm_id lm < lm_id k" "locked (lm_id k) = None" if "k \<in> set lms" for k using ih that by (auto split: if_splits)
  have prev: "p < lm_id lm" if "prev = Some p" for p using c(1) that by simp
  have "lm_id lm \<notin> lm_id ` set lms" using lt(1) by (metis imageE less_irrefl)
  then have nd: "lm_id lm \<notin> dom (map_of (map (\<lambda>lm. (lm_id lm, lm)) lms))"
    by (simp add: dom_map_of_conv_image_fst image_image)
  have "locked' = locked(lm_id lm \<mapsto> lm) ++ map_of (map (\<lambda>lm. (lm_id lm, lm)) lms)" using ih by blast
  then have "locked' = locked ++ map_of (map (\<lambda>lm. (lm_id lm, lm)) (lm # lms))"
    by (simp only: map_add_upd_left [OF nd] list.map map_of.simps fst_conv snd_conv map_add_upd)
  moreover have "sorted (map lm_id (lm # lms))" "distinct (map lm_id (lm # lms))" using ih lt(1) by (auto intro: less_imp_le)
  moreover have "\<forall>k \<in> set (lm # lms). (\<forall>p. prev = Some p \<longrightarrow> p < lm_id k) \<and> locked (lm_id k) = None"
    using prev lt c(2) by (auto intro: less_trans)
  ultimately show ?case by blast
qed simp

text \<open>What a locked module stands for: the release it names is in the store with the recorded manifest,
  its dependencies are locked at versions that satisfy them, and the bytes of its artifact are intact.\<close>

definition module_pinned :: "formats \<Rightarrow> store \<Rightarrow> lock \<Rightarrow> locked_module \<Rightarrow> bool" where
  "module_pinned fm s l lm \<longleftrightarrow> (\<exists>v m a b. parse_version (lm_version lm) = Inr v \<and>
     st_manifest s \<lparr>rel_id = lm_id lm, rel_version = v\<rparr> = Inr m \<and> manifest_digest fm m = lm_manifest_digest lm \<and>
     (\<forall>d \<in> set (m_dependencies m). \<exists>k \<in> set (l_modules l). \<exists>u. lm_id k = d_id d \<and> parse_version (lm_version k) = Inr u \<and>
        requirement_matches (d_requirement d) u) \<and>
     a \<in> set (m_artifacts m) \<and> a_target a = l_target l \<and> parse_digest (lm_artifact_digest lm) = Some (a_digest a) \<and>
     st_blob s (a_digest a) = Inr b \<and> sha256 fm b = a_digest a)"

lemma by_name_member: "by_name l i = Some k \<Longrightarrow> k \<in> set (l_modules l) \<and> lm_id k = i"
  unfolding by_name_def by (auto dest!: map_of_SomeD)

lemma check_locked_dep_Inr:
  assumes "check_locked_dep (by_name l) i (d, got) = Inr ()"
  shows "\<exists>k \<in> set (l_modules l). \<exists>u. lm_id k = d_id d \<and> parse_version (lm_version k) = Inr u \<and> requirement_matches (d_requirement d) u"
  using assms by (auto simp: check_locked_dep_def split: option.splits if_splits sum.splits dest!: by_name_member)

lemma check_module_Inr:
  assumes "check_module fm s (l_target l) (by_name l) lm = Inr ()"
  shows "module_pinned fm s l lm"
proof -
  obtain v m where v: "parse_version (lm_version lm) = Inr v" "st_manifest s \<lparr>rel_id = lm_id lm, rel_version = v\<rparr> = Inr m"
    using assms by (auto simp: check_module_def)
  obtain us dg b where c: "manifest_digest fm m = lm_manifest_digest lm" "length (lm_dependencies lm) = length (m_dependencies m)"
      "mapM (check_locked_dep (by_name l) (lm_id lm)) (zip (m_dependencies m) (lm_dependencies lm)) = Inr us"
      "parse_digest (lm_artifact_digest lm) = Some dg" "\<exists>a \<in> set (m_artifacts m). a_target a = l_target l \<and> a_digest a = dg"
      "st_blob s dg = Inr b" "sha256 fm b = dg"
    using assms by (auto simp: check_module_def v split: option.splits)
  note dep = mapM_unitsD [OF c(3)]
  have "\<exists>k \<in> set (l_modules l). \<exists>u. lm_id k = d_id d \<and> parse_version (lm_version k) = Inr u \<and> requirement_matches (d_requirement d) u"
    if d: "d \<in> set (m_dependencies m)" for d
  proof -
    obtain got where "(d, got) \<in> set (zip (m_dependencies m) (lm_dependencies lm))"
      using d c(2) by (metis in_set_impl_in_set_zip1)
    then show ?thesis by (rule check_locked_dep_Inr [OF dep])
  qed
  then show ?thesis unfolding module_pinned_def using v c by blast
qed

text \<open>C32: A lock that passes verification pins its modules. They are in order without duplicates; every
  root is locked at a version that satisfies it; and each locked module is a release of the store with the
  recorded manifest digest, dependencies locked at satisfying versions, and an artifact for the target
  whose stored bytes have the recorded digest.\<close>

theorem verify_pins:
  assumes "verify fm s l = Inr ()"
  shows "sorted (map lm_id (l_modules l)) \<and> distinct (map lm_id (l_modules l)) \<and>
    (\<forall>d \<in> set (l_roots l). \<exists>k \<in> set (l_modules l). \<exists>v. lm_id k = d_id d \<and> parse_version (lm_version k) = Inr v \<and>
       requirement_matches (d_requirement d) v) \<and>
    (\<forall>lm \<in> set (l_modules l). module_pinned fm s l lm)"
proof -
  obtain locked us vs where v: "check_order (l_modules l) None Map.empty = Inr locked"
      "mapM (check_root locked) (l_roots l) = Inr us" "mapM (check_module fm s (l_target l) locked) (l_modules l) = Inr vs"
    using assms by (auto simp: verify_def)
  note o = check_order_Inr [OF v(1)]
  then have n: "locked = by_name l" by (simp add: by_name_def)
  have "check_root (by_name l) d = Inr ()" if "d \<in> set (l_roots l)" for d using mapM_unitsD [OF v(2) that] n by simp
  then have "\<exists>k \<in> set (l_modules l). \<exists>v. lm_id k = d_id d \<and> parse_version (lm_version k) = Inr v \<and> requirement_matches (d_requirement d) v"
    if "d \<in> set (l_roots l)" for d
    using that by (fastforce simp: check_root_def split: option.splits sum.splits dest!: by_name_member)
  moreover have "module_pinned fm s l lm" if "lm \<in> set (l_modules l)" for lm
    using mapM_unitsD [OF v(3) that] n check_module_Inr by simp
  ultimately show ?thesis using o by blast
qed

subsection \<open>Witnesses\<close>

definition demo_release :: "string \<Rightarrow> dependency list \<Rightarrow> manifest" where
  "demo_release i ds = \<lparr>m_schema = 1, m_id = i, m_version = plain_version 1 0 0, m_dependencies = ds,
     m_artifacts = [\<lparr>a_target = ''wasm'', a_digest = replicate 32 7, a_digest_text = digest_string (replicate 32 7),
       a_size = 1, a_cell_manifest_digest = [], a_source = None\<rparr>],
     m_provides = [], m_consumes = [], m_capabilities = [], m_fusion_abi = []\<rparr>"

definition demo_a :: manifest where
  "demo_a = demo_release ''a'' [\<lparr>d_id = ''b'', d_requirement = ''*''\<rparr>]"

definition demo_b :: manifest where
  "demo_b = demo_release ''b'' []"

definition demo_store :: store where
  "demo_store = \<lparr>st_versions = (\<lambda>i. if i = ''a'' \<or> i = ''b'' then Inr [plain_version 1 0 0] else Inl NotFound),
     st_manifest = (\<lambda>r. if r = \<lparr>rel_id = ''a'', rel_version = plain_version 1 0 0\<rparr> then Inr demo_a
                        else if r = \<lparr>rel_id = ''b'', rel_version = plain_version 1 0 0\<rparr> then Inr demo_b else Inl NotFound),
     st_blob = (\<lambda>_. Inr ''x'')\<rparr>"

definition demo_request :: request where
  "demo_request = \<lparr>q_target = ''wasm'', q_roots = [\<lparr>d_id = ''a'', d_requirement = ''*''\<rparr>]\<rparr>"

lemma demo_wf: "manifest_wf demo_a" "manifest_wf demo_b"
  by code_simp+

lemma demo_honest: "honest demo_store"
  using demo_wf by (auto simp: honest_def demo_store_def demo_a_def demo_b_def demo_release_def)

lemma demo_serves: "serves demo_formats demo_store"
  by (auto simp: serves_def from_store_def demo_store_def demo_formats_def demo_a_def demo_b_def demo_release_def split: if_splits)

lemma demo_universe: "universe demo_store {''a'', ''b''}"
  by (auto simp: universe_def from_store_def demo_store_def demo_a_def demo_b_def demo_release_def split: if_splits)

lemma demo_named: "named demo_store {''a'', ''b''}"
  by (auto simp: named_def from_store_def demo_store_def demo_a_def demo_b_def demo_release_def split: if_splits)

definition demo_lock :: lock where
  "demo_lock = projr (the (resolve 3 demo_formats demo_store demo_request))"

theorem solver_exact_witness: "solve 3 demo_store [(''a'', [''*''])] [] \<noteq> None"
  using solver_exact [OF demo_honest demo_universe, of "[(''a'', [''*''])]" 3] by simp

theorem check_cycles_exact_witness:
  "\<exists>p x. CycleError [''a'', ''a''] = CycleError (p @ [x]) \<and> path_ok [(''a'', demo_release ''a'' [\<lparr>d_id = ''a'', d_requirement = ''*''\<rparr>])] (p @ [x]) \<and> x \<in> set p"
proof -
  have "check_cycles [(''a'', demo_release ''a'' [\<lparr>d_id = ''a'', d_requirement = ''*''\<rparr>])] = Inl (CycleError [''a'', ''a''])"
    by code_simp
  then show ?thesis using check_cycles_exact by blast
qed

theorem resolve_verifies_witness: "verify demo_formats demo_store demo_lock = Inr ()"
proof (rule resolve_verifies [OF _ demo_honest demo_universe _ demo_named demo_serves])
  have "(case resolve 3 demo_formats demo_store demo_request of Some (Inr _) \<Rightarrow> True | _ \<Rightarrow> False)" by code_simp
  then show "resolve 3 demo_formats demo_store demo_request = Some (Inr demo_lock)"
    by (auto simp: demo_lock_def split: option.splits sum.splits)
qed (simp add: demo_request_def)

definition demo_lock_b :: lock where
  "demo_lock_b = \<lparr>l_schema = 1, l_target = ''wasm'', l_roots = [\<lparr>d_id = ''b'', d_requirement = ''*''\<rparr>],
     l_modules = [\<lparr>lm_id = ''b'', lm_version = ''1.0.0'', lm_manifest_digest = digest_string (replicate 32 7),
       lm_artifact_digest = digest_string (replicate 32 7), lm_dependencies = []\<rparr>]\<rparr>"

theorem verify_pins_witness: "module_pinned demo_formats demo_store demo_lock_b (hd (l_modules demo_lock_b))"
proof -
  have "verify demo_formats demo_store demo_lock_b = Inr ()" by code_simp
  then show ?thesis using verify_pins [of demo_formats demo_store demo_lock_b] by (simp add: demo_lock_b_def)
qed

end
