(* ===== verification/Registry_Store.thy ===== *)
theory Registry_Store
  imports Registry_Resolve
begin

text \<open>
  The content-addressed store on disk, \<^verbatim>\<open>LocalStore\<close> of \<^verbatim>\<open>src/registry/store.go\<close>. The directory tree under
  the registry root is an association list from paths, lists of components, to files, directories and
  symbolic links. \<^verbatim>\<open>filepath.Join\<close> drops empty and dot components. A write goes to a temporary file that
  is linked into place, so a file appears with all of its bytes or not at all; failures of the disk
  itself and concurrent writers are not modelled.
\<close>

subsection \<open>The file system\<close>

datatype entry = File string | Dir | Symlink

type_synonym path = "string list"
type_synonym fs = "(path \<times> entry) list"

definition look :: "fs \<Rightarrow> path \<Rightarrow> entry option" where
  "look fs p = map_of fs p"

text \<open>The walk of \<^verbatim>\<open>safePath\<close> down the components: it stops at the first that does not exist and refuses a
  symbolic link; below a plain file \<^verbatim>\<open>Lstat\<close> fails.\<close>

fun safe_from :: "fs \<Rightarrow> path \<Rightarrow> path \<Rightarrow> bool" where
  "safe_from fs pre [] = True"
| "safe_from fs pre (x # xs) =
     (case look fs (pre @ [x]) of
        None \<Rightarrow> True
      | Some Symlink \<Rightarrow> False
      | Some Dir \<Rightarrow> safe_from fs (pre @ [x]) xs
      | Some (File _) \<Rightarrow> xs = [])"

definition safe_path :: "fs \<Rightarrow> path \<Rightarrow> bool" where
  "safe_path fs p = safe_from fs [] p"

definition read_file :: "fs \<Rightarrow> path \<Rightarrow> (store_error, string) result" where
  "read_file fs p =
     (case look fs p of
        None \<Rightarrow> Inl NotFound
      | Some (File b) \<Rightarrow> Inr b
      | Some _ \<Rightarrow> Inl (StoreFailure ''read''))"

text \<open>\<^verbatim>\<open>MkdirAll\<close> of the parent: the missing ancestors become directories.\<close>

definition ancestors :: "path \<Rightarrow> path list" where
  "ancestors p = map (\<lambda>k. take k p) [1..<length p]"

fun make_dirs :: "path list \<Rightarrow> fs \<Rightarrow> fs" where
  "make_dirs [] fs = fs"
| "make_dirs (d # ds) fs = make_dirs ds (if look fs d = None then (d, Dir) # fs else fs)"

definition is_file :: "fs \<Rightarrow> path \<Rightarrow> bool" where
  "is_file fs p = (case look fs p of Some (File _) \<Rightarrow> True | _ \<Rightarrow> False)"

definition write_immutable :: "fs \<Rightarrow> path \<Rightarrow> string \<Rightarrow> fs \<times> store_error option" where
  "write_immutable fs p data =
     (case read_file fs p of
        Inr old \<Rightarrow> if old = data then (fs, None) else (fs, Some (Conflict (join ''/'' p)))
      | Inl NotFound \<Rightarrow>
          if list_ex (is_file fs) (ancestors p) then (fs, Some (StoreFailure ''mkdir''))
          else ((p, File data) # make_dirs (ancestors p) fs, None)
      | Inl e \<Rightarrow> (fs, Some e))"

subsection \<open>Paths\<close>

definition clean_segments :: "string \<Rightarrow> path" where
  "clean_segments i = filter (\<lambda>s. s \<noteq> [] \<and> s \<noteq> ''.'') (split_on (CHR ''/'') i)"

definition module_dir :: "string \<Rightarrow> path" where
  "module_dir i = [''v1'', ''modules''] @ clean_segments i"

definition release_path :: "release_id \<Rightarrow> path" where
  "release_path r = module_dir (rel_id r) @ [version_string (rel_version r), ''manifest.json'']"

definition blob_path :: "digest \<Rightarrow> path" where
  "blob_path d = (let h = hex_encode d in [''v1'', ''blobs'', ''sha256'', take 2 h, drop 2 h])"

subsection \<open>Publishing\<close>

fun publish_blobs :: "formats \<Rightarrow> (digest \<rightharpoonup> string) \<Rightarrow> artifact list \<Rightarrow> fs \<Rightarrow> fs \<times> store_error option" where
  "publish_blobs fm blobs [] fs = (fs, None)"
| "publish_blobs fm blobs (a # as) fs =
     (case blobs (a_digest a) of
        None \<Rightarrow> (fs, Some NotFound)
      | Some b \<Rightarrow>
          if sha256 fm b \<noteq> a_digest a then (fs, Some (StoreFailure ''digest''))
          else if a_size a \<noteq> int (length b) then (fs, Some (StoreFailure ''size''))
          else if \<not> safe_path fs (blob_path (a_digest a)) then (fs, Some (StoreFailure ''symlink''))
          else (case write_immutable fs (blob_path (a_digest a)) b of
                  (fs', Some e) \<Rightarrow> (fs', Some e)
                | (fs', None) \<Rightarrow> publish_blobs fm blobs as fs'))"

definition publish :: "formats \<Rightarrow> fs \<Rightarrow> string \<Rightarrow> (digest \<rightharpoonup> string) \<Rightarrow> fs \<times> store_error option" where
  "publish fm fs data blobs =
     (case parse_manifest fm data of
        Inl e \<Rightarrow> (fs, Some (StoreManifest e))
      | Inr m \<Rightarrow>
          (case canonical_manifest fm m of
             None \<Rightarrow> (fs, Some (StoreManifest EncodeFailed))
           | Some canonical \<Rightarrow>
               (case publish_blobs fm blobs (m_artifacts m) fs of
                  (fs', Some e) \<Rightarrow> (fs', Some e)
                | (fs', None) \<Rightarrow>
                    (let p = release_path \<lparr>rel_id = m_id m, rel_version = m_version m\<rparr>
                     in if \<not> safe_path fs' p then (fs', Some (StoreFailure ''symlink''))
                        else write_immutable fs' p canonical))))"

subsection \<open>Reading\<close>

fun insert_desc :: "version \<Rightarrow> version list \<Rightarrow> version list" where
  "insert_desc v [] = [v]"
| "insert_desc v (u # us) = (if version_compare v u > 0 then v # u # us else u # insert_desc v us)"

definition sort_desc :: "version list \<Rightarrow> version list" where
  "sort_desc vs = foldr insert_desc vs []"

definition sub_dirs :: "fs \<Rightarrow> path \<Rightarrow> string list" where
  "sub_dirs fs d = sort (remdups (map last (filter (\<lambda>p. p \<noteq> [] \<and> butlast p = d \<and> look fs p = Some Dir) (map fst fs))))"

fun parse_versions :: "string list \<Rightarrow> version list" where
  "parse_versions [] = []"
| "parse_versions (x # xs) = (case parse_version x of Inl _ \<Rightarrow> parse_versions xs | Inr v \<Rightarrow> v # parse_versions xs)"

definition local_versions :: "fs \<Rightarrow> string \<Rightarrow> (store_error, version list) result" where
  "local_versions fs i =
     (if parse_module_id i = None then Inl (StoreManifest (BadModuleId i))
      else if \<not> safe_path fs (module_dir i) then Inl (StoreFailure ''symlink'')
      else case look fs (module_dir i) of
             None \<Rightarrow> Inl NotFound
           | Some Dir \<Rightarrow> Inr (sort_desc (parse_versions (sub_dirs fs (module_dir i))))
           | Some _ \<Rightarrow> Inl (StoreFailure ''readdir''))"

definition local_manifest :: "formats \<Rightarrow> fs \<Rightarrow> release_id \<Rightarrow> (store_error, manifest) result" where
  "local_manifest fm fs r =
     (if parse_module_id (rel_id r) = None then Inl (StoreManifest (BadModuleId (rel_id r)))
      else if isl (parse_version (version_string (rel_version r))) then Inl (StoreFailure ''version'')
      else if \<not> safe_path fs (release_path r) then Inl (StoreFailure ''symlink'')
      else bindE (read_file fs (release_path r)) (\<lambda>b. map_err StoreManifest (parse_canonical fm b)))"

definition local_blob :: "fs \<Rightarrow> digest \<Rightarrow> (store_error, string) result" where
  "local_blob fs d =
     (if \<not> safe_path fs (blob_path d) then Inl (StoreFailure ''symlink'') else read_file fs (blob_path d))"

definition local_store :: "formats \<Rightarrow> fs \<Rightarrow> store" where
  "local_store fm fs = \<lparr>st_versions = local_versions fs, st_manifest = local_manifest fm fs, st_blob = local_blob fs\<rparr>"

definition open_local :: fs where
  "open_local = [([''v1'', ''blobs'', ''sha256''], Dir), ([''v1'', ''blobs''], Dir), ([''v1'', ''modules''], Dir), ([''v1''], Dir)]"

subsection \<open>The tree stays a tree\<close>

lemma set_ancestors: "set (ancestors p) = {take k p | k. 0 < k \<and> k < length p}"
  by (auto simp: ancestors_def)

lemma ancestors_trans: "a \<in> set (ancestors p) \<Longrightarrow> b \<in> set (ancestors a) \<Longrightarrow> b \<in> set (ancestors p)"
proof -
  assume "a \<in> set (ancestors p)" and "b \<in> set (ancestors a)"
  then obtain k j where k: "a = take k p" "k < length p" and j: "b = take j a" "0 < j" "j < length a"
    unfolding set_ancestors by blast
  have "j < k" using j(3) k by simp
  then have "b = take j p" using j(1) k(1) by (simp only: take_take min.absorb1 less_imp_le)
  then show ?thesis using j(2) \<open>j < k\<close> k(2) unfolding set_ancestors by (metis (mono_tags, lifting) less_trans mem_Collect_eq)
qed

lemma not_own_ancestor: "p \<notin> set (ancestors p)"
proof
  assume "p \<in> set (ancestors p)"
  then obtain k where k: "p = take k p" "k < length p" unfolding set_ancestors by blast
  have "length (take k p) = k" using k(2) by simp
  then show False using k by simp
qed

text \<open>Everything in the tree lies in directories, and there are no symbolic links.\<close>

definition fs_ok :: "fs \<Rightarrow> bool" where
  "fs_ok fs \<longleftrightarrow> (\<forall>p x. look fs p = Some x \<longrightarrow> x \<noteq> Symlink \<and> (\<forall>a \<in> set (ancestors p). look fs a = Some Dir))"

lemma look_make_dirs: "look (make_dirs ds fs) q = (case look fs q of Some x \<Rightarrow> Some x | None \<Rightarrow> if q \<in> set ds then Some Dir else None)"
  by (induction ds fs rule: make_dirs.induct) (auto simp: look_def split: option.splits)

lemma is_file_iff: "is_file fs p \<longleftrightarrow> (\<exists>b. look fs p = Some (File b))"
  by (auto simp: is_file_def split: option.splits entry.splits)

lemma write_cases:
  assumes "write_immutable fs p data = (fs', e)"
  obtains (same) "fs' = fs" "e \<noteq> None"
    | (there) "fs' = fs" "e = None" "look fs p = Some (File data)"
    | (created) "e = None" "look fs p = None" "\<forall>d \<in> set (ancestors p). \<forall>b. look fs d \<noteq> Some (File b)"
        "\<And>q. look fs' q = (if q = p then Some (File data) else case look fs q of Some x \<Rightarrow> Some x
           | None \<Rightarrow> if q \<in> set (ancestors p) then Some Dir else None)"
proof (cases "look fs p")
  case None
  then have r: "read_file fs p = Inl NotFound" by (simp add: read_file_def)
  show thesis
  proof (cases "\<exists>d \<in> set (ancestors p). \<exists>b. look fs d = Some (File b)")
    case True
    then have "fs' = fs" "e \<noteq> None" using assms r by (auto simp: write_immutable_def list_ex_iff is_file_iff)
    then show thesis by (rule same)
  next
    case False
    then have "fs' = (p, File data) # make_dirs (ancestors p) fs" "e = None" using assms r by (auto simp: write_immutable_def list_ex_iff is_file_iff)
    moreover have "look ((p, File data) # make_dirs (ancestors p) fs) q =
        (if q = p then Some (File data) else look (make_dirs (ancestors p) fs) q)" for q by (simp add: look_def)
    ultimately show thesis using created None False by (simp add: look_make_dirs)
  qed
next
  case (Some x)
  then show thesis
    using assms same there by (cases x) (auto simp: write_immutable_def read_file_def split: if_splits)
qed

lemma write_mono:
  assumes "write_immutable fs p data = (fs', e)" and "look fs q = Some x"
  shows "look fs' q = Some x"
  using assms(1)
proof (cases rule: write_cases)
  case created
  then show ?thesis using assms(2) by auto
qed (use assms in auto)

lemma write_there: "write_immutable fs p data = (fs', None) \<Longrightarrow> look fs' p = Some (File data)"
  by (erule write_cases) auto

lemma write_only:
  assumes "write_immutable fs p data = (fs', e)" and "look fs' q = Some (File b)"
  shows "look fs q = Some (File b) \<or> q = p \<and> b = data"
  using assms(1)
proof (cases rule: write_cases)
  case created
  then show ?thesis using assms(2) by (auto split: option.splits if_splits)
qed (use assms in auto)

lemma safe_from_intro:
  assumes "\<And>k. 0 < k \<Longrightarrow> k < length xs \<Longrightarrow> look fs (pre @ take k xs) = Some Dir" and "look fs (pre @ xs) \<noteq> Some Symlink"
  shows "safe_from fs pre xs"
  using assms
proof (induction xs arbitrary: pre)
  case (Cons x xs)
  show ?case
  proof (cases "xs = []")
    case True
    then show ?thesis using Cons.prems(2) by (auto split: option.splits entry.splits)
  next
    case False
    then have d: "look fs (pre @ [x]) = Some Dir" using Cons.prems(1) [of 1] by simp
    have "safe_from fs (pre @ [x]) xs"
    proof (rule Cons.IH)
      show "look fs ((pre @ [x]) @ take k xs) = Some Dir" if "0 < k" "k < length xs" for k
        using Cons.prems(1) [of "Suc k"] that by simp
    qed (use Cons.prems(2) in simp)
    then show ?thesis using d by simp
  qed
qed simp

lemma safe_exists:
  assumes "fs_ok fs" and "look fs p = Some x"
  shows "safe_path fs p"
  unfolding safe_path_def
proof (rule safe_from_intro)
  show "look fs ([] @ take k p) = Some Dir" if "0 < k" "k < length p" for k
    using assms that unfolding fs_ok_def set_ancestors by auto
  show "look fs ([] @ p) \<noteq> Some Symlink" using assms unfolding fs_ok_def by auto
qed

lemma write_fs_ok:
  assumes ok: "fs_ok fs" and w: "write_immutable fs p data = (fs', e)"
  shows "fs_ok fs'"
  using w
proof (cases rule: write_cases)
  case created
  have dirs: "look fs' a = Some Dir" if "a \<in> set (ancestors p)" for a
  proof -
    have "a \<noteq> p" using that not_own_ancestor by blast
    moreover have "x = Dir" if "look fs a = Some x" for x
    proof (cases x)
      case (File b)
      then show ?thesis using that created(3) \<open>a \<in> set (ancestors p)\<close> by simp
    next
      case Symlink
      then show ?thesis using that ok unfolding fs_ok_def by blast
    qed simp
    ultimately show ?thesis using created(4) [of a] that by (cases "look fs a") simp_all
  qed
  show ?thesis
    unfolding fs_ok_def
  proof (intro allI impI)
    fix q x assume q: "look fs' q = Some x"
    have "q = p \<and> x = File data \<or> look fs q = Some x \<or> q \<in> set (ancestors p) \<and> x = Dir"
      using q created(4) [of q] by (cases "q = p"; cases "look fs q"; cases "q \<in> set (ancestors p)") simp_all
    then consider "q = p" "x = File data" | "look fs q = Some x" | "q \<in> set (ancestors p)" "x = Dir" by blast
    then show "x \<noteq> Symlink \<and> (\<forall>a \<in> set (ancestors q). look fs' a = Some Dir)"
    proof cases
      case 1
      then show ?thesis using dirs by simp
    next
      case 2
      then have "x \<noteq> Symlink" "\<forall>a \<in> set (ancestors q). look fs a = Some Dir" using ok unfolding fs_ok_def by blast+
      then show ?thesis using write_mono [OF w] by blast
    next
      case 3
      then show ?thesis using dirs ancestors_trans by blast
    qed
  qed
qed (use ok in auto)

lemma open_local_ok: "fs_ok open_local"
proof -
  have "list_all (\<lambda>(p, x). x \<noteq> Symlink \<and> list_all (\<lambda>a. look open_local a = Some Dir) (ancestors p)) open_local" by code_simp
  then show ?thesis by (auto simp: fs_ok_def look_def list_all_iff dest!: map_of_SomeD)
qed

subsection \<open>Paths determine what they name\<close>

lemma version_string_inj: "version_string v = version_string u \<Longrightarrow> v = u"
proof -
  assume eq: "version_string v = version_string u"
  have cut: "cut_hyphen (version_string w) = (core_string w, pre_of w)" for w
    unfolding cut_hyphen_iff by (auto simp: version_string_split dest!: core_string_chars digit_not_dot)
  have "core_string v = core_string u" "pre_of v = pre_of u" using cut [of v] cut [of u] eq by simp_all
  then have "split_on (CHR ''.'') (core_string v) = split_on (CHR ''.'') (core_string u)" by simp
  then have "v_major v = v_major u" "v_minor v = v_minor u" "v_patch v = v_patch u"
    unfolding split_core_string by (auto dest!: show_nat_inj simp: word_unat_eq_iff)
  moreover have "v_pre v = v_pre u" using \<open>pre_of v = pre_of u\<close> by (auto simp: pre_of_def split: if_splits)
  ultimately show ?thesis by (intro version.equality) simp_all
qed

lemma release_path_eq:
  "release_path r = release_path r' \<longleftrightarrow> clean_segments (rel_id r) = clean_segments (rel_id r') \<and> rel_version r = rel_version r'"
  unfolding release_path_def module_dir_def using version_string_inj by auto

lemma take2_release: "take 2 (release_path r) = [''v1'', ''modules'']"
  by (simp add: release_path_def module_dir_def)

lemma take2_blob: "take 2 (blob_path d) = [''v1'', ''blobs'']"
  by (simp add: blob_path_def Let_def)

lemma blob_path_inj: "blob_path d = blob_path e \<Longrightarrow> d = e"
proof -
  assume "blob_path d = blob_path e"
  then have "hex_encode d = hex_encode e" unfolding blob_path_def Let_def by (metis append_take_drop_id list.inject)
  then show ?thesis using hex_decode_encode by (metis option.inject)
qed

text \<open>Module names without dot segments are determined by their path.\<close>

definition dotless :: "string \<Rightarrow> bool" where
  "dotless i \<longleftrightarrow> ''.'' \<notin> set (split_on (CHR ''/'') i) \<and> [] \<notin> set (split_on (CHR ''/'') i)"

lemma dotless_segments: "dotless i \<Longrightarrow> clean_segments i = split_on (CHR ''/'') i"
  unfolding clean_segments_def dotless_def by (intro filter_True) auto

lemma dotless_inj: "dotless i \<Longrightarrow> dotless j \<Longrightarrow> clean_segments i = clean_segments j \<Longrightarrow> i = j"
  using join_split_on [of "CHR ''/''"] by (metis dotless_segments)

subsection \<open>Publishing\<close>

lemma publish_blobs_mono:
  "publish_blobs fm blobs as fs = (fs', e) \<Longrightarrow> look fs q = Some x \<Longrightarrow> look fs' q = Some x"
proof (induction as arbitrary: fs)
  case (Cons a as)
  then show ?case
    by (auto split: option.splits if_splits prod.splits dest: write_mono)
qed simp

lemma publish_blobs_ok: "publish_blobs fm blobs as fs = (fs', e) \<Longrightarrow> fs_ok fs \<Longrightarrow> fs_ok fs'"
proof (induction as arbitrary: fs)
  case (Cons a as)
  then show ?case
    by (auto split: option.splits if_splits prod.splits dest: write_fs_ok)
qed simp

definition blob_there :: "formats \<Rightarrow> fs \<Rightarrow> digest \<Rightarrow> bool" where
  "blob_there fm fs d \<longleftrightarrow> (\<exists>b. look fs (blob_path d) = Some (File b) \<and> sha256 fm b = d)"

text \<open>Nothing that is in one tree is missing or different in another.\<close>

definition extends :: "fs \<Rightarrow> fs \<Rightarrow> bool" where
  "extends fs fs' \<longleftrightarrow> (\<forall>q x. look fs q = Some x \<longrightarrow> look fs' q = Some x)"

lemma blob_there_mono: "blob_there fm fs d \<Longrightarrow> extends fs fs' \<Longrightarrow> blob_there fm fs' d"
  unfolding blob_there_def extends_def by blast

lemma publish_blobs_extends: "publish_blobs fm blobs as fs = (fs', e) \<Longrightarrow> extends fs fs'"
  unfolding extends_def using publish_blobs_mono by blast

lemma write_extends: "write_immutable fs p b = (fs', e) \<Longrightarrow> extends fs fs'"
  unfolding extends_def using write_mono by blast

lemma publish_blobs_there:
  "publish_blobs fm blobs as fs = (fs', None) \<Longrightarrow> a \<in> set as \<Longrightarrow> blob_there fm fs' (a_digest a)"
proof (induction as arbitrary: fs)
  case (Cons x as)
  obtain b fs1 where b: "blobs (a_digest x) = Some b" "sha256 fm b = a_digest x"
      "write_immutable fs (blob_path (a_digest x)) b = (fs1, None)" "publish_blobs fm blobs as fs1 = (fs', None)"
    using Cons.prems(1) by (auto split: option.splits if_splits prod.splits)
  show ?case
  proof (cases "a = x")
    case True
    have "blob_there fm fs1 (a_digest x)" using write_there [OF b(3)] b(2) by (auto simp: blob_there_def)
    then show ?thesis using True publish_blobs_extends [OF b(4)] blob_there_mono by blast
  next
    case False
    then show ?thesis using Cons.IH [OF b(4)] Cons.prems(2) by simp
  qed
qed simp

lemma publish_blobs_given:
  "publish_blobs fm blobs as fs = (fs', None) \<Longrightarrow> a \<in> set as \<Longrightarrow>
     \<exists>b. blobs (a_digest a) = Some b \<and> look fs' (blob_path (a_digest a)) = Some (File b)"
proof (induction as arbitrary: fs)
  case (Cons x as)
  obtain b fs1 where b: "blobs (a_digest x) = Some b"
      "write_immutable fs (blob_path (a_digest x)) b = (fs1, None)" "publish_blobs fm blobs as fs1 = (fs', None)"
    using Cons.prems(1) by (auto split: option.splits if_splits prod.splits)
  show ?case
  proof (cases "a = x")
    case True
    then show ?thesis using b(1) write_there [OF b(2)] publish_blobs_mono [OF b(3)] by blast
  next
    case False
    then show ?thesis using Cons.IH [OF b(3)] Cons.prems(2) by simp
  qed
qed simp

lemma publish_blobs_only:
  "publish_blobs fm blobs as fs = (fs', e) \<Longrightarrow> look fs' q = Some (File b) \<Longrightarrow>
     look fs q = Some (File b) \<or> (\<exists>a \<in> set as. q = blob_path (a_digest a) \<and> sha256 fm b = a_digest a)"
proof (induction as arbitrary: fs)
  case (Cons x as)
  show ?case
  proof (cases "\<exists>c. blobs (a_digest x) = Some c \<and> sha256 fm c = a_digest x \<and> a_size x = int (length c) \<and>
      safe_path fs (blob_path (a_digest x))")
    case False
    then have "fs' = fs" using Cons.prems(1) by (auto split: option.splits if_splits)
    then show ?thesis using Cons.prems(2) by simp
  next
    case True
    then obtain c where c: "blobs (a_digest x) = Some c" "sha256 fm c = a_digest x" "a_size x = int (length c)"
      "safe_path fs (blob_path (a_digest x))" by blast
    obtain fs1 e1 where w: "write_immutable fs (blob_path (a_digest x)) c = (fs1, e1)" by force
    have "look fs1 q = Some (File b) \<or> (\<exists>a \<in> set as. q = blob_path (a_digest a) \<and> sha256 fm b = a_digest a)"
      using Cons.IH [of fs1] Cons.prems c w by (cases e1) auto
    then show ?thesis using write_only [OF w, of q b] c(2) by auto
  qed
qed simp

text \<open>One publication, split into its steps.\<close>

lemma publish_cases:
  assumes "publish fm fs data blobs = (fs', e)"
  obtains (rejected) "fs' = fs" "e \<noteq> None"
    | (blobs_only) m where "parse_manifest fm data = Inr m" "e \<noteq> None" "\<exists>e1. publish_blobs fm blobs (m_artifacts m) fs = (fs', e1)"
    | (written) m b fs1 where "parse_manifest fm data = Inr m" "canonical_manifest fm m = Some b"
        "publish_blobs fm blobs (m_artifacts m) fs = (fs1, None)"
        "write_immutable fs1 (release_path \<lparr>rel_id = m_id m, rel_version = m_version m\<rparr>) b = (fs', e)"
proof (cases "parse_manifest fm data")
  case (Inl x)
  then show thesis using assms rejected by (auto simp: publish_def)
next
  case (Inr m)
  show thesis
  proof (cases "canonical_manifest fm m")
    case None
    then show thesis using assms Inr rejected by (auto simp: publish_def)
  next
    case (Some b)
    obtain fs1 e1 where p: "publish_blobs fm blobs (m_artifacts m) fs = (fs1, e1)" by force
    show thesis
    proof (cases "e1 = None \<and> safe_path fs1 (release_path \<lparr>rel_id = m_id m, rel_version = m_version m\<rparr>)")
      case True
      then show thesis using assms Inr Some p written [of m b fs1] by (simp add: publish_def Let_def)
    next
      case False
      then have "fs' = fs1" "e \<noteq> None" using assms Inr Some p by (auto simp: publish_def Let_def split: option.splits if_splits)
      then show thesis using blobs_only [OF Inr] p by blast
    qed
  qed
qed

lemma publish_mono:
  assumes "publish fm fs data blobs = (fs', e)" and "look fs q = Some x"
  shows "look fs' q = Some x"
  using assms(1)
proof (cases rule: publish_cases)
  case (blobs_only m)
  then show ?thesis using publish_blobs_mono assms(2) by blast
next
  case (written m b fs1)
  then show ?thesis using publish_blobs_mono [OF written(3) assms(2)] write_mono by blast
qed (use assms in simp)

lemma publish_fs_ok:
  assumes "publish fm fs data blobs = (fs', e)" and "fs_ok fs"
  shows "fs_ok fs'"
  using assms(1)
proof (cases rule: publish_cases)
  case (blobs_only m)
  then show ?thesis using publish_blobs_ok assms(2) by blast
next
  case (written m b fs1)
  then show ?thesis using publish_blobs_ok [OF written(3) assms(2)] write_fs_ok by blast
qed (use assms in simp)

subsection \<open>The invariant of the store\<close>

text \<open>Every file under \<^verbatim>\<open>modules\<close> is the canonical manifest of a parsed manifest, at the path of its release,
  and the bytes of its artifacts are there; every file under \<^verbatim>\<open>blobs\<close> has the digest of its path.\<close>

definition manifest_file :: "formats \<Rightarrow> fs \<Rightarrow> path \<Rightarrow> string \<Rightarrow> bool" where
  "manifest_file fm fs p b \<longleftrightarrow> (\<exists>data m. parse_manifest fm data = Inr m \<and> canonical_manifest fm m = Some b \<and>
     p = release_path \<lparr>rel_id = m_id m, rel_version = m_version m\<rparr> \<and> (\<forall>a \<in> set (m_artifacts m). blob_there fm fs (a_digest a)))"

definition blob_file :: "formats \<Rightarrow> path \<Rightarrow> string \<Rightarrow> bool" where
  "blob_file fm p b \<longleftrightarrow> (\<exists>d. p = blob_path d \<and> sha256 fm b = d)"

lemma manifest_file_mono:
  assumes "manifest_file fm fs p b" and e: "extends fs fs'"
  shows "manifest_file fm fs' p b"
proof -
  obtain data m where m: "parse_manifest fm data = Inr m" "canonical_manifest fm m = Some b"
     "p = release_path \<lparr>rel_id = m_id m, rel_version = m_version m\<rparr>" "\<forall>a \<in> set (m_artifacts m). blob_there fm fs (a_digest a)"
    using assms(1) unfolding manifest_file_def by blast
  have "\<forall>a \<in> set (m_artifacts m). blob_there fm fs' (a_digest a)" using m(4) blob_there_mono [OF _ e] by blast
  then show ?thesis unfolding manifest_file_def using m(1-3) by blast
qed

definition file_ok :: "formats \<Rightarrow> fs \<Rightarrow> path \<Rightarrow> string \<Rightarrow> bool" where
  "file_ok fm fs p b \<longleftrightarrow> (take 2 p = [''v1'', ''modules''] \<and> manifest_file fm fs p b) \<or> (take 2 p = [''v1'', ''blobs''] \<and> blob_file fm p b)"

definition store_inv :: "formats \<Rightarrow> fs \<Rightarrow> bool" where
  "store_inv fm fs \<longleftrightarrow> fs_ok fs \<and> (\<forall>p b. look fs p = Some (File b) \<longrightarrow> file_ok fm fs p b)"

lemma file_ok_mono: "file_ok fm fs p b \<Longrightarrow> extends fs fs' \<Longrightarrow> file_ok fm fs' p b"
  unfolding file_ok_def using manifest_file_mono by blast

lemma publish_extends: "publish fm fs data blobs = (fs', e) \<Longrightarrow> extends fs fs'"
  unfolding extends_def using publish_mono by blast

lemma blob_file_ok: "sha256 fm b = d \<Longrightarrow> file_ok fm fs (blob_path d) b"
  unfolding file_ok_def blob_file_def by (auto simp: take2_blob)

lemma publish_inv:
  assumes inv: "store_inv fm fs" and p: "publish fm fs data blobs = (fs', e)"
  shows "store_inv fm fs'"
  unfolding store_inv_def
proof (intro conjI allI impI)
  show "fs_ok fs'" using publish_fs_ok [OF p] inv by (simp add: store_inv_def)
  fix q b assume q: "look fs' q = Some (File b)"
  have old: "file_ok fm fs' q b" if "look fs q = Some (File b)"
    using inv that file_ok_mono [OF _ publish_extends [OF p]] unfolding store_inv_def by blast
  have blob: "file_ok fm fs' q b" if "look fs1 q = Some (File b)" "publish_blobs fm blobs as fs = (fs1, e1)" for fs1 as e1
    using publish_blobs_only [OF that(2,1)] old blob_file_ok by blast
  from p show "file_ok fm fs' q b"
  proof (cases rule: publish_cases)
    case rejected
    then show ?thesis using old q by simp
  next
    case (blobs_only m)
    then show ?thesis using blob [OF q] by blast
  next
    case (written m c fs1)
    note w = written(4)
    show ?thesis
    proof (cases "look fs1 q = Some (File b)")
      case True
      then show ?thesis using blob written(3) by blast
    next
      case False
      then have qc: "q = release_path \<lparr>rel_id = m_id m, rel_version = m_version m\<rparr>" "b = c" using write_only [OF w q] by auto
      have "\<forall>a \<in> set (m_artifacts m). blob_there fm fs' (a_digest a)"
        using publish_blobs_there [OF written(3)] blob_there_mono [OF _ write_extends [OF w]] by blast
      then have "manifest_file fm fs' q b" unfolding manifest_file_def using written(1,2) qc by blast
      then show ?thesis unfolding file_ok_def using qc(1) take2_release by simp
    qed
  qed
qed

lemma open_local_inv: "store_inv fm open_local"
proof -
  have "look open_local p \<noteq> Some (File b)" for p b by (auto simp: look_def open_local_def split: if_splits)
  then show ?thesis unfolding store_inv_def using open_local_ok by blast
qed

subsection \<open>Reading back\<close>

text \<open>What the store relies on of JSON: it decodes what it encoded, for the manifests that parse.\<close>

definition json_ok :: "formats \<Rightarrow> bool" where
  "json_ok fm \<longleftrightarrow> (\<forall>data m b. parse_manifest fm data = Inr m \<longrightarrow> canonical_manifest fm m = Some b \<longrightarrow>
     json_decode fm b = Some (canonical_of m))"

lemma read_manifest_file:
  assumes j: "json_ok fm" and f: "manifest_file fm fs p b" and r: "parse_canonical fm b = Inr m"
  shows "manifest_wf m" and "p = release_path \<lparr>rel_id = m_id m, rel_version = m_version m\<rparr>"
    and "\<forall>a \<in> set (m_artifacts m). blob_there fm fs (a_digest a)"
proof -
  obtain data k where k: "parse_manifest fm data = Inr k" "canonical_manifest fm k = Some b"
     "p = release_path \<lparr>rel_id = m_id k, rel_version = m_version k\<rparr>" "\<forall>a \<in> set (m_artifacts k). blob_there fm fs (a_digest a)"
    using f unfolding manifest_file_def by blast
  have wf: "manifest_wf k" using k(1) by (rule parsed_wf)
  then have "parse_canonical fm b = Inr k" using parse_canonical_wf [OF wf k(2)] j k(1,2) unfolding json_ok_def by blast
  then have "k = m" using r by simp
  then show "manifest_wf m" "p = release_path \<lparr>rel_id = m_id m, rel_version = m_version m\<rparr>"
    "\<forall>a \<in> set (m_artifacts m). blob_there fm fs (a_digest a)" using wf k by simp_all
qed

lemma local_manifest_Inr:
  assumes inv: "store_inv fm fs" and j: "json_ok fm" and m: "local_manifest fm fs r = Inr m"
  shows "manifest_wf m" and "rel_version r = m_version m" and "clean_segments (rel_id r) = clean_segments (m_id m)"
    and "\<forall>a \<in> set (m_artifacts m). blob_there fm fs (a_digest a)"
proof -
  obtain b where b: "look fs (release_path r) = Some (File b)" "parse_canonical fm b = Inr m"
    using m by (auto simp: local_manifest_def read_file_def split: if_splits option.splits entry.splits)
  have "manifest_file fm fs (release_path r) b"
    using inv b(1) take2_release [of r] unfolding store_inv_def file_ok_def by fastforce
  note f = read_manifest_file [OF j this b(2)]
  then show "manifest_wf m" "\<forall>a \<in> set (m_artifacts m). blob_there fm fs (a_digest a)" by simp_all
  show "rel_version r = m_version m" "clean_segments (rel_id r) = clean_segments (m_id m)"
    using f(2) unfolding release_path_eq by simp_all
qed

lemma local_honest: "store_inv fm fs \<Longrightarrow> json_ok fm \<Longrightarrow> honest (local_store fm fs)"
  unfolding honest_def local_store_def using local_manifest_Inr(1,2) by fastforce

lemma local_blob_there:
  assumes "fs_ok fs" and "blob_there fm fs d"
  shows "\<exists>b. local_blob fs d = Inr b \<and> sha256 fm b = d"
proof -
  obtain b where b: "look fs (blob_path d) = Some (File b)" "sha256 fm b = d" using assms(2) unfolding blob_there_def by blast
  then show ?thesis using safe_exists [OF assms(1) b(1)] by (simp add: local_blob_def read_file_def)
qed

lemma local_serves:
  assumes "store_inv fm fs" and "json_ok fm"
  shows "serves fm (local_store fm fs)"
  unfolding serves_def
proof (intro allI impI ballI)
  fix i m a assume m: "from_store (local_store fm fs) i m" and a: "a \<in> set (m_artifacts m)"
  obtain v where "local_manifest fm fs \<lparr>rel_id = i, rel_version = v\<rparr> = Inr m"
    using m unfolding from_store_def by (auto simp: local_store_def)
  then have "blob_there fm fs (a_digest a)" using local_manifest_Inr(4) [OF assms] a by blast
  then show "\<exists>b. st_blob (local_store fm fs) (a_digest a) = Inr b \<and> sha256 fm b = a_digest a"
    using local_blob_there assms(1) unfolding store_inv_def by (simp add: local_store_def)
qed

lemma local_manifest_mono:
  assumes "fs_ok fs'" and e: "extends fs fs'" and m: "local_manifest fm fs r = Inr m"
  shows "local_manifest fm fs' r = Inr m"
proof -
  obtain b where b: "look fs (release_path r) = Some (File b)" "parse_canonical fm b = Inr m"
      "parse_module_id (rel_id r) \<noteq> None" "\<not> isl (parse_version (version_string (rel_version r)))"
    using m by (auto simp: local_manifest_def read_file_def split: if_splits option.splits entry.splits)
  have b': "look fs' (release_path r) = Some (File b)" using e b(1) unfolding extends_def by blast
  show ?thesis using b b' safe_exists [OF assms(1) b'] by (simp add: local_manifest_def read_file_def)
qed

lemma local_blob_mono:
  assumes "fs_ok fs'" and e: "extends fs fs'" and b: "local_blob fs d = Inr b"
  shows "local_blob fs' d = Inr b"
proof -
  have "look fs (blob_path d) = Some (File b)"
    using b by (auto simp: local_blob_def read_file_def split: if_splits option.splits entry.splits)
  then have b': "look fs' (blob_path d) = Some (File b)" using e unfolding extends_def by blast
  then show ?thesis using safe_exists [OF assms(1) b'] by (simp add: local_blob_def read_file_def)
qed

subsection \<open>The interface of a module storage\<close>

text \<open>What resolution and verification rely on of a storage: publishing keeps its invariant and what it
  served, and under the invariant its answers are honest and complete.\<close>

locale module_storage =
  fixes fm :: formats and view :: "'st \<Rightarrow> store"
    and add :: "'st \<Rightarrow> string \<Rightarrow> (digest \<rightharpoonup> string) \<Rightarrow> 'st \<times> store_error option" and inv :: "'st \<Rightarrow> bool"
  assumes inv_add: "inv st \<Longrightarrow> inv (fst (add st data blobs))"
    and view_honest: "inv st \<Longrightarrow> honest (view st)"
    and view_serves: "inv st \<Longrightarrow> serves fm (view st)"
    and manifest_kept: "inv st \<Longrightarrow> st_manifest (view st) r = Inr m \<Longrightarrow> st_manifest (view (fst (add st data blobs))) r = Inr m"
    and blob_kept: "inv st \<Longrightarrow> st_blob (view st) d = Inr b \<Longrightarrow> st_blob (view (fst (add st data blobs))) d = Inr b"
begin

lemma module_kept:
  assumes "inv st" and "check_module fm (view st) T locked lm = Inr ()"
  shows "check_module fm (view (fst (add st data blobs))) T locked lm = Inr ()"
  using assms(2) manifest_kept [OF assms(1)] blob_kept [OF assms(1)]
  by (auto simp: check_module_def split: option.splits)

lemma verify_kept:
  assumes i: "inv st" and v: "verify fm (view st) l = Inr ()"
  shows "verify fm (view (fst (add st data blobs))) l = Inr ()"
proof -
  obtain locked us vs where c: "l_schema l = 1" "check_order (l_modules l) None Map.empty = Inr locked"
      "mapM (check_root locked) (l_roots l) = Inr us" "mapM (check_module fm (view st) (l_target l) locked) (l_modules l) = Inr vs"
    using v by (auto simp: verify_def)
  have "check_module fm (view (fst (add st data blobs))) (l_target l) locked lm = Inr ()" if "lm \<in> set (l_modules l)" for lm
    using module_kept [OF i mapM_unitsD [OF c(4) that]] .
  then obtain ws where "mapM (check_module fm (view (fst (add st data blobs))) (l_target l) locked) (l_modules l) = Inr ws"
    using mapM_units [of "l_modules l" "check_module fm (view (fst (add st data blobs))) (l_target l) locked"] by blast
  then show ?thesis using c by (simp add: verify_def)
qed

end

interpretation ls: module_storage fm "local_store fm" "publish fm" "\<lambda>fs. json_ok fm \<and> store_inv fm fs" for fm
proof unfold_locales
  fix fs data blobs assume i: "json_ok fm \<and> store_inv fm fs"
  obtain fs' e where p: "publish fm fs data blobs = (fs', e)" by force
  have i': "store_inv fm fs'" using publish_inv [OF _ p] i by blast
  then show "json_ok fm \<and> store_inv fm (fst (publish fm fs data blobs))" using i p by simp
  show "honest (local_store fm fs)" "serves fm (local_store fm fs)" using i local_honest local_serves by blast+
  have ok: "fs_ok fs'" "extends fs fs'" using i' publish_extends [OF p] unfolding store_inv_def by blast+
  show "st_manifest (local_store fm (fst (publish fm fs data blobs))) r = Inr m"
    if "st_manifest (local_store fm fs) r = Inr m" for r m
    using that local_manifest_mono [OF ok] p by (simp add: local_store_def)
  show "st_blob (local_store fm (fst (publish fm fs data blobs))) d = Inr b"
    if "st_blob (local_store fm fs) d = Inr b" for d b
    using that local_blob_mono [OF ok] p by (simp add: local_store_def)
qed

subsection \<open>Reachable stores\<close>

text \<open>A store that was opened empty and then only published to.\<close>

inductive store_reach :: "formats \<Rightarrow> fs \<Rightarrow> bool" for fm where
  opened: "store_reach fm open_local"
| published: "store_reach fm fs \<Longrightarrow> store_reach fm (fst (publish fm fs data blobs))"

inductive_cases store_reach_cases: "store_reach fm fs"

lemma store_reach_inv: "store_reach fm fs \<Longrightarrow> store_inv fm fs"
  by (induction rule: store_reach.induct) (metis open_local_inv, metis publish_inv prod.collapse)

lemma store_reach_good: "json_ok fm \<Longrightarrow> store_reach fm fs \<Longrightarrow> json_ok fm \<and> store_inv fm fs"
  using store_reach_inv by blast

lemma local_blob_sum:
  assumes "store_inv fm fs" and "local_blob fs d = Inr b"
  shows "sha256 fm b = d"
proof -
  have "look fs (blob_path d) = Some (File b)"
    using assms(2) by (auto simp: local_blob_def read_file_def split: if_splits option.splits entry.splits)
  then have "file_ok fm fs (blob_path d) b" using assms(1) unfolding store_inv_def by blast
  then obtain d' where "blob_path d = blob_path d'" "sha256 fm b = d'"
    unfolding file_ok_def blob_file_def using take2_blob [of d] by auto
  then show ?thesis using blob_path_inj by blast
qed

text \<open>The directory of a release lists its version.\<close>

lemma insert_desc_set: "set (insert_desc v us) = insert v (set us)"
  by (induction us) auto

lemma sort_desc_set: "set (sort_desc vs) = set vs"
  unfolding sort_desc_def by (induction vs) (auto simp: insert_desc_set)

lemma insert_desc_sorted:
  assumes "valid_version v" and "list_all valid_version us" and "sorted_wrt (\<lambda>a b. version_compare b a \<le> 0) us"
  shows "sorted_wrt (\<lambda>a b. version_compare b a \<le> 0) (insert_desc v us)"
  using assms(2,3)
proof (induction us)
  case (Cons u us)
  have u: "valid_version u" and us: "list_all valid_version us" using Cons.prems(1) by simp_all
  show ?case
  proof (cases "version_compare v u > 0")
    case True
    then have "version_compare u v \<le> 0" using vc.cmp_flip [OF assms(1) u] by simp
    then have "version_compare w v \<le> 0" if "w \<in> set us" for w
      using that Cons.prems(2) us vc.cmp_trans [of w u v] u assms(1) by (auto simp: list_all_iff)
    then show ?thesis using True \<open>version_compare u v \<le> 0\<close> Cons.prems(2) by simp
  next
    case False
    then show ?thesis using Cons us by (auto simp: insert_desc_set)
  qed
qed simp

lemma sort_desc_sorted: "list_all valid_version vs \<Longrightarrow> sorted_wrt (\<lambda>a b. version_compare b a \<le> 0) (sort_desc vs)"
proof (induction vs)
  case (Cons v vs)
  have "list_all valid_version (sort_desc vs)" using Cons.prems sort_desc_set by (auto simp: list_all_iff)
  then show ?case using Cons insert_desc_sorted [of v "sort_desc vs"] by (simp add: sort_desc_def)
qed (simp add: sort_desc_def)

lemma sort_desc_hd:
  assumes "sort_desc vs = v # us" and "list_all valid_version vs" and "u \<in> set vs"
  shows "version_compare u v \<le> 0"
proof (cases "u = v")
  case True
  then have "valid_version u" using assms(2,3) by (simp add: list_all_iff)
  then show ?thesis using True vc.cmp_eq [of u u] by simp
next
  case False
  have "u \<in> set (sort_desc vs)" using assms(3) sort_desc_set by blast
  then have "u \<in> set us" using False assms(1) by simp
  then show ?thesis using sort_desc_sorted [OF assms(2)] assms(1) by simp
qed

lemma parse_versions_set: "set (parse_versions xs) = {v. \<exists>x \<in> set xs. parse_version x = Inr v}"
  by (induction xs) (auto split: sum.splits)

lemma sub_dirs_set: "set (sub_dirs fs d) = {x. look fs (d @ [x]) = Some Dir}"
proof -
  have "x \<in> set (sub_dirs fs d) \<longleftrightarrow> look fs (d @ [x]) = Some Dir" for x
  proof
    assume "x \<in> set (sub_dirs fs d)"
    then obtain p where "p \<noteq> []" "butlast p = d" "look fs p = Some Dir" "x = last p" unfolding sub_dirs_def by auto
    then show "look fs (d @ [x]) = Some Dir" by (metis append_butlast_last_id)
  next
    assume l: "look fs (d @ [x]) = Some Dir"
    then have "d @ [x] \<in> set (map fst fs)" unfolding look_def by (force dest: map_of_SomeD)
    then have "d @ [x] \<in> set (filter (\<lambda>p. p \<noteq> [] \<and> butlast p = d \<and> look fs p = Some Dir) (map fst fs))" using l by simp
    then have "last (d @ [x]) \<in> set (sub_dirs fs d)" unfolding sub_dirs_def by (metis (no_types, lifting) imageI list.set_map set_remdups set_sort)
    then show "x \<in> set (sub_dirs fs d)" by simp
  qed
  then show ?thesis by blast
qed

lemma local_versions_there:
  assumes ok: "fs_ok fs" and there: "look fs (release_path \<lparr>rel_id = i, rel_version = v\<rparr>) = Some x"
    and i: "parse_module_id i \<noteq> None" and v: "parse_version (version_string v) = Inr v"
  shows "\<exists>vs. local_versions fs i = Inr vs \<and> v \<in> set vs"
proof -
  let ?d = "module_dir i" and ?p = "release_path \<lparr>rel_id = i, rel_version = v\<rparr>"
  have p: "?p = ?d @ [version_string v, ''manifest.json'']" by (simp add: release_path_def)
  have len: "0 < length ?d" by (simp add: module_dir_def)
  have d: "take (length ?d) ?p = ?d" "take (Suc (length ?d)) ?p = ?d @ [version_string v]" unfolding p by simp_all
  have "length ?d < length ?p" "Suc (length ?d) < length ?p" unfolding p by simp_all
  then have "take (length ?d) ?p \<in> set (ancestors ?p)" "take (Suc (length ?d)) ?p \<in> set (ancestors ?p)"
    unfolding set_ancestors using len by blast+
  then have dirs: "look fs ?d = Some Dir" "look fs (?d @ [version_string v]) = Some Dir"
    using ok there unfolding fs_ok_def d by blast+
  have "version_string v \<in> set (sub_dirs fs ?d)" using dirs(2) unfolding sub_dirs_set by simp
  then have "v \<in> set (sort_desc (parse_versions (sub_dirs fs ?d)))" using v unfolding sort_desc_set parse_versions_set by blast
  then show ?thesis using i dirs(1) safe_exists [OF ok dirs(1)] by (simp add: local_versions_def)
qed

text \<open>What a successful publication makes readable.\<close>

lemma publish_served:
  assumes "json_ok fm" and "store_inv fm fs" and "publish fm fs data blobs = (fs', None)"
  shows "\<exists>m vs. parse_manifest fm data = Inr m \<and>
    local_manifest fm fs' \<lparr>rel_id = m_id m, rel_version = m_version m\<rparr> = Inr m \<and>
    (\<forall>a \<in> set (m_artifacts m). \<exists>b. blobs (a_digest a) = Some b \<and> local_blob fs' (a_digest a) = Inr b) \<and>
    local_versions fs' (m_id m) = Inr vs \<and> m_version m \<in> set vs"
proof -
  have inv': "store_inv fm fs'" using publish_inv [OF assms(2,3)] .
  then have ok: "fs_ok fs'" by (simp add: store_inv_def)
  obtain m b fs1 where m: "parse_manifest fm data = Inr m" "canonical_manifest fm m = Some b"
      "publish_blobs fm blobs (m_artifacts m) fs = (fs1, None)"
      "write_immutable fs1 (release_path \<lparr>rel_id = m_id m, rel_version = m_version m\<rparr>) b = (fs', None)"
    using assms(3) by (cases rule: publish_cases) auto
  have wf: "manifest_wf m" using m(1) by (rule parsed_wf)
  then have names: "parse_module_id (m_id m) \<noteq> None" "parse_version (version_string (m_version m)) = Inr (m_version m)"
    by (auto simp: manifest_wf_def parse_version_string)
  note written = write_there [OF m(4)]
  have "parse_canonical fm b = Inr m"
    using parse_canonical_wf [OF wf m(2)] assms(1) m(1,2) unfolding json_ok_def by blast
  then have 1: "local_manifest fm fs' \<lparr>rel_id = m_id m, rel_version = m_version m\<rparr> = Inr m"
    using names written safe_exists [OF ok written] by (simp add: local_manifest_def read_file_def)
  have 2: "\<exists>b. blobs (a_digest a) = Some b \<and> local_blob fs' (a_digest a) = Inr b" if "a \<in> set (m_artifacts m)" for a
    using publish_blobs_given [OF m(3) that] write_mono [OF m(4)] safe_exists [OF ok] by (force simp: local_blob_def read_file_def)
  show ?thesis using m(1) 1 2 local_versions_there [OF ok written names] by blast
qed

subsection \<open>Properties\<close>

text \<open>C14: Whatever was published to a store, and however publications ended, the store is content-addressed and
  consistent: a blob it serves has the digest it was asked for, a manifest it serves is well formed and has the
  version asked for, and the bytes of every artifact of a listed release are there with their digest.\<close>

theorem store_sound:
  assumes "json_ok fm" and "store_reach fm fs"
  shows "honest (local_store fm fs) \<and> serves fm (local_store fm fs) \<and>
    (\<forall>d b. local_blob fs d = Inr b \<longrightarrow> sha256 fm b = d)"
  using ls.view_honest ls.view_serves store_reach_good [OF assms] local_blob_sum by blast

text \<open>A publication that succeeds is served: the manifest reads back as it was parsed, every artifact's bytes
  are the ones handed in, and the version is listed under the module's name.\<close>

theorem publish_readable:
  assumes "json_ok fm" and "store_reach fm fs" and "publish fm fs data blobs = (fs', None)"
  shows "\<exists>m vs. parse_manifest fm data = Inr m \<and>
    local_manifest fm fs' \<lparr>rel_id = m_id m, rel_version = m_version m\<rparr> = Inr m \<and>
    (\<forall>a \<in> set (m_artifacts m). \<exists>b. blobs (a_digest a) = Some b \<and> local_blob fs' (a_digest a) = Inr b) \<and>
    local_versions fs' (m_id m) = Inr vs \<and> m_version m \<in> set vs"
  using publish_served [OF assms(1) store_reach_inv [OF assms(2)] assms(3)] .

text \<open>C33: Releases are immutable: a publication, successful or not, leaves every file and directory as it was,
  and publishing different contents under the name and version of a release that is there fails.\<close>

theorem publish_immutable:
  assumes "publish fm fs data blobs = (fs', e)"
  shows "(\<forall>q x. look fs q = Some x \<longrightarrow> look fs' q = Some x) \<and>
    (\<forall>m c old. parse_manifest fm data = Inr m \<longrightarrow> canonical_manifest fm m = Some c \<longrightarrow>
       look fs (release_path \<lparr>rel_id = m_id m, rel_version = m_version m\<rparr>) = Some (File old) \<longrightarrow> old \<noteq> c \<longrightarrow> e \<noteq> None)"
proof (intro conjI allI impI)
  show "look fs' q = Some x" if "look fs q = Some x" for q x using publish_mono [OF assms that] .
  fix m c old assume m: "parse_manifest fm data = Inr m" "canonical_manifest fm m = Some c"
    and old: "look fs (release_path \<lparr>rel_id = m_id m, rel_version = m_version m\<rparr>) = Some (File old)" and ne: "old \<noteq> c"
  from assms show "e \<noteq> None"
  proof (cases rule: publish_cases)
    case (written k b fs1)
    then have kb: "k = m" "b = c" using m by simp_all
    show ?thesis
    proof
      assume "e = None"
      then have "look fs' (release_path \<lparr>rel_id = m_id m, rel_version = m_version m\<rparr>) = Some (File c)"
        using write_there [of fs1 _ c fs'] written(4) kb by simp
      then show False using publish_mono [OF assms old] ne by simp
    qed
  qed auto
qed

text \<open>A lock that verifies against a store still verifies after any further publications.\<close>

theorem lock_survives:
  assumes "json_ok fm" and "store_reach fm fs" and "verify fm (local_store fm fs) l = Inr ()"
  shows "verify fm (local_store fm (fold (\<lambda>(data, blobs) fs. fst (publish fm fs data blobs)) ps fs)) l = Inr ()"
  using assms(2,3)
proof (induction ps arbitrary: fs)
  case (Cons p ps)
  obtain data blobs where p: "p = (data, blobs)" by force
  show ?case
    using Cons.IH [OF store_reach.published [OF Cons.prems(1)] ls.verify_kept [OF store_reach_good [OF assms(1) Cons.prems(1)] Cons.prems(2)]]
    by (simp add: p)
qed simp

subsection \<open>Witnesses\<close>

lemma demo_json_ok: "json_ok demo_formats"
proof -
  have web: "data = ''web''" if "parse_manifest demo_formats data = Inr m" for data m
    using that by (auto simp: parse_manifest_def demo_formats_def split: if_splits)
  have "json_decode demo_formats ''json'' = Some (canonical_of demo_manifest)" by code_simp
  moreover have "b = ''json''" if "canonical_manifest demo_formats m = Some b" for m b
    using that by (simp add: canonical_manifest_def demo_formats_def)
  ultimately show ?thesis unfolding json_ok_def using web demo_manifest_parsed by force
qed

definition demo_fs :: fs where
  "demo_fs = fst (publish demo_formats open_local ''web'' [replicate 32 7 \<mapsto> ''abc''])"

lemma demo_fs_reach: "store_reach demo_formats demo_fs"
  unfolding demo_fs_def by (intro store_reach.intros)

lemma demo_published: "publish demo_formats open_local ''web'' [replicate 32 7 \<mapsto> ''abc''] = (demo_fs, None)"
proof -
  have "snd (publish demo_formats open_local ''web'' [replicate 32 7 \<mapsto> ''abc'']) = None" by code_simp
  then show ?thesis unfolding demo_fs_def by (simp add: prod_eq_iff)
qed

theorem store_sound_witness: "local_blob demo_fs (replicate 32 7) = Inr ''abc'' \<and> honest (local_store demo_formats demo_fs)"
proof -
  have "local_blob demo_fs (replicate 32 7) = Inr ''abc''" by code_simp
  then show ?thesis using store_sound [OF demo_json_ok demo_fs_reach] by blast
qed

theorem publish_readable_witness:
  "local_manifest demo_formats demo_fs \<lparr>rel_id = ''acme/web'', rel_version = plain_version 1 2 3\<rparr> = Inr demo_manifest"
proof -
  have "m_id demo_manifest = ''acme/web''" "m_version demo_manifest = plain_version 1 2 3" by code_simp+
  then show ?thesis
    using publish_readable [OF demo_json_ok store_reach.opened demo_published] demo_manifest_parsed by auto
qed

text \<open>A release directory that already holds other contents.\<close>

definition clash_fs :: fs where
  "clash_fs = (release_path \<lparr>rel_id = ''acme/web'', rel_version = plain_version 1 2 3\<rparr>, File ''old'') # open_local"

theorem publish_immutable_witness: "snd (publish demo_formats clash_fs ''web'' [replicate 32 7 \<mapsto> ''abc'']) \<noteq> None"
proof -
  have "canonical_manifest demo_formats demo_manifest = Some ''json''"
    "look clash_fs (release_path \<lparr>rel_id = m_id demo_manifest, rel_version = m_version demo_manifest\<rparr>) = Some (File ''old'')"
    by code_simp+
  then show ?thesis
    using publish_immutable [of demo_formats clash_fs "''web''" "[replicate 32 7 \<mapsto> ''abc'']"
        "fst (publish demo_formats clash_fs ''web'' [replicate 32 7 \<mapsto> ''abc''])"
        "snd (publish demo_formats clash_fs ''web'' [replicate 32 7 \<mapsto> ''abc''])"] demo_manifest_parsed by simp
qed

text \<open>Two modules without dependencies; the name of the second has a dot segment.\<close>

definition solo_raw :: "string \<Rightarrow> raw_manifest" where
  "solo_raw i = demo_raw\<lparr>r_id := i, r_dependencies := []\<rparr>"

definition solo_canonical :: "string \<Rightarrow> canonical" where
  "solo_canonical i = canonical_of (demo_manifest\<lparr>m_id := i, m_dependencies := []\<rparr>)"

definition solo_formats :: formats where
  "solo_formats = demo_formats\<lparr>
     toml_manifest := (\<lambda>s. if s = ''solo'' \<or> s = ''a/./b'' then Some (solo_raw s, []) else None),
     json_encode := (\<lambda>c. Some (c_id c)),
     json_decode := (\<lambda>s. if s = ''solo'' \<or> s = ''a/./b'' then Some (solo_canonical s) else None)\<rparr>"

lemma solo_json_ok: "json_ok solo_formats"
proof -
  have solo: "data = ''solo'' \<or> data = ''a/./b''" if "parse_manifest solo_formats data = Inr m" for data m
    using that by (auto simp: parse_manifest_def solo_formats_def demo_formats_def split: if_splits)
  have "parse_manifest solo_formats ''solo'' = Inr (demo_manifest\<lparr>m_id := ''solo'', m_dependencies := []\<rparr>)"
    "parse_manifest solo_formats ''a/./b'' = Inr (demo_manifest\<lparr>m_id := ''a/./b'', m_dependencies := []\<rparr>)" by code_simp+
  then have m: "m = demo_manifest\<lparr>m_id := data, m_dependencies := []\<rparr>" if "parse_manifest solo_formats data = Inr m" for data m
    using that solo [OF that] by auto
  have b: "b = m_id m" if "canonical_manifest solo_formats m = Some b" for m b
    using that by (simp add: canonical_manifest_def solo_formats_def canonical_of_def)
  have d: "json_decode solo_formats i = Some (solo_canonical i)" if "i = ''solo'' \<or> i = ''a/./b''" for i
    using that by (auto simp: solo_formats_def)
  show ?thesis
    unfolding json_ok_def
  proof (intro allI impI)
    fix data k c assume k: "parse_manifest solo_formats data = Inr k" and c: "canonical_manifest solo_formats k = Some c"
    have "c = data" using b [OF c] m [OF k] by simp
    then show "json_decode solo_formats c = Some (canonical_of k)" using d [OF solo [OF k]] m [OF k] by (simp add: solo_canonical_def)
  qed
qed

definition solo_fs :: fs where
  "solo_fs =
     [([''v1'', ''modules'', ''solo'', ''1.2.3'', ''manifest.json''], File ''solo''),
      ([''v1'', ''modules'', ''solo'', ''1.2.3''], Dir), ([''v1'', ''modules'', ''solo''], Dir),
      ([''v1'', ''blobs'', ''sha256'', ''07'', ''07070707070707070707070707070707070707070707070707070707070707''], File ''abc''),
      ([''v1'', ''blobs'', ''sha256'', ''07''], Dir), ([''v1'', ''blobs'', ''sha256''], Dir), ([''v1'', ''blobs''], Dir),
      ([''v1'', ''modules''], Dir), ([''v1''], Dir)]"

lemma solo_published: "publish solo_formats open_local ''solo'' [replicate 32 7 \<mapsto> ''abc''] = (solo_fs, None)"
  by code_simp

lemma solo_fs_reach: "store_reach solo_formats solo_fs"
  using store_reach.published [OF store_reach.opened, of solo_formats "''solo''" "[replicate 32 7 \<mapsto> ''abc'']"]
  by (simp add: solo_published)

definition solo_lock :: lock where
  "solo_lock = \<lparr>l_schema = 1, l_target = ''wasm'', l_roots = [\<lparr>d_id = ''solo'', d_requirement = ''*''\<rparr>],
     l_modules = [\<lparr>lm_id = ''solo'', lm_version = ''1.2.3'', lm_manifest_digest = digest_string (replicate 32 7),
       lm_artifact_digest = digest_string (replicate 32 7), lm_dependencies = []\<rparr>]\<rparr>"

lemma solo_lock_verifies: "verify solo_formats (local_store solo_formats solo_fs) solo_lock = Inr ()"
proof -
  let ?lm = "hd (l_modules solo_lock)" and ?m = "demo_manifest\<lparr>m_id := ''solo'', m_dependencies := []\<rparr>"
  have lock: "l_schema solo_lock = 1" "l_target solo_lock = ''wasm''" "l_modules solo_lock = [?lm]"
    "l_roots solo_lock = [\<lparr>d_id = ''solo'', d_requirement = ''*''\<rparr>]" by (simp_all add: solo_lock_def)
  have 1: "check_order [?lm] None Map.empty = Inr [''solo'' \<mapsto> ?lm]"
  proof -
    have "parse_module_id ''solo'' \<noteq> None" by code_simp
    then show ?thesis by (simp add: solo_lock_def)
  qed
  have 2: "mapM (check_root [''solo'' \<mapsto> ?lm]) (l_roots solo_lock) = Inr [()]" by code_simp
  have 3: "local_manifest solo_formats solo_fs \<lparr>rel_id = ''solo'', rel_version = plain_version 1 2 3\<rparr> = Inr ?m" by code_simp
  have 4: "local_blob solo_fs (replicate 32 7) = Inr ''abc''" by code_simp
  have 5: "parse_version ''1.2.3'' = Inr (plain_version 1 2 3)" by code_simp
  have 6: "manifest_digest solo_formats ?m = digest_string (replicate 32 7)" by code_simp
  have 7: "sha256 solo_formats b = replicate 32 7" for b by (simp add: solo_formats_def demo_formats_def)
  have "check_module solo_formats (local_store solo_formats solo_fs) ''wasm'' [''solo'' \<mapsto> ?lm] ?lm = Inr ()"
    using 3 4 5 6 7 parse_digest_string [of "replicate 32 7"]
    by (simp add: check_module_def solo_lock_def local_store_def demo_manifest_def)
  then have 8: "mapM (check_module solo_formats (local_store solo_formats solo_fs) ''wasm'' [''solo'' \<mapsto> ?lm]) (l_modules solo_lock) = Inr [()]"
    by (subst lock(3)) simp
  have "check_order (l_modules solo_lock) None Map.empty = Inr [''solo'' \<mapsto> ?lm]" using 1 by (subst lock(3))
  then show ?thesis using 2 8 lock(1,2) by (simp add: verify_def)
qed

theorem lock_survives_witness:
  "verify solo_formats (local_store solo_formats (fold (\<lambda>(data, blobs) fs. fst (publish solo_formats fs data blobs))
     [(''a/./b'', [replicate 32 7 \<mapsto> ''abc''])] solo_fs)) solo_lock = Inr ()"
  by (rule lock_survives [OF solo_json_ok solo_fs_reach solo_lock_verifies])

text \<open>Publishing \<^verbatim>\<open>a/./b\<close> makes the store serve that manifest under the name \<^verbatim>\<open>a/b\<close> as well: names with dot segments
  pass \<^verbatim>\<open>ParseModuleID\<close>, their paths are cleaned, and \<^verbatim>\<open>Manifest\<close> does not compare the name it read.\<close>

lemma dot_alias:
  "map_sum id m_id (local_manifest solo_formats (fst (publish solo_formats open_local ''a/./b'' [replicate 32 7 \<mapsto> ''abc'']))
     \<lparr>rel_id = ''a/b'', rel_version = plain_version 1 2 3\<rparr>) = Inr ''a/./b''"
  by code_simp

end
