(* ===== verification/Registry_Hosted.thy ===== *)
theory Registry_Hosted
  imports Registry_Store "HOL-Library.AList"
begin

text \<open>
  The hosted registry: \<^verbatim>\<open>src/registry/hosted.go\<close> (\<^verbatim>\<open>MemoryMetadata\<close> and \<^verbatim>\<open>HostedRegistry\<close>) and
  \<^verbatim>\<open>src/registry/signing.go\<close>. Storage and publisher are the \<^verbatim>\<open>LocalStore\<close>; mirrors are any stores. The
  authorizer, the mirror policy and Ed25519 are parameters. Go maps are association lists with distinct
  keys. Queries are lower-cased byte by byte, which is \<^verbatim>\<open>strings.ToLower\<close> on ASCII. The nil checks of
  \<^verbatim>\<open>check\<close> have no counterpart: every field of the model is there.
\<close>

subsection \<open>Data\<close>

datatype operation = OperationPublish | OperationYank | OperationRevoke

datatype release_state = ReleaseActive | ReleaseYanked | ReleaseRevoked | OtherState string

record principal =
  pr_subject :: string
  pr_groups :: "string list"

record release_status =
  rs_state :: release_state
  rs_reason :: string
  rs_actor :: string

record search_result =
  sr_id :: string
  sr_latest :: string
  sr_yanked :: bool

datatype hosted_error =
    Forbidden string | Revoked string | InvalidState release_state | HostedStore store_error
  | BadPublisherKey | BadPrivateKey | BlobMismatchSign digest | InvalidSignature

subsection \<open>Metadata\<close>

record metadata =
  md_status :: "(string \<times> release_status) list"
  md_versions :: "(string \<times> (string \<times> version) list) list"
  md_blobs :: "(digest \<times> string list) list"

definition new_metadata :: metadata where
  "new_metadata = \<lparr>md_status = [], md_versions = [], md_blobs = []\<rparr>"

definition get_list :: "('k \<times> 'v list) list \<Rightarrow> 'k \<Rightarrow> 'v list" where
  "get_list m k = (case map_of m k of None \<Rightarrow> [] | Some xs \<Rightarrow> xs)"

definition meta_status :: "metadata \<Rightarrow> release_id \<Rightarrow> release_status" where
  "meta_status md r =
     (case map_of (md_status md) (release_id_string r) of
        None \<Rightarrow> \<lparr>rs_state = ReleaseActive, rs_reason = [], rs_actor = []\<rparr>
      | Some s \<Rightarrow> s)"

definition meta_set_status :: "metadata \<Rightarrow> release_id \<Rightarrow> release_status \<Rightarrow> (hosted_error, metadata) result" where
  "meta_set_status md r s =
     (if rs_state s \<noteq> ReleaseActive \<and> rs_state s \<noteq> ReleaseYanked \<and> rs_state s \<noteq> ReleaseRevoked
      then Inl (InvalidState (rs_state s))
      else Inr (md\<lparr>md_status := AList.update (release_id_string r) s (md_status md)\<rparr>))"

definition add_owner :: "string \<Rightarrow> digest \<Rightarrow> (digest \<times> string list) list \<Rightarrow> (digest \<times> string list) list" where
  "add_owner r d bs = AList.update d (List.insert r (get_list bs d)) bs"

definition meta_record :: "metadata \<Rightarrow> manifest \<Rightarrow> metadata" where
  "meta_record md m =
     md\<lparr>md_versions := AList.update (m_id m)
          (AList.update (version_string (m_version m)) (m_version m) (get_list (md_versions md) (m_id m))) (md_versions md),
        md_blobs := fold (\<lambda>a. add_owner (release_id_string \<lparr>rel_id = m_id m, rel_version = m_version m\<rparr>) (a_digest a))
          (m_artifacts m) (md_blobs md)\<rparr>"

text \<open>The state a release key has in the status map; a missing key gives the zero value.\<close>

definition key_state :: "metadata \<Rightarrow> string \<Rightarrow> release_state" where
  "key_state md k = (case map_of (md_status md) k of None \<Rightarrow> OtherState [] | Some s \<Rightarrow> rs_state s)"

definition allow_blob :: "metadata \<Rightarrow> digest \<Rightarrow> bool" where
  "allow_blob md d =
     (let owners = get_list (md_blobs md) d
      in owners = [] \<or> list_ex (\<lambda>r. key_state md r \<noteq> ReleaseRevoked) owners)"

definition live_versions :: "metadata \<Rightarrow> string \<Rightarrow> version list" where
  "live_versions md i =
     filter (\<lambda>v. key_state md (release_id_string \<lparr>rel_id = i, rel_version = v\<rparr>) \<noteq> ReleaseRevoked)
       (map snd (get_list (md_versions md) i))"

fun search_loop :: "metadata \<Rightarrow> nat \<Rightarrow> string list \<Rightarrow> search_result list \<Rightarrow> search_result list" where
  "search_loop md limit [] acc = acc"
| "search_loop md limit (i # is) acc =
     (case sort_desc (live_versions md i) of
        [] \<Rightarrow> search_loop md limit is acc
      | v # _ \<Rightarrow>
          (let acc' = acc @ [\<lparr>sr_id = i, sr_latest = version_string v,
                 sr_yanked = (key_state md (release_id_string \<lparr>rel_id = i, rel_version = v\<rparr>) = ReleaseYanked)\<rparr>]
           in if length acc' = limit then acc' else search_loop md limit is acc'))"

definition search_limit :: "int \<Rightarrow> nat" where
  "search_limit limit = (if limit \<le> 0 \<or> limit > 100 then 20 else nat limit)"

definition meta_search :: "metadata \<Rightarrow> string \<Rightarrow> int \<Rightarrow> search_result list" where
  "meta_search md query limit =
     (let q = to_lower (trim_space query)
      in search_loop md (search_limit limit)
           (sort (filter (\<lambda>i. q = [] \<or> contains (to_lower i) q) (map fst (md_versions md)))) [])"

subsection \<open>The registry\<close>

record hosted_config =
  hc_formats :: formats
  hc_authorize :: "principal \<Rightarrow> operation \<Rightarrow> string \<Rightarrow> string option"
  hc_mirrors :: "store list"
  hc_use_mirror :: "(string \<Rightarrow> store \<Rightarrow> bool) option"

record hosted =
  h_fs :: fs
  h_meta :: metadata

definition hosted_publish :: "hosted_config \<Rightarrow> hosted \<Rightarrow> principal \<Rightarrow> string \<Rightarrow> (digest \<rightharpoonup> string) \<Rightarrow> hosted \<times> hosted_error option" where
  "hosted_publish c h p data blobs =
     (case parse_manifest (hc_formats c) data of
        Inl e \<Rightarrow> (h, Some (HostedStore (StoreManifest e)))
      | Inr m \<Rightarrow>
          (case hc_authorize c p OperationPublish (m_id m) of
             Some e \<Rightarrow> (h, Some (Forbidden e))
           | None \<Rightarrow>
               (case publish (hc_formats c) (h_fs h) data blobs of
                  (fs', Some e) \<Rightarrow> (h\<lparr>h_fs := fs'\<rparr>, Some (HostedStore e))
                | (fs', None) \<Rightarrow> (h\<lparr>h_fs := fs', h_meta := meta_record (h_meta h) m\<rparr>, None))))"

definition status_operation :: "release_state \<Rightarrow> (hosted_error, operation) result" where
  "status_operation s =
     (if s = ReleaseRevoked then Inr OperationRevoke
      else if s \<noteq> ReleaseYanked \<and> s \<noteq> ReleaseActive then Inl (InvalidState s) else Inr OperationYank)"

definition set_release_status :: "hosted_config \<Rightarrow> hosted \<Rightarrow> principal \<Rightarrow> release_id \<Rightarrow> release_status \<Rightarrow> hosted \<times> hosted_error option" where
  "set_release_status c h p r s =
     (case status_operation (rs_state s) of
        Inl e \<Rightarrow> (h, Some e)
      | Inr op \<Rightarrow>
          (case hc_authorize c p op (rel_id r) of
             Some e \<Rightarrow> (h, Some (Forbidden e))
           | None \<Rightarrow>
               (case local_manifest (hc_formats c) (h_fs h) r of
                  Inl e \<Rightarrow> (h, Some (HostedStore e))
                | Inr _ \<Rightarrow>
                    (case meta_set_status (h_meta h) r (s\<lparr>rs_actor := pr_subject p\<rparr>) of
                       Inl e \<Rightarrow> (h, Some e)
                     | Inr md \<Rightarrow> (h\<lparr>h_meta := md\<rparr>, None)))))"

definition mirror_allowed :: "hosted_config \<Rightarrow> string \<Rightarrow> store \<Rightarrow> bool" where
  "mirror_allowed c i s = (case hc_use_mirror c of None \<Rightarrow> True | Some f \<Rightarrow> f i s)"

text \<open>The mirrors in turn; the first that answers wins, otherwise the last error tried remains.\<close>

fun try_mirrors :: "(store \<Rightarrow> bool) \<Rightarrow> (store \<Rightarrow> (store_error, 'a) result) \<Rightarrow> store list \<Rightarrow> store_error \<Rightarrow> (store_error, 'a) result" where
  "try_mirrors ok ask [] e = Inl e"
| "try_mirrors ok ask (s # ss) e =
     (if ok s then (case ask s of Inr x \<Rightarrow> Inr x | Inl e' \<Rightarrow> try_mirrors ok ask ss e') else try_mirrors ok ask ss e)"

definition hosted_versions :: "hosted_config \<Rightarrow> hosted \<Rightarrow> string \<Rightarrow> (store_error, version list) result" where
  "hosted_versions c h i =
     (case local_versions (h_fs h) i of
        Inl NotFound \<Rightarrow> try_mirrors (mirror_allowed c i) (\<lambda>s. st_versions s i) (hc_mirrors c) NotFound
      | Inl e \<Rightarrow> Inl e
      | Inr vs \<Rightarrow> Inr (filter (\<lambda>v. rs_state (meta_status (h_meta h) \<lparr>rel_id = i, rel_version = v\<rparr>) \<in> {ReleaseActive, OtherState []}) vs))"

definition hosted_manifest :: "hosted_config \<Rightarrow> hosted \<Rightarrow> release_id \<Rightarrow> (hosted_error, manifest) result" where
  "hosted_manifest c h r =
     (let s = meta_status (h_meta h) r
      in if rs_state s = ReleaseRevoked then Inl (Revoked (rs_reason s))
         else case local_manifest (hc_formats c) (h_fs h) r of
                Inl NotFound \<Rightarrow> map_err HostedStore (try_mirrors (mirror_allowed c (rel_id r)) (\<lambda>s. st_manifest s r) (hc_mirrors c) NotFound)
              | Inl e \<Rightarrow> Inl (HostedStore e)
              | Inr m \<Rightarrow> Inr m)"

definition hosted_blob :: "hosted_config \<Rightarrow> hosted \<Rightarrow> digest \<Rightarrow> (hosted_error, string) result" where
  "hosted_blob c h d =
     (if \<not> allow_blob (h_meta h) d then Inl (Revoked [])
      else case local_blob (h_fs h) d of
             Inl NotFound \<Rightarrow> map_err HostedStore (try_mirrors (\<lambda>_. True) (\<lambda>s. st_blob s d) (hc_mirrors c) NotFound)
           | Inl e \<Rightarrow> Inl (HostedStore e)
           | Inr b \<Rightarrow> Inr b)"

definition hosted_search :: "hosted \<Rightarrow> string \<Rightarrow> int \<Rightarrow> search_result list" where
  "hosted_search h query limit = meta_search (h_meta h) query limit"

subsection \<open>Signed publications\<close>

record ed25519 =
  ed_public :: "string \<Rightarrow> string"
  ed_sign :: "string \<Rightarrow> string \<Rightarrow> string"
  ed_verify :: "string \<Rightarrow> string \<Rightarrow> string \<Rightarrow> bool"

record signed_publication =
  sp_manifest :: string
  sp_blobs :: "(digest \<times> string) list"
  sp_public :: string
  sp_signature :: string

definition publisher_id :: "formats \<Rightarrow> string \<Rightarrow> string option" where
  "publisher_id fm public = (if length public \<noteq> 32 then None else Some (''ed25519:'' @ hex_encode (sha256 fm public)))"

text \<open>The JSON of the message is a parameter: it takes the digest of the canonical manifest and the target,
  digest and size of each artifact.\<close>

type_synonym sign_json = "digest \<Rightarrow> (string \<times> string \<times> int) list \<Rightarrow> string"

definition signing_bytes :: "formats \<Rightarrow> sign_json \<Rightarrow> string \<Rightarrow> (manifest_error, string) result" where
  "signing_bytes fm sj data =
     bindE (parse_manifest fm data) (\<lambda>m.
     case canonical_manifest fm m of
       None \<Rightarrow> Inl EncodeFailed
     | Some c \<Rightarrow> Inr (sj (sha256 fm c)
         (sort_key fst (map (\<lambda>a. (a_target a, digest_string (a_digest a), a_size a)) (m_artifacts m)))))"

definition sign_publication :: "formats \<Rightarrow> sign_json \<Rightarrow> ed25519 \<Rightarrow> string \<Rightarrow> string \<Rightarrow> (digest \<times> string) list \<Rightarrow> (hosted_error, signed_publication) result" where
  "sign_publication fm sj ed private data blobs =
     (if length private \<noteq> 64 then Inl BadPrivateKey
      else case signing_bytes fm sj data of
             Inl e \<Rightarrow> Inl (HostedStore (StoreManifest e))
           | Inr msg \<Rightarrow>
               (case List.find (\<lambda>(d, b). sha256 fm b \<noteq> d) blobs of
                  Some (d, _) \<Rightarrow> Inl (BlobMismatchSign d)
                | None \<Rightarrow> Inr \<lparr>sp_manifest = data, sp_blobs = blobs, sp_public = ed_public ed private, sp_signature = ed_sign ed private msg\<rparr>))"

definition publish_signed :: "hosted_config \<Rightarrow> sign_json \<Rightarrow> ed25519 \<Rightarrow> hosted \<Rightarrow> signed_publication \<Rightarrow> hosted \<times> hosted_error option" where
  "publish_signed c sj ed h sp =
     (case publisher_id (hc_formats c) (sp_public sp) of
        None \<Rightarrow> (h, Some BadPublisherKey)
      | Some who \<Rightarrow>
          (case signing_bytes (hc_formats c) sj (sp_manifest sp) of
             Inl e \<Rightarrow> (h, Some (HostedStore (StoreManifest e)))
           | Inr msg \<Rightarrow>
               if length (sp_signature sp) \<noteq> 64 \<or> \<not> ed_verify ed (sp_public sp) msg (sp_signature sp) then (h, Some InvalidSignature)
               else hosted_publish c h \<lparr>pr_subject = who, pr_groups = []\<rparr> (sp_manifest sp) (map_of (sp_blobs sp))))"

subsection \<open>Sequences of requests\<close>

datatype hosted_event =
    PublishEvent principal string "digest \<rightharpoonup> string"
  | StatusEvent principal release_id release_status

definition hosted_apply :: "hosted_config \<Rightarrow> hosted_event \<Rightarrow> hosted \<Rightarrow> hosted" where
  "hosted_apply c ev h =
     (case ev of
        PublishEvent p data blobs \<Rightarrow> fst (hosted_publish c h p data blobs)
      | StatusEvent p r s \<Rightarrow> fst (set_release_status c h p r s))"

definition new_hosted :: hosted where
  "new_hosted = \<lparr>h_fs = open_local, h_meta = new_metadata\<rparr>"

inductive hosted_reach :: "hosted_config \<Rightarrow> hosted \<Rightarrow> bool" for c where
  start: "hosted_reach c new_hosted"
| step: "hosted_reach c h \<Longrightarrow> hosted_reach c (hosted_apply c ev h)"

subsection \<open>The index agrees with the storage\<close>

text \<open>A release that the storage serves under its own name.\<close>

definition released :: "formats \<Rightarrow> fs \<Rightarrow> release_id \<Rightarrow> manifest \<Rightarrow> bool" where
  "released fm fs r m \<longleftrightarrow> local_manifest fm fs r = Inr m \<and> m_id m = rel_id r"

lemma get_list_update: "get_list (AList.update k v m) k' = (if k' = k then v else get_list m k')"
  by (simp add: get_list_def update_conv' split: option.splits)

lemma add_owner_get: "k \<in> set (get_list (add_owner r d bs) d') \<longleftrightarrow> k \<in> set (get_list bs d') \<or> k = r \<and> d' = d"
  by (auto simp: add_owner_def get_list_update)

lemma fold_add_owner_get:
  "k \<in> set (get_list (fold (\<lambda>a. add_owner r (a_digest a)) as bs) d) \<longleftrightarrow> k \<in> set (get_list bs d) \<or> k = r \<and> d \<in> a_digest ` set as"
  by (induction as arbitrary: bs) (auto simp: add_owner_get)

lemma release_not_blob: "release_path r \<noteq> blob_path d"
  using take2_release [of r] take2_blob [of d] by auto

text \<open>A publication makes at most its own release readable.\<close>

lemma publish_new_manifest:
  assumes j: "json_ok fm" and inv: "store_inv fm fs" and p: "publish fm fs data blobs = (fs', e)"
    and k: "local_manifest fm fs' r = Inr k"
  shows "local_manifest fm fs r = Inr k \<or> e = None \<and> parse_manifest fm data = Inr k"
proof -
  obtain b where b: "look fs' (release_path r) = Some (File b)" "parse_canonical fm b = Inr k"
      "parse_module_id (rel_id r) \<noteq> None" "\<not> isl (parse_version (version_string (rel_version r)))"
    using k by (auto simp: local_manifest_def read_file_def split: if_splits option.splits entry.splits)
  have old: "local_manifest fm fs r = Inr k" if "look fs (release_path r) = Some (File b)"
    using b that safe_exists [of fs "release_path r"] inv by (simp add: local_manifest_def read_file_def store_inv_def)
  have blobs: "look fs (release_path r) = Some (File b)"
    if "publish_blobs fm blobs as fs = (fs1, e1)" "look fs1 (release_path r) = Some (File b)" for as fs1 e1
    using publish_blobs_only [OF that] release_not_blob by blast
  from p show ?thesis
  proof (cases rule: publish_cases)
    case rejected
    then show ?thesis using old b(1) by simp
  next
    case (blobs_only m)
    then show ?thesis using old blobs b(1) by blast
  next
    case (written m c fs1)
    show ?thesis
    proof (cases "look fs1 (release_path r) = Some (File b)")
      case True
      then show ?thesis using old blobs written(3) by blast
    next
      case False
      then have "b = c" "e = None" using write_only [OF written(4) b(1)] written(4) b(1) by (auto elim: write_cases)
      moreover have "parse_canonical fm c = Inr m"
        using parse_canonical_wf [OF parsed_wf [OF written(1)] written(2)] j written(1,2) unfolding json_ok_def by blast
      ultimately show ?thesis using b(2) written(1) by simp
    qed
  qed
qed

lemma local_manifest_parsed:
  assumes "json_ok fm" and "store_inv fm fs" and "publish fm fs data blobs = (fs', None)" and "parse_manifest fm data = Inr m"
  shows "local_manifest fm fs' \<lparr>rel_id = m_id m, rel_version = m_version m\<rparr> = Inr m"
  using publish_served [OF assms(1-3)] assms(4) by auto

lemma released_publish:
  assumes j: "json_ok fm" and inv: "store_inv fm fs" and p: "publish fm fs data blobs = (fs', e)"
  shows "released fm fs' r k \<longleftrightarrow> released fm fs r k \<or>
    e = None \<and> parse_manifest fm data = Inr k \<and> r = \<lparr>rel_id = m_id k, rel_version = m_version k\<rparr>"
proof
  have inv': "store_inv fm fs'" using publish_inv [OF inv p] .
  assume rel: "released fm fs' r k"
  then have k: "local_manifest fm fs' r = Inr k" "m_id k = rel_id r" by (simp_all add: released_def)
  have "rel_version r = m_version k" using local_manifest_Inr(2) [OF inv' j k(1)] .
  then have "r = \<lparr>rel_id = m_id k, rel_version = m_version k\<rparr>" using k(2) by (intro release_id.equality) simp_all
  then show "released fm fs r k \<or> e = None \<and> parse_manifest fm data = Inr k \<and> r = \<lparr>rel_id = m_id k, rel_version = m_version k\<rparr>"
    using publish_new_manifest [OF j inv p k(1)] k(2) by (auto simp: released_def)
next
  assume "released fm fs r k \<or> e = None \<and> parse_manifest fm data = Inr k \<and> r = \<lparr>rel_id = m_id k, rel_version = m_version k\<rparr>"
  moreover have "released fm fs' r k" if "released fm fs r k"
    using that local_manifest_mono [OF _ publish_extends [OF p]] publish_fs_ok [OF p] inv by (simp add: released_def store_inv_def)
  ultimately show "released fm fs' r k"
    using local_manifest_parsed [OF j inv, of data blobs fs' k] p by (auto simp: released_def)
qed

definition keyed :: "(string \<times> version) list \<Rightarrow> bool" where
  "keyed l \<longleftrightarrow> list_all (\<lambda>(k, v). k = version_string v) l"

lemma keyed_update:
  "keyed l \<Longrightarrow> set (AList.update (version_string v) v l) = insert (version_string v, v) (set l)"
  unfolding keyed_def by (induction l) (auto dest: version_string_inj)

definition owns :: "formats \<Rightarrow> fs \<Rightarrow> string \<Rightarrow> digest \<Rightarrow> bool" where
  "owns fm fs k d \<longleftrightarrow> (\<exists>r m. k = release_id_string r \<and> released fm fs r m \<and> d \<in> a_digest ` set (m_artifacts m))"

definition index_ok :: "formats \<Rightarrow> hosted \<Rightarrow> bool" where
  "index_ok fm h \<longleftrightarrow> store_inv fm (h_fs h) \<and>
     (\<forall>d k. k \<in> set (get_list (md_blobs (h_meta h)) d) \<longleftrightarrow> owns fm (h_fs h) k d) \<and>
     (\<forall>i. keyed (get_list (md_versions (h_meta h)) i)) \<and>
     (\<forall>i v. v \<in> snd ` set (get_list (md_versions (h_meta h)) i) \<longleftrightarrow> (\<exists>m. released fm (h_fs h) \<lparr>rel_id = i, rel_version = v\<rparr> m))"

lemma hosted_publish_cases:
  assumes "hosted_publish c h p data blobs = (h', e)"
  obtains (refused) "h' = h" "e \<noteq> None"
    | (failed) m fs' x where "parse_manifest (hc_formats c) data = Inr m" "hc_authorize c p OperationPublish (m_id m) = None"
        "publish (hc_formats c) (h_fs h) data blobs = (fs', Some x)" "h' = h\<lparr>h_fs := fs'\<rparr>" "e \<noteq> None"
    | (accepted) m fs' where "parse_manifest (hc_formats c) data = Inr m" "hc_authorize c p OperationPublish (m_id m) = None"
        "publish (hc_formats c) (h_fs h) data blobs = (fs', None)"
        "h' = h\<lparr>h_fs := fs', h_meta := meta_record (h_meta h) m\<rparr>" "e = None"
proof (cases "parse_manifest (hc_formats c) data")
  case (Inl x)
  then show thesis using assms refused by (auto simp: hosted_publish_def)
next
  case (Inr m)
  note m = this
  show thesis
  proof (cases "hc_authorize c p OperationPublish (m_id m)")
    case (Some x)
    then show thesis using assms m refused by (auto simp: hosted_publish_def)
  next
    case None
    obtain fs' x where "publish (hc_formats c) (h_fs h) data blobs = (fs', x)" by force
    then show thesis
      using assms m None failed [OF m None] accepted [OF m None] by (cases x) (auto simp: hosted_publish_def)
  qed
qed

lemma index_ok_publish:
  assumes j: "json_ok (hc_formats c)" and ok: "index_ok (hc_formats c) h"
  shows "index_ok (hc_formats c) (fst (hosted_publish c h p data blobs))"
proof -
  let ?fm = "hc_formats c"
  have inv: "store_inv ?fm (h_fs h)" using ok by (simp add: index_ok_def)
  obtain h' e where h': "hosted_publish c h p data blobs = (h', e)" by force
  then show ?thesis
  proof (cases rule: hosted_publish_cases)
    case refused
    then show ?thesis using ok h' by simp
  next
    case (failed m fs' x)
    then show ?thesis
      using ok h' publish_inv [OF inv failed(3)] released_publish [OF j inv failed(3)] by (simp add: index_ok_def owns_def)
  next
    case (accepted m fs')
    note rel = released_publish [OF j inv accepted(3)] and inv' = publish_inv [OF inv accepted(3)]
    let ?r = "\<lparr>rel_id = m_id m, rel_version = m_version m\<rparr>"
    have rel': "released ?fm fs' r k \<longleftrightarrow> released ?fm (h_fs h) r k \<or> k = m \<and> r = ?r" for r k
      using rel accepted by auto
    have owns': "owns ?fm fs' k d \<longleftrightarrow> owns ?fm (h_fs h) k d \<or> k = release_id_string ?r \<and> d \<in> a_digest ` set (m_artifacts m)" for k d
      unfolding owns_def rel' by blast
    have old: "keyed (get_list (md_versions (h_meta h)) i)"
      "v \<in> snd ` set (get_list (md_versions (h_meta h)) i) \<longleftrightarrow> (\<exists>m. released ?fm (h_fs h) \<lparr>rel_id = i, rel_version = v\<rparr> m)" for i v
      using ok by (simp_all add: index_ok_def)
    have upd: "set (AList.update (version_string (m_version m)) (m_version m) (get_list (md_versions (h_meta h)) (m_id m))) =
        insert (version_string (m_version m), m_version m) (set (get_list (md_versions (h_meta h)) (m_id m)))"
      using keyed_update [OF old(1)] .
    have "keyed (get_list (md_versions (meta_record (h_meta h) m)) i)" for i
      using old(1) upd by (auto simp: meta_record_def get_list_update keyed_def list_all_iff)
    moreover have "v \<in> snd ` set (get_list (md_versions (meta_record (h_meta h) m)) i) \<longleftrightarrow>
        (\<exists>k. released ?fm fs' \<lparr>rel_id = i, rel_version = v\<rparr> k)" for i v
      unfolding rel' using old(2) [of v i] upd by (auto simp: meta_record_def get_list_update)
    moreover have "k \<in> set (get_list (md_blobs (meta_record (h_meta h) m)) d) \<longleftrightarrow> owns ?fm fs' k d" for k d
      unfolding owns' using ok by (simp add: meta_record_def fold_add_owner_get index_ok_def)
    ultimately show ?thesis using inv' h' accepted(4) by (simp add: index_ok_def)
  qed
qed

lemma set_status_cases:
  assumes "set_release_status c h p r s = (h', e)"
  obtains (refused) "h' = h" "e \<noteq> None"
    | (changed) m op where "e = None" "status_operation (rs_state s) = Inr op" "hc_authorize c p op (rel_id r) = None"
        "local_manifest (hc_formats c) (h_fs h) r = Inr m"
        "h' = h\<lparr>h_meta := (h_meta h)\<lparr>md_status := AList.update (release_id_string r) (s\<lparr>rs_actor := pr_subject p\<rparr>) (md_status (h_meta h))\<rparr>\<rparr>"
  using assms unfolding set_release_status_def meta_set_status_def
  by (auto split: sum.splits option.splits if_splits)

lemma index_ok_status: "index_ok fm h \<Longrightarrow> index_ok fm (fst (set_release_status c h p r s))"
  by (rule set_status_cases [of c h p r s, OF prod.collapse [symmetric]]) (auto simp: index_ok_def)

lemma hosted_reach_index:
  assumes "json_ok (hc_formats c)" and "hosted_reach c h"
  shows "index_ok (hc_formats c) h"
  using assms(2)
proof (induction rule: hosted_reach.induct)
  case start
  have "look open_local p \<noteq> Some (File b)" for p b by (auto simp: look_def open_local_def split: if_splits)
  then have "\<not> released (hc_formats c) open_local r m" for r m
    by (auto simp: released_def local_manifest_def read_file_def split: option.splits entry.splits if_splits)
  then show ?case
    using open_local_inv [of "hc_formats c"]
    by (auto simp: index_ok_def new_hosted_def new_metadata_def get_list_def keyed_def owns_def)
next
  case (step h ev)
  then show ?case
    using index_ok_publish [OF assms(1)] index_ok_status by (cases ev) (simp_all add: hosted_apply_def)
qed

subsection \<open>Release names\<close>

lemma release_id_eta [simp]: "\<lparr>rel_id = rel_id r, rel_version = rel_version r\<rparr> = r"
  by (intro release_id.equality) simp_all

lemma at_split: "x \<notin> set v \<Longrightarrow> x \<notin> set w \<Longrightarrow> a @ x # v = b @ x # w \<longleftrightarrow> a = b \<and> v = w"
  by (auto simp: append_eq_append_conv2 Cons_eq_append_conv append_eq_Cons_conv)

lemma valid_version_at: "valid_version v \<Longrightarrow> CHR ''@'' \<notin> set (version_string v)"
  by (auto simp: version_string_split pre_suffix_def pre_of_def valid_version_def is_digit_def identifier_char_def
      dest!: core_string_chars valid_pre_chars split: option.splits if_splits)

lemma release_id_string_inj:
  assumes "valid_version (rel_version r)" and "valid_version (rel_version r')" and "release_id_string r = release_id_string r'"
  shows "r = r'"
proof -
  have "rel_id r = rel_id r'" "version_string (rel_version r) = version_string (rel_version r')"
    using assms(3) at_split [OF valid_version_at [OF assms(1)] valid_version_at [OF assms(2)]] by (auto simp: release_id_string_def)
  then show ?thesis using version_string_inj by (intro release_id.equality) auto
qed

subsection \<open>Status changes\<close>

lemma key_state_meta: "key_state md (release_id_string r) = ReleaseRevoked \<longleftrightarrow> rs_state (meta_status md r) = ReleaseRevoked"
  by (simp add: key_state_def meta_status_def split: option.splits)

lemma key_state_update:
  "key_state (md\<lparr>md_status := AList.update k s (md_status md)\<rparr>) k' = (if k' = k then rs_state s else key_state md k')"
  by (simp add: key_state_def update_conv')

lemma publish_key_state: "key_state (h_meta (fst (hosted_publish c h p data blobs))) k = key_state (h_meta h) k"
  by (rule hosted_publish_cases [OF prod.collapse [symmetric], of c h p data blobs]) (auto simp: key_state_def meta_record_def)

text \<open>An event that does not set the status of a release.\<close>

definition keeps_status :: "release_id \<Rightarrow> hosted_event \<Rightarrow> bool" where
  "keeps_status r ev = (case ev of PublishEvent _ _ _ \<Rightarrow> True | StatusEvent _ r' _ \<Rightarrow> r' \<noteq> r)"

lemma served_version:
  assumes "json_ok fm" and "index_ok fm h" and "local_manifest fm (h_fs h) r = Inr m"
  shows "valid_version (rel_version r)"
  using local_manifest_Inr(1,2) [OF _ assms(1,3)] assms(2) by (simp add: index_ok_def manifest_wf_def)

lemma keeps_status_apply:
  assumes j: "json_ok (hc_formats c)" and ok: "index_ok (hc_formats c) h" and v: "valid_version (rel_version r)"
    and k: "keeps_status r ev"
  shows "key_state (h_meta (hosted_apply c ev h)) (release_id_string r) = key_state (h_meta h) (release_id_string r)"
proof (cases ev)
  case (PublishEvent p data blobs)
  then show ?thesis by (simp add: hosted_apply_def publish_key_state)
next
  case (StatusEvent p r' s)
  then have "r' \<noteq> r" using k by (simp add: keeps_status_def)
  obtain h' e where h': "set_release_status c h p r' s = (h', e)" by force
  then show ?thesis
  proof (cases rule: set_status_cases)
    case refused
    then show ?thesis using StatusEvent h' by (simp add: hosted_apply_def)
  next
    case (changed m op)
    then have "release_id_string r' \<noteq> release_id_string r"
      using release_id_string_inj [OF served_version [OF j ok] v] \<open>r' \<noteq> r\<close> by blast
    then show ?thesis using StatusEvent h' changed(5) by (simp add: hosted_apply_def key_state_update)
  qed
qed

lemma index_ok_apply: "json_ok (hc_formats c) \<Longrightarrow> index_ok (hc_formats c) h \<Longrightarrow> index_ok (hc_formats c) (hosted_apply c ev h)"
  using index_ok_publish index_ok_status by (cases ev) (simp_all add: hosted_apply_def)

lemma keeps_status_fold:
  assumes "json_ok (hc_formats c)" and "valid_version (rel_version r)"
  shows "index_ok (hc_formats c) h \<Longrightarrow> list_all (keeps_status r) evs \<Longrightarrow>
    key_state (h_meta (fold (hosted_apply c) evs h)) (release_id_string r) = key_state (h_meta h) (release_id_string r)"
proof (induction evs arbitrary: h)
  case (Cons ev evs)
  then show ?case
    using keeps_status_apply [OF assms(1) Cons.prems(1) assms(2)] index_ok_apply [OF assms(1)] by simp
qed simp

subsection \<open>Search\<close>

definition result_for :: "metadata \<Rightarrow> string \<Rightarrow> search_result option" where
  "result_for md i =
     (case sort_desc (live_versions md i) of
        [] \<Rightarrow> None
      | v # _ \<Rightarrow> Some \<lparr>sr_id = i, sr_latest = version_string v,
          sr_yanked = (key_state md (release_id_string \<lparr>rel_id = i, rel_version = v\<rparr>) = ReleaseYanked)\<rparr>)"

lemma search_loop_eq:
  "length acc < limit \<Longrightarrow> search_loop md limit is acc = take limit (acc @ List.map_filter (result_for md) is)"
proof (induction "is" arbitrary: acc)
  case (Cons i "is")
  show ?case
  proof (cases "sort_desc (live_versions md i)")
    case Nil
    then show ?thesis using Cons by (simp add: result_for_def List.map_filter_simps)
  next
    case v: (Cons v vs)
    let ?x = "\<lparr>sr_id = i, sr_latest = version_string v,
        sr_yanked = (key_state md (release_id_string \<lparr>rel_id = i, rel_version = v\<rparr>) = ReleaseYanked)\<rparr>"
    have r: "result_for md i = Some ?x" using v by (simp add: result_for_def)
    show ?thesis
    proof (cases "length (acc @ [?x]) = limit")
      case True
      then have "limit = Suc (length acc)" by simp
      then show ?thesis using v r by (simp add: List.map_filter_simps)
    next
      case False
      then have "length (acc @ [?x]) < limit" using Cons.prems by simp
      then show ?thesis using Cons.IH [of "acc @ [?x]"] False v r by (simp add: List.map_filter_simps)
    qed
  qed
qed simp

lemma search_limit_pos: "0 < search_limit n"
  by (simp add: search_limit_def)

text \<open>What a search returns: the first \<open>limit\<close> matching modules in order that have a version left.\<close>

lemma search_eq:
  "hosted_search h q n = take (search_limit n) (List.map_filter (result_for (h_meta h))
     (sort (filter (\<lambda>i. to_lower (trim_space q) = [] \<or> contains (to_lower i) (to_lower (trim_space q))) (map fst (md_versions (h_meta h))))))"
  by (simp add: hosted_search_def meta_search_def search_loop_eq search_limit_pos Let_def)

lemma result_for_Some:
  assumes "result_for md i = Some x" and "list_all valid_version (live_versions md i)"
  shows "sr_id x = i" and "\<exists>v \<in> set (live_versions md i). sr_latest x = version_string v \<and>
    (\<forall>u \<in> set (live_versions md i). version_compare u v \<le> 0)"
proof -
  obtain v us where v: "sort_desc (live_versions md i) = v # us" "sr_latest x = version_string v" "sr_id x = i"
    using assms(1) by (auto simp: result_for_def split: list.splits)
  show "sr_id x = i" by (rule v(3))
  have "v \<in> set (live_versions md i)" using v(1) by (metis list.set_intros(1) sort_desc_set)
  moreover have "version_compare u v \<le> 0" if "u \<in> set (live_versions md i)" for u
    using sort_desc_hd [OF v(1) assms(2) that] .
  ultimately show "\<exists>v \<in> set (live_versions md i). sr_latest x = version_string v \<and>
    (\<forall>u \<in> set (live_versions md i). version_compare u v \<le> 0)" using v(2) by blast
qed

subsection \<open>Properties\<close>

lemma apply_extends: "extends (h_fs h) (h_fs (hosted_apply c ev h))"
proof (cases ev)
  case (PublishEvent p data blobs)
  have "extends (h_fs h) (h_fs (fst (hosted_publish c h p data blobs)))"
    by (rule hosted_publish_cases [OF prod.collapse [symmetric], of c h p data blobs])
      (auto simp: extends_def dest: publish_mono)
  then show ?thesis using PublishEvent by (simp add: hosted_apply_def)
next
  case (StatusEvent p r s)
  have "h_fs (fst (set_release_status c h p r s)) = h_fs h"
    by (rule set_status_cases [OF prod.collapse [symmetric], of c h p r s]) auto
  then show ?thesis using StatusEvent by (simp add: hosted_apply_def extends_def)
qed

lemma fold_extends: "extends (h_fs h) (h_fs (fold (hosted_apply c) evs h))"
proof (induction evs arbitrary: h)
  case (Cons ev evs)
  then show ?case using apply_extends [of h c ev] by (auto simp: extends_def)
qed (simp add: extends_def)

lemma index_ok_fold:
  "json_ok (hc_formats c) \<Longrightarrow> index_ok (hc_formats c) h \<Longrightarrow> index_ok (hc_formats c) (fold (hosted_apply c) evs h)"
  by (induction evs arbitrary: h) (auto intro: index_ok_apply)

lemma released_listed:
  assumes j: "json_ok fm" and ok: "store_inv fm fs" and m: "local_manifest fm fs r = Inr m"
  shows "\<exists>vs. local_versions fs (rel_id r) = Inr vs \<and> rel_version r \<in> set vs"
proof -
  have v: "valid_version (rel_version r)" using local_manifest_Inr(1,2) [OF ok j m] by (simp add: manifest_wf_def)
  obtain b where "look fs (release_path r) = Some (File b)" "parse_module_id (rel_id r) \<noteq> None"
    using m by (auto simp: local_manifest_def read_file_def split: if_splits option.splits entry.splits)
  then show ?thesis
    using local_versions_there [of fs "rel_id r" "rel_version r"] ok parse_version_string [OF v] by (simp add: store_inv_def)
qed

text \<open>A revoked release is not offered.\<close>

lemma revoked_not_listed:
  assumes j: "json_ok (hc_formats c)" and ok: "index_ok (hc_formats c) h" and m: "local_manifest (hc_formats c) (h_fs h) r = Inr m"
    and rv: "key_state (h_meta h) (release_id_string r) = ReleaseRevoked"
  shows "\<exists>ws. hosted_versions c h (rel_id r) = Inr ws \<and> rel_version r \<notin> set ws"
proof -
  obtain vs where "local_versions (h_fs h) (rel_id r) = Inr vs"
    using released_listed [OF j _ m] ok by (auto simp: index_ok_def)
  then show ?thesis using rv unfolding key_state_meta by (simp add: hosted_versions_def)
qed

lemma revoked_not_found:
  assumes j: "json_ok fm" and ok: "index_ok fm h" and rv: "key_state (h_meta h) (release_id_string r) = ReleaseRevoked"
    and x: "x \<in> set (hosted_search h q n)" "sr_id x = rel_id r"
  shows "sr_latest x \<noteq> version_string (rel_version r)"
proof
  assume latest: "sr_latest x = version_string (rel_version r)"
  obtain i where i: "result_for (h_meta h) i = Some x"
    using in_set_takeD [OF x(1) [unfolded search_eq]] by (auto simp: List.map_filter_def)
  obtain v us where v: "sort_desc (live_versions (h_meta h) i) = v # us" "sr_latest x = version_string v" "sr_id x = i"
    using i by (auto simp: result_for_def split: list.splits)
  have "v = rel_version r" "i = rel_id r" using v(2,3) latest x(2) version_string_inj by auto
  moreover have "v \<in> set (live_versions (h_meta h) i)" using v(1) by (metis list.set_intros(1) sort_desc_set)
  ultimately show False using rv by (simp add: live_versions_def)
qed

text \<open>C15: Revocation holds: once a release was revoked, then whatever is published and whatever happens to the
  status of other releases, its manifest is refused as revoked, its version is not listed, and no search offers
  it as the latest version.\<close>

theorem revoked_hidden:
  assumes "json_ok (hc_formats c)" and "hosted_reach c h" and "set_release_status c h p r s = (h', None)"
    and "rs_state s = ReleaseRevoked" and "list_all (keeps_status r) evs" and "g = fold (hosted_apply c) evs h'"
  shows "(\<exists>why. hosted_manifest c g r = Inl (Revoked why)) \<and>
    (\<exists>ws. hosted_versions c g (rel_id r) = Inr ws \<and> rel_version r \<notin> set ws) \<and>
    (\<forall>q n x. x \<in> set (hosted_search g q n) \<longrightarrow> sr_id x = rel_id r \<longrightarrow> sr_latest x \<noteq> version_string (rel_version r))"
proof -
  note j = assms(1) and ok = hosted_reach_index [OF assms(1,2)]
  obtain m op where m: "local_manifest (hc_formats c) (h_fs h) r = Inr m"
     "h' = h\<lparr>h_meta := (h_meta h)\<lparr>md_status := AList.update (release_id_string r) (s\<lparr>rs_actor := pr_subject p\<rparr>) (md_status (h_meta h))\<rparr>\<rparr>"
    using assms(3) by (cases rule: set_status_cases) auto
  have ok': "index_ok (hc_formats c) h'" using index_ok_status [OF ok, of c p r s] assms(3) by simp
  then have okg: "index_ok (hc_formats c) g" using index_ok_fold [OF j] assms(6) by simp
  have "key_state (h_meta h') (release_id_string r) = ReleaseRevoked" using m(2) assms(4) by (simp add: key_state_update)
  then have rv: "key_state (h_meta g) (release_id_string r) = ReleaseRevoked"
    using keeps_status_fold [OF j served_version [OF j ok m(1)] ok' assms(5)] assms(6) by simp
  have mg: "local_manifest (hc_formats c) (h_fs g) r = Inr m"
    using local_manifest_mono [OF _ fold_extends [of h' c evs]] okg m assms(6) by (simp add: index_ok_def store_inv_def)
  have "\<exists>why. hosted_manifest c g r = Inl (Revoked why)"
    using rv unfolding key_state_meta by (simp add: hosted_manifest_def Let_def)
  then show ?thesis using revoked_not_listed [OF j okg mg rv] revoked_not_found [OF j okg rv] by blast
qed

text \<open>C25: The blob index refines the storage: a digest is refused exactly when releases of the storage contain it
  and all of them are revoked; a blob that an active or yanked release shares stays available.\<close>

theorem blob_access_exact:
  assumes "json_ok (hc_formats c)" and "hosted_reach c h"
  shows "allow_blob (h_meta h) d \<longleftrightarrow>
    (\<nexists>r m. released (hc_formats c) (h_fs h) r m \<and> d \<in> a_digest ` set (m_artifacts m)) \<or>
    (\<exists>r m. released (hc_formats c) (h_fs h) r m \<and> d \<in> a_digest ` set (m_artifacts m) \<and>
       rs_state (meta_status (h_meta h) r) \<noteq> ReleaseRevoked)"
proof -
  let ?o = "set (get_list (md_blobs (h_meta h)) d)"
  let ?R = "\<lambda>r. \<exists>m. released (hc_formats c) (h_fs h) r m \<and> d \<in> a_digest ` set (m_artifacts m)"
  have own: "?o = release_id_string ` {r. ?R r}"
    using hosted_reach_index [OF assms] unfolding index_ok_def owns_def by blast
  have "allow_blob (h_meta h) d \<longleftrightarrow> ?o = {} \<or> (\<exists>k \<in> ?o. key_state (h_meta h) k \<noteq> ReleaseRevoked)"
    by (simp add: allow_blob_def Let_def list_ex_iff)
  moreover have "?o = {} \<longleftrightarrow> (\<nexists>r m. released (hc_formats c) (h_fs h) r m \<and> d \<in> a_digest ` set (m_artifacts m))"
    unfolding own by blast
  moreover have "(\<exists>k \<in> ?o. key_state (h_meta h) k \<noteq> ReleaseRevoked) \<longleftrightarrow>
      (\<exists>r m. released (hc_formats c) (h_fs h) r m \<and> d \<in> a_digest ` set (m_artifacts m) \<and> rs_state (meta_status (h_meta h) r) \<noteq> ReleaseRevoked)"
    unfolding key_state_meta [symmetric] own by blast
  ultimately show ?thesis by simp
qed

text \<open>Nothing changes without authorization: if a request changes the registry at all, the authorizer granted
  its operation on the module concerned.\<close>

theorem change_authorized:
  assumes "hosted_apply c ev h \<noteq> h"
  shows "case ev of
      PublishEvent p data blobs \<Rightarrow> \<exists>m. parse_manifest (hc_formats c) data = Inr m \<and> hc_authorize c p OperationPublish (m_id m) = None
    | StatusEvent p r s \<Rightarrow> hc_authorize c p (if rs_state s = ReleaseRevoked then OperationRevoke else OperationYank) (rel_id r) = None"
proof (cases ev)
  case (PublishEvent p data blobs)
  obtain h' e where h': "hosted_publish c h p data blobs = (h', e)" by force
  then have "h' \<noteq> h" using assms PublishEvent by (simp add: hosted_apply_def)
  from h' show ?thesis using \<open>h' \<noteq> h\<close> PublishEvent by (cases rule: hosted_publish_cases) auto
next
  case (StatusEvent p r s)
  obtain h' e where h': "set_release_status c h p r s = (h', e)" by force
  then show ?thesis
  proof (cases rule: set_status_cases)
    case refused
    then show ?thesis using assms StatusEvent h' by (simp add: hosted_apply_def)
  next
    case (changed m op)
    then show ?thesis using StatusEvent by (auto simp: status_operation_def split: if_splits)
  qed
qed

text \<open>Under the documented laws of Ed25519 (a public key has 32 bytes, a signature 64 and verifies under the
  public key), the registry treats a signed publication exactly as the publication of its manifest and blobs by
  the principal named after the public key.\<close>

theorem signed_accepted:
  assumes "\<And>k. length k = 64 \<Longrightarrow> length (ed_public ed k) = 32" and "\<And>k msg. length k = 64 \<Longrightarrow> length (ed_sign ed k msg) = 64"
    and "\<And>k msg. length k = 64 \<Longrightarrow> ed_verify ed (ed_public ed k) msg (ed_sign ed k msg)"
    and "sign_publication (hc_formats c) sj ed private data blobs = Inr sp"
  shows "publish_signed c sj ed h sp =
    hosted_publish c h \<lparr>pr_subject = ''ed25519:'' @ hex_encode (sha256 (hc_formats c) (ed_public ed private)), pr_groups = []\<rparr> data (map_of blobs)"
proof -
  obtain msg where msg: "length private = 64" "signing_bytes (hc_formats c) sj data = Inr msg"
    "sp = \<lparr>sp_manifest = data, sp_blobs = blobs, sp_public = ed_public ed private, sp_signature = ed_sign ed private msg\<rparr>"
    using assms(4) by (auto simp: sign_publication_def split: if_splits sum.splits option.splits)
  then show ?thesis using assms(1-3) [OF msg(1)] by (simp add: publish_signed_def publisher_id_def)
qed

subsection \<open>Witnesses\<close>

definition demo_config :: hosted_config where
  "demo_config = \<lparr>hc_formats = solo_formats, hc_authorize = (\<lambda>p op i. if pr_subject p = ''root'' then None else Some ''no''),
     hc_mirrors = [], hc_use_mirror = None\<rparr>"

definition demo_root :: principal where
  "demo_root = \<lparr>pr_subject = ''root'', pr_groups = []\<rparr>"

definition demo_module :: release_id where
  "demo_module = \<lparr>rel_id = ''solo'', rel_version = plain_version 1 2 3\<rparr>"

definition demo_revoke :: release_status where
  "demo_revoke = \<lparr>rs_state = ReleaseRevoked, rs_reason = ''bad'', rs_actor = []\<rparr>"

definition demo_hosted :: hosted where
  "demo_hosted = \<lparr>h_fs = solo_fs, h_meta = \<lparr>md_status = [], md_versions = [(''solo'', [(''1.2.3'', plain_version 1 2 3)])],
     md_blobs = [(replicate 32 7, [''solo@1.2.3''])]\<rparr>\<rparr>"

lemma demo_config_json: "json_ok (hc_formats demo_config)"
  using solo_json_ok by (simp add: demo_config_def)

lemma demo_hosted_reach: "hosted_reach demo_config demo_hosted"
proof -
  have p: "parse_manifest solo_formats ''solo'' = Inr (demo_manifest\<lparr>m_id := ''solo'', m_dependencies := []\<rparr>)" by code_simp
  have "meta_record new_metadata (demo_manifest\<lparr>m_id := ''solo'', m_dependencies := []\<rparr>) = h_meta demo_hosted" by code_simp
  then have "hosted_apply demo_config (PublishEvent demo_root ''solo'' [replicate 32 7 \<mapsto> ''abc'']) new_hosted = demo_hosted"
    using p solo_published
    by (simp add: hosted_apply_def hosted_publish_def demo_config_def demo_root_def new_hosted_def demo_hosted_def)
  then show ?thesis using hosted_reach.step [OF hosted_reach.start] by metis
qed

definition demo_revoked :: hosted where
  "demo_revoked = fst (set_release_status demo_config demo_hosted demo_root demo_module demo_revoke)"

lemma demo_revokes: "set_release_status demo_config demo_hosted demo_root demo_module demo_revoke = (demo_revoked, None)"
proof -
  have "snd (set_release_status demo_config demo_hosted demo_root demo_module demo_revoke) = None" by code_simp
  then show ?thesis unfolding demo_revoked_def by (simp add: prod_eq_iff)
qed

theorem revoked_hidden_witness: "\<exists>why. hosted_manifest demo_config demo_revoked demo_module = Inl (Revoked why)"
  using revoked_hidden [OF demo_config_json demo_hosted_reach demo_revokes, of "[]" demo_revoked]
  by (simp add: demo_revoke_def)

theorem blob_access_exact_witness: "allow_blob (h_meta demo_hosted) (replicate 32 7) \<and>
    (\<exists>r. rs_state (meta_status (h_meta demo_hosted) r) \<noteq> ReleaseRevoked)"
proof -
  have "allow_blob (h_meta demo_hosted) (replicate 32 7)" "\<not> allow_blob (h_meta demo_revoked) (replicate 32 7)" by code_simp+
  then show ?thesis
    using blob_access_exact [OF demo_config_json demo_hosted_reach, of "replicate 32 7"]
    by (auto simp: meta_status_def demo_hosted_def)
qed

theorem change_authorized_witness: "hc_authorize demo_config demo_root OperationRevoke (rel_id demo_module) = None"
proof -
  have "key_state (h_meta demo_revoked) ''solo@1.2.3'' = ReleaseRevoked" "key_state (h_meta demo_hosted) ''solo@1.2.3'' \<noteq> ReleaseRevoked"
    by code_simp+
  then have "hosted_apply demo_config (StatusEvent demo_root demo_module demo_revoke) demo_hosted \<noteq> demo_hosted"
    by (auto simp: hosted_apply_def demo_revoked_def)
  then show ?thesis using change_authorized by (fastforce simp: demo_revoke_def)
qed

definition demo_ed :: ed25519 where
  "demo_ed = \<lparr>ed_public = take 32, ed_sign = (\<lambda>k msg. k), ed_verify = (\<lambda>pk msg sg. take 32 sg = pk)\<rparr>"

theorem signed_accepted_witness:
  "snd (publish_signed demo_config (\<lambda>_ _. ''m'') demo_ed new_hosted
     (projr (sign_publication solo_formats (\<lambda>_ _. ''m'') demo_ed (replicate 64 CHR ''k'') ''solo'' [(replicate 32 7, ''abc'')])))
   = Some (Forbidden ''no'')"
proof -
  let ?sp = "sign_publication solo_formats (\<lambda>_ _. ''m'') demo_ed (replicate 64 CHR ''k'') ''solo'' [(replicate 32 7, ''abc'')]"
  have "\<not> isl ?sp" by code_simp
  then have sp: "sign_publication (hc_formats demo_config) (\<lambda>_ _. ''m'') demo_ed (replicate 64 CHR ''k'') ''solo'' [(replicate 32 7, ''abc'')] = Inr (projr ?sp)"
    by (simp add: demo_config_def Inr_projr)
  have "parse_manifest solo_formats ''solo'' = Inr (demo_manifest\<lparr>m_id := ''solo'', m_dependencies := []\<rparr>)" by code_simp
  then show ?thesis
    using signed_accepted [OF _ _ _ sp, of new_hosted] by (simp add: demo_ed_def hosted_publish_def demo_config_def)
qed

end
