(* ===== verification/Registry_Cache.thy ===== *)
theory Registry_Cache
  imports Registry_Store "HOL-Library.AList"
begin

text \<open>
  The client side of the registry: \<^verbatim>\<open>CachedStore\<close> of \<^verbatim>\<open>src/registry/cache.go\<close>, which fetches releases from
  upstream stores, verifies them and publishes them into the local store before use, and the lock file of
  a project, \<^verbatim>\<open>src/registry/project.go\<close> with \<^verbatim>\<open>ParseLock\<close> and \<^verbatim>\<open>Marshal\<close> of \<^verbatim>\<open>src/registry/resolve.go\<close>. The JSON
  of the lock file is a parameter. A file write is atomic: it fails and leaves the file, or replaces it.
\<close>

subsection \<open>The cached store\<close>

datatype cache_error =
    CacheStore store_error | Joined "store_error list" | Upstream store_error | WrongRelease release_id
  | FetchArtifact string store_error | ArtifactVerification string | CacheEncode manifest_error | CachePublish store_error
  | BlobDigestMismatch digest

text \<open>The versions of all sources by their text; sources that do not know the module do not count.\<close>

fun collect_versions :: "string \<Rightarrow> store list \<Rightarrow> (string \<times> version) list \<Rightarrow> bool \<Rightarrow> store_error list \<Rightarrow> (cache_error, (string \<times> version) list) result" where
  "collect_versions i [] versions found errs =
     (if found then Inr versions else if errs \<noteq> [] then Inl (Joined errs) else Inl (CacheStore NotFound))"
| "collect_versions i (s # ss) versions found errs =
     (case st_versions s i of
        Inl NotFound \<Rightarrow> collect_versions i ss versions found errs
      | Inl e \<Rightarrow> collect_versions i ss versions found (errs @ [e])
      | Inr vs \<Rightarrow> collect_versions i ss (fold (\<lambda>v m. AList.update (version_string v) v m) vs versions) True errs)"

definition cached_versions :: "formats \<Rightarrow> fs \<Rightarrow> store list \<Rightarrow> string \<Rightarrow> (cache_error, version list) result" where
  "cached_versions fm fs ups i =
     bindE (collect_versions i (local_store fm fs # ups) [] False []) (\<lambda>versions. Inr (sort_desc (map snd versions)))"

fun fetch_blobs :: "formats \<Rightarrow> store \<Rightarrow> artifact list \<Rightarrow> (digest \<rightharpoonup> string) \<Rightarrow> (cache_error, digest \<rightharpoonup> string) result" where
  "fetch_blobs fm up [] blobs = Inr blobs"
| "fetch_blobs fm up (a # as) blobs =
     (case st_blob up (a_digest a) of
        Inl e \<Rightarrow> Inl (FetchArtifact (a_target a) e)
      | Inr b \<Rightarrow>
          if sha256 fm b \<noteq> a_digest a \<or> int (length b) \<noteq> a_size a then Inl (ArtifactVerification (a_target a))
          else fetch_blobs fm up as (blobs(a_digest a \<mapsto> b)))"

definition store_fetched :: "formats \<Rightarrow> fs \<Rightarrow> release_id \<Rightarrow> store \<Rightarrow> manifest \<Rightarrow> fs \<times> (cache_error, manifest) result" where
  "store_fetched fm fs r up m =
     (if m_id m \<noteq> rel_id r \<or> version_compare (m_version m) (rel_version r) \<noteq> 0 then (fs, Inl (WrongRelease r))
      else case fetch_blobs fm up (m_artifacts m) Map.empty of
             Inl e \<Rightarrow> (fs, Inl e)
           | Inr blobs \<Rightarrow>
               (case manifest_toml fm m of
                  Inl e \<Rightarrow> (fs, Inl (CacheEncode e))
                | Inr wire \<Rightarrow>
                    (case publish fm fs wire blobs of
                       (fs', Some e) \<Rightarrow> (fs', Inl (CachePublish e))
                     | (fs', None) \<Rightarrow> (fs', map_err CacheStore (local_manifest fm fs' r)))))"

fun fetch_manifest :: "formats \<Rightarrow> fs \<Rightarrow> release_id \<Rightarrow> store list \<Rightarrow> fs \<times> (cache_error, manifest) result" where
  "fetch_manifest fm fs r [] = (fs, Inl (CacheStore NotFound))"
| "fetch_manifest fm fs r (u # us) =
     (case st_manifest u r of
        Inl NotFound \<Rightarrow> fetch_manifest fm fs r us
      | Inl e \<Rightarrow> (fs, Inl (Upstream e))
      | Inr m \<Rightarrow> store_fetched fm fs r u m)"

definition cached_manifest :: "formats \<Rightarrow> fs \<Rightarrow> store list \<Rightarrow> release_id \<Rightarrow> fs \<times> (cache_error, manifest) result" where
  "cached_manifest fm fs ups r =
     (case local_manifest fm fs r of
        Inl NotFound \<Rightarrow> fetch_manifest fm fs r ups
      | x \<Rightarrow> (fs, map_err CacheStore x))"

fun fetch_blob :: "formats \<Rightarrow> digest \<Rightarrow> store list \<Rightarrow> (cache_error, string) result" where
  "fetch_blob fm d [] = Inl (CacheStore NotFound)"
| "fetch_blob fm d (u # us) =
     (case st_blob u d of
        Inl NotFound \<Rightarrow> fetch_blob fm d us
      | Inl e \<Rightarrow> Inl (Upstream e)
      | Inr b \<Rightarrow> if sha256 fm b \<noteq> d then Inl (BlobDigestMismatch d) else Inr b)"

definition cached_blob :: "formats \<Rightarrow> fs \<Rightarrow> store list \<Rightarrow> digest \<Rightarrow> (cache_error, string) result" where
  "cached_blob fm fs ups d =
     (case local_blob fs d of
        Inl NotFound \<Rightarrow> fetch_blob fm d ups
      | x \<Rightarrow> map_err CacheStore x)"

subsection \<open>The lock file of a project\<close>

record lock_codec =
  lk_encode :: "lock \<Rightarrow> string"
  lk_decode :: "string \<Rightarrow> (lock \<times> bool) option"

datatype lock_error = LockSyntax | LockTrailing | LockSchema | LockRead string | LockWrite string | LockResolve resolve_error

text \<open>The decoder reads one value and says whether nothing follows it.\<close>

definition parse_lock :: "lock_codec \<Rightarrow> string \<Rightarrow> (lock_error, lock) result" where
  "parse_lock ck data =
     (case lk_decode ck data of
        None \<Rightarrow> Inl LockSyntax
      | Some (l, eof) \<Rightarrow>
          if \<not> eof then Inl LockTrailing
          else if l_schema l \<noteq> 1 \<or> l_target l = [] then Inl LockSchema
          else Inr l)"

definition equal_roots :: "dependency list \<Rightarrow> dependency list \<Rightarrow> bool" where
  "equal_roots a b \<longleftrightarrow> length a = length b \<and> sort_key d_id a = sort_key d_id b"

definition resolve_project :: "nat \<Rightarrow> formats \<Rightarrow> store \<Rightarrow> project \<Rightarrow> (resolve_error, lock) result option" where
  "resolve_project n fm s p = resolve n fm s \<lparr>q_target = p_target p, q_roots = p_modules p\<rparr>"

datatype disk_file = Missing | Unreadable string | Contents string

text \<open>The lock on disk is kept when it parses, is for this target and these roots and verifies.\<close>

definition lock_current :: "formats \<Rightarrow> lock_codec \<Rightarrow> store \<Rightarrow> project \<Rightarrow> string \<Rightarrow> lock option" where
  "lock_current fm ck s p wire =
     (case parse_lock ck wire of
        Inl _ \<Rightarrow> None
      | Inr l \<Rightarrow>
          if l_target l = p_target p \<and> equal_roots (l_roots l) (p_modules p) \<and> verify fm s l = Inr () then Some l else None)"

text \<open>\<open>write\<close> is the outcome of \<^verbatim>\<open>AtomicWrite\<close>: an error, or none.\<close>

definition atomic_write :: "string option \<Rightarrow> disk_file \<Rightarrow> string \<Rightarrow> disk_file \<times> string option" where
  "atomic_write write f data = (case write of Some e \<Rightarrow> (f, Some e) | None \<Rightarrow> (Contents data, None))"

definition renew_lock :: "nat \<Rightarrow> formats \<Rightarrow> lock_codec \<Rightarrow> store \<Rightarrow> project \<Rightarrow> string option \<Rightarrow> disk_file
    \<Rightarrow> (disk_file \<times> (lock_error, lock \<times> bool) result) option" where
  "renew_lock n fm ck s p write f =
     map_option (\<lambda>r. case r of
        Inl e \<Rightarrow> (f, Inl (LockResolve e))
      | Inr l \<Rightarrow>
          (case atomic_write write f (lk_encode ck l @ [CHR 0x0A]) of
             (f', Some e) \<Rightarrow> (f', Inl (LockWrite e))
           | (f', None) \<Rightarrow> (f', Inr (l, True)))) (resolve_project n fm s p)"

definition ensure_project_lock :: "nat \<Rightarrow> formats \<Rightarrow> lock_codec \<Rightarrow> store \<Rightarrow> project \<Rightarrow> string option \<Rightarrow> disk_file
    \<Rightarrow> (disk_file \<times> (lock_error, lock \<times> bool) result) option" where
  "ensure_project_lock n fm ck s p write f =
     (case f of
        Unreadable e \<Rightarrow> Some (f, Inl (LockRead e))
      | Missing \<Rightarrow> renew_lock n fm ck s p write f
      | Contents wire \<Rightarrow>
          (case lock_current fm ck s p wire of
             Some l \<Rightarrow> Some (f, Inr (l, False))
           | None \<Rightarrow> renew_lock n fm ck s p write f))"

subsection \<open>Reading through the cache\<close>

lemma fetch_blobs_sum:
  "fetch_blobs fm up as blobs = Inr blobs' \<Longrightarrow> (\<forall>d b. blobs d = Some b \<longrightarrow> sha256 fm b = d) \<Longrightarrow>
     blobs' d = Some b \<Longrightarrow> sha256 fm b = d"
  by (induction as arbitrary: blobs) (auto split: sum.splits if_splits)

lemma store_fetched_spec:
  assumes "store_fetched fm fs r up m = (fs', res)"
  shows "(\<exists>data blobs. fs' = fst (publish fm fs data blobs)) \<or> fs' = fs"
    and "res = Inr k \<Longrightarrow> local_manifest fm fs' r = Inr k"
  using assms unfolding store_fetched_def
  by (auto split: if_splits sum.splits option.splits prod.splits) (metis fst_conv)+

lemma fetch_manifest_spec:
  assumes "fetch_manifest fm fs r us = (fs', res)"
  shows "((\<exists>data blobs. fs' = fst (publish fm fs data blobs)) \<or> fs' = fs) \<and> (\<forall>k. res = Inr k \<longrightarrow> local_manifest fm fs' r = Inr k)"
  using assms
proof (induction us)
  case (Cons u us)
  show ?case
  proof (cases "st_manifest u r")
    case (Inl e)
    then show ?thesis using Cons by (cases e) auto
  next
    case (Inr m)
    then show ?thesis using Cons.prems store_fetched_spec [of fm fs r u m fs' res] by auto
  qed
qed auto

lemma cached_manifest_spec:
  assumes "cached_manifest fm fs ups r = (fs', res)"
  shows "((\<exists>data blobs. fs' = fst (publish fm fs data blobs)) \<or> fs' = fs) \<and> (\<forall>k. res = Inr k \<longrightarrow> local_manifest fm fs' r = Inr k)"
proof (cases "local_manifest fm fs r = Inl NotFound")
  case True
  then show ?thesis using assms fetch_manifest_spec by (simp add: cached_manifest_def)
next
  case False
  then have "fs' = fs \<and> res = map_err CacheStore (local_manifest fm fs r)"
    using assms by (auto simp: cached_manifest_def split: sum.splits store_error.splits)
  then show ?thesis by auto
qed

text \<open>C34: What the cache hands out is verified and pinned. A release read through the cache, from upstreams that
  may answer anything, leaves a store that is still consistent; the manifest is well formed and of the version
  asked for, all its artifacts are in the cache with their digests, and every later read of the release returns
  the same manifest whatever the upstreams answer then. Blobs always have the digest asked for.\<close>

theorem cache_pins:
  assumes "json_ok fm" and "store_reach fm fs" and "cached_manifest fm fs ups r = (fs', Inr m)"
  shows "store_reach fm fs' \<and> manifest_wf m \<and> m_version m = rel_version r \<and>
    (\<forall>a \<in> set (m_artifacts m). \<exists>b. local_blob fs' (a_digest a) = Inr b \<and> sha256 fm b = a_digest a) \<and>
    (\<forall>ups' data blobs. cached_manifest fm (fst (publish fm fs' data blobs)) ups' r = (fst (publish fm fs' data blobs), Inr m)) \<and>
    (\<forall>ups' d b. cached_blob fm fs' ups' d = Inr b \<longrightarrow> sha256 fm b = d)"
proof -
  note c = cached_manifest_spec [OF assms(3)]
  have reach: "store_reach fm fs'" using c assms(2) store_reach.published by metis
  note inv = store_reach_inv [OF reach]
  have m: "local_manifest fm fs' r = Inr m" using c by blast
  note f = local_manifest_Inr [OF inv assms(1) m]
  have "\<exists>b. local_blob fs' (a_digest a) = Inr b \<and> sha256 fm b = a_digest a" if "a \<in> set (m_artifacts m)" for a
    using f(4) that local_blob_there [of fs' fm] inv unfolding store_inv_def by blast
  moreover have "cached_manifest fm (fst (publish fm fs' data blobs)) ups' r = (fst (publish fm fs' data blobs), Inr m)" for ups' data blobs
    using ls.manifest_kept [of fm fs' r m data blobs] assms(1) inv m by (simp add: cached_manifest_def local_store_def)
  moreover have "sha256 fm b = d" if "cached_blob fm fs' ups' d = Inr b" for ups' d b
  proof (cases "local_blob fs' d = Inl NotFound")
    case True
    then have "fetch_blob fm d ups' = Inr b" using that by (simp add: cached_blob_def)
    then show ?thesis by (induction ups') (auto split: sum.splits store_error.splits if_splits)
  next
    case False
    then have "local_blob fs' d = Inr b" using that by (auto simp: cached_blob_def split: sum.splits store_error.splits)
    then show ?thesis using local_blob_sum [OF inv] by blast
  qed
  ultimately show ?thesis using reach f by auto
qed

subsection \<open>The lock file\<close>

lemma resolve_shape:
  assumes "resolve n fm s q = Some (Inr l)"
  shows "l_schema l = 1 \<and> l_target l = q_target q \<and> l_roots l = sort_key d_id (q_roots q) \<and> q_target q \<noteq> []"
  using assms by (auto simp: resolve_def build_lock_def split: if_splits sum.splits)

lemma resolve_total:
  assumes "universe s U" and "d_id ` set (q_roots q) \<subseteq> U" and "card U < n"
  shows "resolve n fm s q \<noteq> None"
proof (cases "root_constraints (q_roots q) []")
  case (Inr c)
  have "fst ` set c \<subseteq> U" using root_constraints_Inr [OF Inr] assms(2) by auto
  then show ?thesis using solve_total [OF assms(1), of c "[]" n] assms(3) Inr by (simp add: resolve_def)
qed (simp add: resolve_def)

lemma renewed_lock:
  assumes "renew_lock n fm ck s p write f = Some (f', res)"
  shows "res = Inr (l, changed) \<Longrightarrow> resolve_project n fm s p = Some (Inr l) \<and> changed \<and> f' = Contents (lk_encode ck l @ [CHR 0x0A])"
    and "res = Inl e \<Longrightarrow> f' = f"
proof -
  obtain r where "resolve_project n fm s p = Some r" using assms by (auto simp: renew_lock_def)
  then show "res = Inr (l, changed) \<Longrightarrow> resolve_project n fm s p = Some (Inr l) \<and> changed \<and> f' = Contents (lk_encode ck l @ [CHR 0x0A])"
    and "res = Inl e \<Longrightarrow> f' = f"
    using assms by (auto simp: renew_lock_def atomic_write_def split: sum.splits option.splits)
qed

lemma lock_current_Some:
  "lock_current fm ck s p wire = Some l \<longleftrightarrow> parse_lock ck wire = Inr l \<and> l_target l = p_target p \<and>
     equal_roots (l_roots l) (p_modules p) \<and> verify fm s l = Inr ()"
  by (auto simp: lock_current_def split: sum.splits)

text \<open>C35: Ensuring the lock of a project always ends, and it ends with a lock for the project's target and roots
  that verifies against the store, written to disk when it was resolved anew; a failure leaves the lock file as
  it was, and ensuring the lock a second time returns the same lock and writes nothing.\<close>

theorem ensure_lock_stable:
  assumes "honest s" and "universe s U" and "d_id ` set (p_modules p) \<subseteq> U" and "named s U" and "serves fm s" and "card U < n"
    and "\<And>l. resolve_project n fm s p = Some (Inr l) \<Longrightarrow> lk_decode ck (lk_encode ck l @ [CHR 0x0A]) = Some (l, True)"
  shows "\<exists>f' res. ensure_project_lock n fm ck s p write f = Some (f', res) \<and>
    (\<forall>e. res = Inl e \<longrightarrow> f' = f) \<and>
    (\<forall>l changed. res = Inr (l, changed) \<longrightarrow> verify fm s l = Inr () \<and> l_target l = p_target p \<and>
       equal_roots (l_roots l) (p_modules p) \<and> f' = (if changed then Contents (lk_encode ck l @ [CHR 0x0A]) else f) \<and>
       (\<forall>k w. ensure_project_lock k fm ck s p w f' = Some (f', Inr (l, False))))"
proof -
  let ?q = "\<lparr>q_target = p_target p, q_roots = p_modules p\<rparr>"
  have roots: "d_id ` set (q_roots ?q) \<subseteq> U" using assms(3) by simp
  have total: "renew_lock n fm ck s p write f \<noteq> None"
    using resolve_total [OF assms(2) roots assms(6), of fm] by (simp add: renew_lock_def resolve_project_def)
  have fresh: "verify fm s l = Inr () \<and> l_target l = p_target p \<and> equal_roots (l_roots l) (p_modules p) \<and>
      lock_current fm ck s p (lk_encode ck l @ [CHR 0x0A]) = Some l" if "resolve_project n fm s p = Some (Inr l)" for l
  proof -
    have r: "resolve n fm s ?q = Some (Inr l)" using that by (simp add: resolve_project_def)
    have "verify fm s l = Inr ()" using resolve_lock_ok [OF r assms(1,2) roots assms(4,5)] .
    then show ?thesis
      using resolve_shape [OF r] assms(7) [OF that] unfolding lock_current_Some by (simp add: parse_lock_def equal_roots_def sort_key_id_if_sorted)
  qed
  show ?thesis
  proof (cases "\<exists>wire l. f = Contents wire \<and> lock_current fm ck s p wire = Some l")
    case True
    then obtain wire l where w: "f = Contents wire" "lock_current fm ck s p wire = Some l" by blast
    have "ensure_project_lock k fm ck s p v f = Some (f, Inr (l, False))" for k v using w by (simp add: ensure_project_lock_def)
    moreover have "verify fm s l = Inr ()" "l_target l = p_target p" "equal_roots (l_roots l) (p_modules p)"
      using w(2) unfolding lock_current_Some by blast+
    ultimately show ?thesis by simp
  next
    case False
    then have en: "ensure_project_lock n fm ck s p write f = (case f of Unreadable e \<Rightarrow> Some (f, Inl (LockRead e)) | _ \<Rightarrow> renew_lock n fm ck s p write f)"
      by (auto simp: ensure_project_lock_def split: disk_file.splits option.splits)
    obtain f' res where rn: "renew_lock n fm ck s p write f = Some (f', res)" using total by auto
    show ?thesis
    proof (cases "\<exists>e. f = Unreadable e")
      case True
      then show ?thesis using en by auto
    next
      case False
      then have en': "ensure_project_lock n fm ck s p write f = Some (f', res)" using en rn by (cases f) simp_all
      show ?thesis
      proof (cases res)
        case (Inl e)
        then show ?thesis using en' renewed_lock(2) [OF rn Inl] by simp
      next
        case (Inr x)
        obtain l changed where x: "res = Inr (l, changed)" using Inr by (cases x) simp
        note new = renewed_lock(1) [OF rn x]
        then have "ensure_project_lock k fm ck s p w f' = Some (f', Inr (l, False))" for k w
          using fresh [of l] by (simp add: ensure_project_lock_def)
        then show ?thesis using en' x new fresh [of l] by simp
      qed
    qed
  qed
qed

subsection \<open>Witnesses\<close>

theorem cache_pins_witness:
  "cached_manifest solo_formats (fst (publish solo_formats solo_fs ''a/./b'' [replicate 32 7 \<mapsto> ''abc''])) []
     \<lparr>rel_id = ''solo'', rel_version = plain_version 1 2 3\<rparr> =
   (fst (publish solo_formats solo_fs ''a/./b'' [replicate 32 7 \<mapsto> ''abc'']),
    Inr (demo_manifest\<lparr>m_id := ''solo'', m_dependencies := []\<rparr>))"
proof -
  have "local_manifest solo_formats solo_fs \<lparr>rel_id = ''solo'', rel_version = plain_version 1 2 3\<rparr> =
      Inr (demo_manifest\<lparr>m_id := ''solo'', m_dependencies := []\<rparr>)" by code_simp
  then have "cached_manifest solo_formats solo_fs [] \<lparr>rel_id = ''solo'', rel_version = plain_version 1 2 3\<rparr> =
      (solo_fs, Inr (demo_manifest\<lparr>m_id := ''solo'', m_dependencies := []\<rparr>))" by (simp add: cached_manifest_def)
  then show ?thesis using cache_pins [OF solo_json_ok solo_fs_reach] by blast
qed

definition demo_project :: project where
  "demo_project = \<lparr>p_target = ''wasm'', p_modules = [\<lparr>d_id = ''a'', d_requirement = ''*''\<rparr>], p_remotes = []\<rparr>"

definition demo_lock_codec :: lock_codec where
  "demo_lock_codec = \<lparr>lk_encode = (\<lambda>_. ''lock''), lk_decode = (\<lambda>s. if s = ''lock'' @ [CHR 0x0A] then Some (demo_lock, True) else None)\<rparr>"

theorem ensure_lock_stable_witness:
  "\<exists>f' res. ensure_project_lock 3 demo_formats demo_lock_codec demo_store demo_project None Missing = Some (f', res)"
proof -
  have "lk_decode demo_lock_codec (lk_encode demo_lock_codec l @ [CHR 0x0A]) = Some (l, True)"
    if "resolve_project 3 demo_formats demo_store demo_project = Some (Inr l)" for l
    using that by (simp add: demo_lock_codec_def demo_lock_def resolve_project_def demo_project_def demo_request_def)
  then show ?thesis
    using ensure_lock_stable [OF demo_honest demo_universe _ demo_named demo_serves, of demo_project 3 demo_lock_codec None Missing]
    by (simp add: demo_project_def) blast
qed

end
