(* ===== verification/Endpoint_Registry.thy ===== *)
theory Endpoint_Registry
  imports Ext_Scope "HOL-Library.AList"
begin

text \<open>
  The discovery index of application endpoints, \<^verbatim>\<open>src/run/endpoint_registry.go\<close> with \<^verbatim>\<open>Endpoint\<close> of
  \<^verbatim>\<open>src/ext/ext.go\<close>: two maps, from resource keys to endpoints and from application keys to resource keys,
  which implement one map from application keys to endpoints. Locks have no counterpart because each call
  is one step.
\<close>

subsection \<open>The registry\<close>

record endpoint =
  ep_scope :: scope
  ep_capability :: string
  ep_name :: string
  ep_address :: string

record application_key =
  ak_application :: string
  ak_instance :: string
  ak_capability :: string
  ak_name :: string

record endpoint_registry =
  by_resource :: "(resource_key \<times> endpoint) list"
  by_application :: "(application_key \<times> resource_key) list"

datatype endpoint_error = EndpointScope scope_error | AddressRequired | EndpointKey key_error | AlreadyReady string | AlreadyOwned string string

definition new_endpoint_registry :: endpoint_registry where
  "new_endpoint_registry = \<lparr>by_resource = [], by_application = []\<rparr>"

definition endpoint_keys :: "endpoint \<Rightarrow> (endpoint_error, resource_key \<times> application_key) result" where
  "endpoint_keys e =
     bindE (map_err EndpointScope (validate (ep_scope e))) (\<lambda>_.
       if trim_space (ep_address e) = [] then Inl AddressRequired
       else bindE (map_err EndpointKey (scope_resource_key (ep_scope e) (ep_capability e) (ep_name e))) (\<lambda>r.
         Inr (r, \<lparr>ak_application = application_id (ep_scope e), ak_instance = application_instance_id (ep_scope e),
                  ak_capability = ep_capability e, ak_name = ep_name e\<rparr>)))"

text \<open>A missing endpoint is Go's zero value; only its text in an error depends on it.\<close>

definition owner_of :: "endpoint_registry \<Rightarrow> resource_key \<Rightarrow> endpoint_error" where
  "owner_of reg r =
     (case map_of (by_resource reg) r of
        Some x \<Rightarrow> AlreadyOwned (cell_id (ep_scope x)) (ep_address x)
      | None \<Rightarrow> AlreadyOwned [] [])"

definition endpoint_ready :: "endpoint_registry \<Rightarrow> endpoint \<Rightarrow> endpoint_registry \<times> endpoint_error option" where
  "endpoint_ready reg e =
     (case endpoint_keys e of
        Inl err \<Rightarrow> (reg, Some err)
      | Inr (r, a) \<Rightarrow>
          (case map_of (by_resource reg) r of
             Some x \<Rightarrow> (reg, if ep_address x = ep_address e then None else Some (AlreadyReady (ep_address x)))
           | None \<Rightarrow>
               (case map_of (by_application reg) a of
                  Some r' \<Rightarrow> (reg, Some (owner_of reg r'))
                | None \<Rightarrow> (\<lparr>by_resource = AList.update r e (by_resource reg), by_application = AList.update a r (by_application reg)\<rparr>, None))))"

definition endpoint_gone :: "endpoint_registry \<Rightarrow> endpoint \<Rightarrow> endpoint_registry" where
  "endpoint_gone reg e =
     (case endpoint_keys e of
        Inl _ \<Rightarrow> reg
      | Inr (r, a) \<Rightarrow>
          (case map_of (by_resource reg) r of
             None \<Rightarrow> reg
           | Some x \<Rightarrow>
               if ep_address x = ep_address e
               then \<lparr>by_resource = AList.delete r (by_resource reg),
                     by_application = (if map_of (by_application reg) a = Some r then AList.delete a (by_application reg) else by_application reg)\<rparr>
               else reg))"

definition application_address :: "endpoint_registry \<Rightarrow> string \<Rightarrow> string \<Rightarrow> string \<Rightarrow> string \<Rightarrow> string option" where
  "application_address reg app inst cap name =
     (case map_of (by_application reg) \<lparr>ak_application = trim_space app, ak_instance = trim_space inst,
              ak_capability = trim_space cap, ak_name = trim_space name\<rparr> of
        None \<Rightarrow> None
      | Some r \<Rightarrow> map_option ep_address (map_of (by_resource reg) r))"

definition owned_by :: "string \<Rightarrow> string \<Rightarrow> application_key \<Rightarrow> bool" where
  "owned_by app inst a \<longleftrightarrow> ak_application a = app \<and> ak_instance a = inst"

definition remove_application :: "endpoint_registry \<Rightarrow> string \<Rightarrow> string \<Rightarrow> endpoint_registry" where
  "remove_application reg app inst =
     fold (\<lambda>(a, r) g. if owned_by app inst a
          then \<lparr>by_resource = AList.delete r (by_resource g), by_application = AList.delete a (by_application g)\<rparr> else g)
       (by_application reg) reg"

subsection \<open>The specification\<close>

text \<open>One map from application keys to the endpoint that serves them.\<close>

type_synonym directory = "application_key \<rightharpoonup> endpoint"

definition spec_ready :: "directory \<Rightarrow> endpoint \<Rightarrow> directory \<times> bool" where
  "spec_ready d e =
     (case endpoint_keys e of
        Inl _ \<Rightarrow> (d, False)
      | Inr (r, a) \<Rightarrow>
          (case d a of
             None \<Rightarrow> (d(a \<mapsto> e), True)
           | Some x \<Rightarrow> (d, ep_scope x = ep_scope e \<and> ep_address x = ep_address e)))"

definition spec_gone :: "directory \<Rightarrow> endpoint \<Rightarrow> directory" where
  "spec_gone d e =
     (case endpoint_keys e of
        Inl _ \<Rightarrow> d
      | Inr (r, a) \<Rightarrow>
          (case d a of
             Some x \<Rightarrow> if ep_scope x = ep_scope e \<and> ep_address x = ep_address e then d(a := None) else d
           | None \<Rightarrow> d))"

definition spec_remove :: "directory \<Rightarrow> string \<Rightarrow> string \<Rightarrow> directory" where
  "spec_remove d app inst = (\<lambda>a. if owned_by app inst a then None else d a)"

text \<open>What a registry implements, and the promise of any registry that implements the specification.\<close>

locale endpoint_directory =
  fixes view :: "'r \<Rightarrow> directory" and inv :: "'r \<Rightarrow> bool" and ready :: "'r \<Rightarrow> endpoint \<Rightarrow> 'r \<times> 'x option"
    and gone :: "'r \<Rightarrow> endpoint \<Rightarrow> 'r" and remove :: "'r \<Rightarrow> string \<Rightarrow> string \<Rightarrow> 'r"
  assumes inv_ready: "inv g \<Longrightarrow> inv (fst (ready g e))"
    and inv_gone: "inv g \<Longrightarrow> inv (gone g e)"
    and inv_remove: "inv g \<Longrightarrow> inv (remove g app inst)"
    and view_ready: "inv g \<Longrightarrow> (view (fst (ready g e)), snd (ready g e) = None) = spec_ready (view g) e"
    and view_gone: "inv g \<Longrightarrow> view (gone g e) = spec_gone (view g) e"
    and view_remove: "inv g \<Longrightarrow> view (remove g app inst) = spec_remove (view g) app inst"
begin

lemma ready_view: "inv g \<Longrightarrow> view (fst (ready g e)) = fst (spec_ready (view g) e)"
  using view_ready [of g e] by (metis fst_conv)

text \<open>A live endpoint is only taken away by its own departure or by the removal of its application.\<close>

lemma ready_keeps: "inv g \<Longrightarrow> view g a = Some x \<Longrightarrow> view (fst (ready g e)) a = Some x"
  by (simp add: ready_view spec_ready_def split: sum.splits prod.splits option.splits)

lemma late_gone_keeps:
  "inv g \<Longrightarrow> view g a = Some x \<Longrightarrow> ep_scope e \<noteq> ep_scope x \<or> ep_address e \<noteq> ep_address x \<Longrightarrow> view (gone g e) a = Some x"
  by (auto simp: view_gone spec_gone_def split: sum.splits prod.splits option.splits)

end

subsection \<open>The invariant\<close>

definition view :: "endpoint_registry \<Rightarrow> directory" where
  "view reg a = (case map_of (by_application reg) a of None \<Rightarrow> None | Some r \<Rightarrow> map_of (by_resource reg) r)"

text \<open>The two maps name each other's entries.\<close>

definition registry_ok :: "endpoint_registry \<Rightarrow> bool" where
  "registry_ok reg \<longleftrightarrow> distinct (map fst (by_application reg)) \<and> distinct (map fst (by_resource reg)) \<and>
     (\<forall>a r. map_of (by_application reg) a = Some r \<longrightarrow> (\<exists>e. map_of (by_resource reg) r = Some e \<and> endpoint_keys e = Inr (r, a))) \<and>
     (\<forall>r e. map_of (by_resource reg) r = Some e \<longrightarrow> (\<exists>a. map_of (by_application reg) a = Some r))"

lemma endpoint_keys_Inr:
  assumes "endpoint_keys e = Inr (r, a)"
  shows "r = \<lparr>rk_scope = ep_scope e, rk_type = ep_capability e, rk_id = ep_name e\<rparr>"
    and "a = \<lparr>ak_application = application_id (rk_scope r), ak_instance = application_instance_id (rk_scope r),
      ak_capability = rk_type r, ak_name = rk_id r\<rparr>"
  using assms by (auto simp: endpoint_keys_def scope_resource_key_def split: if_splits)

lemma same_resource: "endpoint_keys e = Inr (r, a) \<Longrightarrow> endpoint_keys x = Inr (r, b) \<Longrightarrow> b = a \<and> ep_scope x = ep_scope e"
  using endpoint_keys_Inr [of e r a] endpoint_keys_Inr [of x r b] by auto

lemma same_scope:
  assumes "endpoint_keys e = Inr (r, a)" and "endpoint_keys x = Inr (r', a)"
  shows "ep_scope x = ep_scope e \<longleftrightarrow> r' = r"
  using endpoint_keys_Inr [OF assms(1)] endpoint_keys_Inr [OF assms(2)] by auto

lemma registry_okD:
  assumes "registry_ok reg"
  shows "map_of (by_application reg) a = Some r \<Longrightarrow> \<exists>e. map_of (by_resource reg) r = Some e \<and> endpoint_keys e = Inr (r, a)"
    and "map_of (by_resource reg) r = Some e \<Longrightarrow> \<exists>a. map_of (by_application reg) a = Some r \<and> endpoint_keys e = Inr (r, a)"
    and "distinct (map fst (by_application reg))" and "distinct (map fst (by_resource reg))"
proof -
  show 1: "\<exists>e. map_of (by_resource reg) r = Some e \<and> endpoint_keys e = Inr (r, a)" if "map_of (by_application reg) a = Some r" for a r
    using assms that unfolding registry_ok_def by blast
  show "\<exists>a. map_of (by_application reg) a = Some r \<and> endpoint_keys e = Inr (r, a)" if e: "map_of (by_resource reg) r = Some e"
  proof -
    obtain a where a: "map_of (by_application reg) a = Some r" using assms e unfolding registry_ok_def by blast
    then show ?thesis using 1 [OF a] e by auto
  qed
  show "distinct (map fst (by_application reg))" "distinct (map fst (by_resource reg))" using assms unfolding registry_ok_def by blast+
qed

text \<open>Under the invariant the resource map answers for exactly the resource that owns the application key.\<close>

lemma resource_view:
  assumes ok: "registry_ok reg" and e: "endpoint_keys e = Inr (r, a)"
  shows "map_of (by_resource reg) r = Some x \<longleftrightarrow> view reg a = Some x \<and> ep_scope x = ep_scope e"
    and "map_of (by_application reg) a = Some r' \<longleftrightarrow> (\<exists>x. view reg a = Some x \<and> endpoint_keys x = Inr (r', a))"
proof -
  have view: "view reg a = Some x \<longleftrightarrow> (\<exists>r'. map_of (by_application reg) a = Some r' \<and> map_of (by_resource reg) r' = Some x)" for x
    by (simp add: view_def split: option.splits)
  show "map_of (by_resource reg) r = Some x \<longleftrightarrow> view reg a = Some x \<and> ep_scope x = ep_scope e"
  proof
    assume x: "map_of (by_resource reg) r = Some x"
    then obtain b where b: "map_of (by_application reg) b = Some r" "endpoint_keys x = Inr (r, b)" using registry_okD(2) [OF ok] by blast
    then show "view reg a = Some x \<and> ep_scope x = ep_scope e" using same_resource [OF e b(2)] x unfolding view by blast
  next
    assume "view reg a = Some x \<and> ep_scope x = ep_scope e"
    then obtain r' where r': "map_of (by_application reg) a = Some r'" "map_of (by_resource reg) r' = Some x" "ep_scope x = ep_scope e"
      unfolding view by blast
    then have "endpoint_keys x = Inr (r', a)" using registry_okD(1) [OF ok r'(1)] by auto
    then show "map_of (by_resource reg) r = Some x" using same_scope [OF e] r'(2,3) by blast
  qed
  show "map_of (by_application reg) a = Some r' \<longleftrightarrow> (\<exists>x. view reg a = Some x \<and> endpoint_keys x = Inr (r', a))"
    unfolding view using registry_okD(1) [OF ok, of a] by force
qed

lemma view_update:
  assumes ok: "registry_ok reg" and "map_of (by_resource reg) r = None" and "map_of (by_application reg) a = None"
  shows "view \<lparr>by_resource = AList.update r e (by_resource reg), by_application = AList.update a r (by_application reg)\<rparr> = (view reg)(a \<mapsto> e)"
proof
  fix b
  have "r' \<noteq> r" if "map_of (by_application reg) b = Some r'" for r' using registry_okD(1) [OF ok that] assms(2) by auto
  then show "view \<lparr>by_resource = AList.update r e (by_resource reg), by_application = AList.update a r (by_application reg)\<rparr> b = ((view reg)(a \<mapsto> e)) b"
    by (simp add: view_def update_conv' split: option.splits)
qed

lemma ok_update:
  assumes ok: "registry_ok reg" and e: "endpoint_keys e = Inr (r, a)" and free: "map_of (by_resource reg) r = None" "map_of (by_application reg) a = None"
  shows "registry_ok \<lparr>by_resource = AList.update r e (by_resource reg), by_application = AList.update a r (by_application reg)\<rparr>"
  unfolding registry_ok_def
proof (intro conjI allI impI)
  fix b r' assume b: "map_of (by_application \<lparr>by_resource = AList.update r e (by_resource reg), by_application = AList.update a r (by_application reg)\<rparr>) b = Some r'"
  have "r' \<noteq> r" if "map_of (by_application reg) b = Some r'" using registry_okD(1) [OF ok that] free(1) by auto
  then show "\<exists>x. map_of (by_resource \<lparr>by_resource = AList.update r e (by_resource reg), by_application = AList.update a r (by_application reg)\<rparr>) r' = Some x \<and>
      endpoint_keys x = Inr (r', b)"
    using b e registry_okD(1) [OF ok, of b r'] by (auto simp: update_conv' split: if_splits)
next
  fix r' x assume "map_of (by_resource \<lparr>by_resource = AList.update r e (by_resource reg), by_application = AList.update a r (by_application reg)\<rparr>) r' = Some x"
  then consider "r' = r" | "map_of (by_resource reg) r' = Some x" by (auto simp: update_conv' split: if_splits)
  then show "\<exists>b. map_of (by_application \<lparr>by_resource = AList.update r e (by_resource reg), by_application = AList.update a r (by_application reg)\<rparr>) b = Some r'"
  proof cases
    case 1
    then show ?thesis by (auto simp: update_conv')
  next
    case 2
    then obtain b where "map_of (by_application reg) b = Some r'" using registry_okD(2) [OF ok] by blast
    then show ?thesis using free(2) by (auto simp: update_conv' intro!: exI [of _ b])
  qed
qed (use registry_okD(3,4) [OF ok] in \<open>simp_all add: distinct_update\<close>)

text \<open>Taking an application key and the resource it names out of both maps.\<close>

definition drop_key :: "application_key \<Rightarrow> resource_key \<Rightarrow> endpoint_registry \<Rightarrow> endpoint_registry" where
  "drop_key a r reg = \<lparr>by_resource = AList.delete r (by_resource reg), by_application = AList.delete a (by_application reg)\<rparr>"

lemma drop_key_ok:
  assumes ok: "registry_ok reg" and a: "map_of (by_application reg) a = Some r"
  shows "registry_ok (drop_key a r reg)" and "view (drop_key a r reg) = (view reg)(a := None)"
proof -
  have only: "b = a" if "map_of (by_application reg) b = Some r" for b
    using registry_okD(1) [OF ok that] registry_okD(1) [OF ok a] by auto
  show "view (drop_key a r reg) = (view reg)(a := None)"
    using only by (auto simp: view_def drop_key_def delete_conv' fun_eq_iff split: option.splits)
  show "registry_ok (drop_key a r reg)"
    unfolding registry_ok_def
  proof (intro conjI allI impI)
    fix b r' assume "map_of (by_application (drop_key a r reg)) b = Some r'"
    then have b: "b \<noteq> a" "map_of (by_application reg) b = Some r'" by (auto simp: drop_key_def delete_conv' split: if_splits)
    then have "r' \<noteq> r" using only by blast
    then show "\<exists>x. map_of (by_resource (drop_key a r reg)) r' = Some x \<and> endpoint_keys x = Inr (r', b)"
      using registry_okD(1) [OF ok b(2)] by (auto simp: drop_key_def delete_conv')
  next
    fix r' x assume "map_of (by_resource (drop_key a r reg)) r' = Some x"
    then have r': "r' \<noteq> r" "map_of (by_resource reg) r' = Some x" by (auto simp: drop_key_def delete_conv' split: if_splits)
    then obtain b where b: "map_of (by_application reg) b = Some r'" using registry_okD(2) [OF ok] by blast
    then have "b \<noteq> a" using a r'(1) by auto
    then show "\<exists>b. map_of (by_application (drop_key a r reg)) b = Some r'" using b by (auto simp: drop_key_def delete_conv' intro!: exI [of _ b])
  qed (use registry_okD(3,4) [OF ok] in \<open>simp_all add: drop_key_def distinct_delete\<close>)
qed

lemma remove_fold:
  assumes "registry_ok g" and "distinct (map fst as)" and "\<forall>(a, r) \<in> set as. map_of (by_application g) a = Some r"
  shows "registry_ok (fold (\<lambda>(a, r) g. if owned_by app inst a then drop_key a r g else g) as g) \<and>
    view (fold (\<lambda>(a, r) g. if owned_by app inst a then drop_key a r g else g) as g) =
      (\<lambda>b. if owned_by app inst b \<and> b \<in> fst ` set as then None else view g b)"
  using assms
proof (induction as arbitrary: g)
  case (Cons x as)
  obtain a r where x: "x = (a, r)" by force
  show ?case
  proof (cases "owned_by app inst a")
    case True
    have a: "map_of (by_application g) a = Some r" using Cons.prems(3) x by simp
    have rest: "\<forall>(b, q) \<in> set as. map_of (by_application (drop_key a r g)) b = Some q"
      using Cons.prems(2,3) x by (force simp: drop_key_def delete_conv')
    show ?thesis
      using Cons.IH [OF drop_key_ok(1) [OF Cons.prems(1) a] _ rest] Cons.prems(2) x True drop_key_ok(2) [OF Cons.prems(1) a]
      by (auto simp: fun_eq_iff)
  next
    case False
    then show ?thesis using Cons.IH [OF Cons.prems(1)] Cons.prems(2,3) x by (auto simp: fun_eq_iff)
  qed
qed simp

lemma remove_ok:
  assumes ok: "registry_ok reg"
  shows "registry_ok (remove_application reg app inst)" and "view (remove_application reg app inst) = spec_remove (view reg) app inst"
proof -
  have entries: "\<forall>(a, r) \<in> set (by_application reg). map_of (by_application reg) a = Some r" using registry_okD(3) [OF ok] by auto
  have eq: "remove_application reg app inst = fold (\<lambda>(a, r) g. if owned_by app inst a then drop_key a r g else g) (by_application reg) reg"
    unfolding remove_application_def drop_key_def by (rule refl)
  note f = remove_fold [OF ok registry_okD(3) [OF ok] entries, of app inst]
  show "registry_ok (remove_application reg app inst)" using f unfolding eq by blast
  have "view reg b = None" if "b \<notin> fst ` set (by_application reg)" for b
    using that by (simp add: view_def map_of_eq_None_iff [THEN iffD2] split: option.splits)
  then show "view (remove_application reg app inst) = spec_remove (view reg) app inst"
    using f unfolding eq spec_remove_def by (auto simp: fun_eq_iff)
qed

lemma ready_refines:
  assumes ok: "registry_ok reg"
  shows "registry_ok (fst (endpoint_ready reg e)) \<and>
    (view (fst (endpoint_ready reg e)), snd (endpoint_ready reg e) = None) = spec_ready (view reg) e"
proof (cases "endpoint_keys e")
  case (Inl err)
  then show ?thesis using ok by (simp add: endpoint_ready_def spec_ready_def)
next
  case (Inr ra)
  obtain r a where e: "endpoint_keys e = Inr (r, a)" using Inr by (cases ra) simp
  note rv = resource_view [OF ok e]
  show ?thesis
  proof (cases "view reg a")
    case None
    then have "map_of (by_resource reg) r = None" "map_of (by_application reg) a = None"
      using rv by (metis not_None_eq option.distinct(1))+
    then show ?thesis
      using e None ok_update [OF ok e] view_update [OF ok] by (simp add: endpoint_ready_def spec_ready_def)
  next
    case (Some x)
    show ?thesis
    proof (cases "ep_scope x = ep_scope e")
      case True
      then have "map_of (by_resource reg) r = Some x" using rv(1) Some by blast
      then show ?thesis using e Some True ok by (simp add: endpoint_ready_def spec_ready_def)
    next
      case False
      then have "map_of (by_resource reg) r = None" using rv(1) Some by (metis not_None_eq option.inject)
      moreover obtain r' where "map_of (by_application reg) a = Some r'" using Some by (auto simp: view_def split: option.splits)
      ultimately show ?thesis using e Some False ok by (simp add: endpoint_ready_def spec_ready_def)
    qed
  qed
qed

lemma gone_refines:
  assumes ok: "registry_ok reg"
  shows "registry_ok (endpoint_gone reg e) \<and> view (endpoint_gone reg e) = spec_gone (view reg) e"
proof (cases "endpoint_keys e")
  case (Inl err)
  then show ?thesis using ok by (simp add: endpoint_gone_def spec_gone_def)
next
  case (Inr ra)
  obtain r a where e: "endpoint_keys e = Inr (r, a)" using Inr by (cases ra) simp
  note rv = resource_view [OF ok e]
  show ?thesis
  proof (cases "map_of (by_resource reg) r")
    case None
    then have "ep_scope x \<noteq> ep_scope e" if "view reg a = Some x" for x using rv(1) that by auto
    then show ?thesis using e None ok by (auto simp: endpoint_gone_def spec_gone_def split: option.splits)
  next
    case (Some x)
    then have x: "view reg a = Some x" "ep_scope x = ep_scope e" using rv(1) by blast+
    obtain b where b: "map_of (by_application reg) b = Some r" "endpoint_keys x = Inr (r, b)" using registry_okD(2) [OF ok Some] by blast
    then have ra: "map_of (by_application reg) a = Some r" using same_resource [OF e b(2)] by blast
    have "endpoint_gone reg e = (if ep_address x = ep_address e then drop_key a r reg else reg)"
      using e Some ra by (simp add: endpoint_gone_def drop_key_def)
    then show ?thesis using e x ok drop_key_ok [OF ok ra] by (simp add: spec_gone_def)
  qed
qed

interpretation er: endpoint_directory view registry_ok endpoint_ready endpoint_gone remove_application
  using ready_refines gone_refines remove_ok by unfold_locales blast+

lemma new_registry_ok: "registry_ok new_endpoint_registry" "view new_endpoint_registry = Map.empty"
  by (auto simp: registry_ok_def new_endpoint_registry_def view_def)

lemma address_view:
  "application_address reg app inst cap name = map_option ep_address (view reg
     \<lparr>ak_application = trim_space app, ak_instance = trim_space inst, ak_capability = trim_space cap, ak_name = trim_space name\<rparr>)"
  by (simp add: application_address_def view_def split: option.splits)

subsection \<open>Properties\<close>

datatype registry_event = ReadyEvent endpoint | GoneEvent endpoint | RemoveEvent string string

definition registry_apply :: "registry_event \<Rightarrow> endpoint_registry \<Rightarrow> endpoint_registry" where
  "registry_apply ev reg =
     (case ev of ReadyEvent e \<Rightarrow> fst (endpoint_ready reg e) | GoneEvent e \<Rightarrow> endpoint_gone reg e | RemoveEvent a i \<Rightarrow> remove_application reg a i)"

definition spec_apply :: "registry_event \<Rightarrow> directory \<Rightarrow> directory" where
  "spec_apply ev d =
     (case ev of ReadyEvent e \<Rightarrow> fst (spec_ready d e) | GoneEvent e \<Rightarrow> spec_gone d e | RemoveEvent a i \<Rightarrow> spec_remove d a i)"

lemma apply_refines: "registry_ok reg \<Longrightarrow> registry_ok (registry_apply ev reg) \<and> view (registry_apply ev reg) = spec_apply ev (view reg)"
  by (cases ev) (simp_all add: registry_apply_def spec_apply_def er.inv_ready er.inv_gone er.inv_remove er.ready_view er.view_gone er.view_remove)

lemma fold_refines:
  "registry_ok reg \<Longrightarrow> registry_ok (fold registry_apply evs reg) \<and> view (fold registry_apply evs reg) = fold spec_apply evs (view reg)"
  by (induction evs arbitrary: reg) (simp_all add: apply_refines)

text \<open>C26: The registry refines its specification. After any sequence of reports and removals, the two maps together
  are the one map from application keys to endpoints that the specification maintains, a lookup returns the address
  of that map's entry, and a report is accepted exactly when the specification accepts it.\<close>

theorem registry_refines:
  "application_address (fold registry_apply evs new_endpoint_registry) app inst cap name =
     map_option ep_address (fold spec_apply evs Map.empty
       \<lparr>ak_application = trim_space app, ak_instance = trim_space inst, ak_capability = trim_space cap, ak_name = trim_space name\<rparr>) \<and>
   (snd (endpoint_ready (fold registry_apply evs new_endpoint_registry) e) = None \<longleftrightarrow> snd (spec_ready (fold spec_apply evs Map.empty) e))"
proof -
  note f = fold_refines [OF new_registry_ok(1), of evs, unfolded new_registry_ok(2)]
  then have "(view (fst (endpoint_ready (fold registry_apply evs new_endpoint_registry) e)),
      snd (endpoint_ready (fold registry_apply evs new_endpoint_registry) e) = None) = spec_ready (fold spec_apply evs Map.empty) e"
    using er.view_ready [of "fold registry_apply evs new_endpoint_registry" e] by simp
  then have "snd (endpoint_ready (fold registry_apply evs new_endpoint_registry) e) = None \<longleftrightarrow> snd (spec_ready (fold spec_apply evs Map.empty) e)"
    by (drule_tac arg_cong [of _ _ snd]) simp
  then show ?thesis using f unfolding address_view by simp
qed

text \<open>An application has one front door. While an endpoint is live, no report replaces it and no late departure
  of another placement or another address removes it: only its own departure or the removal of its application does.\<close>

theorem front_door_kept:
  assumes "view (fold registry_apply evs new_endpoint_registry) a = Some x"
    and "case ev of ReadyEvent _ \<Rightarrow> True | GoneEvent e \<Rightarrow> ep_scope e \<noteq> ep_scope x \<or> ep_address e \<noteq> ep_address x
      | RemoveEvent app inst \<Rightarrow> \<not> owned_by app inst a"
  shows "view (registry_apply ev (fold registry_apply evs new_endpoint_registry)) a = Some x"
proof -
  have ok: "registry_ok (fold registry_apply evs new_endpoint_registry)" using fold_refines new_registry_ok(1) by blast
  show ?thesis
  proof (cases ev)
    case (ReadyEvent e)
    then show ?thesis using er.ready_keeps [OF ok assms(1)] by (simp add: registry_apply_def)
  next
    case (GoneEvent e)
    then show ?thesis using er.late_gone_keeps [OF ok assms(1)] assms(2) by (simp add: registry_apply_def)
  next
    case (RemoveEvent app inst)
    then show ?thesis using er.view_remove [OF ok] assms by (simp add: registry_apply_def spec_remove_def)
  qed
qed

text \<open>A name with surrounding white space is accepted and recorded as it is, but never found: the lookup trims.\<close>

definition demo_endpoint :: "string \<Rightarrow> string \<Rightarrow> endpoint" where
  "demo_endpoint name addr = \<lparr>ep_scope = demo_scope, ep_capability = ''http'', ep_name = name, ep_address = addr\<rparr>"

lemma untrimmed_not_found:
  "snd (endpoint_ready new_endpoint_registry (demo_endpoint '' public'' '':80'')) = None \<and>
   application_address (fst (endpoint_ready new_endpoint_registry (demo_endpoint '' public'' '':80''))) ''shop'' ''1'' ''http'' '' public'' = None"
  by code_simp

subsection \<open>Witnesses\<close>

theorem front_door_kept_witness:
  "\<exists>a. view (registry_apply (GoneEvent (demo_endpoint ''public'' '':81'')) (fold registry_apply [ReadyEvent (demo_endpoint ''public'' '':80'')] new_endpoint_registry)) a
     = Some (demo_endpoint ''public'' '':80'')"
proof -
  let ?a = "\<lparr>ak_application = ''shop'', ak_instance = ''1'', ak_capability = ''http'', ak_name = ''public''\<rparr>"
  have "view (fold registry_apply [ReadyEvent (demo_endpoint ''public'' '':80'')] new_endpoint_registry) ?a = Some (demo_endpoint ''public'' '':80'')"
    by code_simp
  then show ?thesis using front_door_kept [of _ ?a _ "GoneEvent (demo_endpoint ''public'' '':81'')"] by (fastforce simp: demo_endpoint_def)
qed

end
