(* ===== verification/Capabilities.thy ===== *)
theory Capabilities
  imports Ext_Scope "HOL-Library.AList"
begin

text \<open>
  Capabilities of cells: the extension set and the selection of providers of \<^verbatim>\<open>src/ext/ext.go\<close>, the installed
  provider contract of \<^verbatim>\<open>src/run/capability_providers.go\<close>, and the host's registry that binds a cell's imports,
  \<^verbatim>\<open>src/internal/host/capability.go\<close>. A capability is its name, provider and whether it has a stub; what its
  callbacks do, and whether they fail, is a parameter. Go maps are association lists with distinct keys.
\<close>

subsection \<open>Extensions\<close>

record capability =
  cap_name :: string
  cap_provider :: string
  cap_has_stub :: bool

definition register_extension :: "capability \<Rightarrow> capability list \<Rightarrow> capability list" where
  "register_extension c globals = globals @ [c]"

record setup_env =
  env_scope :: scope
  env_cell_name :: string

definition effective_scope :: "setup_env \<Rightarrow> scope" where
  "effective_scope env = (if validate (env_scope env) = Inr () then env_scope env else legacy_scope (env_cell_name env))"

subsection \<open>Selecting providers\<close>

datatype select_error =
    EmptyCapability | EmptyProvider string | PinnedNotRegistered string | NeedsSelection string nat
  | WrongProvider string "string list" string | DuplicateProvider string nat string

fun check_pins :: "(string \<times> string) list \<Rightarrow> (select_error, unit) result" where
  "check_pins [] = Inr ()"
| "check_pins ((name, provider) # ps) =
     (if trim_space name = [] then Inl EmptyCapability
      else if trim_space provider = [] then Inl (EmptyProvider name)
      else check_pins ps)"

definition candidates :: "capability list \<Rightarrow> string \<Rightarrow> capability list" where
  "candidates reg name = filter (\<lambda>c. cap_name c = name) reg"

fun first_seen :: "string list \<Rightarrow> string list \<Rightarrow> string list" where
  "first_seen [] seen = []"
| "first_seen (n # ns) seen = (if n \<in> set seen then first_seen ns seen else n # first_seen ns (n # seen))"

fun check_registered :: "capability list \<Rightarrow> string list \<Rightarrow> (select_error, unit) result" where
  "check_registered reg [] = Inr ()"
| "check_registered reg (n # ns) = (if candidates reg n = [] then Inl (PinnedNotRegistered n) else check_registered reg ns)"

definition shown_provider :: "capability \<Rightarrow> string" where
  "shown_provider c = (if cap_provider c = [] then ''<legacy-unidentified>'' else cap_provider c)"

definition pick_provider :: "capability list \<Rightarrow> (string \<times> string) list \<Rightarrow> string \<Rightarrow> (select_error, capability) result" where
  "pick_provider reg providers name =
     (let cs = candidates reg name
      in case map_of providers name of
           None \<Rightarrow> (case cs of [c] \<Rightarrow> Inr c | _ \<Rightarrow> Inl (NeedsSelection name (length cs)))
         | Some want \<Rightarrow>
             (let matches = filter (\<lambda>c. cap_provider c = want) cs
              in case matches of
                   [] \<Rightarrow> Inl (WrongProvider name (sort (map shown_provider cs)) want)
                 | [c] \<Rightarrow> Inr c
                 | _ \<Rightarrow> Inl (DuplicateProvider name (length matches) want)))"

definition select_capabilities :: "capability list \<Rightarrow> (string \<times> string) list \<Rightarrow> (select_error, capability list) result" where
  "select_capabilities reg providers =
     bindE (check_pins providers) (\<lambda>_.
     bindE (check_registered reg (sort (map fst providers))) (\<lambda>_.
     mapM (pick_provider reg providers) (first_seen (map cap_name reg) [])))"

subsection \<open>The installed contract\<close>

record selector =
  sel_providers :: "(string \<times> string) list"
  sel_installed :: bool
  sel_used :: bool

definition new_selector :: selector where
  "new_selector = \<lparr>sel_providers = [], sel_installed = False, sel_used = False\<rparr>"

datatype install_error = EmptyContract | AlreadySelected | DifferentContract | InstallSelect select_error

definition maps_equal :: "(string \<times> string) list \<Rightarrow> (string \<times> string) list \<Rightarrow> bool" where
  "maps_equal a b \<longleftrightarrow> length a = length b \<and> list_all (\<lambda>(k, v). map_of b k = Some v) a"

definition install :: "selector \<Rightarrow> capability list \<Rightarrow> (string \<times> string) list \<Rightarrow> selector \<times> install_error option" where
  "install s reg providers =
     (if providers = [] then (s, Some EmptyContract)
      else if sel_used s then (s, Some AlreadySelected)
      else if sel_installed s then (s, if maps_equal (sel_providers s) providers then None else Some DifferentContract)
      else case select_capabilities reg providers of
             Inl e \<Rightarrow> (s, Some (InstallSelect e))
           | Inr _ \<Rightarrow> (s\<lparr>sel_providers := providers, sel_installed := True\<rparr>, None))"

definition select_runtime :: "selector \<Rightarrow> capability list \<Rightarrow> selector \<times> (select_error, capability list) result" where
  "select_runtime s reg = (s\<lparr>sel_used := True\<rparr>, select_capabilities reg (sel_providers s))"

subsection \<open>Binding a cell's imports\<close>

record cap_registry =
  reg_always :: "capability list"
  reg_gated :: "(string \<times> capability) list"

definition new_registry :: "capability list \<Rightarrow> cap_registry" where
  "new_registry exts = \<lparr>reg_always = [], reg_gated = fold (\<lambda>c m. AList.update (cap_name c) c m) exts []\<rparr>"

definition add_always :: "cap_registry \<Rightarrow> capability \<Rightarrow> cap_registry" where
  "add_always r c = r\<lparr>reg_always := reg_always r @ [c]\<rparr>"

definition add_gated :: "cap_registry \<Rightarrow> capability \<Rightarrow> cap_registry" where
  "add_gated r c = r\<lparr>reg_gated := AList.update (cap_name c) c (reg_gated r)\<rparr>"

datatype bind_action = Registered capability | Stubbed capability

datatype bind_error = RegisterFailed string string | UnknownCapability string | StubFailed string string | InstantiateFailed string

text \<open>The outcome of a capability's callbacks: none, or an error.\<close>

record callbacks =
  cb_register :: "capability \<Rightarrow> string option"
  cb_stub :: "capability \<Rightarrow> string option"

definition run_register :: "callbacks \<Rightarrow> capability \<Rightarrow> (bind_error, bind_action) result" where
  "run_register cb c = (case cb_register cb c of None \<Rightarrow> Inr (Registered c) | Some e \<Rightarrow> Inl (RegisterFailed (cap_name c) e))"

fun check_declared :: "cap_registry \<Rightarrow> string list \<Rightarrow> (bind_error, unit) result" where
  "check_declared r [] = Inr ()"
| "check_declared r (n # ns) = (if map_of (reg_gated r) n = None then Inl (UnknownCapability n) else check_declared r ns)"

fun bind_gated :: "callbacks \<Rightarrow> string list \<Rightarrow> (string \<times> capability) list \<Rightarrow> (bind_error, bind_action list) result" where
  "bind_gated cb declared [] = Inr []"
| "bind_gated cb declared ((name, c) # cs) =
     (if name \<in> set declared
      then (case cb_register cb c of
              Some e \<Rightarrow> Inl (RegisterFailed name e)
            | None \<Rightarrow> bindE (bind_gated cb declared cs) (\<lambda>as. Inr (Registered c # as)))
      else if cap_has_stub c
      then (case cb_stub cb c of
              Some e \<Rightarrow> Inl (StubFailed name e)
            | None \<Rightarrow> bindE (bind_gated cb declared cs) (\<lambda>as. Inr (Stubbed c # as)))
      else bind_gated cb declared cs)"

definition bind_cell :: "callbacks \<Rightarrow> string option \<Rightarrow> cap_registry \<Rightarrow> string list \<Rightarrow> (bind_error, bind_action list) result" where
  "bind_cell cb instantiate r declared =
     bindE (mapM (run_register cb) (reg_always r)) (\<lambda>always.
     bindE (check_declared r declared) (\<lambda>_.
     bindE (bind_gated cb declared (reg_gated r)) (\<lambda>gated.
     case instantiate of Some e \<Rightarrow> Inl (InstantiateFailed e) | None \<Rightarrow> Inr (always @ gated))))"

subsection \<open>Selection is exact\<close>

lemma first_seen_set: "set (first_seen ns seen) = set ns - set seen"
  by (induction ns seen rule: first_seen.induct) auto

lemma first_seen_distinct: "distinct (first_seen ns seen)"
  by (induction ns seen rule: first_seen.induct) (auto simp: first_seen_set)

lemma check_pins_Inr: "check_pins ps = Inr () \<longleftrightarrow> (\<forall>(n, p) \<in> set ps. trim_space n \<noteq> [] \<and> trim_space p \<noteq> [])"
  by (induction ps rule: check_pins.induct) simp_all

lemma check_registered_Inr: "check_registered reg ns = Inr () \<longleftrightarrow> (\<forall>n \<in> set ns. candidates reg n \<noteq> [])"
  by (induction ns) auto

text \<open>The one provider a name must have: the only candidate, or the only one with the pinned provider.\<close>

definition chosen_for :: "capability list \<Rightarrow> (string \<times> string) list \<Rightarrow> string \<Rightarrow> capability \<Rightarrow> bool" where
  "chosen_for reg providers name c \<longleftrightarrow>
     filter (\<lambda>x. cap_name x = name \<and> (case map_of providers name of None \<Rightarrow> True | Some p \<Rightarrow> cap_provider x = p)) reg = [c]"

lemma pick_provider_Inr: "pick_provider reg providers name = Inr c \<longleftrightarrow> chosen_for reg providers name c"
proof (cases "map_of providers name")
  case None
  then show ?thesis by (auto simp: pick_provider_def chosen_for_def candidates_def Let_def split: list.splits)
next
  case (Some p)
  have "filter (\<lambda>x. cap_name x = name \<and> cap_provider x = p) reg = filter (\<lambda>x. cap_provider x = p) (candidates reg name)"
    by (simp add: candidates_def conj_commute)
  then show ?thesis using Some by (auto simp: pick_provider_def chosen_for_def Let_def split: list.splits)
qed

text \<open>C28: Provider selection is exact and fails closed. It succeeds with a list of capabilities exactly when no pin is
  blank, every pinned capability is registered, and the list gives each registered name, in order of first
  registration, its only provider or the only registration with exactly the pinned provider.\<close>

theorem select_exact:
  "select_capabilities reg providers = Inr sel \<longleftrightarrow>
     (\<forall>(n, p) \<in> set providers. trim_space n \<noteq> [] \<and> trim_space p \<noteq> [] \<and> n \<in> cap_name ` set reg) \<and>
     list_all2 (chosen_for reg providers) (first_seen (map cap_name reg) []) sel"
proof -
  have "candidates reg n \<noteq> [] \<longleftrightarrow> n \<in> cap_name ` set reg" for n by (auto simp: candidates_def filter_empty_conv)
  then have "check_registered reg (sort (map fst providers)) = Inr () \<longleftrightarrow> (\<forall>(n, p) \<in> set providers. n \<in> cap_name ` set reg)"
    unfolding check_registered_Inr by (auto simp: split_beta)
  then have "select_capabilities reg providers = Inr sel \<longleftrightarrow>
      (\<forall>(n, p) \<in> set providers. trim_space n \<noteq> [] \<and> trim_space p \<noteq> []) \<and> (\<forall>(n, p) \<in> set providers. n \<in> cap_name ` set reg) \<and>
      mapM (pick_provider reg providers) (first_seen (map cap_name reg) []) = Inr sel"
    unfolding select_capabilities_def by (simp add: check_pins_Inr)
  then show ?thesis unfolding mapM_Inr_conv pick_provider_Inr by (auto simp: split_beta)
qed

subsection \<open>The contract does not change\<close>

datatype selector_event = InstallEvent "capability list" "(string \<times> string) list" | SelectEvent "capability list"

definition selector_apply :: "selector_event \<Rightarrow> selector \<Rightarrow> selector" where
  "selector_apply ev s =
     (case ev of InstallEvent reg ps \<Rightarrow> fst (install s reg ps) | SelectEvent reg \<Rightarrow> fst (select_runtime s reg))"

lemma selector_fixed:
  assumes "sel_installed s \<or> sel_used s"
  shows "sel_providers (fold selector_apply evs s) = sel_providers s \<and> (sel_installed (fold selector_apply evs s) \<or> sel_used (fold selector_apply evs s))"
  using assms
proof (induction evs arbitrary: s)
  case (Cons ev evs)
  have "sel_providers (selector_apply ev s) = sel_providers s \<and> (sel_installed (selector_apply ev s) \<or> sel_used (selector_apply ev s))"
    using Cons.prems by (cases ev) (auto simp: selector_apply_def install_def select_runtime_def split: sum.splits)
  then show ?case using Cons.IH [of "selector_apply ev s"] by simp
qed simp

text \<open>The provider contract of a process is fixed: once a contract was installed or a runtime has selected its
  capabilities, later installations and selections leave it unchanged, so every runtime of the process selects
  by the same contract.\<close>

theorem contract_fixed:
  assumes "sel_installed s \<or> sel_used s"
  shows "snd (select_runtime (fold selector_apply evs s) reg) = select_capabilities reg (sel_providers s)"
  using selector_fixed [OF assms] by (simp add: select_runtime_def)

subsection \<open>Least privilege\<close>

lemma check_declared_Inr: "check_declared r ns = Inr () \<longleftrightarrow> (\<forall>n \<in> set ns. map_of (reg_gated r) n \<noteq> None)"
  by (induction ns) auto

lemma run_register_Inr: "mapM (run_register cb) cs = Inr as \<Longrightarrow> as = map Registered cs"
  by (induction cs arbitrary: as) (auto simp: run_register_def split: option.splits)

lemma bind_gated_Inr:
  "bind_gated cb declared cs = Inr as \<Longrightarrow>
     set as = {Registered c | n c. (n, c) \<in> set cs \<and> n \<in> set declared} \<union> {Stubbed c | n c. (n, c) \<in> set cs \<and> n \<notin> set declared \<and> cap_has_stub c}"
proof (induction cs arbitrary: as)
  case (Cons x cs)
  obtain n c where x: "x = (n, c)" by force
  show ?case
  proof (cases "n \<in> set declared")
    case True
    then obtain as' where "bind_gated cb declared cs = Inr as'" "as = Registered c # as'"
      using Cons.prems x by (auto split: option.splits)
    then show ?thesis using Cons.IH [of as'] True x by auto
  next
    case False
    then consider as' where "cap_has_stub c" "bind_gated cb declared cs = Inr as'" "as = Stubbed c # as'"
      | "\<not> cap_has_stub c" "bind_gated cb declared cs = Inr as"
      using Cons.prems x by (auto split: option.splits if_splits)
    then show ?thesis
    proof cases
      case (1 as')
      then show ?thesis using Cons.IH [of as'] False x by auto
    next
      case 2
      then show ?thesis using Cons.IH [of as] False x by auto
    qed
  qed
qed simp

text \<open>C27: Cells get the capabilities they declare and no others. If binding succeeds, every declared capability is
  known, and the implementations registered are exactly the always-on ones and the declared ones; every other
  capability is at most stubbed.\<close>

theorem bind_least_privilege:
  assumes "bind_cell cb inst r declared = Inr acts" and "distinct (map fst (reg_gated r))"
  shows "set declared \<subseteq> fst ` set (reg_gated r) \<and>
    {c. Registered c \<in> set acts} = set (reg_always r) \<union> {c. \<exists>n \<in> set declared. map_of (reg_gated r) n = Some c} \<and>
    {c. Stubbed c \<in> set acts} = {c. cap_has_stub c \<and> (\<exists>n. map_of (reg_gated r) n = Some c \<and> n \<notin> set declared)}"
proof -
  obtain always gated where b: "mapM (run_register cb) (reg_always r) = Inr always" "check_declared r declared = Inr ()"
      "bind_gated cb declared (reg_gated r) = Inr gated" "acts = always @ gated"
    using assms(1) by (auto simp: bind_cell_def split: option.splits)
  have "set declared \<subseteq> fst ` set (reg_gated r)"
    using b(2) unfolding check_declared_Inr by (auto simp: map_of_eq_None_iff)
  moreover have "map_of (reg_gated r) n = Some c \<longleftrightarrow> (n, c) \<in> set (reg_gated r)" for n c using assms(2) by simp
  ultimately show ?thesis using b(4) run_register_Inr [OF b(1)] bind_gated_Inr [OF b(3)] by auto
qed

lemma new_registry_distinct: "distinct (map fst (reg_gated (new_registry exts)))"
proof -
  have "distinct (map fst (fold (\<lambda>c m. AList.update (cap_name c) c m) exts m))" if "distinct (map fst m)" for m
    using that by (induction exts arbitrary: m) (auto simp: distinct_update)
  then show ?thesis by (simp add: new_registry_def)
qed

subsection \<open>Witnesses\<close>

definition demo_gin :: capability where
  "demo_gin = \<lparr>cap_name = ''http'', cap_provider = ''ext/gin'', cap_has_stub = True\<rparr>"

definition demo_sqlite :: capability where
  "demo_sqlite = \<lparr>cap_name = ''sqlite'', cap_provider = [], cap_has_stub = True\<rparr>"

definition demo_callbacks :: callbacks where
  "demo_callbacks = \<lparr>cb_register = (\<lambda>_. None), cb_stub = (\<lambda>_. None)\<rparr>"

theorem select_exact_witness:
  "select_capabilities [demo_gin, demo_sqlite, demo_gin\<lparr>cap_provider := ''other''\<rparr>] [(''http'', ''ext/gin'')] = Inr [demo_gin, demo_sqlite]"
proof (rule select_exact [THEN iffD2], rule conjI)
  show "\<forall>(n, p) \<in> set [(''http'', ''ext/gin'')]. trim_space n \<noteq> [] \<and> trim_space p \<noteq> [] \<and>
      n \<in> cap_name ` set [demo_gin, demo_sqlite, demo_gin\<lparr>cap_provider := ''other''\<rparr>]"
    by code_simp
  show "list_all2 (chosen_for [demo_gin, demo_sqlite, demo_gin\<lparr>cap_provider := ''other''\<rparr>] [(''http'', ''ext/gin'')])
      (first_seen (map cap_name [demo_gin, demo_sqlite, demo_gin\<lparr>cap_provider := ''other''\<rparr>]) []) [demo_gin, demo_sqlite]"
    by code_simp
qed

theorem contract_fixed_witness:
  "snd (select_runtime (fold selector_apply [InstallEvent [demo_gin] [(''http'', ''other'')]]
     (fst (install new_selector [demo_gin] [(''http'', ''ext/gin'')]))) [demo_gin]) = select_capabilities [demo_gin] [(''http'', ''ext/gin'')]"
proof -
  let ?s = "fst (install new_selector [demo_gin] [(''http'', ''ext/gin'')])"
  have s: "?s = \<lparr>sel_providers = [(''http'', ''ext/gin'')], sel_installed = True, sel_used = False\<rparr>" by code_simp
  show ?thesis using contract_fixed [of ?s "[InstallEvent [demo_gin] [(''http'', ''other'')]]" "[demo_gin]"] unfolding s by simp
qed

theorem bind_least_privilege_witness:
  "{c. Registered c \<in> set (projr (bind_cell demo_callbacks None (new_registry [demo_gin, demo_sqlite]) [''http'']))} = {demo_gin}"
proof -
  let ?r = "new_registry [demo_gin, demo_sqlite]"
  have b: "bind_cell demo_callbacks None ?r [''http''] = Inr [Registered demo_gin, Stubbed demo_sqlite]" by code_simp
  have r: "reg_always ?r = []" "map_of (reg_gated ?r) ''http'' = Some demo_gin" by code_simp+
  then show ?thesis using bind_least_privilege [OF b new_registry_distinct] b by auto
qed

end
