(* ===== verification/Supervisor.thy ===== *)
theory Supervisor
  imports Pulp_Prelude "HOL-Library.Multiset"
begin

text \<open>
  The cell supervisor, \<^verbatim>\<open>src/internal/host/supervisor.go\<close>: the lifecycle of a supervised cell, the runaway guard and
  the liveness monitor. What the cell does is input: whether \<^verbatim>\<open>Init\<close> fails, what a guarded call returns, whether its
  budget ran out and whether the caller's context was done. Times are integers in nanoseconds; the number of
  runaways is a 64-bit counter. The supervisor has no lock: its fields are atomics, and each store, addition,
  comparison, close and hook call is a step of its own. So every such access is a definition, the operations are
  their compositions, and a step relation interleaves the accesses of all calls in flight, which are a multiset of
  program points.
\<close>

subsection \<open>State\<close>

datatype cell_state = CellNew | CellStarting | CellReady | CellRunaway | CellStopping | CellStopped | CellFailed

fun cell_state_string :: "cell_state \<Rightarrow> string" where
  "cell_state_string CellNew = ''new''"
| "cell_state_string CellStarting = ''starting''"
| "cell_state_string CellReady = ''ready''"
| "cell_state_string CellRunaway = ''runaway''"
| "cell_state_string CellStopping = ''stopping''"
| "cell_state_string CellStopped = ''stopped''"
| "cell_state_string CellFailed = ''failed''"

record runaway_report =
  rr_cell :: string
  rr_budget :: int
  rr_elapsed :: int
  rr_error :: string

record health_snapshot =
  hs_cell :: string
  hs_state :: cell_state
  hs_healthy :: bool
  hs_last_ok :: "int option"
  hs_runaways :: "64 word"

text \<open>The ready channel is the number of times it was closed; the reports are the calls of the runaway hook, in order.\<close>

record supervisor =
  sup_name :: string
  sup_budget :: int
  sup_hook :: bool
  sup_state :: cell_state
  sup_closed :: nat
  sup_last_ok :: int
  sup_runaways :: "64 word"
  sup_reports :: "runaway_report list"

datatype supervisor_option = WithBudget int | WithRunawayReporter bool | WithLogger

definition default_call_timeout :: int where
  "default_call_timeout = 30 * 1000000000"

fun apply_option :: "supervisor_option \<Rightarrow> supervisor \<Rightarrow> supervisor" where
  "apply_option (WithBudget d) s = (if d > 0 then s\<lparr>sup_budget := d\<rparr> else s)"
| "apply_option (WithRunawayReporter h) s = s\<lparr>sup_hook := h\<rparr>"
| "apply_option WithLogger s = s"

definition new_supervisor :: "string \<Rightarrow> int \<Rightarrow> supervisor_option list \<Rightarrow> supervisor" where
  "new_supervisor name call_timeout opts =
     fold apply_option opts
       \<lparr>sup_name = name, sup_budget = (if call_timeout \<le> 0 then default_call_timeout else call_timeout), sup_hook = False,
        sup_state = CellNew, sup_closed = 0, sup_last_ok = 0, sup_runaways = 0, sup_reports = []\<rparr>"

definition last_ok :: "supervisor \<Rightarrow> int option" where
  "last_ok s = (if sup_last_ok s = 0 then None else Some (sup_last_ok s))"

definition healthy :: "supervisor \<Rightarrow> bool" where
  "healthy s \<longleftrightarrow> sup_state s = CellReady"

definition snapshot :: "supervisor \<Rightarrow> health_snapshot" where
  "snapshot s = \<lparr>hs_cell = sup_name s, hs_state = sup_state s, hs_healthy = healthy s, hs_last_ok = last_ok s, hs_runaways = sup_runaways s\<rparr>"

text \<open>Closing is guarded by a \<^verbatim>\<open>sync.Once\<close>; closing a closed channel would panic.\<close>

definition mark_ready :: "supervisor \<Rightarrow> supervisor" where
  "mark_ready s = (if sup_closed s = 0 then s\<lparr>sup_closed := 1\<rparr> else s)"

subsection \<open>The accesses to the shared state\<close>

definition start_begin :: "supervisor \<Rightarrow> supervisor" where
  "start_begin s = s\<lparr>sup_state := CellStarting\<rparr>"

definition start_failed :: "supervisor \<Rightarrow> supervisor" where
  "start_failed s = s\<lparr>sup_state := CellFailed\<rparr>"

definition start_ready :: "supervisor \<Rightarrow> supervisor" where
  "start_ready s = s\<lparr>sup_state := CellReady\<rparr>"

definition store_ok :: "int \<Rightarrow> supervisor \<Rightarrow> supervisor" where
  "store_ok now s = s\<lparr>sup_last_ok := now\<rparr>"

definition stop_begin :: "supervisor \<Rightarrow> supervisor" where
  "stop_begin s = s\<lparr>sup_state := CellStopping\<rparr>"

definition stop_end :: "supervisor \<Rightarrow> supervisor" where
  "stop_end s = s\<lparr>sup_state := CellStopped\<rparr>"

text \<open>What a guarded call did: its error, whether the budget's deadline fired before it returned, whether the
  caller's context was done, when it returned and how long it took.\<close>

record guard_outcome =
  go_error :: "string option"
  go_expired :: bool
  go_parent_done :: bool
  go_now :: int
  go_elapsed :: int

datatype guard_result = GuardOk | GuardRunaway | GuardError string

definition bounded :: "guard_outcome \<Rightarrow> bool" where
  "bounded oc \<longleftrightarrow> go_expired oc \<and> \<not> go_parent_done oc"

definition guard_count :: "supervisor \<Rightarrow> supervisor" where
  "guard_count s = s\<lparr>sup_runaways := sup_runaways s + 1\<rparr>"

definition guard_swap :: "supervisor \<Rightarrow> supervisor" where
  "guard_swap s = (if sup_state s = CellReady then s\<lparr>sup_state := CellRunaway\<rparr> else s)"

definition guard_report :: "guard_outcome \<Rightarrow> string \<Rightarrow> supervisor \<Rightarrow> supervisor" where
  "guard_report oc e s =
     (if sup_hook s
      then s\<lparr>sup_reports := sup_reports s @ [\<lparr>rr_cell = sup_name s, rr_budget = sup_budget s, rr_elapsed = go_elapsed oc, rr_error = e\<rparr>]\<rparr>
      else s)"

lemmas sup_ops = start_begin_def start_failed_def start_ready_def store_ok_def stop_begin_def stop_end_def mark_ready_def
  guard_count_def guard_swap_def guard_report_def

subsection \<open>The operations\<close>

text \<open>Each operation, run with no other call in between.\<close>

definition guard :: "guard_outcome \<Rightarrow> supervisor \<Rightarrow> supervisor \<times> guard_result" where
  "guard oc s =
     (case go_error oc of
        None \<Rightarrow> (store_ok (go_now oc) s, GuardOk)
      | Some e \<Rightarrow> if bounded oc then (guard_report oc e (guard_swap (guard_count s)), GuardRunaway) else (s, GuardError e))"

definition start :: "string option \<Rightarrow> int \<Rightarrow> supervisor \<Rightarrow> supervisor \<times> string option" where
  "start init now s =
     (case init of
        Some e \<Rightarrow> (mark_ready (start_failed (start_begin s)), Some e)
      | None \<Rightarrow> (mark_ready (store_ok now (start_ready (start_begin s))), None))"

text \<open>\<^verbatim>\<open>errors.Join\<close> of the errors of \<^verbatim>\<open>Shutdown\<close> and \<^verbatim>\<open>Close\<close>.\<close>

definition stop :: "string option \<Rightarrow> string option \<Rightarrow> supervisor \<Rightarrow> supervisor \<times> string list" where
  "stop shut close s = (mark_ready (stop_end (stop_begin s)), List.map_filter id [shut, close])"

text \<open>\<^verbatim>\<open>GuardStep\<close> and \<^verbatim>\<open>GuardCall\<close> hand out what the entry point returned together with the guard's verdict.\<close>

definition guard_value :: "'v \<Rightarrow> guard_outcome \<Rightarrow> supervisor \<Rightarrow> supervisor \<times> 'v \<times> guard_result" where
  "guard_value v oc s = (let (s', r) = guard oc s in (s', v, r))"

text \<open>The monitor's loop on the events it selects: the context is done, or a tick with the outcome of its probe.\<close>

datatype monitor_event = ContextDone | Tick guard_outcome

fun monitor :: "monitor_event list \<Rightarrow> supervisor \<Rightarrow> supervisor \<times> health_snapshot list" where
  "monitor [] s = (s, [])"
| "monitor (ContextDone # evs) s = (s, [])"
| "monitor (Tick oc # evs) s =
     (if sup_state s \<noteq> CellReady then (s, [])
      else let s' = fst (guard oc s)
           in if sup_state s' \<noteq> CellReady then (s', [snapshot s'])
              else let (s'', hs) = monitor evs s' in (s'', snapshot s' # hs))"

subsection \<open>Interleavings\<close>

text \<open>Where a call in flight is: \<^verbatim>\<open>Start\<close> in the cell's \<^verbatim>\<open>Init\<close>, or with the failed or ready state stored, or with the
  time stored too; \<^verbatim>\<open>Stop\<close> in the cell's \<^verbatim>\<open>Shutdown\<close> and \<^verbatim>\<open>Close\<close>, or with the stopped state stored; \<^verbatim>\<open>Guard\<close> with
  a runaway counted, or with the state swapped too. A guarded call has no effect before its function returned.\<close>

datatype point = Initialising | FailedStored | ReadyStored | OkStored | ShuttingDown | StoppedStored
  | Counted guard_outcome string | Swapped guard_outcome string

fun last_access :: "point \<Rightarrow> bool" where
  "last_access FailedStored = True"
| "last_access OkStored = True"
| "last_access StoppedStored = True"
| "last_access p = False"

text \<open>The state is stored and the ready channel still has to be closed; the runaway is counted and still has to be reported.\<close>

fun closing :: "point \<Rightarrow> bool" where
  "closing ReadyStored = True"
| "closing p = last_access p"

fun unreported :: "point \<Rightarrow> bool" where
  "unreported (Counted oc e) = True"
| "unreported (Swapped oc e) = True"
| "unreported p = False"

text \<open>The calls in flight, and how many calls of \<^verbatim>\<open>Start\<close> and \<^verbatim>\<open>Stop\<close> have returned.\<close>

record world =
  w_sup :: supervisor
  w_calls :: "point multiset"
  w_returned :: nat

definition new_world :: "string \<Rightarrow> int \<Rightarrow> supervisor_option list \<Rightarrow> world" where
  "new_world name timeout opts = \<lparr>w_sup = new_supervisor name timeout opts, w_calls = {#}, w_returned = 0\<rparr>"

text \<open>A call makes its next access and goes on to another point, or ends.\<close>

definition advance :: "point \<Rightarrow> point multiset \<Rightarrow> (supervisor \<Rightarrow> supervisor) \<Rightarrow> world \<Rightarrow> world" where
  "advance p q f w = w\<lparr>w_sup := f (w_sup w), w_calls := w_calls w - {#p#} + q\<rparr>"

definition enter :: "point multiset \<Rightarrow> (supervisor \<Rightarrow> supervisor) \<Rightarrow> world \<Rightarrow> world" where
  "enter q f w = w\<lparr>w_sup := f (w_sup w), w_calls := w_calls w + q\<rparr>"

inductive sup_step :: "world \<Rightarrow> world \<Rightarrow> bool" where
  start_begins: "sup_step w (enter {#Initialising#} start_begin w)"
| init_fails: "Initialising \<in># w_calls w \<Longrightarrow> sup_step w (advance Initialising {#FailedStored#} start_failed w)"
| init_succeeds: "Initialising \<in># w_calls w \<Longrightarrow> sup_step w (advance Initialising {#ReadyStored#} start_ready w)"
| time_stored: "ReadyStored \<in># w_calls w \<Longrightarrow> sup_step w (advance ReadyStored {#OkStored#} (store_ok now) w)"
| stop_begins: "sup_step w (enter {#ShuttingDown#} stop_begin w)"
| cell_closed: "ShuttingDown \<in># w_calls w \<Longrightarrow> sup_step w (advance ShuttingDown {#StoppedStored#} stop_end w)"
| marked: "p \<in># w_calls w \<Longrightarrow> last_access p \<Longrightarrow> sup_step w (advance p {#} mark_ready w\<lparr>w_returned := w_returned w + 1\<rparr>)"
| guard_succeeds: "sup_step w (enter {#} (store_ok now) w)"
| guard_counts: "go_error oc = Some e \<Longrightarrow> bounded oc \<Longrightarrow> sup_step w (enter {#Counted oc e#} guard_count w)"
| guard_swaps: "Counted oc e \<in># w_calls w \<Longrightarrow> sup_step w (advance (Counted oc e) {#Swapped oc e#} guard_swap w)"
| guard_reports: "Swapped oc e \<in># w_calls w \<Longrightarrow> sup_step w (advance (Swapped oc e) {#} (guard_report oc e) w)"

inductive_cases sup_step_cases: "sup_step w w'"

inductive sup_reach :: "string \<Rightarrow> int \<Rightarrow> supervisor_option list \<Rightarrow> world \<Rightarrow> bool" for name timeout opts where
  created: "sup_reach name timeout opts (new_world name timeout opts)"
| stepped: "sup_reach name timeout opts w \<Longrightarrow> sup_step w w' \<Longrightarrow> sup_reach name timeout opts w'"

lemmas world_ops = enter_def advance_def

lemma new_supervisor_fields:
  "sup_state (new_supervisor n t opts) = CellNew \<and> sup_closed (new_supervisor n t opts) = 0 \<and> sup_runaways (new_supervisor n t opts) = 0 \<and>
   sup_reports (new_supervisor n t opts) = [] \<and> sup_budget (new_supervisor n t opts) > 0"
proof -
  have "sup_state (fold apply_option opts s) = sup_state s \<and> sup_closed (fold apply_option opts s) = sup_closed s \<and>
      sup_runaways (fold apply_option opts s) = sup_runaways s \<and> sup_reports (fold apply_option opts s) = sup_reports s \<and>
      sup_budget (fold apply_option opts s) > 0" if "sup_budget s > 0" for s
    using that
  proof (induction opts arbitrary: s)
    case (Cons x opts)
    have "sup_budget (apply_option x s) > 0 \<and> sup_state (apply_option x s) = sup_state s \<and> sup_closed (apply_option x s) = sup_closed s \<and>
        sup_runaways (apply_option x s) = sup_runaways s \<and> sup_reports (apply_option x s) = sup_reports s"
      using Cons.prems by (cases x) auto
    then show ?case using Cons.IH [of "apply_option x s"] by simp
  qed simp
  then show ?thesis by (simp add: new_supervisor_def default_call_timeout_def)
qed

text \<open>What holds in every reachable state: of the ready channel, of the state, and of the reports.\<close>

definition channel_inv :: "world \<Rightarrow> bool" where
  "channel_inv w \<longleftrightarrow>
     sup_closed (w_sup w) \<le> 1 \<and> (0 < w_returned w \<longrightarrow> sup_closed (w_sup w) = 1) \<and>
     (sup_state (w_sup w) \<in> {CellReady, CellRunaway, CellFailed, CellStopped} \<longrightarrow>
        sup_closed (w_sup w) = 1 \<or> filter_mset closing (w_calls w) \<noteq> {#})"

definition state_inv :: "world \<Rightarrow> bool" where
  "state_inv w \<longleftrightarrow>
     (sup_state (w_sup w) = CellStarting \<longrightarrow> Initialising \<in># w_calls w) \<and>
     (sup_state (w_sup w) = CellStopping \<longrightarrow> ShuttingDown \<in># w_calls w) \<and>
     (sup_state (w_sup w) = CellNew \<longrightarrow> sup_closed (w_sup w) = 0 \<and> (\<forall>p. p \<in># w_calls w \<longrightarrow> unreported p))"

definition report_inv :: "world \<Rightarrow> bool" where
  "report_inv w \<longleftrightarrow> 0 < sup_budget (w_sup w) \<and>
     (sup_hook (w_sup w) \<longrightarrow>
        sup_runaways (w_sup w) = of_nat (length (sup_reports (w_sup w)) + size (filter_mset unreported (w_calls w)))) \<and>
     (sup_hook (w_sup w) \<and> sup_state (w_sup w) = CellRunaway \<longrightarrow>
        sup_reports (w_sup w) \<noteq> [] \<or> (\<exists>oc e. Swapped oc e \<in># w_calls w))"

text \<open>The step of a call in flight, with the other calls in flight split off.\<close>

lemma advance_split: "p \<in># w_calls w \<Longrightarrow> \<exists>M. w_calls w = add_mset p M \<and> advance p q f w = w\<lparr>w_sup := f (w_sup w), w_calls := M + q\<rparr>"
  by (auto simp: advance_def dest!: multi_member_split)

lemma sup_step_split:
  assumes "sup_step w w'"
  obtains (start_begins) "w' = w\<lparr>w_sup := start_begin (w_sup w), w_calls := add_mset Initialising (w_calls w)\<rparr>"
  | (init_fails) M where "w_calls w = add_mset Initialising M" "w' = w\<lparr>w_sup := start_failed (w_sup w), w_calls := add_mset FailedStored M\<rparr>"
  | (init_succeeds) M where "w_calls w = add_mset Initialising M" "w' = w\<lparr>w_sup := start_ready (w_sup w), w_calls := add_mset ReadyStored M\<rparr>"
  | (time_stored) M now where "w_calls w = add_mset ReadyStored M" "w' = w\<lparr>w_sup := store_ok now (w_sup w), w_calls := add_mset OkStored M\<rparr>"
  | (stop_begins) "w' = w\<lparr>w_sup := stop_begin (w_sup w), w_calls := add_mset ShuttingDown (w_calls w)\<rparr>"
  | (cell_closed) M where "w_calls w = add_mset ShuttingDown M" "w' = w\<lparr>w_sup := stop_end (w_sup w), w_calls := add_mset StoppedStored M\<rparr>"
  | (marked) M p where "w_calls w = add_mset p M" "last_access p" "w' = w\<lparr>w_sup := mark_ready (w_sup w), w_calls := M, w_returned := w_returned w + 1\<rparr>"
  | (guard_succeeds) now where "w' = w\<lparr>w_sup := store_ok now (w_sup w)\<rparr>"
  | (guard_counts) oc e where "w' = w\<lparr>w_sup := guard_count (w_sup w), w_calls := add_mset (Counted oc e) (w_calls w)\<rparr>"
  | (guard_swaps) M oc e where "w_calls w = add_mset (Counted oc e) M" "w' = w\<lparr>w_sup := guard_swap (w_sup w), w_calls := add_mset (Swapped oc e) M\<rparr>"
  | (guard_reports) M oc e where "w_calls w = add_mset (Swapped oc e) M" "w' = w\<lparr>w_sup := guard_report oc e (w_sup w), w_calls := M\<rparr>"
  using assms
proof (cases rule: sup_step.cases)
  case start_begins
  then show ?thesis using that(1) by (simp add: enter_def)
next
  case init_fails
  then show ?thesis using advance_split [of "Initialising" w "{#FailedStored#}" "start_failed"] that(2) by auto
next
  case init_succeeds
  then show ?thesis using advance_split [of "Initialising" w "{#ReadyStored#}" "start_ready"] that(3) by auto
next
  case (time_stored now)
  then show ?thesis using advance_split [of "ReadyStored" w "{#OkStored#}" "store_ok now"] that(4) by auto
next
  case stop_begins
  then show ?thesis using that(5) by (simp add: enter_def)
next
  case cell_closed
  then show ?thesis using advance_split [of "ShuttingDown" w "{#StoppedStored#}" "stop_end"] that(6) by auto
next
  case (marked p)
  then show ?thesis using advance_split [of p w "{#}" mark_ready] that(7) by auto
next
  case (guard_succeeds now)
  then show ?thesis using that(8) by (simp add: enter_def)
next
  case (guard_counts oc e)
  then show ?thesis using that(9) by (simp add: enter_def)
next
  case (guard_swaps oc e)
  then show ?thesis using advance_split [of "(Counted oc e)" w "{#Swapped oc e#}" "guard_swap"] that(10) by auto
next
  case (guard_reports oc e)
  then show ?thesis using advance_split [of "(Swapped oc e)" w "{#}" "guard_report oc e"] that(11) by auto
qed

lemma last_access_not_unreported: "last_access p \<Longrightarrow> \<not> unreported p \<and> closing p \<and> p \<noteq> Initialising \<and> p \<noteq> ShuttingDown \<and> p \<noteq> Swapped oc e"
  by (cases p) auto

lemma channel_inv_step:
  assumes "sup_step w w'" and inv: "channel_inv w"
  shows "channel_inv w'"
  using assms(1)
proof (cases rule: sup_step_split)
  case start_begins
  then show ?thesis using inv by (auto simp: channel_inv_def sup_ops)
next
  case (init_fails M)
  then show ?thesis using inv by (auto simp: channel_inv_def sup_ops)
next
  case (init_succeeds M)
  then show ?thesis using inv by (auto simp: channel_inv_def sup_ops)
next
  case (time_stored M now)
  then show ?thesis using inv by (auto simp: channel_inv_def sup_ops)
next
  case stop_begins
  then show ?thesis using inv by (auto simp: channel_inv_def sup_ops)
next
  case (cell_closed M)
  then show ?thesis using inv by (auto simp: channel_inv_def sup_ops)
next
  case (marked M p)
  show ?thesis using inv last_access_not_unreported [OF marked(2)] marked(1) by (auto simp: channel_inv_def marked(3) mark_ready_def)
next
  case (guard_succeeds now)
  then show ?thesis using inv by (auto simp: channel_inv_def sup_ops)
next
  case (guard_counts oc e)
  then show ?thesis using inv by (auto simp: channel_inv_def sup_ops)
next
  case (guard_swaps M oc e)
  then show ?thesis using inv by (auto simp: channel_inv_def sup_ops)
next
  case (guard_reports M oc e)
  then show ?thesis using inv by (auto simp: channel_inv_def sup_ops)
qed

lemma state_inv_step:
  assumes "sup_step w w'" and inv: "state_inv w"
  shows "state_inv w'"
  using assms(1)
proof (cases rule: sup_step_split)
  case start_begins
  then show ?thesis using inv by (auto simp: state_inv_def sup_ops)
next
  case (init_fails M)
  then show ?thesis using inv by (auto simp: state_inv_def sup_ops)
next
  case (init_succeeds M)
  then show ?thesis using inv by (auto simp: state_inv_def sup_ops)
next
  case (time_stored M now)
  then show ?thesis using inv by (auto simp: state_inv_def sup_ops)
next
  case stop_begins
  then show ?thesis using inv by (auto simp: state_inv_def sup_ops)
next
  case (cell_closed M)
  then show ?thesis using inv by (auto simp: state_inv_def sup_ops)
next
  case (marked M p)
  show ?thesis using inv last_access_not_unreported [OF marked(2)] marked(1) by (auto simp: state_inv_def marked(3) mark_ready_def)
next
  case (guard_succeeds now)
  then show ?thesis using inv by (auto simp: state_inv_def sup_ops)
next
  case (guard_counts oc e)
  then show ?thesis using inv by (auto simp: state_inv_def sup_ops)
next
  case (guard_swaps M oc e)
  then show ?thesis using inv by (auto simp: state_inv_def sup_ops)
next
  case (guard_reports M oc e)
  then show ?thesis using inv by (auto simp: state_inv_def sup_ops)
qed

lemma report_inv_step:
  assumes "sup_step w w'" and inv: "report_inv w"
  shows "report_inv w'"
  using assms(1)
proof (cases rule: sup_step_split)
  case start_begins
  then show ?thesis using inv by (auto simp: report_inv_def sup_ops)
next
  case (init_fails M)
  then show ?thesis using inv by (auto simp: report_inv_def sup_ops)
next
  case (init_succeeds M)
  then show ?thesis using inv by (auto simp: report_inv_def sup_ops)
next
  case (time_stored M now)
  then show ?thesis using inv by (auto simp: report_inv_def sup_ops)
next
  case stop_begins
  then show ?thesis using inv by (auto simp: report_inv_def sup_ops)
next
  case (cell_closed M)
  then show ?thesis using inv by (auto simp: report_inv_def sup_ops)
next
  case (marked M p)
  show ?thesis using inv last_access_not_unreported [OF marked(2)] marked(1) by (auto simp: report_inv_def marked(3) mark_ready_def)
next
  case (guard_succeeds now)
  then show ?thesis using inv by (auto simp: report_inv_def sup_ops)
next
  case (guard_counts oc e)
  then show ?thesis using inv by (auto simp: report_inv_def sup_ops)
next
  case (guard_swaps M oc e)
  then show ?thesis using inv by (auto simp: report_inv_def sup_ops)
next
  case (guard_reports M oc e)
  then show ?thesis using inv by (auto simp: report_inv_def sup_ops)
qed

lemma sup_reach_inv: "sup_reach name timeout opts w \<Longrightarrow> channel_inv w \<and> state_inv w \<and> report_inv w"
proof (induction rule: sup_reach.induct)
  case created
  then show ?case using new_supervisor_fields [of name timeout opts]
    by (simp add: channel_inv_def state_inv_def report_inv_def new_world_def)
qed (blast intro: channel_inv_step state_inv_step report_inv_step)

text \<open>C24: However the accesses of starts, stops and guarded calls interleave, the lifecycle is consistent. The ready
  channel is closed at most once; once a start or stop has returned it is closed, and when the cell is ready, runaway,
  failed or stopped, it is closed or a call in flight has still to close it. A starting or stopping cell has such a
  call in flight, in the cell's Init or Shutdown, and a new one was never closed. The runaway counter is, modulo its
  64 bits, the number of reports made and of runaways in flight that are still to be reported; a runaway cell was
  reported, or is about to be.\<close>

theorem lifecycle_invariant:
  assumes "sup_reach name timeout opts w"
  shows "sup_closed (w_sup w) \<le> 1 \<and> (0 < w_returned w \<longrightarrow> sup_closed (w_sup w) = 1) \<and>
    (sup_state (w_sup w) \<in> {CellReady, CellRunaway, CellFailed, CellStopped} \<longrightarrow>
       sup_closed (w_sup w) = 1 \<or> (\<exists>p. p \<in># w_calls w \<and> closing p)) \<and>
    (sup_state (w_sup w) = CellStarting \<longrightarrow> Initialising \<in># w_calls w) \<and>
    (sup_state (w_sup w) = CellStopping \<longrightarrow> ShuttingDown \<in># w_calls w) \<and>
    (sup_state (w_sup w) = CellNew \<longrightarrow> sup_closed (w_sup w) = 0) \<and>
    (sup_hook (w_sup w) \<longrightarrow>
       sup_runaways (w_sup w) = of_nat (length (sup_reports (w_sup w)) + size (filter_mset unreported (w_calls w)))) \<and>
    (sup_hook (w_sup w) \<and> sup_state (w_sup w) = CellRunaway \<longrightarrow>
       sup_reports (w_sup w) \<noteq> [] \<or> (\<exists>oc e. Swapped oc e \<in># w_calls w)) \<and>
    0 < sup_budget (w_sup w)"
proof -
  have e: "filter_mset closing (w_calls w) \<noteq> {#} \<longleftrightarrow> (\<exists>p. p \<in># w_calls w \<and> closing p)" by auto
  note i = sup_reach_inv [OF assms, unfolded channel_inv_def state_inv_def report_inv_def e]
  show ?thesis by (intro conjI) (use i in \<open>blast+\<close>)
qed

text \<open>The operations of the section above are what a call does that is not interleaved.\<close>

lemma start_runs: "sup_step\<^sup>*\<^sup>* w (w\<lparr>w_sup := fst (start init now (w_sup w)), w_returned := w_returned w + 1\<rparr>)"
proof (cases init)
  case None
  let ?w1 = "enter {#Initialising#} start_begin w"
  let ?w2 = "advance Initialising {#ReadyStored#} start_ready ?w1"
  let ?w3 = "advance ReadyStored {#OkStored#} (store_ok now) ?w2"
  have "sup_step w ?w1" by (rule sup_step.start_begins)
  moreover have "sup_step ?w1 ?w2" by (rule sup_step.init_succeeds) (simp add: enter_def)
  moreover have "sup_step ?w2 ?w3" by (rule sup_step.time_stored) (simp add: world_ops)
  moreover have "sup_step ?w3 (advance OkStored {#} mark_ready ?w3\<lparr>w_returned := w_returned ?w3 + 1\<rparr>)"
    by (rule sup_step.marked) (simp_all add: world_ops)
  ultimately have "sup_step\<^sup>*\<^sup>* w (advance OkStored {#} mark_ready ?w3\<lparr>w_returned := w_returned ?w3 + 1\<rparr>)"
    by (blast intro: converse_rtranclp_into_rtranclp)
  moreover have "advance OkStored {#} mark_ready ?w3\<lparr>w_returned := w_returned ?w3 + 1\<rparr> =
      w\<lparr>w_sup := fst (start init now (w_sup w)), w_returned := w_returned w + 1\<rparr>"
    by (cases w) (simp add: None start_def world_ops)
  ultimately show ?thesis by simp
next
  case (Some e)
  let ?w1 = "enter {#Initialising#} start_begin w"
  let ?w2 = "advance Initialising {#FailedStored#} start_failed ?w1"
  have "sup_step w ?w1" by (rule sup_step.start_begins)
  moreover have "sup_step ?w1 ?w2" by (rule sup_step.init_fails) (simp add: enter_def)
  moreover have "sup_step ?w2 (advance FailedStored {#} mark_ready ?w2\<lparr>w_returned := w_returned ?w2 + 1\<rparr>)"
    by (rule sup_step.marked) (simp_all add: world_ops)
  ultimately have "sup_step\<^sup>*\<^sup>* w (advance FailedStored {#} mark_ready ?w2\<lparr>w_returned := w_returned ?w2 + 1\<rparr>)"
    by (blast intro: converse_rtranclp_into_rtranclp)
  moreover have "advance FailedStored {#} mark_ready ?w2\<lparr>w_returned := w_returned ?w2 + 1\<rparr> =
      w\<lparr>w_sup := fst (start init now (w_sup w)), w_returned := w_returned w + 1\<rparr>"
    by (cases w) (simp add: Some start_def world_ops)
  ultimately show ?thesis by simp
qed

lemma stop_runs: "sup_step\<^sup>*\<^sup>* w (w\<lparr>w_sup := fst (stop shut close (w_sup w)), w_returned := w_returned w + 1\<rparr>)"
proof -
  let ?w1 = "enter {#ShuttingDown#} stop_begin w"
  let ?w2 = "advance ShuttingDown {#StoppedStored#} stop_end ?w1"
  have "sup_step w ?w1" by (rule sup_step.stop_begins)
  moreover have "sup_step ?w1 ?w2" by (rule sup_step.cell_closed) (simp add: enter_def)
  moreover have "sup_step ?w2 (advance StoppedStored {#} mark_ready ?w2\<lparr>w_returned := w_returned ?w2 + 1\<rparr>)"
    by (rule sup_step.marked) (simp_all add: world_ops)
  ultimately have "sup_step\<^sup>*\<^sup>* w (advance StoppedStored {#} mark_ready ?w2\<lparr>w_returned := w_returned ?w2 + 1\<rparr>)"
    by (blast intro: converse_rtranclp_into_rtranclp)
  moreover have "advance StoppedStored {#} mark_ready ?w2\<lparr>w_returned := w_returned ?w2 + 1\<rparr> =
      w\<lparr>w_sup := fst (stop shut close (w_sup w)), w_returned := w_returned w + 1\<rparr>"
    by (cases w) (simp add: stop_def world_ops)
  ultimately show ?thesis by simp
qed

lemma guard_runs: "sup_step\<^sup>*\<^sup>* w (w\<lparr>w_sup := fst (guard oc (w_sup w))\<rparr>)"
proof (cases "go_error oc")
  case None
  have "sup_step w (w\<lparr>w_sup := fst (guard oc (w_sup w))\<rparr>)"
    using sup_step.guard_succeeds [of w "go_now oc"] by (simp add: guard_def None enter_def)
  then show ?thesis by blast
next
  case (Some e)
  show ?thesis
  proof (cases "bounded oc")
    case True
    let ?w1 = "enter {#Counted oc e#} guard_count w"
    let ?w2 = "advance (Counted oc e) {#Swapped oc e#} guard_swap ?w1"
    have "sup_step w ?w1" using Some True by (rule sup_step.guard_counts)
    moreover have "sup_step ?w1 ?w2" by (rule sup_step.guard_swaps) (simp add: enter_def)
    moreover have "sup_step ?w2 (advance (Swapped oc e) {#} (guard_report oc e) ?w2)"
      by (rule sup_step.guard_reports) (simp add: world_ops)
    ultimately have "sup_step\<^sup>*\<^sup>* w (advance (Swapped oc e) {#} (guard_report oc e) ?w2)"
      by (blast intro: converse_rtranclp_into_rtranclp)
    moreover have "advance (Swapped oc e) {#} (guard_report oc e) ?w2 = w\<lparr>w_sup := fst (guard oc (w_sup w))\<rparr>"
      by (cases w) (simp add: Some True guard_def world_ops)
    ultimately show ?thesis by simp
  next
    case False
    then have "w\<lparr>w_sup := fst (guard oc (w_sup w))\<rparr> = w" by (cases w) (simp add: Some guard_def)
    then show ?thesis by simp
  qed
qed

text \<open>Steps while no start is in the cell's Init.\<close>

definition calm_step :: "world \<Rightarrow> world \<Rightarrow> bool" where
  "calm_step w w' \<longleftrightarrow> sup_step w w' \<and> Initialising \<notin># w_calls w \<and> Initialising \<notin># w_calls w'"

lemma calm_step_down:
  assumes "calm_step w w'" and "sup_state (w_sup w) \<in> {CellStopping, CellStopped}"
  shows "sup_state (w_sup w') \<in> {CellStopping, CellStopped}"
proof -
  have "sup_step w w'" "Initialising \<notin># w_calls w" "Initialising \<notin># w_calls w'" using assms(1) by (simp_all add: calm_step_def)
  then show ?thesis using assms(2) by (cases rule: sup_step_split) (auto simp: sup_ops)
qed

text \<open>A guarded call that ends late cannot resurrect a stopping or stopped cell: unless someone starts it again, the
  cell stays stopping or stopped, whatever calls end and however they end.\<close>

theorem stopped_stays:
  assumes "calm_step\<^sup>*\<^sup>* w w'" and "sup_state (w_sup w) \<in> {CellStopping, CellStopped}"
  shows "sup_state (w_sup w') \<in> {CellStopping, CellStopped} \<and> \<not> healthy (w_sup w')"
proof -
  have "sup_state (w_sup w') \<in> {CellStopping, CellStopped}"
    using assms by (induction rule: rtranclp_induct) (auto dest: calm_step_down)
  then show ?thesis by (auto simp: healthy_def)
qed

text \<open>A start that is still in flight when the cell is stopped does: the stop has returned, the cell was shut down, and
  the supervisor ends ready and healthy with no call in flight.\<close>

lemma start_stop_race:
  "\<exists>w w'. sup_reach ''c'' 0 [] w \<and> w_returned w = 1 \<and> sup_state (w_sup w) = CellStopped \<and> w_calls w = {#Initialising#} \<and>
     sup_step\<^sup>*\<^sup>* w w' \<and> w_calls w' = {#} \<and> healthy (w_sup w')"
proof -
  let ?w0 = "new_world ''c'' 0 []"
  let ?w1 = "enter {#Initialising#} start_begin ?w0"
  let ?w2 = "enter {#ShuttingDown#} stop_begin ?w1"
  let ?w3 = "advance ShuttingDown {#StoppedStored#} stop_end ?w2"
  let ?w = "advance StoppedStored {#} mark_ready ?w3\<lparr>w_returned := w_returned ?w3 + 1\<rparr>"
  let ?w5 = "advance Initialising {#ReadyStored#} start_ready ?w"
  let ?w6 = "advance ReadyStored {#OkStored#} (store_ok 5) ?w5"
  let ?w' = "advance OkStored {#} mark_ready ?w6\<lparr>w_returned := w_returned ?w6 + 1\<rparr>"
  have "sup_reach ''c'' 0 [] ?w1" by (rule sup_reach.stepped [OF sup_reach.created sup_step.start_begins])
  then have "sup_reach ''c'' 0 [] ?w2" by (rule sup_reach.stepped [OF _ sup_step.stop_begins])
  then have "sup_reach ''c'' 0 [] ?w3" by (rule sup_reach.stepped [OF _ sup_step.cell_closed]) (simp add: enter_def)
  then have r: "sup_reach ''c'' 0 [] ?w" by (rule sup_reach.stepped [OF _ sup_step.marked]) (simp_all add: world_ops)
  have "sup_step ?w ?w5" by (rule sup_step.init_succeeds) (simp add: world_ops new_world_def)
  moreover have "sup_step ?w5 ?w6" by (rule sup_step.time_stored) (simp add: world_ops new_world_def)
  moreover have "sup_step ?w6 ?w'" by (rule sup_step.marked) (simp_all add: world_ops new_world_def)
  ultimately have "sup_step\<^sup>*\<^sup>* ?w ?w'" by (blast intro: converse_rtranclp_into_rtranclp)
  moreover have "w_returned ?w = 1" "sup_state (w_sup ?w) = CellStopped" "w_calls ?w = {#Initialising#}" "w_calls ?w' = {#}" "healthy (w_sup ?w')"
    by (simp_all add: world_ops new_world_def sup_ops healthy_def)
  ultimately show ?thesis using r by blast
qed

subsection \<open>The guard and the monitor\<close>

lemma guard_state:
  "snd (guard oc s) = GuardRunaway \<Longrightarrow> sup_state s = CellReady \<Longrightarrow> sup_state (fst (guard oc s)) = CellRunaway \<and> sup_runaways (fst (guard oc s)) = sup_runaways s + 1"
  "snd (guard oc s) \<noteq> GuardRunaway \<Longrightarrow> sup_state (fst (guard oc s)) = sup_state s \<and> sup_runaways (fst (guard oc s)) = sup_runaways s"
  by (auto simp: guard_def sup_ops split: option.splits if_splits)

text \<open>The monitor ends at the first runaway. On a ready cell it emits one snapshot per probe; all but the last are
  healthy; it leaves the cell ready, having bounded no call, or runaway, having bounded exactly one, which is the
  last probe and the one unhealthy snapshot.\<close>

theorem monitor_stops:
  assumes "monitor evs s = (s', hs)" and "sup_state s = CellReady"
  shows "list_all hs_healthy (butlast hs) \<and> length hs \<le> length evs \<and>
    (sup_state s' = CellReady \<and> sup_runaways s' = sup_runaways s \<and> list_all hs_healthy hs \<or>
     sup_state s' = CellRunaway \<and> sup_runaways s' = sup_runaways s + 1 \<and> hs \<noteq> [] \<and> hs_state (last hs) = CellRunaway)"
  using assms
proof (induction evs s arbitrary: s' hs rule: monitor.induct)
  case (3 oc evs s)
  let ?g = "fst (guard oc s)"
  show ?case
  proof (cases "snd (guard oc s) = GuardRunaway")
    case True
    then have "hs = [snapshot ?g]" "s' = ?g" using "3.prems" guard_state(1) [OF True] by (auto simp: Let_def)
    then show ?thesis using guard_state(1) [OF True "3.prems"(2)] by (simp add: snapshot_def)
  next
    case False
    note g = guard_state(2) [OF False]
    obtain hs' where rest: "monitor evs ?g = (s', hs')" "hs = snapshot ?g # hs'"
      using "3.prems" g by (auto simp: Let_def split: prod.splits)
    note ih = "3.IH" [OF _ refl _ rest(1)]
    have "sup_state ?g = CellReady" using g "3.prems"(2) by simp
    then show ?thesis using ih "3.prems"(2) g rest(2) by (auto simp: snapshot_def healthy_def)
  qed
qed auto

subsection \<open>Witnesses\<close>

definition demo_hang :: guard_outcome where
  "demo_hang = \<lparr>go_error = Some ''closed'', go_expired = True, go_parent_done = False, go_now = 9, go_elapsed = 5\<rparr>"

definition demo_world :: world where
  "demo_world = new_world ''c'' 0 [WithRunawayReporter True]"

text \<open>A ready cell whose runaway was counted and swapped but not yet reported.\<close>

definition demo_running_away :: world where
  "demo_running_away = advance (Counted demo_hang ''closed'') {#Swapped demo_hang ''closed''#} guard_swap
     (enter {#Counted demo_hang ''closed''#} guard_count (demo_world\<lparr>w_sup := fst (start None 1 (w_sup demo_world)), w_returned := w_returned demo_world + 1\<rparr>))"

lemma sup_reach_steps: "sup_step\<^sup>*\<^sup>* w w' \<Longrightarrow> sup_reach name timeout opts w \<Longrightarrow> sup_reach name timeout opts w'"
  by (induction rule: rtranclp_induct) (auto intro: sup_reach.stepped)

theorem lifecycle_invariant_witness:
  "sup_state (w_sup demo_running_away) = CellRunaway \<and> sup_reports (w_sup demo_running_away) = [] \<and>
   sup_runaways (w_sup demo_running_away) = 1 \<and> sup_closed (w_sup demo_running_away) = 1"
proof -
  let ?w = "demo_world\<lparr>w_sup := fst (start None 1 (w_sup demo_world)), w_returned := w_returned demo_world + 1\<rparr>"
  let ?w1 = "enter {#Counted demo_hang ''closed''#} guard_count ?w"
  have "sup_reach ''c'' 0 [WithRunawayReporter True] ?w"
    unfolding demo_world_def by (rule sup_reach_steps [OF start_runs sup_reach.created])
  then have "sup_reach ''c'' 0 [WithRunawayReporter True] ?w1"
    by (rule sup_reach.stepped [OF _ sup_step.guard_counts]) (simp_all add: demo_hang_def bounded_def)
  then have r: "sup_reach ''c'' 0 [WithRunawayReporter True] demo_running_away"
    unfolding demo_running_away_def by (rule sup_reach.stepped [OF _ sup_step.guard_swaps]) (simp add: enter_def)
  have s: "sup_state (w_sup demo_running_away) = CellRunaway" "sup_reports (w_sup demo_running_away) = []"
    "w_calls demo_running_away = {#Swapped demo_hang ''closed''#}" "sup_hook (w_sup demo_running_away)" "0 < w_returned demo_running_away"
    by (simp_all add: demo_running_away_def demo_world_def new_world_def new_supervisor_def start_def sup_ops world_ops)
  show ?thesis using lifecycle_invariant [OF r] s by simp
qed

theorem stopped_stays_witness:
  "\<not> healthy (w_sup (demo_world\<lparr>w_sup := fst (stop None None (w_sup demo_world))\<rparr>))"
proof -
  have "sup_state (w_sup (demo_world\<lparr>w_sup := fst (stop None None (w_sup demo_world))\<rparr>)) \<in> {CellStopping, CellStopped}"
    by (simp add: stop_def sup_ops)
  then show ?thesis using stopped_stays [OF rtranclp.rtrancl_refl] by blast
qed

theorem monitor_stops_witness:
  "sup_state (fst (monitor [Tick demo_hang, Tick demo_hang] (fst (start None 1 (w_sup demo_world))))) = CellRunaway"
proof -
  let ?s = "fst (start None 1 (w_sup demo_world))"
  have r: "sup_state ?s = CellReady" "\<not> list_all hs_healthy (snd (monitor [Tick demo_hang, Tick demo_hang] ?s))"
    by code_simp+
  then show ?thesis using monitor_stops [OF prod.collapse [symmetric] r(1)] by blast
qed

end
