(* ===== verification/Fusion_Plan.thy ===== *)
theory Fusion_Plan
  imports Cell_Manifest
begin

text \<open>
  The fusion planner, \<^verbatim>\<open>src/internal/fusion/plan.go\<close>: which cells that ask to be fused share one physical
  instance. Cells are not nil here. Go sorts with an unstable sort by cell name; the names of a cell set are
  distinct, so the result does not depend on it.
\<close>

subsection \<open>The planner\<close>

record 'o fusion_group =
  fg_name :: string
  fg_abi :: string
  fg_members :: "'o cell_spec list"

record 'o decision =
  de_cell :: "'o cell_spec"
  de_reason :: string

record 'o fusion_plan =
  fp_groups :: "'o fusion_group list"
  fp_isolated :: "'o decision list"

definition member_abi_v2 :: string where
  "member_abi_v2 = ''pulp-member-v2''"

definition same_set :: "string list \<Rightarrow> string list \<Rightarrow> bool" where
  "same_set a b \<longleftrightarrow> length a = length b \<and> list_all (\<lambda>v. v \<in> set a) b"

text \<open>The reason why a member does not fit, in the order of the checks; the empty text when it fits.\<close>

definition member_reason :: "bool \<Rightarrow> 'o cell_spec \<Rightarrow> 'o cell_spec \<Rightarrow> string" where
  "member_reason v2 base c =
     (if cs_dedicated_thread c then ''dedicated_thread cells are not fusible''
      else if cs_snapshotable c \<and> \<not> v2 then ''snapshotable cells require per-member snapshot ABI support''
      else if cs_restart c \<noteq> cs_restart base then ''restart policy differs within fusion group''
      else if cs_max_memory_pages c \<noteq> cs_max_memory_pages base then ''memory limit differs within fusion group''
      else if cs_call_timeout_ms c \<noteq> cs_call_timeout_ms base then ''call timeout differs within fusion group''
      else if \<not> same_set (cs_capabilities c) (cs_capabilities base) then ''capability set differs within fusion group''
      else if \<not> v2 \<and> cs_config c \<noteq> cs_config base then ''config differs within fusion group''
      else [])"

definition compatible :: "'o cell_spec list \<Rightarrow> string" where
  "compatible members =
     (case members of
        [] \<Rightarrow> []
      | base # rest \<Rightarrow>
          let v2 = (ex_abi (cs_execution base) = member_abi_v2)
          in if cs_dedicated_thread base then ''dedicated_thread cells are not fusible''
             else if cs_snapshotable base \<and> \<not> v2 then ''snapshotable cells require per-member snapshot ABI support''
             else case List.find (\<lambda>c. member_reason v2 base c \<noteq> []) rest of
                    None \<Rightarrow> []
                  | Some c \<Rightarrow> member_reason v2 base c)"

definition fusible :: "'o cell_spec \<Rightarrow> bool" where
  "fusible c \<longleftrightarrow> ex_mode (cs_execution c) = ''fusible''"

definition fusion_key :: "'o cell_spec \<Rightarrow> string" where
  "fusion_key c = ex_group (cs_execution c) @ [CHR 0x00] @ ex_abi (cs_execution c)"

definition requested :: "'o cell_spec list \<Rightarrow> string \<Rightarrow> 'o cell_spec list" where
  "requested cells k = filter (\<lambda>c. fusion_key c = k) (filter fusible cells)"

definition fusion_keys :: "'o cell_spec list \<Rightarrow> string list" where
  "fusion_keys cells = sort (remdups (map fusion_key (filter fusible cells)))"

text \<open>What one key contributes: decisions or one group.\<close>

definition plan_key :: "'o cell_spec list \<Rightarrow> 'o decision list \<times> 'o fusion_group list" where
  "plan_key unsorted =
     (let members = sort_key cs_name unsorted
      in case members of
           [] \<Rightarrow> ([], [])
         | [c] \<Rightarrow> ([\<lparr>de_cell = c, de_reason = ''fusion group has fewer than two members''\<rparr>], [])
         | base # _ \<Rightarrow>
             (case compatible members of
                [] \<Rightarrow> ([], [\<lparr>fg_name = ex_group (cs_execution base), fg_abi = ex_abi (cs_execution base), fg_members = members\<rparr>])
              | reason \<Rightarrow> (map (\<lambda>m. \<lparr>de_cell = m, de_reason = reason\<rparr>) members, [])))"

definition build_fusion :: "'o cell_spec list \<Rightarrow> 'o fusion_plan" where
  "build_fusion cells =
     (let parts = map (\<lambda>k. plan_key (requested cells k)) (fusion_keys cells);
          isolated = map (\<lambda>c. \<lparr>de_cell = c, de_reason = ''execution mode is isolated''\<rparr>) (filter (\<lambda>c. \<not> fusible c) cells)
      in \<lparr>fp_groups = concat (map snd parts),
          fp_isolated = sort_key (\<lambda>d. cs_name (de_cell d)) (isolated @ concat (map fst parts))\<rparr>)"

definition fusion_plan_string :: "'o fusion_plan \<Rightarrow> string" where
  "fusion_plan_string p =
     join ''; '' (map (\<lambda>g. fg_name g @ ''['' @ join '','' (map cs_name (fg_members g)) @ '']'') (fp_groups p))"

subsection \<open>Compatible members\<close>

text \<open>With lists that name nothing twice, the comparison of the lengths makes \<^const>\<open>same_set\<close> exact. Without
  that it is not.\<close>

lemma same_set_iff: "distinct a \<Longrightarrow> distinct b \<Longrightarrow> same_set a b \<longleftrightarrow> set a = set b"
  by (auto simp: same_set_def list_all_iff distinct_card [symmetric] intro: card_subset_eq [symmetric])
     (metis List.finite_set card_subset_eq distinct_card subsetI)+

lemma same_set_repeats: "same_set [''net'', ''fs''] [''net'', ''net'']"
  by (simp add: same_set_def)

definition alike :: "bool \<Rightarrow> 'o cell_spec \<Rightarrow> 'o cell_spec \<Rightarrow> bool" where
  "alike v2 a b \<longleftrightarrow> cs_restart a = cs_restart b \<and> cs_max_memory_pages a = cs_max_memory_pages b \<and>
     cs_call_timeout_ms a = cs_call_timeout_ms b \<and> set (cs_capabilities a) = set (cs_capabilities b) \<and>
     (v2 \<or> cs_config a = cs_config b)"

definition fits :: "bool \<Rightarrow> 'o cell_spec \<Rightarrow> bool" where
  "fits v2 c \<longleftrightarrow> \<not> cs_dedicated_thread c \<and> (v2 \<or> \<not> cs_snapshotable c)"

lemma member_reason_Nil:
  "distinct (cs_capabilities c) \<Longrightarrow> distinct (cs_capabilities base) \<Longrightarrow>
     member_reason v2 base c = [] \<longleftrightarrow> fits v2 c \<and> alike v2 c base"
  by (auto simp: member_reason_def fits_def alike_def same_set_iff)

lemma alike_refl: "alike v2 a a"
  by (simp add: alike_def)

lemma alike_trans: "alike v2 a c \<Longrightarrow> alike v2 b c \<Longrightarrow> alike v2 a b"
  by (auto simp: alike_def)

text \<open>A group is compatible exactly when all members fit the shared instance and agree pairwise.\<close>

lemma compatible_iff:
  assumes "members \<noteq> []" and "\<forall>c \<in> set members. distinct (cs_capabilities c)"
  shows "compatible members = [] \<longleftrightarrow>
    (let v2 = (ex_abi (cs_execution (hd members)) = member_abi_v2)
     in (\<forall>c \<in> set members. fits v2 c) \<and> (\<forall>a \<in> set members. \<forall>b \<in> set members. alike v2 a b))"
proof -
  obtain base rest where m: "members = base # rest" using assms(1) by (cases members) auto
  define v2 where "v2 = (ex_abi (cs_execution base) = member_abi_v2)"
  have find: "List.find (\<lambda>c. member_reason v2 base c \<noteq> []) rest = None \<longleftrightarrow> (\<forall>c \<in> set rest. fits v2 c \<and> alike v2 c base)"
    using assms(2) m by (auto simp: find_None_iff member_reason_Nil)
  have found: "member_reason v2 base c \<noteq> []" if "List.find (\<lambda>c. member_reason v2 base c \<noteq> []) rest = Some c" for c
    using that by (auto simp: find_Some_iff)
  have "compatible members = [] \<longleftrightarrow> fits v2 base \<and> (\<forall>c \<in> set rest. fits v2 c \<and> alike v2 c base)"
    using find found by (auto simp: m compatible_def v2_def [symmetric] fits_def Let_def split: option.splits)
  also have "\<dots> \<longleftrightarrow> (\<forall>c \<in> set members. fits v2 c) \<and> (\<forall>a \<in> set members. \<forall>b \<in> set members. alike v2 a b)"
  proof
    assume l: "fits v2 base \<and> (\<forall>c \<in> set rest. fits v2 c \<and> alike v2 c base)"
    then have b: "alike v2 a base" if "a \<in> set members" for a using that m alike_refl by auto
    have "alike v2 a b" if "a \<in> set members" and "b \<in> set members" for a b
      using alike_trans [OF b [OF that(1)] b [OF that(2)]] .
    then show "(\<forall>c \<in> set members. fits v2 c) \<and> (\<forall>a \<in> set members. \<forall>b \<in> set members. alike v2 a b)"
      using l m by auto
  qed (simp add: m)
  finally show ?thesis by (simp add: m v2_def [symmetric] Let_def)
qed

lemma plan_key_parts:
  "mset (map de_cell (fst (plan_key cs)) @ concat (map fg_members (snd (plan_key cs)))) = mset cs"
proof -
  define ms where "ms = sort_key cs_name cs"
  have "map de_cell (fst (plan_key cs)) @ concat (map fg_members (snd (plan_key cs))) = ms"
    unfolding plan_key_def ms_def [symmetric] Let_def by (auto simp: comp_def split: list.splits)
  then show ?thesis by (simp only: ms_def mset_sort)
qed

lemma plan_key_group:
  assumes "g \<in> set (snd (plan_key cs))"
  shows "fg_members g = sort_key cs_name cs \<and> 2 \<le> length (fg_members g) \<and> compatible (fg_members g) = [] \<and>
    fg_name g = ex_group (cs_execution (hd (fg_members g))) \<and> fg_abi g = ex_abi (cs_execution (hd (fg_members g)))"
  using assms by (auto simp: plan_key_def Let_def split: list.splits)

lemma plan_key_one: "length (snd (plan_key cs)) \<le> 1"
  by (auto simp: plan_key_def Let_def split: list.splits)

lemma mset_by_key:
  "distinct ks \<Longrightarrow> set (map f xs) \<subseteq> set ks \<Longrightarrow> mset (concat (map (\<lambda>k. filter (\<lambda>x. f x = k) xs) ks)) = mset xs"
proof (induction ks arbitrary: xs)
  case (Cons k ks)
  have rest: "concat (map (\<lambda>j. filter (\<lambda>x. f x = j) xs) ks) = concat (map (\<lambda>j. filter (\<lambda>x. f x = j) (filter (\<lambda>x. f x \<noteq> k) xs)) ks)"
  proof (rule arg_cong [where f = concat], rule map_cong [OF refl])
    fix j assume "j \<in> set ks"
    then have "j \<noteq> k" using Cons.prems(1) by auto
    then show "filter (\<lambda>x. f x = j) xs = filter (\<lambda>x. f x = j) (filter (\<lambda>x. f x \<noteq> k) xs)" by (auto intro: filter_cong)
  qed
  have "mset (concat (map (\<lambda>j. filter (\<lambda>x. f x = j) xs) ks)) = mset (filter (\<lambda>x. f x \<noteq> k) xs)"
    unfolding rest by (rule Cons.IH) (use Cons.prems in auto)
  then show ?case by (simp add: multiset_partition [symmetric])
qed auto

text \<open>The separator is no character of a group name, so the key determines group and interface.\<close>

lemma fusion_key_inj:
  assumes "fusion_key a = fusion_key b" and "\<not> has_blank (ex_group (cs_execution a))" and "\<not> has_blank (ex_group (cs_execution b))"
  shows "ex_group (cs_execution a) = ex_group (cs_execution b) \<and> ex_abi (cs_execution a) = ex_abi (cs_execution b)"
proof -
  have n: "CHR 0x00 \<notin> set (ex_group (cs_execution a))" "CHR 0x00 \<notin> set (ex_group (cs_execution b))"
    using assms(2,3) by (auto simp: has_blank_def list_ex_iff)
  have "takeWhile (\<lambda>c. c \<noteq> CHR 0x00) (x @ CHR 0x00 # y) = x" if "CHR 0x00 \<notin> set x" for x y :: string
    using that by (induction x) auto
  then have "ex_group (cs_execution a) = ex_group (cs_execution b)"
    using assms(1) n unfolding fusion_key_def by (metis append_Cons append_Nil)
  then show ?thesis using assms(1) by (simp add: fusion_key_def)
qed

lemma build_fusion_cells:
  "mset (map de_cell (fp_isolated (build_fusion cells)) @ concat (map fg_members (fp_groups (build_fusion cells)))) = mset cells"
proof -
  let ?ks = "fusion_keys cells"
  let ?parts = "map (\<lambda>k. plan_key (requested cells k)) ?ks"
  have iso: "mset (map de_cell (fp_isolated (build_fusion cells))) =
      mset (filter (\<lambda>c. \<not> fusible c) cells) + mset (concat (map (\<lambda>p. map de_cell (fst p)) ?parts))"
    by (simp add: build_fusion_def Let_def comp_def image_mset.compositionality)
       (simp add: mset_map [symmetric] map_concat comp_def del: mset_map)
  have grp: "concat (map fg_members (fp_groups (build_fusion cells))) = concat (map (\<lambda>p. concat (map fg_members (snd p))) ?parts)"
  proof -
    have "concat (map fg_members (concat (map snd ps))) = concat (map (\<lambda>p. concat (map fg_members (snd p))) ps)"
      for ps :: "('a decision list \<times> 'a fusion_group list) list" by (induction ps) auto
    from this [of ?parts] show ?thesis by (simp add: build_fusion_def Let_def)
  qed
  have s1: "mset (concat (map (\<lambda>p. map de_cell (fst p)) ps)) + mset (concat (map (\<lambda>p. concat (map fg_members (snd p))) ps)) =
      mset (concat (map (\<lambda>p. map de_cell (fst p) @ concat (map fg_members (snd p))) ps))"
    for ps :: "('a decision list \<times> 'a fusion_group list) list" by (induction ps) auto
  have s2: "mset (concat (map (\<lambda>k. map de_cell (fst (plan_key (requested cells k))) @ concat (map fg_members (snd (plan_key (requested cells k))))) ks)) =
      mset (concat (map (requested cells) ks))" for ks
    by (induction ks) (use plan_key_parts in auto)
  have s3: "mset (concat (map (requested cells) ?ks)) = mset (filter fusible cells)"
    unfolding requested_def by (rule mset_by_key) (auto simp: fusion_keys_def)
  have parts: "mset (concat (map (\<lambda>p. map de_cell (fst p)) ?parts)) + mset (concat (map (\<lambda>p. concat (map fg_members (snd p))) ?parts)) =
      mset (filter fusible cells)"
    using s1 [of ?parts] s2 [of ?ks] s3 by (simp add: comp_def)
  have "mset (map de_cell (fp_isolated (build_fusion cells)) @ concat (map fg_members (fp_groups (build_fusion cells)))) =
      mset (filter (\<lambda>c. \<not> fusible c) cells) + mset (filter fusible cells)"
    unfolding mset_append iso grp add.assoc parts by (rule refl)
  also have "\<dots> = mset cells"
    using multiset_partition [of "mset cells" fusible] by (simp only: mset_filter add.commute)
  finally show ?thesis .
qed

lemma build_fusion_group:
  assumes "g \<in> set (fp_groups (build_fusion cells))"
  shows "\<exists>k. fg_members g = sort_key cs_name (requested cells k) \<and> 2 \<le> length (fg_members g) \<and> compatible (fg_members g) = [] \<and>
    fg_name g = ex_group (cs_execution (hd (fg_members g))) \<and> fg_abi g = ex_abi (cs_execution (hd (fg_members g)))"
  using assms by (auto simp: build_fusion_def Let_def dest!: plan_key_group)

lemma fusion_group_members:
  assumes "\<forall>c \<in> set cells. spec_wf c" and "g \<in> set (fp_groups (build_fusion cells))"
  shows "2 \<le> length (fg_members g) \<and>
    (\<forall>a \<in> set (fg_members g). fusible a \<and> ex_group (cs_execution a) = fg_name g \<and> ex_abi (cs_execution a) = fg_abi g \<and>
       fits (fg_abi g = member_abi_v2) a \<and> (\<forall>b \<in> set (fg_members g). alike (fg_abi g = member_abi_v2) a b))"
proof (intro conjI ballI)
  obtain k where g: "fg_members g = sort_key cs_name (requested cells k)" "2 \<le> length (fg_members g)" "compatible (fg_members g) = []"
      "fg_name g = ex_group (cs_execution (hd (fg_members g)))" "fg_abi g = ex_abi (cs_execution (hd (fg_members g)))"
    using build_fusion_group [OF assms(2)] by blast
  show "2 \<le> length (fg_members g)" by (rule g(2))
  have mem: "a \<in> set cells \<and> fusible a \<and> fusion_key a = k" if "a \<in> set (fg_members g)" for a
    using that g(1) by (auto simp: requested_def)
  have ne: "fg_members g \<noteq> []" using g(2) by auto
  then have h: "hd (fg_members g) \<in> set (fg_members g)" by simp
  have wf: "distinct (cs_capabilities a)" "execution_ok (cs_execution a)" if "a \<in> set (fg_members g)" for a
    using mem [OF that] assms(1) by (auto simp: spec_wf_def names_ok_def)
  have nb: "\<not> has_blank (ex_group (cs_execution a))" if "a \<in> set (fg_members g)" for a
    using wf(2) [OF that] by (auto simp: execution_ok_def has_blank_def)
  fix a assume a: "a \<in> set (fg_members g)"
  show "fusible a" using mem [OF a] by blast
  have "fusion_key a = fusion_key (hd (fg_members g))" using mem [OF a] mem [OF h] by simp
  then show "ex_group (cs_execution a) = fg_name g" "ex_abi (cs_execution a) = fg_abi g"
    using fusion_key_inj [OF _ nb [OF a] nb [OF h]] g(4,5) by auto
  show "fits (fg_abi g = member_abi_v2) a" "alike (fg_abi g = member_abi_v2) a b" if "b \<in> set (fg_members g)" for b
    using compatible_iff [OF ne] wf(1) g(3,5) a that by (auto simp: Let_def)
qed

lemma fusion_group_alike:
  "\<forall>c \<in> set cells. spec_wf c \<Longrightarrow> g \<in> set (fp_groups (build_fusion cells)) \<Longrightarrow> a \<in> set (fg_members g) \<Longrightarrow> b \<in> set (fg_members g) \<Longrightarrow>
     alike (fg_abi g = member_abi_v2) a b"
  using fusion_group_members by blast

subsection \<open>Properties\<close>

text \<open>C19: Planning never broadens authority and never loses a cell. Of well-formed cells, each one ends up in
  exactly one group or isolated. A group has at least two members; all of them asked to be fused, with the
  group's name and interface, none needs a thread of its own, and they agree on the restart policy, the limits and the
  set of capabilities, and on the configuration unless the interface keeps members apart; without such an interface
  none is snapshotable.\<close>

theorem fusion_plan_sound:
  assumes "\<forall>c \<in> set cells. spec_wf c"
  shows "mset (map de_cell (fp_isolated (build_fusion cells)) @ concat (map fg_members (fp_groups (build_fusion cells)))) = mset cells \<and>
    (\<forall>g \<in> set (fp_groups (build_fusion cells)). 2 \<le> length (fg_members g) \<and>
       (\<forall>a \<in> set (fg_members g). fusible a \<and> ex_group (cs_execution a) = fg_name g \<and> ex_abi (cs_execution a) = fg_abi g \<and>
          fits (fg_abi g = member_abi_v2) a \<and> (\<forall>b \<in> set (fg_members g). alike (fg_abi g = member_abi_v2) a b)))"
  using build_fusion_cells fusion_group_members [OF assms] by blast

subsection \<open>Concrete runs\<close>

definition demo_fused :: "string \<Rightarrow> string list \<Rightarrow> unit cell_spec" where
  "demo_fused name caps = (demo_cell name [name] [] [])\<lparr>cs_capabilities := caps,
     cs_execution := \<lparr>ex_mode = ''fusible'', ex_group = ''g'', ex_abi = ''v1''\<rparr>\<rparr>"

theorem fusion_plan_sound_witness:
  "spec_wf (demo_fused ''b'' [''net'']) \<and> spec_wf (demo_fused ''a'' [''net'']) \<and> spec_wf (demo_cell ''c'' [''c''] [] []) \<and>
   map (\<lambda>g. map cs_name (fg_members g)) (fp_groups (build_fusion [demo_fused ''b'' [''net''], demo_fused ''a'' [''net''], demo_cell ''c'' [''c''] [] []]))
     = [[''a'', ''b'']] \<and>
   mset (map de_cell (fp_isolated (build_fusion [demo_fused ''b'' [''net''], demo_fused ''a'' [''net''], demo_cell ''c'' [''c''] [] []])) @
     concat (map fg_members (fp_groups (build_fusion [demo_fused ''b'' [''net''], demo_fused ''a'' [''net''], demo_cell ''c'' [''c''] [] []]))))
     = mset [demo_fused ''b'' [''net''], demo_fused ''a'' [''net''], demo_cell ''c'' [''c''] [] []]"
proof -
  let ?cells = "[demo_fused ''b'' [''net''], demo_fused ''a'' [''net''], demo_cell ''c'' [''c''] [] []]"
  have t: "trim_space ''a'' = ''a''" "trim_space ''b'' = ''b''" "trim_space ''c'' = ''c''"
    by (rule trim_space_plain; simp add: plain_char_def)+
  have wf: "spec_wf (demo_fused ''b'' [''net''])" "spec_wf (demo_fused ''a'' [''net''])" "spec_wf (demo_cell ''c'' [''c''] [] [])"
    by (simp_all add: spec_wf_def demo_fused_def demo_cell_def names_ok_def execution_ok_def has_blank_def is_abs_def t)
  have g: "map (\<lambda>g. map cs_name (fg_members g)) (fp_groups (build_fusion ?cells)) = [[''a'', ''b'']]" by code_simp
  have "\<forall>c \<in> set ?cells. spec_wf c" using wf by simp
  from fusion_plan_sound [OF this] wf g show ?thesis by blast
qed

end
