(* ===== verification/Fusion_Artifact.thy ===== *)
theory Fusion_Artifact
  imports Fusion_Plan Registry_Resolve
begin

text \<open>
  From an accepted fusion group to a fused cell: the recipe and the metadata of an artifact
  (\<^verbatim>\<open>src/internal/fusion/artifact.go\<close>), the sources of a recipe (\<^verbatim>\<open>registry_catalog.go\<close>, \<^verbatim>\<open>source_resolve.go\<close>),
  the selection of an attested artifact from the registry (\<^verbatim>\<open>select.go\<close>) and the coordinator
  (\<^verbatim>\<open>coordinator.go\<close>). MessagePack and JSON are library code, the fields of a \<open>fusion_codec\<close>. The Go toolchain behind
  \<^verbatim>\<open>Builder.Build\<close>, the publisher and the materializer are arguments of the coordinator; a publication answers
  with the store after it. Canonicalizing sorts with an unstable sort by keys that validation requires to be
  distinct. Slices shared with the caller are sorted in place by the code; the canonical form is the same.
\<close>

subsection \<open>Data\<close>

record fusion_source =
  fs_module_path :: string
  fs_import_path :: string
  fs_version :: string
  fs_sha256 :: string
  fs_entrypoint :: string

record recipe_member =
  rm_name :: string
  rm_version :: string
  rm_providers :: "string list"
  rm_capabilities :: "string list"
  rm_source :: fusion_source
  rm_config :: string
  rm_snapshotable :: bool

record fusion_dependency =
  fd_module_path :: string
  fd_version :: string
  fd_sha256 :: string
  fd_origin :: string
  fd_go_sum :: string
  fd_go_mod_sum :: string

record recipe =
  re_schema :: string
  re_group :: string
  re_abi :: string
  re_go_version :: string
  re_members :: "recipe_member list"
  re_dependencies :: "fusion_dependency list"

record artifact_metadata =
  am_schema :: string
  am_group :: string
  am_abi :: string
  am_members :: "string list"
  am_providers :: "string list"
  am_capabilities :: "string list"
  am_recipe_sha256 :: string
  am_artifact_sha256 :: string

record attestation =
  at_metadata :: artifact_metadata
  at_builder :: string

record selection =
  sel_release :: release_id
  sel_target :: string
  sel_wasm :: string
  sel_attestation :: attestation

record 'o fusion_codec =
  fc_msgpack :: "'o table \<Rightarrow> string option"
  fc_recipe_json :: "recipe \<Rightarrow> string option"
  fc_attestation_json :: "string \<Rightarrow> (attestation \<times> string) option"

datatype source_error = ModulePathRequired | ImportPathRequired | SourceVersionRequired | BadEntrypoint | BadSourceDigest

datatype recipe_error =
    NoSourceDescriptor string | ConfigEncoding string | BadRecipeSchema string | GroupMismatch string string
  | AbiMismatch string string | SchemaAbiMismatch | GoVersionRequired | PlanAbiMismatch string string string
  | MemberCount nat nat | UnexpectedMember string | DuplicateMember string | MemberVersion string
  | MemberProviders string | MemberCapabilities string | MemberScope string | ProviderOwned string string string
  | MemberSource string source_error | MemberEntrypoint string

datatype build_error =
    BuildSchema string | GroupAbiRequired | BuildSchemaAbi | BuildGoVersion | TooFewRecipeMembers
  | FusionDependencyRequired | FusionDependencyDuplicate string | FusionDependencyDigest string
  | MemberNameInvalid string | CapabilitiesDiffer string | BuildMember recipe_error | ImportUsed string string string

datatype artifact_error =
    RecipeEncoding | BadArtifactDigest | ArtifactIdentity | ArtifactRecipe | ArtifactMembers | ArtifactProviders
  | ArtifactCapabilities

subsection \<open>Canonical sets\<close>

definition canonical_set :: "string list \<Rightarrow> string list" where
  "canonical_set vs = sort (remdups (filter (\<lambda>v. v \<noteq> []) (map trim_space vs)))"

definition equal_canonical_set :: "string list \<Rightarrow> string list \<Rightarrow> bool" where
  "equal_canonical_set a b \<longleftrightarrow> canonical_set a = canonical_set b"

definition validate_sha256 :: "string \<Rightarrow> bool" where
  "validate_sha256 v \<longleftrightarrow> length v = 64 \<and> hex_decode v \<noteq> None"

definition validate_source :: "fusion_source \<Rightarrow> (source_error, unit) result" where
  "validate_source s =
     (if trim_space (fs_module_path s) = [] then Inl ModulePathRequired
      else if trim_space (fs_import_path s) = [] then Inl ImportPathRequired
      else if trim_space (fs_version s) = [] then Inl SourceVersionRequired
      else if fs_entrypoint s \<noteq> ''Register'' \<and> fs_entrypoint s \<noteq> ''RegisterV2'' then Inl BadEntrypoint
      else if \<not> validate_sha256 (fs_sha256 s) then Inl BadSourceDigest
      else Inr ())"

definition canonical_member :: "recipe_member \<Rightarrow> recipe_member" where
  "canonical_member m = m\<lparr>rm_providers := canonical_set (rm_providers m), rm_capabilities := canonical_set (rm_capabilities m),
     rm_source := (rm_source m)\<lparr>fs_sha256 := to_lower (fs_sha256 (rm_source m))\<rparr>\<rparr>"

definition canonicalize_recipe :: "recipe \<Rightarrow> recipe" where
  "canonicalize_recipe r = r\<lparr>re_members := sort_key rm_name (map canonical_member (re_members r)),
     re_dependencies := sort_key fd_module_path (map (\<lambda>d. d\<lparr>fd_sha256 := to_lower (fd_sha256 d)\<rparr>) (re_dependencies r))\<rparr>"

subsection \<open>Recipes\<close>

definition recipe_schema_v1 :: string where
  "recipe_schema_v1 = ''pulp.fusion.recipe.v1''"

definition recipe_schema_v2 :: string where
  "recipe_schema_v2 = ''pulp.fusion.recipe.v2''"

definition encode_config :: "'o fusion_codec \<Rightarrow> 'o table option \<Rightarrow> string option" where
  "encode_config fc c = (if table_of c = fmempty then Some [] else fc_msgpack fc (table_of c))"

text \<open>An owner is recorded by its name; the empty name stands for no owner.\<close>

fun claim_providers :: "string \<Rightarrow> (string \<Rightarrow> string) \<Rightarrow> string list \<Rightarrow> (recipe_error, string \<Rightarrow> string) result" where
  "claim_providers name owner [] = Inr owner"
| "claim_providers name owner (p # ps) =
     (if owner p \<noteq> [] then Inl (ProviderOwned p (owner p) name) else claim_providers name (owner(p := name)) ps)"

definition entrypoint_of :: "recipe \<Rightarrow> string" where
  "entrypoint_of r = (if re_schema r = recipe_schema_v2 then ''RegisterV2'' else ''Register'')"

definition check_scope :: "'o fusion_codec \<Rightarrow> recipe \<Rightarrow> recipe_member \<Rightarrow> 'o cell_spec \<Rightarrow> (recipe_error, unit) result" where
  "check_scope fc r m spec =
     (if re_schema r \<noteq> recipe_schema_v2 then Inr ()
      else case encode_config fc (cs_config spec) of
             None \<Rightarrow> Inl (ConfigEncoding (rm_name m))
           | Some c \<Rightarrow> guardE (rm_config m = c \<and> rm_snapshotable m = cs_snapshotable spec) (MemberScope (rm_name m)))"

fun validate_members :: "'o fusion_codec \<Rightarrow> recipe \<Rightarrow> (string \<rightharpoonup> 'o cell_spec) \<Rightarrow> string set \<Rightarrow> (string \<Rightarrow> string)
    \<Rightarrow> recipe_member list \<Rightarrow> (recipe_error, unit) result" where
  "validate_members fc r want seen owner [] = Inr ()"
| "validate_members fc r want seen owner (m # ms) =
     (case want (rm_name m) of
        None \<Rightarrow> Inl (UnexpectedMember (rm_name m))
      | Some spec \<Rightarrow>
          if rm_name m \<in> seen then Inl (DuplicateMember (rm_name m))
          else if rm_version m \<noteq> cs_version spec then Inl (MemberVersion (rm_name m))
          else if \<not> equal_canonical_set (rm_providers m) (cs_provides spec) then Inl (MemberProviders (rm_name m))
          else if \<not> equal_canonical_set (rm_capabilities m) (cs_capabilities spec) then Inl (MemberCapabilities (rm_name m))
          else bindE (check_scope fc r m spec) (\<lambda>_.
               bindE (claim_providers (rm_name m) owner (canonical_set (rm_providers m))) (\<lambda>owner'.
               bindE (map_err (MemberSource (rm_name m)) (validate_source (rm_source m))) (\<lambda>_.
               if fs_entrypoint (rm_source m) \<noteq> entrypoint_of r then Inl (MemberEntrypoint (rm_name m))
               else validate_members fc r want (insert (rm_name m) seen) owner' ms))))"

definition validate_recipe :: "'o fusion_codec \<Rightarrow> recipe \<Rightarrow> 'o fusion_group \<Rightarrow> (recipe_error, unit) result" where
  "validate_recipe fc r g =
     (if re_schema r \<noteq> recipe_schema_v1 \<and> re_schema r \<noteq> recipe_schema_v2 then Inl (BadRecipeSchema (re_schema r))
      else if re_group r \<noteq> fg_name g then Inl (GroupMismatch (re_group r) (fg_name g))
      else if re_abi r = [] \<or> re_abi r \<noteq> fg_abi g then Inl (AbiMismatch (re_abi r) (fg_abi g))
      else if (re_schema r = recipe_schema_v2) \<noteq> (re_abi r = member_abi_v2) then Inl SchemaAbiMismatch
      else if trim_space (re_go_version r) = [] then Inl GoVersionRequired
      else case List.find (\<lambda>c. ex_abi (cs_execution c) \<noteq> [] \<and> ex_abi (cs_execution c) \<noteq> fg_abi g) (fg_members g) of
             Some c \<Rightarrow> Inl (PlanAbiMismatch (cs_name c) (ex_abi (cs_execution c)) (fg_abi g))
           | None \<Rightarrow>
               let want = map_of (rev (map (\<lambda>c. (cs_name c, c)) (fg_members g)))
               in if length (re_members r) \<noteq> card (cs_name ` set (fg_members g))
                  then Inl (MemberCount (length (re_members r)) (card (cs_name ` set (fg_members g))))
                  else validate_members fc r want {} (\<lambda>_. []) (re_members r))"

definition recipe_member_of :: "'o fusion_codec \<Rightarrow> string \<Rightarrow> (string \<rightharpoonup> fusion_source) \<Rightarrow> 'o cell_spec \<Rightarrow> (recipe_error, recipe_member) result" where
  "recipe_member_of fc schema sources spec =
     (case sources (cs_name spec) of
        None \<Rightarrow> Inl (NoSourceDescriptor (cs_name spec))
      | Some src \<Rightarrow>
          (case encode_config fc (cs_config spec) of
             None \<Rightarrow> Inl (ConfigEncoding (cs_name spec))
           | Some c \<Rightarrow>
               Inr \<lparr>rm_name = cs_name spec, rm_version = cs_version spec, rm_providers = canonical_set (cs_provides spec),
                    rm_capabilities = canonical_set (cs_capabilities spec), rm_source = src,
                    rm_config = (if schema = recipe_schema_v2 then c else []),
                    rm_snapshotable = (schema = recipe_schema_v2 \<and> cs_snapshotable spec)\<rparr>))"

definition new_recipe :: "'o fusion_codec \<Rightarrow> 'o fusion_group \<Rightarrow> string \<Rightarrow> (string \<rightharpoonup> fusion_source) \<Rightarrow> (recipe_error, recipe) result" where
  "new_recipe fc g go sources =
     (let schema = (if fg_abi g = member_abi_v2 then recipe_schema_v2 else recipe_schema_v1)
      in bindE (mapM (recipe_member_of fc schema sources) (fg_members g)) (\<lambda>ms.
         let r = canonicalize_recipe \<lparr>re_schema = schema, re_group = fg_name g, re_abi = fg_abi g,
                   re_go_version = trim_space go, re_members = ms, re_dependencies = []\<rparr>
         in bindE (validate_recipe fc r g) (\<lambda>_. Inr r)))"

fun check_fusion_dependencies :: "string set \<Rightarrow> fusion_dependency list \<Rightarrow> (build_error, unit) result" where
  "check_fusion_dependencies paths [] = Inr ()"
| "check_fusion_dependencies paths (d # ds) =
     (if trim_space (fd_module_path d) = [] \<or> trim_space (fd_version d) = [] then Inl FusionDependencyRequired
      else if fd_module_path d \<in> paths then Inl (FusionDependencyDuplicate (fd_module_path d))
      else if \<not> validate_sha256 (fd_sha256 d) then Inl (FusionDependencyDigest (fd_module_path d))
      else check_fusion_dependencies (insert (fd_module_path d) paths) ds)"

fun check_build_members :: "recipe \<Rightarrow> string list \<Rightarrow> string set \<Rightarrow> (string \<Rightarrow> string) \<Rightarrow> (string \<Rightarrow> string) \<Rightarrow> recipe_member list
    \<Rightarrow> (build_error, unit) result" where
  "check_build_members r caps names imports owner [] = Inr ()"
| "check_build_members r caps names imports owner (m # ms) =
     (if trim_space (rm_name m) = [] \<or> rm_name m \<in> names then Inl (MemberNameInvalid (rm_name m))
      else if \<not> equal_canonical_set caps (rm_capabilities m) then Inl (CapabilitiesDiffer (rm_name m))
      else bindE (map_err BuildMember (claim_providers (rm_name m) owner (canonical_set (rm_providers m)))) (\<lambda>owner'.
           bindE (map_err (\<lambda>e. BuildMember (MemberSource (rm_name m) e)) (validate_source (rm_source m))) (\<lambda>_.
           if fs_entrypoint (rm_source m) \<noteq> entrypoint_of r then Inl (BuildMember (MemberEntrypoint (rm_name m)))
           else if imports (fs_import_path (rm_source m)) \<noteq> []
           then Inl (ImportUsed (fs_import_path (rm_source m)) (imports (fs_import_path (rm_source m))) (rm_name m))
           else check_build_members r caps (insert (rm_name m) names)
                  (imports(fs_import_path (rm_source m) := rm_name m)) owner' ms)))"

text \<open>The first member is compared with itself.\<close>

definition validate_build_recipe :: "recipe \<Rightarrow> (build_error, unit) result" where
  "validate_build_recipe r =
     (if re_schema r \<noteq> recipe_schema_v1 \<and> re_schema r \<noteq> recipe_schema_v2 then Inl (BuildSchema (re_schema r))
      else if trim_space (re_group r) = [] \<or> trim_space (re_abi r) = [] then Inl GroupAbiRequired
      else if (re_schema r = recipe_schema_v2) \<noteq> (re_abi r = member_abi_v2) then Inl BuildSchemaAbi
      else if trim_space (re_go_version r) = [] then Inl BuildGoVersion
      else if length (re_members r) < 2 then Inl TooFewRecipeMembers
      else bindE (check_fusion_dependencies {} (re_dependencies r)) (\<lambda>_.
           check_build_members r (rm_capabilities (hd (re_members r))) {} (\<lambda>_. []) (\<lambda>_. []) (re_members r)))"

subsection \<open>Artifacts\<close>

definition recipe_digest :: "formats \<Rightarrow> 'o fusion_codec \<Rightarrow> recipe \<Rightarrow> (artifact_error, string) result" where
  "recipe_digest fm fc r =
     (case fc_recipe_json fc (canonicalize_recipe r) of
        None \<Rightarrow> Inl RecipeEncoding
      | Some wire \<Rightarrow> Inr (hex_encode (sha256 fm wire)))"

definition new_artifact_metadata :: "formats \<Rightarrow> 'o fusion_codec \<Rightarrow> recipe \<Rightarrow> string \<Rightarrow> (artifact_error, artifact_metadata) result" where
  "new_artifact_metadata fm fc recipe artifact =
     (let r = canonicalize_recipe recipe
      in bindE (recipe_digest fm fc r) (\<lambda>d.
         if \<not> validate_sha256 artifact then Inl BadArtifactDigest
         else Inr \<lparr>am_schema = re_schema r, am_group = re_group r, am_abi = re_abi r,
                   am_members = canonical_set (map rm_name (re_members r)),
                   am_providers = canonical_set (concat (map rm_providers (re_members r))),
                   am_capabilities = canonical_set (concat (map rm_capabilities (re_members r))),
                   am_recipe_sha256 = d, am_artifact_sha256 = to_lower artifact\<rparr>))"

definition validate_artifact :: "formats \<Rightarrow> 'o fusion_codec \<Rightarrow> artifact_metadata \<Rightarrow> recipe \<Rightarrow> (artifact_error, unit) result" where
  "validate_artifact fm fc m r =
     bindE (new_artifact_metadata fm fc r (am_artifact_sha256 m)) (\<lambda>w.
     if am_schema m \<noteq> am_schema w \<or> am_group m \<noteq> am_group w \<or> am_abi m \<noteq> am_abi w then Inl ArtifactIdentity
     else if am_recipe_sha256 m \<noteq> am_recipe_sha256 w then Inl ArtifactRecipe
     else if \<not> equal_canonical_set (am_members m) (am_members w) then Inl ArtifactMembers
     else if \<not> equal_canonical_set (am_providers m) (am_providers w) then Inl ArtifactProviders
     else if \<not> equal_canonical_set (am_capabilities m) (am_capabilities w) then Inl ArtifactCapabilities
     else Inr ())"

definition registry_key :: "attestation \<Rightarrow> string" where
  "registry_key a = am_recipe_sha256 (at_metadata a) @ ''/'' @ am_artifact_sha256 (at_metadata a)"

subsection \<open>Selecting an artifact\<close>

datatype selection_error =
    LockInvalid resolve_error | NotLocked string | LockVersion version_error | FusionManifest store_error
  | BadLockedDigest string | FusionBlob store_error | FusionBlobMismatch | NoAttestation string | AttestationSyntax
  | AttestationTrailing | BuilderRequired | FusionAbi | RegistryProviders | RegistryCapabilities | AttestationDigest
  | ArtifactInvalid artifact_error

datatype cell_error = CellProviders string | CellCapabilities string | CellAbi string | CellDigest string

definition read_verified_blob :: "formats \<Rightarrow> store \<Rightarrow> digest \<Rightarrow> (selection_error, string) result" where
  "read_verified_blob fm s d =
     bindE (map_err FusionBlob (st_blob s d)) (\<lambda>b. if sha256 fm b \<noteq> d then Inl FusionBlobMismatch else Inr b)"

text \<open>After the value only JSON white space may follow.\<close>

definition json_space :: "char \<Rightarrow> bool" where
  "json_space c \<longleftrightarrow> c \<in> {CHR 0x20, CHR 0x09, CHR 0x0A, CHR 0x0D}"

definition parse_attestation :: "'o fusion_codec \<Rightarrow> string \<Rightarrow> (selection_error, attestation) result" where
  "parse_attestation fc wire =
     (case fc_attestation_json fc wire of
        None \<Rightarrow> Inl AttestationSyntax
      | Some (a, rest) \<Rightarrow> if list_all json_space rest then Inr a else Inl AttestationTrailing)"

definition bare_digest :: "digest \<Rightarrow> string" where
  "bare_digest d = trim_prefix ''sha256:'' (digest_string d)"

definition check_attestation :: "formats \<Rightarrow> 'o fusion_codec \<Rightarrow> manifest \<Rightarrow> string \<Rightarrow> recipe \<Rightarrow> attestation \<Rightarrow> (selection_error, unit) result" where
  "check_attestation fm fc m wasm r a =
     (if trim_space (at_builder a) = [] then Inl BuilderRequired
      else if m_fusion_abi m \<noteq> am_abi (at_metadata a) then Inl FusionAbi
      else if \<not> equal_canonical_set (m_provides m) (am_providers (at_metadata a)) then Inl RegistryProviders
      else if \<not> equal_canonical_set (m_capabilities m) (am_capabilities (at_metadata a)) then Inl RegistryCapabilities
      else if am_artifact_sha256 (at_metadata a) \<noteq> bare_digest (sha256 fm wasm) then Inl AttestationDigest
      else map_err ArtifactInvalid (validate_artifact fm fc (at_metadata a) r))"

definition select_from_registry :: "formats \<Rightarrow> 'o fusion_codec \<Rightarrow> store \<Rightarrow> lock \<Rightarrow> string \<Rightarrow> recipe \<Rightarrow> (selection_error, selection) result" where
  "select_from_registry fm fc s l i r =
     bindE (map_err LockInvalid (verify fm s l)) (\<lambda>_.
     case List.find (\<lambda>lm. lm_id lm = i) (l_modules l) of
       None \<Rightarrow> Inl (NotLocked i)
     | Some lm \<Rightarrow>
         bindE (map_err LockVersion (parse_version (lm_version lm))) (\<lambda>v.
         bindE (map_err FusionManifest (st_manifest s \<lparr>rel_id = i, rel_version = v\<rparr>)) (\<lambda>m.
         case parse_digest (lm_artifact_digest lm) of
           None \<Rightarrow> Inl (BadLockedDigest (lm_artifact_digest lm))
         | Some d \<Rightarrow>
             bindE (read_verified_blob fm s d) (\<lambda>wasm.
             case List.find (\<lambda>a. a_target a = l_target l @ ''.fusion-attestation'') (m_artifacts m) of
               None \<Rightarrow> Inl (NoAttestation (l_target l @ ''.fusion-attestation''))
             | Some art \<Rightarrow>
                 bindE (read_verified_blob fm s (a_digest art)) (\<lambda>wire.
                 bindE (parse_attestation fc wire) (\<lambda>a.
                 bindE (check_attestation fm fc m wasm r a) (\<lambda>_.
                 Inr \<lparr>sel_release = \<lparr>rel_id = i, rel_version = v\<rparr>, sel_target = l_target l, sel_wasm = wasm,
                      sel_attestation = a\<rparr>)))))))"

definition validate_cell_artifact :: "formats \<Rightarrow> 'o cell_spec \<Rightarrow> selection \<Rightarrow> (cell_error, unit) result" where
  "validate_cell_artifact fm spec sel =
     (let md = at_metadata (sel_attestation sel)
      in if \<not> equal_canonical_set (cs_provides spec) (am_providers md) then Inl (CellProviders (cs_name spec))
         else if \<not> equal_canonical_set (cs_capabilities spec) (am_capabilities md) then Inl (CellCapabilities (cs_name spec))
         else if ex_abi (cs_execution spec) \<noteq> [] \<and> ex_abi (cs_execution spec) \<noteq> am_abi md then Inl (CellAbi (cs_name spec))
         else if cs_wasm_sha256 spec \<noteq> [] \<and> to_lower (cs_wasm_sha256 spec) \<noteq> to_lower (bare_digest (sha256 fm (sel_wasm sel)))
         then Inl (CellDigest (cs_name spec))
         else Inr ())"

subsection \<open>Sources of a recipe\<close>

datatype source_failure = SourceStore store_error | SourceVerification release_id | NoGoSource release_id

definition source_of_artifact :: "release_id \<Rightarrow> artifact \<Rightarrow> source_artifact \<Rightarrow> fusion_source" where
  "source_of_artifact rel a src =
     \<lparr>fs_module_path = s_module_path src, fs_import_path = s_import_path src,
      fs_version = ''v'' @ version_string (rel_version rel), fs_sha256 = bare_digest (a_digest a),
      fs_entrypoint = s_entrypoint src\<rparr>"

text \<open>The first artifact with Go source decides.\<close>

fun first_go_source :: "artifact list \<Rightarrow> (artifact \<times> source_artifact) option" where
  "first_go_source [] = None"
| "first_go_source (a # as) =
     (case a_source a of
        None \<Rightarrow> first_go_source as
      | Some src \<Rightarrow> if s_language src \<noteq> ''go'' then first_go_source as else Some (a, src))"

definition registry_fusion_source :: "formats \<Rightarrow> store \<Rightarrow> release_id \<Rightarrow> (source_failure, fusion_source) result" where
  "registry_fusion_source fm s rel =
     bindE (map_err SourceStore (st_manifest s rel)) (\<lambda>m.
     case first_go_source (m_artifacts m) of
       None \<Rightarrow> Inl (NoGoSource rel)
     | Some (a, src) \<Rightarrow>
         bindE (map_err SourceStore (st_blob s (a_digest a))) (\<lambda>b.
         if sha256 fm b \<noteq> a_digest a \<or> int (length b) \<noteq> a_size a then Inl (SourceVerification rel)
         else Inr (source_of_artifact rel a src)))"

datatype lock_recipe_error =
    LockedModuleVersion string version_error | NoBinding string | BindingNotLocked string string
  | SourceUnavailable string source_failure | RecipeInvalid recipe_error

fun locked_releases :: "locked_module list \<Rightarrow> (string \<rightharpoonup> release_id) \<Rightarrow> (lock_recipe_error, string \<rightharpoonup> release_id) result" where
  "locked_releases [] acc = Inr acc"
| "locked_releases (lm # lms) acc =
     bindE (map_err (LockedModuleVersion (lm_id lm)) (parse_version (lm_version lm))) (\<lambda>v.
     locked_releases lms (acc(lm_id lm \<mapsto> \<lparr>rel_id = lm_id lm, rel_version = v\<rparr>)))"

fun member_sources :: "(release_id \<Rightarrow> (source_failure, fusion_source) result) \<Rightarrow> (string \<Rightarrow> string) \<Rightarrow> (string \<rightharpoonup> release_id)
    \<Rightarrow> 'o cell_spec list \<Rightarrow> (string \<rightharpoonup> fusion_source) \<Rightarrow> (lock_recipe_error, string \<rightharpoonup> fusion_source) result" where
  "member_sources catalog bindings locked [] acc = Inr acc"
| "member_sources catalog bindings locked (c # cs) acc =
     (let i = bindings (cs_name c)
      in if i = [] then Inl (NoBinding (cs_name c))
         else case locked i of
                None \<Rightarrow> Inl (BindingNotLocked (cs_name c) i)
              | Some rel \<Rightarrow>
                  bindE (map_err (SourceUnavailable (cs_name c)) (catalog rel)) (\<lambda>src.
                  member_sources catalog bindings locked cs (acc(cs_name c \<mapsto> src))))"

definition recipe_from_lock :: "'o fusion_codec \<Rightarrow> 'o fusion_group \<Rightarrow> string \<Rightarrow> lock \<Rightarrow> (string \<Rightarrow> string)
    \<Rightarrow> (release_id \<Rightarrow> (source_failure, fusion_source) result) \<Rightarrow> (lock_recipe_error, recipe) result" where
  "recipe_from_lock fc g go l bindings catalog =
     bindE (locked_releases (l_modules l) Map.empty) (\<lambda>locked.
     bindE (member_sources catalog bindings locked (fg_members g) Map.empty) (\<lambda>sources.
     map_err RecipeInvalid (new_recipe fc g go sources)))"

subsection \<open>The coordinator\<close>

record 'o prepare_request =
  pq_group :: "'o fusion_group"
  pq_lock :: lock
  pq_bindings :: "string \<Rightarrow> string"
  pq_go_version :: string
  pq_module :: string
  pq_version :: string
  pq_target :: string
  pq_name :: string
  pq_allow_fallback :: bool

datatype coordinator_error =
    BadFusionModule string | BadFusionVersion version_error | TargetOrNameRequired | RecipeFailed lock_recipe_error
  | ListFailed store_error | NoPublisher | BuildFailed string | PublishFailed store_error | ResolveFailed resolve_error
  | SelectFailed selection_error | MaterializeFailed string | CellInvalid cell_error

record 'o coordinator =
  co_store :: store
  co_publish :: "(string \<times> (digest \<rightharpoonup> string) \<Rightarrow> (store_error, store) result) option"
  co_catalog :: "release_id \<Rightarrow> (source_failure, fusion_source) result"
  co_build :: "recipe \<Rightarrow> string \<Rightarrow> string \<Rightarrow> string \<Rightarrow> (string, string \<times> (digest \<rightharpoonup> string)) result"
  co_materialize :: "digest \<Rightarrow> string \<Rightarrow> (string, string) result"
  co_formats :: formats
  co_codec :: "'o fusion_codec"

datatype 'o activation = Fused recipe selection "'o cell_spec" | Isolated coordinator_error

definition release_exists :: "store \<Rightarrow> string \<Rightarrow> version \<Rightarrow> (coordinator_error, bool) result" where
  "release_exists s i v =
     (case st_versions s i of
        Inl NotFound \<Rightarrow> Inr False
      | Inl e \<Rightarrow> Inl (ListFailed e)
      | Inr vs \<Rightarrow> Inr (list_ex (\<lambda>w. version_compare w v = 0) vs))"

text \<open>Builds and publishes the release when the store does not have it; answers with the store to go on with.\<close>

definition ensure_release :: "'o coordinator \<Rightarrow> 'o prepare_request \<Rightarrow> version \<Rightarrow> recipe \<Rightarrow> (coordinator_error, store) result" where
  "ensure_release co q v r =
     bindE (release_exists (co_store co) (pq_module q) v) (\<lambda>present.
     if present then Inr (co_store co)
     else case co_publish co of
            None \<Rightarrow> Inl NoPublisher
          | Some pub \<Rightarrow>
              bindE (map_err BuildFailed (co_build co r (pq_module q) (version_string v) (pq_target q))) (\<lambda>publication.
              map_err PublishFailed (pub publication)))"

definition fused_spec :: "'o prepare_request \<Rightarrow> version \<Rightarrow> string \<Rightarrow> string \<Rightarrow> artifact_metadata \<Rightarrow> 'o cell_spec" where
  "fused_spec q v path sha md =
     \<lparr>cs_schema = 0, cs_name = pq_name q, cs_version = version_string v, cs_provides = am_providers md,
      cs_consumes = [], cs_host_consumes = [], cs_depends_on = [], cs_capabilities = am_capabilities md,
      cs_execution = \<lparr>ex_mode = ''fusible'', ex_group = am_group md, ex_abi = am_abi md\<rparr>,
      cs_shared_memory_groups = [], cs_dedicated_thread = False, cs_snapshotable = False,
      cs_max_memory_pages = 0, cs_call_timeout_ms = 0, cs_restart = [], cs_config = None, cs_config_env = [],
      cs_manifest_path = [], cs_wasm_path = path, cs_wasm_sha256 = sha\<rparr>"

text \<open>From the resolved lock on.\<close>

definition activate :: "'o coordinator \<Rightarrow> 'o prepare_request \<Rightarrow> version \<Rightarrow> recipe \<Rightarrow> store \<Rightarrow> lock \<Rightarrow> (coordinator_error, 'o activation) result" where
  "activate co q v r s l =
     bindE (map_err SelectFailed (select_from_registry (co_formats co) (co_codec co) s l (pq_module q) r)) (\<lambda>sel.
     let d = sha256 (co_formats co) (sel_wasm sel)
     in bindE (map_err MaterializeFailed (co_materialize co d (sel_wasm sel))) (\<lambda>path.
        let spec = fused_spec q v path (bare_digest d) (at_metadata (sel_attestation sel))
        in bindE (map_err CellInvalid (validate_cell_artifact (co_formats co) spec sel)) (\<lambda>_.
           Inr (Fused r sel spec))))"

definition prepare_fused :: "nat \<Rightarrow> 'o coordinator \<Rightarrow> 'o prepare_request \<Rightarrow> (coordinator_error, 'o activation) result option" where
  "prepare_fused fuel co q =
     (case bindE (guardE (parse_module_id (pq_module q) \<noteq> None) (BadFusionModule (pq_module q))) (\<lambda>_.
           bindE (map_err BadFusionVersion (parse_version (pq_version q))) (\<lambda>v.
           bindE (guardE (trim_space (pq_target q) \<noteq> [] \<and> trim_space (pq_name q) \<noteq> []) TargetOrNameRequired) (\<lambda>_.
           bindE (map_err RecipeFailed (recipe_from_lock (co_codec co) (pq_group q) (pq_go_version q) (pq_lock q) (pq_bindings q) (co_catalog co))) (\<lambda>r.
           bindE (ensure_release co q v r) (\<lambda>s. Inr (v, r, s)))))) of
        Inl e \<Rightarrow> Some (Inl e)
      | Inr (v, r, s) \<Rightarrow>
          map_option (\<lambda>res. bindE (map_err ResolveFailed res) (activate co q v r s))
            (resolve fuel (co_formats co) s
               \<lparr>q_target = pq_target q, q_roots = [\<lparr>d_id = pq_module q, d_requirement = version_string v\<rparr>]\<rparr>))"

definition prepare :: "nat \<Rightarrow> 'o coordinator \<Rightarrow> 'o prepare_request \<Rightarrow> (coordinator_error, 'o activation) result option" where
  "prepare fuel co q =
     map_option (\<lambda>res. case res of
        Inr a \<Rightarrow> Inr a
      | Inl e \<Rightarrow> if pq_allow_fallback q then Inr (Isolated e) else Inl e) (prepare_fused fuel co q)"

subsection \<open>Canonical sets are sets\<close>

lemma set_canonical_set [simp]: "set (canonical_set vs) = trim_space ` set vs - {[]}"
  by (auto simp: canonical_set_def)

lemma canonical_set_eq_iff: "canonical_set a = canonical_set b \<longleftrightarrow> trim_space ` set a - {[]} = trim_space ` set b - {[]}"
proof
  assume "canonical_set a = canonical_set b"
  then have "set (canonical_set a) = set (canonical_set b)" by simp
  then show "trim_space ` set a - {[]} = trim_space ` set b - {[]}" by simp
next
  assume e: "trim_space ` set a - {[]} = trim_space ` set b - {[]}"
  have "sorted (canonical_set v)" "distinct (canonical_set v)" for v by (simp_all add: canonical_set_def)
  then show "canonical_set a = canonical_set b" using e by (intro sorted_distinct_set_unique) auto
qed

lemma canonical_set_idem [simp]: "canonical_set (canonical_set vs) = canonical_set vs"
proof -
  have "trim_space ` (trim_space ` set vs - {[]}) = id ` (trim_space ` set vs - {[]})" by (rule image_cong) auto
  then show ?thesis by (simp add: canonical_set_eq_iff)
qed

lemma canonical_set_concat:
  assumes "\<And>x. x \<in> set xs \<Longrightarrow> canonical_set (f x) = canonical_set (g x)"
  shows "canonical_set (concat (map f xs)) = canonical_set (concat (map g xs))"
proof -
  have "trim_space ` set (f x) - {[]} = trim_space ` set (g x) - {[]}" if "x \<in> set xs" for x
    using assms [OF that] by (simp add: canonical_set_eq_iff)
  then have "(\<Union>x \<in> set xs. trim_space ` set (f x) - {[]}) = (\<Union>x \<in> set xs. trim_space ` set (g x) - {[]})" by simp
  moreover have "trim_space ` set (concat (map h xs)) - {[]} = (\<Union>x \<in> set xs. trim_space ` set (h x) - {[]})"
    for h :: "'a \<Rightarrow> string list" by auto
  ultimately show ?thesis unfolding canonical_set_eq_iff by simp
qed

subsection \<open>Digests in lower case\<close>

lemma lower_hex: "hex_val c \<noteq> None \<Longrightarrow> hex_val (lower_char c) = hex_val c"
proof -
  assume "hex_val c \<noteq> None"
  then have n: "of_char c \<in> {48 .. 57} \<union> {97 .. 102} \<union> {65 .. 70 :: nat}"
    by (auto simp: hex_val_def Let_def split: if_splits)
  show ?thesis
  proof (cases "of_char c \<in> {65 .. 70 :: nat}")
    case True
    then have "lower_char c = char_of (int (of_char c) + 32)"
      by (auto simp: lower_char_def Let_def of_char_int)
    moreover have "(of_char (char_of (int (of_char c) + 32) :: char) :: nat) = of_char c + 32"
      using True of_char_int [of "char_of (int (of_char c) + 32)"] by simp
    ultimately show ?thesis using True by (simp add: hex_val_def Let_def)
  next
    case False
    then have "lower_char c = c" using n by (auto simp: lower_char_def Let_def of_char_int)
    then show ?thesis by simp
  qed
qed

lemma hex_decode_lower: "hex_decode s \<noteq> None \<Longrightarrow> hex_decode (to_lower s) = hex_decode s"
  by (induction s rule: hex_decode.induct) (auto simp: to_lower_def lower_hex split: option.splits)

lemma validate_sha256_lower: "validate_sha256 s \<Longrightarrow> validate_sha256 (to_lower s)"
  by (simp add: validate_sha256_def hex_decode_lower) (simp add: to_lower_def)

subsection \<open>Recipes reflect their group\<close>

lemma sort_key_map_key: "(\<And>x. k (f x) = k x) \<Longrightarrow> map f (sort_key k xs) = sort_key k (map f xs)"
proof (induction xs)
  case (Cons x xs)
  have "map f (insort_key k x ys) = insort_key k (f x) (map f ys)" for ys
    by (induction ys) (auto simp: Cons.prems)
  then show ?case using Cons by simp
qed simp

lemma sort_key_names: "map k (sort_key k xs) = sort (map k xs)"
  by (rule properties_for_sort [symmetric]) auto

lemma list_all2_ex: "list_all2 P xs ys \<Longrightarrow> x \<in> set xs \<Longrightarrow> \<exists>y \<in> set ys. P x y"
  by (induction rule: list_all2_induct) auto

lemma recipe_member_of_Inr:
  assumes "recipe_member_of fc schema sources c = Inr m"
  shows "rm_name m = cs_name c \<and> rm_version m = cs_version c \<and> rm_providers m = canonical_set (cs_provides c) \<and>
    rm_capabilities m = canonical_set (cs_capabilities c) \<and> sources (cs_name c) = Some (rm_source m)"
  using assms by (auto simp: recipe_member_of_def split: option.splits)

lemma new_recipe_Inr:
  assumes "new_recipe fc g go sources = Inr r"
  obtains schema ms where "list_all2 (\<lambda>c m. recipe_member_of fc schema sources c = Inr m) (fg_members g) ms"
    "re_members r = sort_key rm_name (map canonical_member ms)" "re_group r = fg_name g" "re_abi r = fg_abi g"
    "re_schema r = schema" "validate_recipe fc r g = Inr ()"
  using assms by (auto simp: new_recipe_def Let_def mapM_Inr_conv canonicalize_recipe_def intro: that)

lemma new_recipe_sets:
  assumes "new_recipe fc g go sources = Inr r"
  shows "canonical_set (concat (map rm_capabilities (re_members (canonicalize_recipe r)))) = canonical_set (concat (map cs_capabilities (fg_members g)))"
    and "canonical_set (concat (map rm_providers (re_members (canonicalize_recipe r)))) = canonical_set (concat (map cs_provides (fg_members g)))"
proof -
  obtain schema ms where l: "list_all2 (\<lambda>c m. recipe_member_of fc schema sources c = Inr m) (fg_members g) ms"
      and r: "re_members r = sort_key rm_name (map canonical_member ms)"
    using new_recipe_Inr [OF assms] by metis
  have m: "set (re_members (canonicalize_recipe r)) = (\<lambda>m. canonical_member (canonical_member m)) ` set ms"
    by (auto simp: canonicalize_recipe_def r)
  have caps: "canonical_set (concat (map f (re_members (canonicalize_recipe r)))) = canonical_set (concat (map h (fg_members g)))"
    if f: "\<And>c m. recipe_member_of fc schema sources c = Inr m \<Longrightarrow> set (f (canonical_member (canonical_member m))) = trim_space ` set (h c) - {[]}" for f h
  proof -
    have "\<Union> (set ` f ` set (re_members (canonicalize_recipe r))) = (\<Union>c \<in> set (fg_members g). trim_space ` set (h c) - {[]})"
      using l unfolding m
    proof (induction rule: list_all2_induct)
      case (Cons c cs x xs)
      then show ?case using f [OF Cons.hyps(1)] by simp
    qed simp
    then have "set (concat (map f (re_members (canonicalize_recipe r)))) = set (canonical_set (concat (map h (fg_members g))))"
      by auto
    then have "canonical_set (concat (map f (re_members (canonicalize_recipe r)))) = canonical_set (canonical_set (concat (map h (fg_members g))))"
      unfolding canonical_set_eq_iff by (simp only:)
    then show ?thesis by simp
  qed
  show "canonical_set (concat (map rm_capabilities (re_members (canonicalize_recipe r)))) = canonical_set (concat (map cs_capabilities (fg_members g)))"
    by (rule caps, drule recipe_member_of_Inr) (simp add: canonical_member_def del: set_canonical_set, simp)
  show "canonical_set (concat (map rm_providers (re_members (canonicalize_recipe r)))) = canonical_set (concat (map cs_provides (fg_members g)))"
    by (rule caps, drule recipe_member_of_Inr) (simp add: canonical_member_def del: set_canonical_set, simp)
qed

text \<open>What validation establishes for the members of a recipe.\<close>

lemma claim_providers_Inr:
  assumes "claim_providers name owner ps = Inr owner'" and "name \<noteq> []"
  shows "(\<forall>p \<in> set ps. owner p = []) \<and> (\<forall>p. owner' p \<noteq> [] \<longleftrightarrow> owner p \<noteq> [] \<or> p \<in> set ps)"
  using assms
proof (induction ps arbitrary: owner)
  case (Cons p ps)
  then have op: "owner p = []" and c: "claim_providers name (owner(p := name)) ps = Inr owner'" by (auto split: if_splits)
  note IH = Cons.IH [OF c Cons.prems(2)]
  have "owner x = []" if "x \<in> set ps" for x using IH that op by (metis fun_upd_other)
  moreover have "owner' x \<noteq> [] \<longleftrightarrow> owner x \<noteq> [] \<or> x \<in> set (p # ps)" for x
    using IH Cons.prems(2) by (cases "x = p") auto
  ultimately show ?case using op by auto
qed simp

lemma validate_members_Inr:
  assumes "validate_members fc r want seen owner ms = Inr ()" and "want [] = None"
  shows "distinct (map rm_name ms) \<and> rm_name ` set ms \<inter> seen = {} \<and>
    (\<forall>m \<in> set ms. validate_source (rm_source m) = Inr () \<and> fs_entrypoint (rm_source m) = entrypoint_of r \<and>
       (\<exists>c. want (rm_name m) = Some c \<and> check_scope fc r m c = Inr ()) \<and> (\<forall>p \<in> set (canonical_set (rm_providers m)). owner p = [])) \<and>
    (\<forall>m \<in> set ms. \<forall>n \<in> set ms. m \<noteq> n \<longrightarrow> set (canonical_set (rm_providers m)) \<inter> set (canonical_set (rm_providers n)) = {})"
  using assms
proof (induction ms arbitrary: seen owner)
  case (Cons m ms)
  obtain c owner' where c: "want (rm_name m) = Some c" "rm_name m \<notin> seen" "check_scope fc r m c = Inr ()"
      "claim_providers (rm_name m) owner (canonical_set (rm_providers m)) = Inr owner'"
      "validate_source (rm_source m) = Inr ()" "fs_entrypoint (rm_source m) = entrypoint_of r"
      "validate_members fc r want (insert (rm_name m) seen) owner' ms = Inr ()"
    using Cons.prems(1) by (auto split: option.splits if_splits)
  have "rm_name m \<noteq> []" using c(1) Cons.prems(2) by auto
  note cl = claim_providers_Inr [OF c(4) this]
  note IH = Cons.IH [OF c(7) Cons.prems(2)]
  have "set (canonical_set (rm_providers m)) \<inter> set (canonical_set (rm_providers n)) = {}" if "n \<in> set ms" for n
    using IH cl that by (metis (no_types, lifting) disjoint_iff)
  moreover have "owner p = []" if "n \<in> set ms" "p \<in> set (canonical_set (rm_providers n))" for n p
    using IH cl that by blast
  ultimately show ?case using IH cl c by (auto simp del: set_canonical_set)
qed simp

lemma validate_recipe_Inr:
  assumes "validate_recipe fc r g = Inr ()"
  shows "(re_schema r = recipe_schema_v2) = (re_abi r = member_abi_v2) \<and>
    validate_members fc r (map_of (rev (map (\<lambda>c. (cs_name c, c)) (fg_members g)))) {} (\<lambda>_. []) (re_members r) = Inr ()"
  using assms by (auto simp: validate_recipe_def Let_def split: if_splits option.splits)

subsection \<open>What a selection is\<close>

lemma validate_artifact_Inr:
  assumes "validate_artifact fm fc m r = Inr ()"
  shows "recipe_digest fm fc (canonicalize_recipe r) = Inr (am_recipe_sha256 m) \<and> am_abi m = re_abi r \<and> am_group m = re_group r \<and>
    canonical_set (am_capabilities m) = canonical_set (concat (map rm_capabilities (re_members (canonicalize_recipe r)))) \<and>
    canonical_set (am_providers m) = canonical_set (concat (map rm_providers (re_members (canonicalize_recipe r))))"
  using assms
  by (auto simp: validate_artifact_def new_artifact_metadata_def equal_canonical_set_def Let_def canonicalize_recipe_def split: if_splits)

lemma bare_digest_hex [simp]: "bare_digest d = hex_encode d"
  by (simp add: bare_digest_def digest_string_def trim_prefix_def)

definition attested :: "formats \<Rightarrow> 'o fusion_codec \<Rightarrow> store \<Rightarrow> lock \<Rightarrow> string \<Rightarrow> recipe \<Rightarrow> selection \<Rightarrow> bool" where
  "attested fm fc s l i r sel \<longleftrightarrow>
     verify fm s l = Inr () \<and> validate_artifact fm fc (at_metadata (sel_attestation sel)) r = Inr () \<and>
     am_artifact_sha256 (at_metadata (sel_attestation sel)) = hex_encode (sha256 fm (sel_wasm sel)) \<and>
     (\<exists>lm \<in> set (l_modules l). lm_id lm = i \<and> parse_digest (lm_artifact_digest lm) = Some (sha256 fm (sel_wasm sel)) \<and>
        (\<exists>m v. parse_version (lm_version lm) = Inr v \<and> sel_release sel = \<lparr>rel_id = i, rel_version = v\<rparr> \<and>
           st_manifest s \<lparr>rel_id = i, rel_version = v\<rparr> = Inr m \<and> m_fusion_abi m = re_abi r \<and>
           canonical_set (m_provides m) = canonical_set (am_providers (at_metadata (sel_attestation sel))) \<and>
           canonical_set (m_capabilities m) = canonical_set (am_capabilities (at_metadata (sel_attestation sel)))))"

lemma check_attestation_Inr:
  assumes "check_attestation fm fc m wasm r a = Inr ()"
  shows "m_fusion_abi m = re_abi r \<and> canonical_set (m_provides m) = canonical_set (am_providers (at_metadata a)) \<and>
    canonical_set (m_capabilities m) = canonical_set (am_capabilities (at_metadata a)) \<and>
    am_artifact_sha256 (at_metadata a) = hex_encode (sha256 fm wasm) \<and> validate_artifact fm fc (at_metadata a) r = Inr ()"
  using assms by (auto simp: check_attestation_def equal_canonical_set_def dest: validate_artifact_Inr split: if_splits)

lemma select_Inr:
  assumes "select_from_registry fm fc s l i r = Inr sel"
  shows "attested fm fc s l i r sel"
proof -
  obtain lm v m d wasm a where v: "verify fm s l = Inr ()" and lm: "List.find (\<lambda>lm. lm_id lm = i) (l_modules l) = Some lm"
      and pv: "parse_version (lm_version lm) = Inr v" and m: "st_manifest s \<lparr>rel_id = i, rel_version = v\<rparr> = Inr m"
      and d: "parse_digest (lm_artifact_digest lm) = Some d" "read_verified_blob fm s d = Inr wasm"
      and a: "check_attestation fm fc m wasm r a = Inr ()"
      and sel: "sel = \<lparr>sel_release = \<lparr>rel_id = i, rel_version = v\<rparr>, sel_target = l_target l, sel_wasm = wasm, sel_attestation = a\<rparr>"
    using assms by (auto simp: select_from_registry_def split: option.splits)
  have "sha256 fm wasm = d" using d(2) by (auto simp: read_verified_blob_def split: if_splits)
  moreover have "lm \<in> set (l_modules l)" "lm_id lm = i" using lm by (auto simp: find_Some_iff)
  ultimately show ?thesis unfolding attested_def sel using v pv m d(1) check_attestation_Inr [OF a] by auto
qed

lemma activate_Inr:
  assumes "activate co q v r s l = Inr x"
  shows "\<exists>sel path. select_from_registry (co_formats co) (co_codec co) s l (pq_module q) r = Inr sel \<and>
    x = Fused r sel (fused_spec q v path (hex_encode (sha256 (co_formats co) (sel_wasm sel))) (at_metadata (sel_attestation sel)))"
  using assms by (auto simp: activate_def Let_def)

lemma recipe_from_lock_Inr: "recipe_from_lock fc g go l bindings catalog = Inr r \<Longrightarrow> \<exists>sources. new_recipe fc g go sources = Inr r"
  by (auto simp: recipe_from_lock_def)

lemma prepare_fused_Inr:
  assumes "prepare_fused fuel co q = Some (Inr x)"
  shows "\<exists>r v s l. recipe_from_lock (co_codec co) (pq_group q) (pq_go_version q) (pq_lock q) (pq_bindings q) (co_catalog co) = Inr r \<and>
    resolve fuel (co_formats co) s \<lparr>q_target = pq_target q, q_roots = [\<lparr>d_id = pq_module q, d_requirement = version_string v\<rparr>]\<rparr> = Some (Inr l) \<and>
    ensure_release co q v r = Inr s \<and> activate co q v r s l = Inr x"
  using assms by (auto simp: prepare_fused_def split: sum.splits) (intro exI conjI; assumption)

lemma prepare_Fused: "prepare fuel co q = Some (Inr (Fused r sel spec)) \<Longrightarrow> prepare_fused fuel co q = Some (Inr (Fused r sel spec))"
  by (cases "projl (the (prepare_fused fuel co q)) = undefined"; cases "the (prepare_fused fuel co q)")
     (auto simp: prepare_def split: if_splits)

subsection \<open>Properties\<close>

text \<open>A recipe is faithful to its group. It lists exactly the members of the group by name, each once, with the
  version, the functions and the capabilities of its manifest and the source that was resolved for it; every source is
  complete, has a valid digest and the entry point that fits the schema; no function has two owners; and the schema is
  the second one exactly for the member interface.\<close>

theorem recipe_faithful:
  assumes "new_recipe fc g go sources = Inr r" and "\<forall>c \<in> set (fg_members g). cs_name c \<noteq> []"
  shows "map rm_name (re_members r) = sort (map cs_name (fg_members g)) \<and> distinct (map rm_name (re_members r)) \<and>
    (\<forall>c \<in> set (fg_members g). \<exists>m \<in> set (re_members r). rm_name m = cs_name c \<and> rm_version m = cs_version c \<and>
       canonical_set (rm_providers m) = canonical_set (cs_provides c) \<and>
       canonical_set (rm_capabilities m) = canonical_set (cs_capabilities c) \<and>
       (\<exists>src. sources (cs_name c) = Some src \<and> rm_source m = src\<lparr>fs_sha256 := to_lower (fs_sha256 src)\<rparr>)) \<and>
    (\<forall>m \<in> set (re_members r). validate_source (rm_source m) = Inr () \<and> fs_entrypoint (rm_source m) = entrypoint_of r) \<and>
    (\<forall>m \<in> set (re_members r). \<forall>n \<in> set (re_members r). m \<noteq> n \<longrightarrow>
       set (canonical_set (rm_providers m)) \<inter> set (canonical_set (rm_providers n)) = {}) \<and>
    (re_schema r = recipe_schema_v2 \<longleftrightarrow> fg_abi g = member_abi_v2)"
proof -
  obtain schema ms where l: "list_all2 (\<lambda>c m. recipe_member_of fc schema sources c = Inr m) (fg_members g) ms"
      and r: "re_members r = sort_key rm_name (map canonical_member ms)" "re_abi r = fg_abi g"
      and v: "validate_recipe fc r g = Inr ()"
    using new_recipe_Inr [OF assms(1)] by metis
  have "map_of (rev (map (\<lambda>c. (cs_name c, c)) (fg_members g))) [] = None"
    using assms(2) by (auto simp: map_of_eq_None_iff)
  note w = validate_recipe_Inr [OF v] validate_members_Inr [OF validate_recipe_Inr [OF v, THEN conjunct2] this]
  have "map rm_name (map canonical_member ms) = map cs_name (fg_members g)"
    using l by (induction rule: list_all2_induct) (auto simp: canonical_member_def dest: recipe_member_of_Inr)
  then have n: "map rm_name (re_members r) = sort (map cs_name (fg_members g))" unfolding r(1) sort_key_names by simp
  have members: "\<exists>m \<in> set (re_members r). rm_name m = cs_name c \<and> rm_version m = cs_version c \<and>
       canonical_set (rm_providers m) = canonical_set (cs_provides c) \<and>
       canonical_set (rm_capabilities m) = canonical_set (cs_capabilities c) \<and>
       (\<exists>src. sources (cs_name c) = Some src \<and> rm_source m = src\<lparr>fs_sha256 := to_lower (fs_sha256 src)\<rparr>)"
    if c: "c \<in> set (fg_members g)" for c
  proof -
    obtain m where m: "m \<in> set ms" "recipe_member_of fc schema sources c = Inr m"
      using list_all2_ex [OF l c] by blast
    have "canonical_member m \<in> set (re_members r)" using m(1) by (simp add: r(1))
    then show ?thesis
      using recipe_member_of_Inr [OF m(2)] by (intro bexI [of _ "canonical_member m"]) (auto simp: canonical_member_def)
  qed
  have d: "distinct (map rm_name (re_members r))" and pd: "\<forall>m \<in> set (re_members r). \<forall>n \<in> set (re_members r). m \<noteq> n \<longrightarrow>
       set (canonical_set (rm_providers m)) \<inter> set (canonical_set (rm_providers n)) = {}"
    using w(2) by argo+
  have vs: "\<forall>m \<in> set (re_members r). validate_source (rm_source m) = Inr () \<and> fs_entrypoint (rm_source m) = entrypoint_of r"
    using w(2) by blast
  show ?thesis using n d members vs pd w(1) r(2) by (intro conjI ballI) simp_all
qed

text \<open>C1: Fusion grants no authority that a member did not have. When the coordinator activates a fused cell for a
  group of the planner, the cell has exactly the capabilities that every single member of the group declares, and provides
  exactly the functions of the members together; its Wasm bytes are pinned by the registry lock that was verified, are
  the ones the attestation names, and the attestation names the recipe made from the group.\<close>

theorem fusion_authority:
  assumes "\<forall>c \<in> set cells. spec_wf c" and "pq_group q \<in> set (fp_groups (build_fusion cells))"
    and "prepare fuel co q = Some (Inr (Fused r sel spec))"
  shows "(\<forall>c \<in> set (fg_members (pq_group q)). canonical_set (cs_capabilities spec) = canonical_set (cs_capabilities c)) \<and>
    canonical_set (cs_provides spec) = canonical_set (concat (map cs_provides (fg_members (pq_group q)))) \<and>
    cs_wasm_sha256 spec = hex_encode (sha256 (co_formats co) (sel_wasm sel)) \<and>
    (\<exists>s l. attested (co_formats co) (co_codec co) s l (pq_module q) r sel) \<and>
    (\<exists>sources. new_recipe (co_codec co) (pq_group q) (pq_go_version q) sources = Inr r)"
proof -
  let ?fm = "co_formats co" let ?fc = "co_codec co" let ?g = "pq_group q"
  obtain r' v s l where rl: "recipe_from_lock ?fc ?g (pq_go_version q) (pq_lock q) (pq_bindings q) (co_catalog co) = Inr r'"
      and ac: "activate co q v r' s l = Inr (Fused r sel spec)"
    using prepare_fused_Inr [OF prepare_Fused [OF assms(3)]] by blast
  obtain sel' path where s': "select_from_registry ?fm ?fc s l (pq_module q) r' = Inr sel'"
      and f: "Fused r sel spec = Fused r' sel' (fused_spec q v path (hex_encode (sha256 ?fm (sel_wasm sel'))) (at_metadata (sel_attestation sel')))"
    using activate_Inr [OF ac] by blast
  have rr: "r' = r" and ss: "sel' = sel" using f by simp_all
  have spec: "spec = fused_spec q v path (hex_encode (sha256 ?fm (sel_wasm sel))) (at_metadata (sel_attestation sel))"
    and se: "select_from_registry ?fm ?fc s l (pq_module q) r = Inr sel" using f s' unfolding rr ss by simp_all
  obtain sources where nr: "new_recipe ?fc ?g (pq_go_version q) sources = Inr r" using recipe_from_lock_Inr [OF rl] unfolding rr by blast
  have att: "attested ?fm ?fc s l (pq_module q) r sel" using select_Inr [OF se] .
  then have "validate_artifact ?fm ?fc (at_metadata (sel_attestation sel)) r = Inr ()" by (simp add: attested_def)
  note va = validate_artifact_Inr [OF this] and ns = new_recipe_sets [OF nr]
  have caps: "canonical_set (cs_capabilities spec) = canonical_set (concat (map cs_capabilities (fg_members ?g)))"
    and prov: "canonical_set (cs_provides spec) = canonical_set (concat (map cs_provides (fg_members ?g)))"
    using va ns by (simp_all add: spec fused_spec_def)
  have eq: "set (cs_capabilities a) = set (cs_capabilities b)" if "a \<in> set (fg_members ?g)" "b \<in> set (fg_members ?g)" for a b
    using fusion_group_alike [OF assms(1,2) that] by (simp add: alike_def)
  have same: "canonical_set (cs_capabilities spec) = canonical_set (cs_capabilities c)" if c: "c \<in> set (fg_members ?g)" for c
  proof -
    have "\<Union> (set ` cs_capabilities ` set (fg_members ?g)) = set (cs_capabilities c)" using eq [OF _ c] c by blast
    then have "set (concat (map cs_capabilities (fg_members ?g))) = set (cs_capabilities c)" by simp
    then show ?thesis unfolding caps canonical_set_eq_iff by (simp only:)
  qed
  have sha: "cs_wasm_sha256 spec = hex_encode (sha256 ?fm (sel_wasm sel))" by (simp add: spec fused_spec_def)
  show ?thesis
    by (intro conjI ballI same prov sha exI [of _ s] exI [of _ l] exI [of _ sources] att nr)
qed

text \<open>What the builder records about an artifact is what the selection accepts: the metadata made from a recipe and
  an artifact digest validate against that recipe, and so does the metadata made from the digest in another case.\<close>

theorem metadata_validates:
  assumes "new_artifact_metadata fm fc r artifact = Inr m"
  shows "validate_artifact fm fc m r = Inr ()"
proof -
  have v: "validate_sha256 artifact" and a: "am_artifact_sha256 m = to_lower artifact"
    using assms by (auto simp: new_artifact_metadata_def Let_def split: if_splits)
  have l: "to_lower (to_lower s) = to_lower s" for s
  proof -
    have "lower_char (lower_char c) = lower_char c" for c
    proof (cases "65 \<le> (of_char c :: int) \<and> (of_char c :: int) \<le> 90")
      case True
      then have "(of_char (lower_char c) :: int) = of_char c + 32" by (simp add: lower_char_def Let_def)
      with True show ?thesis by (simp add: lower_char_def [of "lower_char c"] Let_def)
    qed (auto simp: lower_char_def Let_def)
    then show ?thesis by (simp add: to_lower_def comp_def)
  qed
  have "new_artifact_metadata fm fc r (am_artifact_sha256 m) = Inr m"
    using assms validate_sha256_lower [OF v] unfolding a by (auto simp: new_artifact_metadata_def l Let_def split: if_splits)
  then show ?thesis by (simp add: validate_artifact_def equal_canonical_set_def)
qed

subsection \<open>Concrete runs\<close>

definition fused_cells :: "unit cell_spec list" where
  "fused_cells = [demo_fused ''b'' [''net''], demo_fused ''a'' [''net'']]"

definition fused_group :: "unit fusion_group" where
  "fused_group = \<lparr>fg_name = ''g'', fg_abi = ''v1'', fg_members = [demo_fused ''a'' [''net''], demo_fused ''b'' [''net'']]\<rparr>"

definition sevens :: string where
  "sevens = hex_encode (replicate 32 7)"

definition demo_source :: fusion_source where
  "demo_source = \<lparr>fs_module_path = ''m'', fs_import_path = ''m/x'', fs_version = ''v1.0.0'', fs_sha256 = sevens, fs_entrypoint = ''Register''\<rparr>"

definition demo_attestation :: attestation where
  "demo_attestation = \<lparr>at_metadata = \<lparr>am_schema = recipe_schema_v1, am_group = ''g'', am_abi = ''v1'', am_members = [''a'', ''b''],
     am_providers = [''a'', ''b''], am_capabilities = [''net''], am_recipe_sha256 = sevens, am_artifact_sha256 = sevens\<rparr>,
     at_builder = ''builder''\<rparr>"

definition fused_manifest :: manifest where
  "fused_manifest = (demo_release ''fused'' [])\<lparr>m_provides := [''a'', ''b''], m_capabilities := [''net''], m_fusion_abi := ''v1'',
     m_artifacts := [\<lparr>a_target = ''wasm'', a_digest = replicate 32 7, a_digest_text = digest_string (replicate 32 7), a_size = 1,
         a_cell_manifest_digest = [], a_source = None\<rparr>,
       \<lparr>a_target = ''wasm.fusion-attestation'', a_digest = replicate 32 7, a_digest_text = digest_string (replicate 32 7),
         a_size = 1, a_cell_manifest_digest = [], a_source = None\<rparr>]\<rparr>"

definition fused_store :: store where
  "fused_store = \<lparr>st_versions = (\<lambda>i. if i = ''fused'' then Inr [plain_version 1 0 0] else Inl NotFound),
     st_manifest = (\<lambda>r. if rel_id r = ''fused'' then Inr fused_manifest else Inl NotFound), st_blob = (\<lambda>_. Inr ''x'')\<rparr>"

definition demo_fusion_codec :: "unit fusion_codec" where
  "demo_fusion_codec = \<lparr>fc_msgpack = (\<lambda>_. Some ''c''), fc_recipe_json = (\<lambda>_. Some ''r''),
     fc_attestation_json = (\<lambda>_. Some (demo_attestation, []))\<rparr>"

definition demo_coordinator :: "unit coordinator" where
  "demo_coordinator = \<lparr>co_store = fused_store, co_publish = None, co_catalog = (\<lambda>_. Inr demo_source),
     co_build = (\<lambda>_ _ _ _. Inl ''no toolchain''), co_materialize = (\<lambda>_ _. Inr ''/cache/fused.wasm''),
     co_formats = demo_formats, co_codec = demo_fusion_codec\<rparr>"

definition demo_prepare :: "unit prepare_request" where
  "demo_prepare = \<lparr>pq_group = fused_group, pq_lock = demo_lock_b, pq_bindings = (\<lambda>_. ''b''), pq_go_version = ''1.24'',
     pq_module = ''fused'', pq_version = ''1.0.0'', pq_target = ''wasm'', pq_name = ''fused-cell'', pq_allow_fallback = False\<rparr>"

definition fused_activation :: "unit activation" where
  "fused_activation = projr (the (prepare 3 demo_coordinator demo_prepare))"

definition demo_recipe_made :: recipe where
  "demo_recipe_made = projr (new_recipe demo_fusion_codec fused_group ''1.24'' (\<lambda>_. Some demo_source))"

lemma demo_recipe:
  "new_recipe demo_fusion_codec fused_group ''1.24'' (\<lambda>_. Some demo_source) = Inr demo_recipe_made"
  "map rm_name (re_members demo_recipe_made) = [''a'', ''b'']"
  "\<exists>m. new_artifact_metadata demo_formats demo_fusion_codec demo_recipe_made sevens = Inr m"
proof -
  have v: "map_sum (\<lambda>_. ()) (\<lambda>r. (map rm_name (re_members r), isl (new_artifact_metadata demo_formats demo_fusion_codec r sevens)))
      (new_recipe demo_fusion_codec fused_group ''1.24'' (\<lambda>_. Some demo_source)) = Inr ([''a'', ''b''], False)" by code_simp
  then show r: "new_recipe demo_fusion_codec fused_group ''1.24'' (\<lambda>_. Some demo_source) = Inr demo_recipe_made"
    by (cases "new_recipe demo_fusion_codec fused_group ''1.24'' (\<lambda>_. Some demo_source)"; simp add: demo_recipe_made_def)
  show "map rm_name (re_members demo_recipe_made) = [''a'', ''b'']" using v unfolding r by simp
  have "\<not> isl (new_artifact_metadata demo_formats demo_fusion_codec demo_recipe_made sevens)" using v unfolding r by simp
  from Inr_projr [OF this] show "\<exists>m. new_artifact_metadata demo_formats demo_fusion_codec demo_recipe_made sevens = Inr m" by blast
qed

theorem recipe_faithful_witness:
  "\<exists>r. new_recipe demo_fusion_codec fused_group ''1.24'' (\<lambda>_. Some demo_source) = Inr r \<and> distinct (map rm_name (re_members r)) \<and>
     map rm_name (re_members r) = [''a'', ''b'']"
proof -
  have n: "\<forall>c \<in> set (fg_members fused_group). cs_name c \<noteq> []" by (simp add: fused_group_def demo_fused_def demo_cell_def)
  have "map rm_name (re_members demo_recipe_made) = sort (map cs_name (fg_members fused_group))" using recipe_faithful [OF demo_recipe(1) n] by blast
  also have "\<dots> = [''a'', ''b'']" by code_simp
  finally have v: "map rm_name (re_members demo_recipe_made) = [''a'', ''b'']" .
  have "distinct (map rm_name (re_members demo_recipe_made))" by (simp add: v)
  then show ?thesis using demo_recipe(1) v by (intro exI [of _ demo_recipe_made] conjI)
qed

lemma fused_cells_wf: "\<forall>c \<in> set fused_cells. spec_wf c"
proof -
  have t: "trim_space ''a'' = ''a''" "trim_space ''b'' = ''b''" by (rule trim_space_plain; simp add: plain_char_def)+
  show ?thesis
    by (simp add: fused_cells_def spec_wf_def demo_fused_def demo_cell_def names_ok_def execution_ok_def has_blank_def is_abs_def t)
qed

theorem fusion_authority_witness:
  "\<exists>r sel spec. prepare 3 demo_coordinator demo_prepare = Some (Inr (Fused r sel spec)) \<and>
     fused_group \<in> set (fp_groups (build_fusion fused_cells)) \<and>
     canonical_set (cs_capabilities spec) = [''net''] \<and> canonical_set (cs_provides spec) = [''a'', ''b'']"
proof -
  have "case prepare 3 demo_coordinator demo_prepare of Some (Inr (Fused _ _ _)) \<Rightarrow> True | _ \<Rightarrow> False" by code_simp
  then obtain r sel spec where p: "prepare 3 demo_coordinator demo_prepare = Some (Inr (Fused r sel spec))"
    by (auto split: option.splits sum.splits activation.splits)
  have m: "pq_group demo_prepare = fused_group" by (simp add: demo_prepare_def)
  have g: "fused_group \<in> set (fp_groups (build_fusion fused_cells))" by code_simp
  have c: "demo_fused ''a'' [''net''] \<in> set (fg_members fused_group)" by (simp add: fused_group_def)
  note f = fusion_authority [OF fused_cells_wf, of demo_prepare, unfolded m, OF g p]
  have "canonical_set (cs_capabilities (demo_fused ''a'' [''net''])) = [''net'']"
    and "canonical_set (concat (map cs_provides (fg_members fused_group))) = [''a'', ''b'']" by code_simp+
  then have "canonical_set (cs_capabilities spec) = [''net'']" and "canonical_set (cs_provides spec) = [''a'', ''b'']"
    using f c by simp_all
  then show ?thesis using p g by (intro exI conjI)
qed

theorem metadata_validates_witness:
  "\<exists>m. new_artifact_metadata demo_formats demo_fusion_codec demo_recipe_made sevens = Inr m \<and>
     validate_artifact demo_formats demo_fusion_codec m demo_recipe_made = Inr ()"
proof -
  obtain m where m: "new_artifact_metadata demo_formats demo_fusion_codec demo_recipe_made sevens = Inr m" using demo_recipe(3) by blast
  from m metadata_validates [OF m] show ?thesis by blast
qed

end
