(* ===== verification/Spec2Isabelle.thy ===== *)
theory Spec2Isabelle
  imports Host_Gateway Live_Runtime Live_Snapshot Ai_Control Module_Cache Dependency_Plan Dependency_Exec Reconcile_Diff Reconcile Journal Registry_Version Registry_Resolve Registry_Store Registry_Hosted Registry_Cache Endpoint_Registry Capabilities Supervisor Host_Manifest Fusion_Artifact
begin

text \<open>
  Pulp is an application runtime in Go: a host process runs WebAssembly cells that are composed by manifests, takes
  modules from a content-addressed registry, fuses cells that may share an execution unit, and replaces a running
  deployment transactionally. This development models its decisions and proves what they promise. Sources are named
  by their path under \<^verbatim>\<open>src/\<close>.

  \<^bold>\<open>Conventions.\<close> A Go function that returns a value and an error is a function into
  \<open>('e, 'a) result\<close>, a sum whose left side is an error value of a datatype of its own; every early return is a
  branch. A struct is a record, a Go map a list of pairs or a function into \<open>option\<close> (its iteration order, where
  the code depends on it, is the order of a list and theorems hold for every order), \<^verbatim>\<open>uint64\<close> is
  \<^verbatim>\<open>64 word\<close>. Strings are lists of characters and stand for bytes; \<^verbatim>\<open>strings.ToLower\<close> is modelled on ASCII,
  \<^verbatim>\<open>strings.TrimSpace\<close> also removes the UTF-8 spaces. Goroutines are interleavings: each critical section of a mutex is one atomic step, and invariants
  are proved for every sequence of steps. What lies outside the repository is a field of a record that the
  definitions take: TOML, JSON and msgpack codecs, SHA-256, Ed25519, the file system, the environment, the clock and the
  Go tool chain; what a theorem needs of them is a named hypothesis, and its witness gives a concrete instance.

  \<^bold>\<open>The theories, from the bottom.\<close>
  \<^item> \<^theory_text>\<open>Pulp_Prelude\<close>: results and loops with errors, the parts of \<^verbatim>\<open>strings\<close>, \<^verbatim>\<open>strconv\<close> and \<^verbatim>\<open>encoding/hex\<close> that are used,
    and list lemmas. \<^theory_text>\<open>Go_Path\<close>: \<^verbatim>\<open>path.Clean\<close>, \<^verbatim>\<open>Join\<close>, \<^verbatim>\<open>Dir\<close> and \<^verbatim>\<open>Abs\<close>.
  \<^item> \<^theory_text>\<open>Dependency_Plan\<close> (\<^verbatim>\<open>internal/dependency/plan.go\<close>): validation, Kahn levels and the cycle report; a plan exists
    exactly for valid acyclic graphs and its order is topological. The locale \<open>planner\<close> is what the clients of a plan rely on.
    \<^theory_text>\<open>Dependency_Exec\<close> (\<^verbatim>\<open>scheduler.go\<close>, \<^verbatim>\<open>collapse.go\<close>): the bounded parallel execution as a step relation: safety, termination,
    result; the collapse of a plan onto physical targets.
  \<^item> \<^theory_text>\<open>Reconcile_Diff\<close>, \<^theory_text>\<open>Reconcile\<close> (\<^verbatim>\<open>internal/reconcile/reconciler.go\<close>, \<^verbatim>\<open>record.go\<close>): the change set and the staged replacement
    of a deployment with rollback. \<^theory_text>\<open>Journal\<close> (\<^verbatim>\<open>file_journal.go\<close>): the hash-chained journal under torn writes and failed syncs.
  \<^item> \<^theory_text>\<open>Registry_Version\<close>, \<^theory_text>\<open>Registry_Manifest\<close>, \<^theory_text>\<open>Registry_Resolve\<close>, \<^theory_text>\<open>Registry_Store\<close>, \<^theory_text>\<open>Registry_Hosted\<close>, \<^theory_text>\<open>Registry_Cache\<close>
    (\<^verbatim>\<open>registry/*.go\<close>): identifiers and versions, canonical manifests, the backtracking resolver and its lock, the
    content-addressed store, the hosted registry with release status and signatures, the caching client and the project lock.
    The locales \<open>total_compare\<close> and \<open>module_storage\<close> state what the resolver needs of versions and what a client may expect of a store.
  \<^item> \<^theory_text>\<open>Ext_Scope\<close> (\<^verbatim>\<open>ext/scope.go\<close>, \<^verbatim>\<open>placement_grant.go\<close>), \<^theory_text>\<open>Endpoint_Registry\<close> (\<^verbatim>\<open>run/endpoint_registry.go\<close>),
    \<^theory_text>\<open>Capabilities\<close> (\<^verbatim>\<open>ext/ext.go\<close>, \<^verbatim>\<open>run/capability_providers.go\<close>, \<^verbatim>\<open>internal/host/capability.go\<close>), \<^theory_text>\<open>Supervisor\<close> (\<^verbatim>\<open>internal/host/supervisor.go\<close>): ownership of
    host resources, discovery of live endpoints as a refinement of one map (locale \<open>endpoint_directory\<close>), the binding of
    capabilities, and the lifecycle of a supervised cell under all interleavings of the single atomic accesses of its calls.
  \<^item> \<^theory_text>\<open>Cell_Manifest\<close>, \<^theory_text>\<open>App_Manifest\<close>, \<^theory_text>\<open>Host_Manifest\<close> (\<^verbatim>\<open>internal/manifest/*.go\<close>): what loads is well formed and verified, boots in
    dependency order, and keeps applications apart.
  \<^item> \<^theory_text>\<open>Fusion_Plan\<close>, \<^theory_text>\<open>Fusion_Artifact\<close> (\<^verbatim>\<open>internal/fusion/*.go\<close>): which cells are fused, recipes, attestations, selection from
    the registry and the coordinator; fusion never adds authority.
  \<^item> \<^theory_text>\<open>Module_Cache\<close> (\<^verbatim>\<open>internal/host/modulecache.go\<close>): compiled modules, their leases and instances under every interleaving of the critical
    sections; nothing is closed twice, nor while it is leased. Closing a lease while it is being instantiated is a race the code has.
  \<^item> \<^theory_text>\<open>Ai_Control\<close> (\<^verbatim>\<open>aicontrol/model.go\<close>, \<^verbatim>\<open>controller.go\<close>): sealed proposals, evidence, policy decisions and approvals, and exactly when the
    controller deploys.
  \<^item> \<^theory_text>\<open>Admission\<close>, \<^theory_text>\<open>Live_Runtime\<close>, \<^theory_text>\<open>Live_Snapshot\<close> (\<^verbatim>\<open>run/live_application_runtime.go\<close>, \<^verbatim>\<open>live_reconciliation.go\<close>, \<^verbatim>\<open>deployment_history.go\<close>,
    \<^verbatim>\<open>application_snapshot.go\<close>): the router that admits requests (locale \<open>admission_gate\<close>: a gate that is shut admits nobody, so what is in
    flight only shrinks), a live replacement driven by the reconciler and interleaved with requests, and the transfer of state, cell by cell with the very bytes that were taken.
  \<^item> \<^theory_text>\<open>Multi_Host\<close> (\<^verbatim>\<open>run/multihost.go\<close>): the start order of a host against a reference, the start with its roll back, the shutdown; every
    runtime is accounted for. \<^theory_text>\<open>Host_Gateway\<close> (\<^verbatim>\<open>run/host_gateway.go\<close>): bindings, routing by the longest prefix of path segments, the rewritten path and
    the headers it asserts, and the leases of requests. The two compose with \<^theory_text>\<open>Host_Manifest\<close>: what loads starts, and what started is served.

  \<^bold>\<open>Fuel and bounds.\<close> The level loop of the planner takes the number of items plus one as fuel; every round removes a
  level, and the theorems show that the error for exhausted fuel is never returned. The resolver recurses once per chosen module: \<open>solve\<close>
  takes that depth as fuel and is \<open>None\<close> when it runs out; with more fuel than modules can be reached it returns, which is
  part of \<open>solver_exact\<close>. The executor is a relation whose steps decrease a measure. Other recursion is structural or
  has a termination proof.

  \<^bold>\<open>Not modelled.\<close> The WebAssembly runtime glue (\<^verbatim>\<open>internal/host/cell.go\<close>, \<^verbatim>\<open>snapshot.go\<close>, \<^verbatim>\<open>modulecache_loader.go\<close>): it moves bytes between
  wazero and guest memory, both outside the repository. Process wiring (\<^verbatim>\<open>run/run.go\<close>, \<^verbatim>\<open>application_runtime.go\<close>, \<^verbatim>\<open>multihost_runtime.go\<close>, \<^verbatim>\<open>cross_application.go\<close>, \<^verbatim>\<open>sibling.go\<close>, \<^verbatim>\<open>ops.go\<close>, \<^verbatim>\<open>control.go\<close>, \<^verbatim>\<open>cmd/*\<close>,
  \<^verbatim>\<open>internal/pulpcli\<close>, \<^verbatim>\<open>internal/productcli\<close>): flags, listeners, signals, queues and printing. The fusion tool chain (\<^verbatim>\<open>builder.go\<close>,
  \<^verbatim>\<open>generate.go\<close>, \<^verbatim>\<open>archive.go\<close>, \<^verbatim>\<open>fusion/*\<close>): generated Go text and the Go compiler. Interface declarations (\<^verbatim>\<open>abi/*\<close>, \<^verbatim>\<open>fusionabi/*\<close>,
  \<^verbatim>\<open>ext/demo\<close>). HTTP transport of registry operations that are modelled as functions (\<^verbatim>\<open>registry/http*.go\<close>, \<^verbatim>\<open>hosted_http.go\<close>), and the framing of the agent
  protocol (\<^verbatim>\<open>aicontrol/mcp\<close>). The command that rewrites pins in manifest files (\<^verbatim>\<open>internal/manifest/refresh.go\<close>, \<^verbatim>\<open>digest_gate.go\<close>), message types
  (\<^verbatim>\<open>composition/contracts.go\<close>), packaging (\<^verbatim>\<open>product/*\<close>) and the guard of outgoing requests (\<^verbatim>\<open>ssrfguard\<close>), which sits in the standard library's dialer.
\<close>

end
